(* ===== verification/Prelude.thy ===== *)
theory Prelude
  imports Complex_Main "HOL-Library.AList" "HOL-Library.Char_ord" "HOL-Library.List_Lexorder"
    "HOL-Library.Product_Lexorder"
begin

text \<open>
  Shared vocabulary of the development: the exceptions of the program as values, results that
  either raise or return, dynamically typed Python values where the source inspects the type of
  an argument, dictionaries with Python's insertion order, bounded deques and the selection
  functions of \<open>heapq\<close>.  A Python \<open>int\<close> is an \<^typ>\<open>int\<close>; a \<open>str\<close> is the list of its UTF-8
  bytes (\<^typ>\<open>string\<close>), whose lexicographic order is Python's code-point order; a \<open>dict\<close> is an
  association list in insertion order, updated and deleted with the operations of
  \<open>HOL-Library.AList\<close>, which keep the position of an existing key exactly as Python does.
\<close>

section \<open>Exceptions and results\<close>

text \<open>
  The exception classes raised by the modelled code: the hierarchy of \<open>errors.py\<close> (with the
  detail code of a fatal restore) and the built-in classes the source raises itself.
\<close>

datatype error =
    ConfigurationError
  | IdentityError
  | ManifestError
  | LayoutError
  | ObjectCorruptionError
  | StoreBusyError
  | UnsupportedRuntimeError
  | FatalRestoreError string
  | ValueError
  | TypeError
  | RuntimeError
  | IndexError
  | OverflowError
  | ZeroDivisionError
  | KeyError
  | AssertionError
  | AttributeError
  | OSError
  | FileNotFoundError
  | FileExistsError
  | RecursionError
  | QueueFull
  | StopIteration

type_synonym 'a result = "error + 'a"

definition and_then :: "'a result \<Rightarrow> ('a \<Rightarrow> 'b result) \<Rightarrow> 'b result" where
  "and_then r f = (case r of Inl e \<Rightarrow> Inl e | Inr x \<Rightarrow> f x)"

definition require :: "bool \<Rightarrow> error \<Rightarrow> unit result" where
  "require b e = (if b then Inr () else Inl e)"

text \<open>\<open>map_result\<close>: a tuple comprehension whose element expression may raise.\<close>

fun map_result :: "('a \<Rightarrow> 'b result) \<Rightarrow> 'a list \<Rightarrow> 'b list result" where
  "map_result f [] = Inr []"
| "map_result f (x # xs) =
     and_then (f x) (\<lambda>y. and_then (map_result f xs) (\<lambda>ys. Inr (y # ys)))"

text \<open>\<open>fold_result\<close>: a \<open>for\<close> loop over a local state whose body may raise.\<close>

fun fold_result :: "('s \<Rightarrow> 'a \<Rightarrow> 's result) \<Rightarrow> 's \<Rightarrow> 'a list \<Rightarrow> 's result" where
  "fold_result f s [] = Inr s"
| "fold_result f s (x # xs) = and_then (f s x) (\<lambda>s'. fold_result f s' xs)"

text \<open>
  A generator is what it yields, in order, and the exception it raises afterwards, if any: a
  consumer sees the elements before the exception.
\<close>

type_synonym 'a generator = "'a list \<times> error option"

fun gen_map :: "('a \<Rightarrow> 'b result) \<Rightarrow> 'a list \<Rightarrow> 'b generator" where
  "gen_map f [] = ([], None)"
| "gen_map f (x # xs) =
     (case f x of
        Inl e \<Rightarrow> ([], Some e)
      | Inr y \<Rightarrow> (case gen_map f xs of (ys, e) \<Rightarrow> (y # ys, e)))"

fun gen_concat :: "('a \<Rightarrow> 'b generator) \<Rightarrow> 'a list \<Rightarrow> 'b generator" where
  "gen_concat f [] = ([], None)"
| "gen_concat f (x # xs) =
     (case f x of
        (ys, Some e) \<Rightarrow> (ys, Some e)
      | (ys, None) \<Rightarrow> (case gen_concat f xs of (zs, e) \<Rightarrow> (ys @ zs, e)))"

definition gen_list :: "'a generator \<Rightarrow> 'a list result" where
  "gen_list g = (case snd g of None \<Rightarrow> Inr (fst g) | Some e \<Rightarrow> Inl e)"

text \<open>A \<open>for\<close> loop over a generator, and \<open>next(itertools.islice(g, n, None))\<close>.\<close>

definition gen_fold :: "('s \<Rightarrow> 'a \<Rightarrow> 's result) \<Rightarrow> 's \<Rightarrow> 'a generator \<Rightarrow> 's result" where
  "gen_fold f s g =
     and_then (fold_result f s (fst g)) (\<lambda>s'. case snd g of None \<Rightarrow> Inr s' | Some e \<Rightarrow> Inl e)"

definition gen_nth :: "'a generator \<Rightarrow> nat \<Rightarrow> 'a result" where
  "gen_nth g n =
     (if n < length (fst g) then Inr (fst g ! n)
      else case snd g of None \<Rightarrow> Inl StopIteration | Some e \<Rightarrow> Inl e)"

text \<open>\<open>xs[start:stop:step]\<close> of a sequence: bounds count from the end when negative and are clipped to the
  sequence; a zero step is a \<open>ValueError\<close>.\<close>

definition py_slice :: "int option \<Rightarrow> int option \<Rightarrow> int option \<Rightarrow> 'a list \<Rightarrow> 'a list result" where
  "py_slice start stop step xs =
     (let n = int (length xs); k = (case step of None \<Rightarrow> 1 | Some k \<Rightarrow> k);
          low = (if k < 0 then -1 else 0); high = (if k < 0 then n - 1 else n);
          clip = (\<lambda>i. let i = (if i < 0 then i + n else i) in if i < 0 then low else if n \<le> i then high else i);
          a = (case start of None \<Rightarrow> if k < 0 then high else low | Some i \<Rightarrow> clip i);
          b = (case stop of None \<Rightarrow> if k < 0 then low else high | Some i \<Rightarrow> clip i);
          count = (if k < 0 then if b < a then (a - b - 1) div (- k) + 1 else 0
                   else if a < b then (b - a - 1) div k + 1 else 0) in
      if k = 0 then Inl ValueError else Inr (map (\<lambda>j. xs ! nat (a + int j * k)) [0..<nat count]))"

lemma py_slice_range:
  assumes "0 \<le> a" "a \<le> b"
  shows "py_slice (Some a) (Some b) None xs = Inr (take (nat (b - a)) (drop (nat a) xs))"
proof (cases "a < int (length xs)")
  case True
  then have "nat (a + int j) = nat a + j" for j using assms(1) by simp
  then show ?thesis using True assms by (auto simp: py_slice_def Let_def intro!: nth_equalityI)
next
  case False
  then show ?thesis using assms by (auto simp: py_slice_def Let_def)
qed

lemma py_slice_reversed: "py_slice None None (Some (-1)) xs = Inr (rev xs)"
proof -
  have "nat (int (length xs) - 1 - int j) = length xs - Suc j" if "j < length xs" for j using that by simp
  then show ?thesis by (auto simp: py_slice_def Let_def rev_nth intro!: nth_equalityI)
qed


section \<open>Dynamically typed values\<close>

datatype pyfloat = Finite rat | Infinite | NotANumber

datatype pyval =
    PyNone
  | PyBool bool
  | PyInt int
  | PyFloat pyfloat
  | PyStr string
  | PyList "pyval list"
  | PyDict "(string \<times> pyval) list"

text \<open>\<open>isinstance(v, int) and not isinstance(v, bool)\<close>, which is also \<open>type(v) is int\<close>.\<close>

fun as_int :: "pyval \<Rightarrow> int option" where
  "as_int (PyInt n) = Some n"
| "as_int _ = None"

fun as_str :: "pyval \<Rightarrow> string option" where
  "as_str (PyStr s) = Some s"
| "as_str _ = None"

fun as_list :: "pyval \<Rightarrow> pyval list option" where
  "as_list (PyList xs) = Some xs"
| "as_list _ = None"

definition max_counter :: int where
  "max_counter = 2 ^ 63 - 1"

text \<open>\<open>len(s)\<close> counts code points: the bytes that are not UTF-8 continuation bytes.\<close>

definition code_points :: "string \<Rightarrow> int" where
  "code_points s = int (length (filter (\<lambda>c. (of_char c :: nat) div 64 \<noteq> 2) s))"

section \<open>Digest names\<close>

definition hex_digits :: string where
  "hex_digits = ''0123456789abcdef''"

definition is_hex :: "string \<Rightarrow> bool" where
  "is_hex s = list_all (\<lambda>c. c \<in> set hex_digits) s"

definition is_digest :: "string \<Rightarrow> bool" where
  "is_digest s = (length s = 64 \<and> is_hex s)"

section \<open>Containers\<close>

type_synonym ('k, 'v) dict = "('k \<times> 'v) list"

abbreviation dict_get :: "('k, 'v) dict \<Rightarrow> 'k \<Rightarrow> 'v option" where
  "dict_get \<equiv> map_of"

abbreviation dict_set :: "'k \<Rightarrow> 'v \<Rightarrow> ('k, 'v) dict \<Rightarrow> ('k, 'v) dict" where
  "dict_set \<equiv> AList.update"

abbreviation dict_pop :: "'k \<Rightarrow> ('k, 'v) dict \<Rightarrow> ('k, 'v) dict" where
  "dict_pop \<equiv> AList.delete"

abbreviation dict_keys :: "('k, 'v) dict \<Rightarrow> 'k list" where
  "dict_keys d \<equiv> map fst d"

text \<open>\<open>dict(items)\<close>: insert the pairs from left to right.\<close>

definition dict_of :: "('k \<times> 'v) list \<Rightarrow> ('k, 'v) dict" where
  "dict_of items = fold (\<lambda>(k, v) d. dict_set k v d) items []"

text \<open>\<open>deque(maxlen=n).append(x)\<close> drops from the left when the bound is exceeded.\<close>

definition deque_append :: "nat \<Rightarrow> 'a list \<Rightarrow> 'a \<Rightarrow> 'a list" where
  "deque_append n xs x = drop (length xs + 1 - n) (xs @ [x])"

text \<open>\<open>heapq.nsmallest(n, xs)\<close> is documented as \<open>sorted(xs)[:n]\<close>.\<close>

definition nsmallest :: "int \<Rightarrow> 'a::linorder list \<Rightarrow> 'a list" where
  "nsmallest n xs = take (nat n) (sort xs)"

section \<open>Lemmas\<close>

named_theorems result_simps \<open>unfolding and inverting results\<close>
named_theorems dict_simps \<open>lookup and key facts of dictionaries\<close>

lemma and_then_simps [simp, result_simps]:
  "and_then (Inl e) f = Inl e" "and_then (Inr x) f = f x"
  by (simp_all add: and_then_def)

lemma and_then_Inr_iff [result_simps]:
  "and_then r f = Inr y \<longleftrightarrow> (\<exists>x. r = Inr x \<and> f x = Inr y)"
  by (cases r) auto

lemma and_then_Inl_iff [result_simps]:
  "and_then r f = Inl e \<longleftrightarrow> r = Inl e \<or> (\<exists>x. r = Inr x \<and> f x = Inl e)"
  by (cases r) auto

lemma if_Inl_Inr_iff [result_simps]: "(if b then Inl e else r) = Inr x \<longleftrightarrow> \<not> b \<and> r = Inr x"
  by simp

lemma and_then_cong [fundef_cong]:
  "r = r' \<Longrightarrow> (\<And>x. r' = Inr x \<Longrightarrow> f x = g x) \<Longrightarrow> and_then r f = and_then r' g"
  by (cases r') auto

lemma require_Inr [simp, result_simps]: "require b e = Inr u \<longleftrightarrow> b"
  by (simp add: require_def)

lemma require_Inl [simp, result_simps]: "require b e = Inl e' \<longleftrightarrow> \<not> b \<and> e' = e"
  by (auto simp: require_def)

lemma map_result_cong [fundef_cong]:
  "xs = ys \<Longrightarrow> (\<And>x. x \<in> set ys \<Longrightarrow> f x = g x) \<Longrightarrow> map_result f xs = map_result g ys"
  by (induction ys arbitrary: xs) auto

lemma map_result_Inr_iff:
  "map_result f xs = Inr ys \<longleftrightarrow> list_all2 (\<lambda>x y. f x = Inr y) xs ys"
  by (induction xs arbitrary: ys) (auto simp: and_then_Inr_iff list_all2_Cons1)

lemma map_result_total: "(\<And>x. x \<in> set xs \<Longrightarrow> f x = Inr (g x)) \<Longrightarrow> map_result f xs = Inr (map g xs)"
  by (induction xs) auto

lemma gen_map_total: "(\<And>x. x \<in> set xs \<Longrightarrow> f x = Inr (g x)) \<Longrightarrow> gen_map f xs = (map g xs, None)"
  by (induction xs) auto

lemma gen_concat_total: "(\<And>x. x \<in> set xs \<Longrightarrow> f x = (g x, None)) \<Longrightarrow> gen_concat f xs = (concat (map g xs), None)"
  by (induction xs) auto

lemma gen_fold_simps [simp]:
  "gen_fold f s (xs, None) = fold_result f s xs"
  "gen_fold f s (xs, Some e) = and_then (fold_result f s xs) (\<lambda>_. Inl e)"
  by (simp_all add: gen_fold_def and_then_def split: sum.splits)

lemma gen_fold_Inr: "gen_fold f s g = Inr s' \<longleftrightarrow> snd g = None \<and> fold_result f s (fst g) = Inr s'"
  by (auto simp: gen_fold_def and_then_Inr_iff split: option.splits)

lemma fold_result_append:
  "fold_result f s (xs @ ys) = and_then (fold_result f s xs) (\<lambda>s'. fold_result f s' ys)"
proof (induction xs arbitrary: s)
  case (Cons x xs)
  then show ?case by (cases "f s x") auto
qed simp

lemma as_int_Some [simp]: "as_int v = Some n \<longleftrightarrow> v = PyInt n"
  by (cases v) auto

lemma as_str_Some [simp]: "as_str v = Some s \<longleftrightarrow> v = PyStr s"
  by (cases v) auto

lemma as_list_Some [simp]: "as_list v = Some xs \<longleftrightarrow> v = PyList xs"
  by (cases v) auto

lemma dict_get_set [simp, dict_simps]: "dict_get (dict_set k v d) = (dict_get d)(k \<mapsto> v)"
  by (rule update_conv')

lemma dict_get_pop [simp, dict_simps]: "dict_get (dict_pop k d) = (dict_get d)(k := None)"
  by (rule delete_conv')

lemma distinct_dict_set [simp, dict_simps]:
  "distinct (dict_keys d) \<Longrightarrow> distinct (dict_keys (dict_set k v d))"
  by (rule distinct_update)

lemma distinct_dict_pop [simp, dict_simps]:
  "distinct (dict_keys d) \<Longrightarrow> distinct (dict_keys (dict_pop k d))"
  by (rule distinct_delete)

lemma set_keys_eq_dom: "fst ` set d = dom (dict_get d)"
  by (simp add: dom_map_of_conv_image_fst)

lemma set_keys_dict_set [simp, dict_simps]:
  "fst ` set (dict_set k v d) = insert k (fst ` set d)"
  by (simp add: set_keys_eq_dom)

lemma set_keys_dict_pop [simp, dict_simps]:
  "fst ` set (dict_pop k d) = fst ` set d - {k}"
  by (simp add: set_keys_eq_dom)

lemma card_keys: "distinct (dict_keys d) \<Longrightarrow> card (fst ` set d) = length d"
  using distinct_card [of "dict_keys d"] by simp

lemma length_dict_pop [dict_simps]:
  assumes "distinct (dict_keys d)"
  shows "length (dict_pop k d) = length d - (if k \<in> dom (dict_get d) then 1 else 0)"
proof -
  have "length (dict_pop k d) = card (fst ` set (dict_pop k d))"
    using assms card_keys [of "dict_pop k d"] by simp
  also have "\<dots> = length d - (if k \<in> fst ` set d then 1 else 0)"
    using assms card_keys [of d] by (simp only: set_keys_dict_pop) (auto simp: card_Diff_singleton)
  finally show ?thesis by (simp add: set_keys_eq_dom)
qed

lemma dict_of_Nil [simp]: "dict_of [] = []"
  by (simp add: dict_of_def)

lemma dict_of_snoc [simp]: "dict_of (xs @ [(k, v)]) = dict_set k v (dict_of xs)"
  by (simp add: dict_of_def)

lemma dict_get_dict_of [dict_simps]: "dict_get (dict_of items) = dict_get (rev items)"
  by (induction items rule: rev_induct) (auto simp: fun_eq_iff)

lemma distinct_dict_of [simp, dict_simps]: "distinct (dict_keys (dict_of items))"
  by (induction items rule: rev_induct) (auto simp: distinct_update)

lemma set_keys_dict_of [simp, dict_simps]: "fst ` set (dict_of items) = fst ` set items"
  by (simp add: set_keys_eq_dom dict_get_dict_of) (simp flip: set_keys_eq_dom)

lemma update_absent: "k \<notin> set (dict_keys d) \<Longrightarrow> dict_set k v d = d @ [(k, v)]"
  by (induction d) auto

text \<open>A duplicate-free list of pairs is its own dictionary: the check
  \<open>len(dict(items)) != len(items)\<close> of the source detects duplicate keys exactly.\<close>

lemma dict_of_distinct: "distinct (dict_keys items) \<Longrightarrow> dict_of items = items"
  by (induction items rule: rev_induct) (auto simp: update_absent)

lemma length_dict_of_eq_iff:
  "length (dict_of items) = length items \<longleftrightarrow> distinct (dict_keys items)"
proof
  assume eq: "length (dict_of items) = length items"
  have "card (set (dict_keys items)) = length (dict_keys items)"
    using eq card_keys [OF distinct_dict_of, of items] by simp
  then show "distinct (dict_keys items)" by (rule card_distinct)
qed (simp add: dict_of_distinct)

lemma length_deque_append: "length (deque_append n xs x) = min n (length xs + 1)"
  by (auto simp: deque_append_def min_def)

lemma set_deque_append: "set (deque_append n xs x) \<subseteq> insert x (set xs)"
  using set_drop_subset [of "length xs + 1 - n" "xs @ [x]"] by (simp add: deque_append_def)

lemma deque_append_nonempty [simp]: "0 < n \<Longrightarrow> deque_append n xs x \<noteq> []"
  by (auto simp: deque_append_def)

lemma last_deque_append [simp]: "0 < n \<Longrightarrow> last (deque_append n xs x) = x"
  by (auto simp: deque_append_def)

lemma set_nsmallest: "set (nsmallest n xs) \<subseteq> set xs"
  using set_take_subset [of "nat n" "sort xs"] by (simp add: nsmallest_def)

lemma sorted_nsmallest: "sorted (nsmallest n xs)"
  by (simp add: nsmallest_def sorted_wrt_take)

lemma length_nsmallest: "length (nsmallest n xs) = min (nat n) (length xs)"
  by (simp add: nsmallest_def)

lemma sorted_take_le_drop:
  "sorted xs \<Longrightarrow> x \<in> set (take n xs) \<Longrightarrow> y \<in> set (drop n xs) \<Longrightarrow> x \<le> y"
  using sorted_append [of "take n xs" "drop n xs"] by simp

lemma nsmallest_least:
  assumes "x \<in> set (nsmallest n xs)" and "y \<in> set xs" and "y \<notin> set (nsmallest n xs)"
  shows "x \<le> y"
proof -
  have "y \<in> set (take (nat n) (sort xs)) \<union> set (drop (nat n) (sort xs))"
    using assms(2) by (simp flip: set_append)
  then show ?thesis
    using assms sorted_take_le_drop [OF sorted_sort, of x "nat n" xs y] by (auto simp: nsmallest_def)
qed

lemma distinct_nsmallest: "distinct xs \<Longrightarrow> distinct (nsmallest n xs)"
  by (simp add: nsmallest_def)

lemma sum_list_nonneg_int: "(\<And>x. x \<in> set xs \<Longrightarrow> 0 \<le> f x) \<Longrightarrow> 0 \<le> sum_list (map f xs :: int list)"
  by (induction xs) auto

end
