(* ===== verification/Config.thy ===== *)
theory Config
  imports Prelude
begin

text \<open>
  \<open>config.py\<close> and \<open>paths.py\<close>: the fixed resource bounds, the derived inventory capacity, the
  token interval of one file, and the validated public configuration (an absolute cache path and
  a capacity in GB).  \<open>sys.getsizeof\<close> measures the running interpreter, so the object sizes that
  make up \<open>INVENTORY_ENTRY_BYTES\<close> are a record of parameters, and the operations that use the
  constant take it as the argument \<open>eb\<close>.  \<open>Path.expanduser\<close> consults the process environment
  and is a parameter too.
\<close>

section \<open>Bounds\<close>

definition MIB :: int where "MIB = 1024 * 1024"
definition GIB :: int where "GIB = 1024 * MIB"
definition STAGING_SLOT_BYTES :: int where "STAGING_SLOT_BYTES = 64 * MIB"
definition STAGING_SLOT_COUNT :: int where "STAGING_SLOT_COUNT = 2"
definition MAX_PENDING_RESTORES :: int where "MAX_PENDING_RESTORES = 2"
definition MAX_PENDING_STORES :: int where "MAX_PENDING_STORES = 1"
definition REPORT_BATCH_SIZE :: int where "REPORT_BATCH_SIZE = 64"
definition INVENTORY_MEMORY_BYTES :: int where "INVENTORY_MEMORY_BYTES = 512 * MIB"

text \<open>What \<open>sys.getsizeof\<close> answers for the eight sample objects of the module.\<close>

record object_sizes =
  size_key :: int
  size_int :: int
  size_pair :: int
  size_dict_one :: int
  size_dict_empty :: int
  size_set_one :: int
  size_tuple_one :: int
  size_tuple_empty :: int

definition INVENTORY_ENTRY_BYTES :: "object_sizes \<Rightarrow> int" where
  "INVENTORY_ENTRY_BYTES z =
     4 * (size_key z + size_int z)
     + 6 * size_pair z
     + 4 * (size_dict_one z - size_dict_empty z)
     + 2 * size_set_one z
     + 16 * (size_tuple_one z - size_tuple_empty z)"

definition inventory_capacity :: "int \<Rightarrow> int \<Rightarrow> int result" where
  "inventory_capacity eb memory_bytes =
     (if memory_bytes < eb then Inl ConfigurationError else Inr (memory_bytes div eb))"

definition aligned_chunk_tokens :: "int \<Rightarrow> int result" where
  "aligned_chunk_tokens alignment =
     (if alignment \<le> 0 then Inl ConfigurationError
      else Inr (((256 + alignment - 1) div alignment) * alignment))"

section \<open>POSIX path parsing\<close>

text \<open>\<open>str.split("/")\<close>: the pieces between separators, empty pieces included.\<close>

fun split_slash :: "string \<Rightarrow> string list" where
  "split_slash [] = [[]]"
| "split_slash (c # cs) =
     (case split_slash cs of
        [] \<Rightarrow> [[c]]
      | p # ps \<Rightarrow> if c = CHR ''/'' then [] # p # ps else (c # p) # ps)"

record posix_path =
  path_root :: string
  path_parts :: "string list"

definition starts_with :: "string \<Rightarrow> string \<Rightarrow> bool" where
  "starts_with p s = (take (length p) s = p)"

definition parse_path :: "string \<Rightarrow> posix_path" where
  "parse_path path =
     \<lparr>path_root = (if starts_with ''/'' path
         then (if starts_with ''//'' path \<and> \<not> starts_with ''///'' path then ''//'' else ''/'')
         else ''''),
      path_parts = filter (\<lambda>part. part \<noteq> [] \<and> part \<noteq> ''.'') (split_slash path)\<rparr>"

fun join_slash :: "string list \<Rightarrow> string" where
  "join_slash [] = []"
| "join_slash [p] = p"
| "join_slash (p # ps) = p @ ''/'' @ join_slash ps"

text \<open>\<open>str(path)\<close> for a parsed path; the empty relative path prints as a dot.\<close>

definition path_str :: "posix_path \<Rightarrow> string" where
  "path_str p = (if path_root p = [] \<and> path_parts p = [] then ''.''
                 else path_root p @ join_slash (path_parts p))"

section \<open>Validated configuration\<close>










section \<open>Theorems\<close>

lemmas bound_defs = MIB_def GIB_def STAGING_SLOT_BYTES_def STAGING_SLOT_COUNT_def
  MAX_PENDING_RESTORES_def MAX_PENDING_STORES_def REPORT_BATCH_SIZE_def INVENTORY_MEMORY_BYTES_def

lemma inventory_capacity_Inr:
  assumes "0 < eb" and "inventory_capacity eb m = Inr n"
  shows "0 < n" and "n * eb \<le> m" and "m < (n + 1) * eb"
proof -
  from assms have le: "eb \<le> m" and n: "n = m div eb"
    by (auto simp: inventory_capacity_def split: if_splits)
  show "0 < n" using assms(1) le by (simp add: n pos_imp_zdiv_pos_iff)
  have "m = n * eb + m mod eb" by (simp add: n)
  moreover have "0 \<le> m mod eb" "m mod eb < eb" using assms(1) by simp_all
  ultimately show "n * eb \<le> m" "m < (n + 1) * eb" by (simp_all add: algebra_simps)
qed

lemma capacity_iff_bytes:
  assumes "0 < eb" and "inventory_capacity eb m = Inr n"
  shows "k * eb \<le> m \<longleftrightarrow> k \<le> n"
proof
  assume "k * eb \<le> m"
  then have "k * eb < (n + 1) * eb" using inventory_capacity_Inr(3) [OF assms] by linarith
  then show "k \<le> n" using assms(1) by simp
next
  assume "k \<le> n"
  then have "k * eb \<le> n * eb" using assms(1) by simp
  then show "k * eb \<le> m" using inventory_capacity_Inr(2) [OF assms] by linarith
qed

lemma aligned_chunk_tokens_Inr:
  assumes "aligned_chunk_tokens a = Inr c"
  shows "0 < a" and "a dvd c" and "256 \<le> c" and "c < 256 + a"
proof -
  from assms show pos: "0 < a" by (simp add: aligned_chunk_tokens_def split: if_splits)
  from assms have c: "c = ((256 + a - 1) div a) * a"
    by (simp add: aligned_chunk_tokens_def split: if_splits)
  then show "a dvd c" by simp
  have "c = 256 + a - 1 - (256 + a - 1) mod a"
    unfolding c by (rule minus_mod_eq_div_mult [symmetric])
  moreover have "0 \<le> (256 + a - 1) mod a" "(256 + a - 1) mod a < a" using pos by simp_all
  ultimately show "256 \<le> c" "c < 256 + a" by linarith+
qed

lemma aligned_chunk_tokens_pos: "aligned_chunk_tokens a = Inr c \<Longrightarrow> 0 < c"
  using aligned_chunk_tokens_Inr(3) [of a c] by simp



lemma split_slash_nonempty [simp]: "split_slash s \<noteq> []"
  by (cases s) (auto split: list.splits)

lemma split_slash_parts: "x \<in> set (split_slash s) \<Longrightarrow> CHR ''/'' \<notin> set x"
  by (induction s arbitrary: x) (auto split: list.splits if_splits)

lemma split_slash_no_slash: "CHR ''/'' \<notin> set p \<Longrightarrow> split_slash p = [p]"
  by (induction p) auto

lemma split_slash_cons: "CHR ''/'' \<notin> set p \<Longrightarrow> split_slash (p @ CHR ''/'' # s) = p # split_slash s"
  by (induction p) (use split_slash_nonempty [of s] in \<open>auto split: list.splits\<close>)

lemma split_join:
  "ps \<noteq> [] \<Longrightarrow> (\<forall>p \<in> set ps. CHR ''/'' \<notin> set p) \<Longrightarrow> split_slash (join_slash ps) = ps"
  by (induction ps rule: join_slash.induct) (auto simp: split_slash_no_slash split_slash_cons)

lemma join_slash_eq_Nil: "(\<forall>p \<in> set ps. p \<noteq> []) \<Longrightarrow> join_slash ps = [] \<longleftrightarrow> ps = []"
  by (induction ps rule: join_slash.induct) auto

lemma join_slash_first:
  "ps \<noteq> [] \<Longrightarrow> \<forall>p \<in> set ps. p \<noteq> [] \<and> CHR ''/'' \<notin> set p \<Longrightarrow> \<exists>c cs. join_slash ps = c # cs \<and> c \<noteq> CHR ''/''"
  by (induction ps rule: join_slash.induct) (auto simp: neq_Nil_conv)

lemma parse_path_parts:
  "p \<in> set (path_parts (parse_path s)) \<Longrightarrow> p \<noteq> [] \<and> p \<noteq> ''.'' \<and> CHR ''/'' \<notin> set p"
  by (auto simp: parse_path_def dest: split_slash_parts)

lemma parse_path_root: "path_root (parse_path s) \<in> {'''', ''/'', ''//''}"
  by (auto simp: parse_path_def)

lemma keep_proper_parts:
  "\<forall>p \<in> set ps. p \<noteq> [] \<and> p \<noteq> ''.'' \<and> CHR ''/'' \<notin> set p \<Longrightarrow>
   filter (\<lambda>part. part \<noteq> [] \<and> part \<noteq> ''.'') ps = ps"
  by (intro filter_True) auto

lemma parse_path_absolute:
  assumes "\<forall>p \<in> set ps. p \<noteq> [] \<and> p \<noteq> ''.'' \<and> CHR ''/'' \<notin> set p"
  shows "parse_path (''/'' @ join_slash ps) = \<lparr>path_root = ''/'', path_parts = ps\<rparr>"
    and "parse_path (''//'' @ join_slash ps) = \<lparr>path_root = ''//'', path_parts = ps\<rparr>"
proof -
  have parts: "filter (\<lambda>part. part \<noteq> [] \<and> part \<noteq> ''.'') (split_slash (join_slash ps)) = ps"
    using assms keep_proper_parts [OF assms] split_join [of ps] by (cases "ps = []") auto
  have "join_slash ps = [] \<or> (\<exists>c cs. join_slash ps = c # cs \<and> c \<noteq> CHR ''/'')"
    using assms join_slash_first [of ps] by (cases "ps = []") auto
  then show "parse_path (''/'' @ join_slash ps) = \<lparr>path_root = ''/'', path_parts = ps\<rparr>"
    and "parse_path (''//'' @ join_slash ps) = \<lparr>path_root = ''//'', path_parts = ps\<rparr>"
    using parts split_slash_cons [of "[]" "join_slash ps"]
      split_slash_cons [of "[]" "CHR ''/'' # join_slash ps"]
    by (auto simp: parse_path_def starts_with_def)
qed

lemma parse_path_relative:
  assumes "\<forall>p \<in> set ps. p \<noteq> [] \<and> p \<noteq> ''.'' \<and> CHR ''/'' \<notin> set p" and "ps \<noteq> []"
  shows "parse_path (join_slash ps) = \<lparr>path_root = '''', path_parts = ps\<rparr>"
proof -
  have "split_slash (join_slash ps) = ps" using assms by (intro split_join) auto
  moreover obtain c cs where "join_slash ps = c # cs" "c \<noteq> CHR ''/''"
    using assms join_slash_first [of ps] by auto
  ultimately show ?thesis
    using keep_proper_parts [OF assms(1)] by (simp add: parse_path_def starts_with_def)
qed

lemma parse_path_dot: "parse_path ''.'' = \<lparr>path_root = '''', path_parts = []\<rparr>"
  by (simp add: parse_path_def starts_with_def)

text \<open>Printing a parsed path and parsing it again gives the same path.\<close>

lemma parse_path_str: "parse_path (path_str (parse_path s)) = parse_path s"
proof -
  let ?p = "parse_path s"
  have good: "\<forall>p \<in> set (path_parts ?p). p \<noteq> [] \<and> p \<noteq> ''.'' \<and> CHR ''/'' \<notin> set p"
    by (auto dest: parse_path_parts)
  consider "path_root ?p = ''''" | "path_root ?p = ''/''" | "path_root ?p = ''//''"
    using parse_path_root [of s] by blast
  then show ?thesis
  proof cases
    case 1
    then show ?thesis
      using parse_path_relative [OF good] parse_path_dot
      by (cases "path_parts ?p = []") (simp_all add: path_str_def)
  next
    case 2
    then show ?thesis using parse_path_absolute(1) [OF good] by (simp add: path_str_def)
  next
    case 3
    then show ?thesis using parse_path_absolute(2) [OF good] by (simp add: path_str_def)
  qed
qed

section \<open>Properties\<close>

text \<open>
  C21: \<open>aligned_chunk_tokens\<close> returns the least multiple of the alignment that covers 256 tokens,
  and rejects exactly the non-positive alignments.
\<close>

theorem aligned_chunk_tokens_least:
  "case aligned_chunk_tokens a of
     Inl e \<Rightarrow> a \<le> 0 \<and> e = ConfigurationError
   | Inr c \<Rightarrow> 0 < a \<and> a dvd c \<and> 256 \<le> c \<and> (\<forall>m. \<not> (a dvd m \<and> 256 \<le> m \<and> m < c))"
proof (cases "aligned_chunk_tokens a")
  case (Inl e)
  then show ?thesis by (auto simp: aligned_chunk_tokens_def split: if_splits)
next
  case (Inr c)
  note A = aligned_chunk_tokens_Inr [OF Inr]
  have False if m: "a dvd m" "256 \<le> m" "m < c" for m
  proof -
    obtain j k where jk: "m = a * j" "c = a * k" using m(1) A(2) by (auto elim!: dvdE)
    then have "j < k" using m(3) A(1) by simp
    then have "a * (j + 1) \<le> a * k" using A(1) by (intro mult_left_mono) auto
    then have "m + a \<le> c" by (simp add: jk algebra_simps)
    then show False using m(2) A(4) by simp
  qed
  then show ?thesis using Inr A by auto
qed





end
