(* ===== verification/Admission.thy ===== *)
theory Admission
  imports Prelude "HOL-Library.Multiset"
begin

text \<open>
  \<open>admission.py\<close>: the deterministic policy that deduplicates and bounds the optional store work
  of one scheduler step.  The lemmas show that the admitted plans are the longest unique prefixes
  in a stable order, that the three counters account for every plan, and when it raises.
\<close>

record store_plan =
  plan_request_id :: string
  plan_entry_id :: string
  plan_span_tokens :: int

record 'p store_admission_result =
  admitted :: "'p list"
  skipped_duplicate :: int
  skipped_budget :: int

definition skipped :: "'p store_admission_result \<Rightarrow> int" where
  "skipped r = skipped_duplicate r + skipped_budget r"

text \<open>The deduplication loop: the unique plans with their positions, the span of each entry ID
  seen so far and the number of duplicates.\<close>

fun collect_unique ::
  "int \<Rightarrow> (int \<times> 'a store_plan_scheme) list \<Rightarrow> (string, int) dict \<Rightarrow> int \<Rightarrow>
   'a store_plan_scheme list \<Rightarrow> ((int \<times> 'a store_plan_scheme) list \<times> int) result" where
  "collect_unique position unique spans dups [] = Inr (unique, dups)"
| "collect_unique position unique spans dups (plan # plans) =
     (if plan_request_id plan = [] \<or> plan_entry_id plan = [] \<or> plan_span_tokens plan \<le> 0
      then Inl ValueError
      else case dict_get spans (plan_entry_id plan) of
          Some previous_span \<Rightarrow>
            if previous_span \<noteq> plan_span_tokens plan then Inl ValueError
            else collect_unique (position + 1) unique spans (dups + 1) plans
        | None \<Rightarrow>
            collect_unique (position + 1) (unique @ [(position, plan)])
              (dict_set (plan_entry_id plan) (plan_span_tokens plan) spans) dups plans)"

definition prioritize ::
  "(int \<times> 'a store_plan_scheme) list \<Rightarrow> (int \<times> 'a store_plan_scheme) list" where
  "prioritize unique = sort_key (\<lambda>(position, plan). (- plan_span_tokens plan, position)) unique"

definition admit_store_plans ::
  "'a store_plan_scheme list \<Rightarrow> int \<Rightarrow> 'a store_plan_scheme store_admission_result result" where
  "admit_store_plans plans max_plans =
     (if max_plans < 0 then Inl ValueError
      else and_then (collect_unique 0 [] [] 0 plans) (\<lambda>(unique, dups).
        (let prioritized = prioritize unique;
             chosen = map snd (take (nat max_plans) prioritized)
         in Inr \<lparr>admitted = chosen,
                 skipped_duplicate = dups,
                 skipped_budget = max 0 (int (length prioritized) - int (length chosen))\<rparr>)))"

section \<open>The deduplication loop\<close>

definition plan_ok :: "'a store_plan_scheme \<Rightarrow> bool" where
  "plan_ok p \<longleftrightarrow> plan_request_id p \<noteq> [] \<and> plan_entry_id p \<noteq> [] \<and> 0 < plan_span_tokens p"

text \<open>The state of the loop after a prefix \<open>done\<close> of the plans.\<close>

definition unique_inv ::
  "'a store_plan_scheme list \<Rightarrow> int \<Rightarrow> (int \<times> 'a store_plan_scheme) list \<Rightarrow>
   (string, int) dict \<Rightarrow> int \<Rightarrow> bool" where
  "unique_inv prev position unique spans dups \<longleftrightarrow>
     position = int (length prev)
     \<and> (\<forall>p \<in> set prev. plan_ok p)
     \<and> set (map snd unique) \<subseteq> set prev
     \<and> distinct (map (plan_entry_id \<circ> snd) unique)
     \<and> dom (dict_get spans) = plan_entry_id ` set prev
     \<and> plan_entry_id ` snd ` set unique = plan_entry_id ` set prev
     \<and> (\<forall>p \<in> set prev. dict_get spans (plan_entry_id p) = Some (plan_span_tokens p))
     \<and> int (length unique) + dups = int (length prev)
     \<and> sorted_wrt (<) (map fst unique) \<and> (\<forall>q \<in> set unique. fst q < position)
     \<and> 0 \<le> dups"

lemma unique_inv_init: "unique_inv [] 0 [] [] 0"
  by (simp add: unique_inv_def)

lemma unique_inv_dup:
  assumes "unique_inv prev pos unique spans dups" and "plan_ok p"
    and "dict_get spans (plan_entry_id p) = Some (plan_span_tokens p)"
  shows "unique_inv (prev @ [p]) (pos + 1) unique spans (dups + 1)"
proof -
  have "plan_entry_id p \<in> plan_entry_id ` set prev"
    using assms(1,3) by (auto simp: unique_inv_def dom_def)
  then show ?thesis using assms by (auto simp: unique_inv_def)
qed

lemma unique_inv_new:
  assumes "unique_inv prev pos unique spans dups" and "plan_ok p"
    and "dict_get spans (plan_entry_id p) = None"
  shows "unique_inv (prev @ [p]) (pos + 1) (unique @ [(pos, p)])
           (dict_set (plan_entry_id p) (plan_span_tokens p) spans) dups"
proof -
  have fresh: "plan_entry_id p \<notin> plan_entry_id ` set prev"
    using assms(1,3) by (auto simp: unique_inv_def)
  then have fresh': "plan_entry_id p \<notin> (plan_entry_id \<circ> snd) ` set unique"
    using assms(1) by (auto simp: unique_inv_def image_comp)
  have keep: "\<And>q. q \<in> set prev \<Longrightarrow> plan_entry_id q \<noteq> plan_entry_id p"
    using fresh by (metis imageI)
  show ?thesis
    using assms fresh' keep by (auto simp: unique_inv_def sorted_wrt_append)
qed

lemma collect_unique_inv:
  assumes "unique_inv prev pos unique spans dups"
    and "collect_unique pos unique spans dups plans = Inr (u, n)"
  shows "\<exists>spans'. unique_inv (prev @ plans) (pos + int (length plans)) u spans' n"
  using assms
proof (induction pos unique spans dups plans arbitrary: prev rule: collect_unique.induct)
  case (1 pos unique spans dups)
  then show ?case by auto
next
  case (2 pos unique spans dups p plans)
  from "2.prems"(2) have ok: "plan_ok p" by (auto simp: plan_ok_def split: if_splits)
  then have raised: "\<not> (plan_request_id p = [] \<or> plan_entry_id p = [] \<or> plan_span_tokens p \<le> 0)"
    by (auto simp: plan_ok_def)
  show ?case
  proof (cases "dict_get spans (plan_entry_id p)")
    case None
    from None "2.prems"(2) raised have run: "collect_unique (pos + 1) (unique @ [(pos, p)])
        (dict_set (plan_entry_id p) (plan_span_tokens p) spans) dups plans = Inr (u, n)" by simp
    show ?thesis
      using "2.IH"(1) [OF raised None unique_inv_new [OF "2.prems"(1) ok None] run]
      by (simp add: algebra_simps)
  next
    case (Some s)
    with "2.prems"(2) raised have s: "s = plan_span_tokens p"
      and run: "collect_unique (pos + 1) unique spans (dups + 1) plans = Inr (u, n)"
      by (auto split: if_splits)
    have "\<not> s \<noteq> plan_span_tokens p" by (simp add: s)
    then show ?thesis
      using "2.IH"(2) [OF raised Some _ unique_inv_dup [OF "2.prems"(1) ok Some [unfolded s]] run]
      by (simp add: algebra_simps)
  qed
qed

lemma collect_unique_result:
  assumes "collect_unique 0 [] [] 0 plans = Inr (u, n)"
  shows "\<exists>spans. unique_inv plans (int (length plans)) u spans n"
  using collect_unique_inv [OF unique_inv_init assms] by simp

lemma collect_unique_total:
  assumes "\<forall>p \<in> set plans. plan_ok p"
    and "\<forall>p \<in> set plans. \<forall>q \<in> set plans.
           plan_entry_id p = plan_entry_id q \<longrightarrow> plan_span_tokens p = plan_span_tokens q"
    and "\<forall>p \<in> set plans. \<forall>s. dict_get spans (plan_entry_id p) = Some s \<longrightarrow> s = plan_span_tokens p"
  shows "\<exists>r. collect_unique pos unique spans dups plans = Inr r"
  using assms
proof (induction plans arbitrary: pos unique spans dups)
  case Nil
  then show ?case by simp
next
  case (Cons p plans)
  from Cons.prems(1) have ok: "plan_ok p" by simp
  show ?case
  proof (cases "dict_get spans (plan_entry_id p)")
    case None
    have "\<forall>q \<in> set plans. \<forall>s. dict_get (dict_set (plan_entry_id p) (plan_span_tokens p) spans)
        (plan_entry_id q) = Some s \<longrightarrow> s = plan_span_tokens q"
    proof (intro ballI allI impI)
      fix q s
      assume q: "q \<in> set plans" and get: "dict_get (dict_set (plan_entry_id p) (plan_span_tokens p) spans)
        (plan_entry_id q) = Some s"
      show "s = plan_span_tokens q"
      proof (cases "plan_entry_id q = plan_entry_id p")
        case True
        then have "plan_span_tokens p = plan_span_tokens q" using Cons.prems(2) q by (metis list.set_intros)
        then show ?thesis using get True by simp
      next
        case False
        then show ?thesis using get Cons.prems(3) q by simp
      qed
    qed
    then have "\<exists>r. collect_unique (pos + 1) (unique @ [(pos, p)])
        (dict_set (plan_entry_id p) (plan_span_tokens p) spans) dups plans = Inr r"
      using Cons.prems(1,2) by (intro Cons.IH) (meson list.set_intros)+
    with None ok show ?thesis by (auto simp: plan_ok_def)
  next
    case (Some s)
    have "\<exists>r. collect_unique (pos + 1) unique spans (dups + 1) plans = Inr r"
      using Cons.prems by (intro Cons.IH) (meson list.set_intros)+
    moreover have "s = plan_span_tokens p" using Cons.prems(3) Some by (meson list.set_intros)
    ultimately show ?thesis using Some ok by (auto simp: plan_ok_def)
  qed
qed

lemma mset_prioritize: "mset (prioritize u) = mset u"
  by (simp add: prioritize_def)

lemma length_prioritize [simp]: "length (prioritize u) = length u"
  by (metis mset_prioritize size_mset)

lemma set_prioritize [simp]: "set (prioritize u) = set u"
  by (metis mset_prioritize set_mset_mset)

lemma prioritize_sorted:
  "sorted_wrt (\<lambda>a b. plan_span_tokens (snd b) \<le> plan_span_tokens (snd a)) (prioritize u)"
proof -
  have "sorted (map (\<lambda>(position, plan). (- plan_span_tokens plan, position)) (prioritize u))"
    by (simp add: prioritize_def)
  then show ?thesis
    by (auto simp: sorted_map less_eq_prod_def elim!: sorted_wrt_mono_rel [rotated])
qed

section \<open>Properties\<close>

text \<open>
  C19: Store admission.  The admitted plans come from the input, have pairwise distinct entry IDs,
  are ordered by decreasing span and no rejected entry is longer than an admitted one; they are as
  many as the budget allows, and admitted, duplicate and over-budget plans add up to the input.
\<close>

theorem admit_store_plans_correct:
  assumes "admit_store_plans plans budget = Inr r"
  shows "set (admitted r) \<subseteq> set plans \<and> distinct (map plan_entry_id (admitted r))
    \<and> sorted_wrt (\<lambda>p q. plan_span_tokens q \<le> plan_span_tokens p) (admitted r)
    \<and> (\<forall>p \<in> set (admitted r). \<forall>q \<in> set plans. plan_entry_id q \<notin> plan_entry_id ` set (admitted r) \<longrightarrow>
         plan_span_tokens q \<le> plan_span_tokens p)
    \<and> int (length (admitted r)) = min budget (int (card (plan_entry_id ` set plans)))
    \<and> int (length (admitted r)) + skipped r = int (length plans)"
proof -
  obtain u n where u: "collect_unique 0 [] [] 0 plans = Inr (u, n)" and budget: "0 \<le> budget"
    and r: "admitted r = map snd (take (nat budget) (prioritize u))" "skipped_duplicate r = n"
      "skipped_budget r = max 0 (int (length u) - int (length (admitted r)))"
    using assms by (auto simp: admit_store_plans_def Let_def and_then_Inr_iff split: if_splits)
  obtain spans where "unique_inv plans (int (length plans)) u spans n"
    using collect_unique_result [OF u] by blast
  note U = this [unfolded unique_inv_def]
  let ?p = "prioritize u"
  have dist: "distinct (map (plan_entry_id \<circ> snd) ?p)"
    using U mset_eq_imp_distinct_iff [of "map (plan_entry_id \<circ> snd) ?p" "map (plan_entry_id \<circ> snd) u"]
    by (simp add: mset_prioritize)
  have sub: "set (admitted r) \<subseteq> set plans"
    using U set_take_subset [of "nat budget" ?p] unfolding r by auto
  have "distinct (map plan_entry_id (admitted r))"
    using dist by (simp add: r take_map [symmetric] distinct_take)
  moreover have sorted: "sorted_wrt (\<lambda>p q. plan_span_tokens q \<le> plan_span_tokens p) (map snd ?p)"
    using prioritize_sorted [of u] by (simp add: sorted_wrt_map)
  moreover have "plan_span_tokens q \<le> plan_span_tokens p"
    if asm: "p \<in> set (admitted r)" "q \<in> set plans" "plan_entry_id q \<notin> plan_entry_id ` set (admitted r)" for p q
  proof -
    obtain x where x: "x \<in> set u" "plan_entry_id (snd x) = plan_entry_id q"
      using U asm(2) by (metis (no_types, lifting) image_iff)
    have "snd x \<in> set plans" using U x(1) by auto
    then have same: "plan_span_tokens (snd x) = plan_span_tokens q"
      using U x(2) asm(2) by (metis option.inject)
    have "plan_entry_id q \<in> plan_entry_id ` set (admitted r)" if "x \<in> set (take (nat budget) ?p)"
      unfolding r using imageI [OF imageI [OF that, of snd], of plan_entry_id] x(2) by simp
    then have "x \<notin> set (take (nat budget) ?p)" using asm(3) by blast
    moreover have "x \<in> set ?p" using x(1) by simp
    ultimately have "x \<in> set (drop (nat budget) ?p)"
      by (metis UnE append_take_drop_id set_append)
    moreover obtain y where "y \<in> set (take (nat budget) ?p)" "p = snd y" using asm(1) by (auto simp: r)
    ultimately show ?thesis
      using prioritize_sorted [of u] same
      by (metis append_take_drop_id sorted_wrt_append)
  qed
  moreover have "length u = card (plan_entry_id ` set plans)"
  proof -
    have "card (set (map (plan_entry_id \<circ> snd) u)) = length u" using U by (metis distinct_card length_map)
    moreover have "set (map (plan_entry_id \<circ> snd) u) = plan_entry_id ` set plans"
      using U by (simp only: set_map image_comp [symmetric])
    ultimately show ?thesis by (simp only:)
  qed
  ultimately show ?thesis
    using U sub budget r by (auto simp: skipped_def take_map [symmetric] sorted_wrt_take)
qed

theorem admit_store_plans_correct_witness:
  "int (length (admitted (\<lparr>admitted = [\<lparr>plan_request_id = ''r2'', plan_entry_id = ''b'', plan_span_tokens = 9\<rparr>],
       skipped_duplicate = 1, skipped_budget = 1\<rparr> :: store_plan store_admission_result)))
   + skipped (\<lparr>admitted = [\<lparr>plan_request_id = ''r2'', plan_entry_id = ''b'', plan_span_tokens = 9\<rparr>],
       skipped_duplicate = 1, skipped_budget = 1\<rparr> :: store_plan store_admission_result) = 3"
proof -
  let ?plans = "[\<lparr>plan_request_id = ''r1'', plan_entry_id = ''a'', plan_span_tokens = 4\<rparr>,
     \<lparr>plan_request_id = ''r2'', plan_entry_id = ''b'', plan_span_tokens = 9\<rparr>,
     \<lparr>plan_request_id = ''r3'', plan_entry_id = ''a'', plan_span_tokens = 4\<rparr>] :: store_plan list"
  have "admit_store_plans ?plans 1 = Inr \<lparr>admitted = [\<lparr>plan_request_id = ''r2'', plan_entry_id = ''b'',
       plan_span_tokens = 9\<rparr>], skipped_duplicate = 1, skipped_budget = 1\<rparr>"
    by code_simp
  from admit_store_plans_correct [OF this] show ?thesis by simp
qed

end
