(* ===== verification/Topology.thy ===== *)
theory Topology
  imports Prelude
begin

text \<open>
  \<open>topology.py\<close>: worker coordinates in the \<open>PP x TP\<close> rank layout.  Runtime values arrive as
  dynamically typed objects; the model rejects exactly what the source rejects (booleans, strings,
  missing values and out-of-range integers).  The lemmas show that the accepted coordinates are
  one per global rank, in rank order.
\<close>

definition positive_integer :: "pyval \<Rightarrow> int result" where
  "positive_integer v =
     (case as_int v of None \<Rightarrow> Inl ValueError
      | Some n \<Rightarrow> if n \<le> 0 then Inl ValueError else Inr n)"

definition rank_integer :: "pyval \<Rightarrow> int \<Rightarrow> int result" where
  "rank_integer v degree =
     (case as_int v of None \<Rightarrow> Inl ValueError
      | Some n \<Rightarrow> if n < 0 \<or> degree \<le> n then Inl ValueError else Inr n)"

record worker_coordinate =
  global_rank :: int
  pp_rank :: int
  tp_rank :: int
  dcp_rank :: int

definition from_runtime ::
  "pyval \<Rightarrow> pyval \<Rightarrow> pyval \<Rightarrow> pyval \<Rightarrow> pyval \<Rightarrow> pyval \<Rightarrow> pyval \<Rightarrow> worker_coordinate result" where
  "from_runtime g p t d tp_degree pp_degree dcp_degree =
     and_then (positive_integer tp_degree) (\<lambda>tp_size.
     and_then (positive_integer pp_degree) (\<lambda>pp_size.
     and_then (positive_integer dcp_degree) (\<lambda>dcp_size.
     if tp_size mod dcp_size \<noteq> 0 then Inl ValueError else
     and_then (rank_integer g (tp_size * pp_size)) (\<lambda>resolved_global.
     and_then (rank_integer p pp_size) (\<lambda>resolved_pp.
     and_then (rank_integer t tp_size) (\<lambda>resolved_tp.
     and_then (rank_integer d dcp_size) (\<lambda>resolved_dcp.
     if resolved_global \<noteq> resolved_pp * tp_size + resolved_tp then Inl ValueError
     else if resolved_dcp \<noteq> resolved_tp mod dcp_size then Inl ValueError
     else Inr \<lparr>global_rank = resolved_global, pp_rank = resolved_pp,
               tp_rank = resolved_tp, dcp_rank = resolved_dcp\<rparr>)))))))"

definition expected_worker_coordinates ::
  "pyval \<Rightarrow> pyval \<Rightarrow> pyval \<Rightarrow> worker_coordinate list result" where
  "expected_worker_coordinates tp_degree pp_degree dcp_degree =
     and_then (positive_integer tp_degree) (\<lambda>tp_size.
     and_then (positive_integer pp_degree) (\<lambda>pp_size.
     and_then (positive_integer dcp_degree) (\<lambda>dcp_size.
     if tp_size mod dcp_size \<noteq> 0 then Inl ValueError else
     map_result (\<lambda>(p, t).
         from_runtime (PyInt (p * tp_size + t)) (PyInt p) (PyInt t) (PyInt (t mod dcp_size))
           (PyInt tp_size) (PyInt pp_size) (PyInt dcp_size))
       (List.product [0..pp_size - 1] [0..tp_size - 1]))))"

section \<open>Lemmas\<close>

lemma positive_integer_Inr [simp]: "positive_integer v = Inr n \<longleftrightarrow> v = PyInt n \<and> 0 < n"
  by (cases v) (auto simp: positive_integer_def)

lemma rank_integer_Inr [simp]: "rank_integer v k = Inr n \<longleftrightarrow> v = PyInt n \<and> 0 \<le> n \<and> n < k"
  by (cases v) (auto simp: rank_integer_def)

definition coordinate_at :: "int \<Rightarrow> int \<Rightarrow> int \<Rightarrow> worker_coordinate" where
  "coordinate_at tp dcp g =
     \<lparr>global_rank = g, pp_rank = g div tp, tp_rank = g mod tp, dcp_rank = (g mod tp) mod dcp\<rparr>"

lemma from_runtime_Inr:
  "from_runtime g p t d (PyInt tp) (PyInt pp) (PyInt dcp) = Inr c \<longleftrightarrow>
     0 < tp \<and> 0 < pp \<and> 0 < dcp \<and> tp mod dcp = 0
     \<and> g = PyInt (global_rank c) \<and> p = PyInt (pp_rank c) \<and> t = PyInt (tp_rank c)
     \<and> d = PyInt (dcp_rank c)
     \<and> 0 \<le> pp_rank c \<and> pp_rank c < pp \<and> 0 \<le> tp_rank c \<and> tp_rank c < tp
     \<and> global_rank c = pp_rank c * tp + tp_rank c
     \<and> 0 \<le> global_rank c \<and> global_rank c < tp * pp
     \<and> dcp_rank c = tp_rank c mod dcp"
  by (cases c) (auto simp: from_runtime_def and_then_Inr_iff split: if_splits)

lemma rank_in_world:
  assumes "0 \<le> (p::int)" "p < pp" "0 \<le> t" "t < tp"
  shows "0 \<le> p * tp + t" and "p * tp + t < tp * pp"
proof -
  have tp: "0 < tp" using assms by linarith
  show "0 \<le> p * tp + t" using assms tp by simp
  have "p * tp \<le> (pp - 1) * tp" using assms(2) tp by (intro mult_right_mono) auto
  then show "p * tp + t < tp * pp" using assms(4) by (simp add: algebra_simps)
qed

lemma coordinate_at_pair:
  assumes "0 \<le> t" "t < tp"
  shows "coordinate_at tp dcp (p * tp + t) =
     \<lparr>global_rank = p * tp + t, pp_rank = p, tp_rank = t, dcp_rank = t mod dcp\<rparr>"
  using assms by (simp add: coordinate_at_def div_add1_eq)

lemma row_of_ranks:
  assumes "(0::int) \<le> n"
  shows "map (\<lambda>t. f (p * n + t)) [0..n - 1] = map f [p * n..(p + 1) * n - 1]"
proof -
  have "map (\<lambda>t. p * n + t) [0..n - 1] = [p * n..(p + 1) * n - 1]"
    by (intro nth_equalityI) (auto simp: algebra_simps)
  then show ?thesis by (metis (no_types, lifting) comp_def map_map map_eq_conv)
qed

lemma concat_rows:
  assumes "(0::int) \<le> n"
  shows "concat (map (\<lambda>p. map f [p * n..(p + 1) * n - 1]) [0..int k - 1]) = map f [0..int k * n - 1]"
proof (induction k)
  case 0
  then show ?case by simp
next
  case (Suc k)
  have rows: "[0..int (Suc k) - 1] = [0..int k - 1] @ [int k]"
    using upto_split3 [of 0 "int k" "int k"] by (simp add: upto_rec2)
  have split: "[0..int (Suc k) * n - 1] = [0..int k * n - 1] @ [int k * n..(int k + 1) * n - 1]"
  proof (cases "int k * n = 0")
    case False
    moreover have "0 \<le> int k * n" using assms by simp
    ultimately have "1 \<le> int k * n" by linarith
    then show ?thesis
      using assms upto_split2 [of 0 "int k * n - 1" "(int k + 1) * n - 1"]
      by (simp add: algebra_simps)
  qed (auto simp: algebra_simps)
  show ?case by (simp only: rows split map_append concat_append Suc.IH) simp
qed

lemma expected_worker_coordinates_eq:
  assumes "0 < tp" "0 < pp" "0 < dcp" "tp mod dcp = 0"
  shows "expected_worker_coordinates (PyInt tp) (PyInt pp) (PyInt dcp) =
           Inr (map (coordinate_at tp dcp) [0..tp * pp - 1])"
proof -
  let ?mk = "\<lambda>(p, t). coordinate_at tp dcp (p * tp + t)"
  have "map_result (\<lambda>(p, t).
         from_runtime (PyInt (p * tp + t)) (PyInt p) (PyInt t) (PyInt (t mod dcp))
           (PyInt tp) (PyInt pp) (PyInt dcp)) (List.product [0..pp - 1] [0..tp - 1])
        = Inr (map ?mk (List.product [0..pp - 1] [0..tp - 1]))"
    using assms by (intro map_result_total)
      (auto simp: from_runtime_Inr coordinate_at_pair rank_in_world)
  moreover have "map ?mk (List.product [0..pp - 1] [0..tp - 1]) =
      concat (map (\<lambda>p. map (coordinate_at tp dcp) [p * tp..(p + 1) * tp - 1]) [0..pp - 1])"
    using assms(1) by (simp add: product_concat_map map_concat comp_def row_of_ranks)
  moreover have "\<dots> = map (coordinate_at tp dcp) [0..tp * pp - 1]"
    using concat_rows [of tp "coordinate_at tp dcp" "nat pp"] assms by (simp add: mult.commute)
  ultimately show ?thesis
    using assms by (simp add: expected_worker_coordinates_def positive_integer_def)
qed

lemma expected_worker_coordinates_error:
  assumes "\<not> (\<exists>tp pp dcp. t = PyInt tp \<and> p = PyInt pp \<and> d = PyInt dcp
             \<and> 0 < tp \<and> 0 < pp \<and> 0 < dcp \<and> tp mod dcp = 0)"
  shows "\<exists>e. expected_worker_coordinates t p d = Inl e"
proof (cases "expected_worker_coordinates t p d")
  case (Inr c)
  then have False using assms
    by (auto simp: expected_worker_coordinates_def and_then_Inr_iff split: if_splits)
  then show ?thesis ..
qed blast

section \<open>Properties\<close>

text \<open>
  C20: The expected coordinates of a \<open>PP x TP\<close> deployment are exactly the coordinates a worker can
  report, one per global rank and in rank order, so coordinate and rank determine each other.
\<close>

theorem expected_coordinates_bijective:
  assumes "0 < tp" "0 < pp" "0 < dcp" "tp mod dcp = 0"
  shows "\<exists>cs. expected_worker_coordinates (PyInt tp) (PyInt pp) (PyInt dcp) = Inr cs
    \<and> map global_rank cs = [0..tp * pp - 1]
    \<and> (\<forall>c. c \<in> set cs \<longleftrightarrow>
         from_runtime (PyInt (global_rank c)) (PyInt (pp_rank c)) (PyInt (tp_rank c)) (PyInt (dcp_rank c))
           (PyInt tp) (PyInt pp) (PyInt dcp) = Inr c)"
proof (intro exI conjI allI)
  let ?cs = "map (coordinate_at tp dcp) [0..tp * pp - 1]"
  show "expected_worker_coordinates (PyInt tp) (PyInt pp) (PyInt dcp) = Inr ?cs"
    by (rule expected_worker_coordinates_eq [OF assms])
  show "map global_rank ?cs = [0..tp * pp - 1]" by (simp add: coordinate_at_def comp_def)
  show "c \<in> set ?cs \<longleftrightarrow>
         from_runtime (PyInt (global_rank c)) (PyInt (pp_rank c)) (PyInt (tp_rank c)) (PyInt (dcp_rank c))
           (PyInt tp) (PyInt pp) (PyInt dcp) = Inr c" for c :: worker_coordinate
  proof
    assume "c \<in> set ?cs"
    then obtain g where g: "0 \<le> g" "g < tp * pp" "c = coordinate_at tp dcp g" by auto
    have "g div tp * tp \<le> g" using assms(1) by (simp add: minus_mod_eq_div_mult [symmetric])
    then have "tp * (g div tp) < tp * pp" using g(2) by (simp add: mult.commute)
    then have "g div tp < pp" using assms(1) by simp
    then show "from_runtime (PyInt (global_rank c)) (PyInt (pp_rank c)) (PyInt (tp_rank c)) (PyInt (dcp_rank c))
           (PyInt tp) (PyInt pp) (PyInt dcp) = Inr c"
      using g assms by (simp add: from_runtime_Inr coordinate_at_def pos_imp_zdiv_nonneg_iff)
  next
    assume "from_runtime (PyInt (global_rank c)) (PyInt (pp_rank c)) (PyInt (tp_rank c)) (PyInt (dcp_rank c))
           (PyInt tp) (PyInt pp) (PyInt dcp) = Inr c"
    note F = this [unfolded from_runtime_Inr]
    then have "c = coordinate_at tp dcp (global_rank c)"
      using coordinate_at_pair [of "tp_rank c" tp dcp "pp_rank c"] by (cases c) auto
    then show "c \<in> set ?cs" using F by auto
  qed
qed

theorem expected_coordinates_bijective_witness:
  "\<exists>cs. expected_worker_coordinates (PyInt 4) (PyInt 2) (PyInt 2) = Inr cs \<and> map global_rank cs = [0..7]"
  using expected_coordinates_bijective [of 4 2 2] by auto

end
