(* ===== verification/Quorum_Reporter.thy ===== *)
theory Quorum_Reporter
  imports Config "HOL-Library.Multiset"
begin

text \<open>
  \<open>quorum.py\<close>, worker side: the report records, \<open>_validate_entries\<close>,
  \<open>validate_inventory_report\<close> and \<open>InventoryReporter\<close>, which emits bounded rolling checkpoints
  and state deltas of one rank's inventory.  The reporter's dictionaries keep insertion order
  because \<open>add\<close> evicts the oldest entry.  The second half runs a reporter over a list of
  operations, with a ghost image of what every emitted sequence number stands for, and proves
  the contract of the emitted reports that the scheduler relies on.
\<close>

section \<open>Reports\<close>

type_synonym entry = "string \<times> int"

record inventory_checkpoint =
  ck_sequence :: int
  ck_cycle :: int
  ck_index :: int
  ck_count :: int
  ck_held_count :: int
  ck_entries :: "entry list"

record inventory_delta =
  delta_sequence :: int
  delta_base :: int
  delta_added :: "entry list"
  delta_removed :: "string list"

record worker_report =
  rep_rank :: int
  rep_generation :: string
  rep_epoch :: int
  rep_checkpoint :: inventory_checkpoint
  rep_delta :: "inventory_delta option"

definition MAX_GENERATION_LENGTH :: int where "MAX_GENERATION_LENGTH = 128"
definition MAX_INVENTORY_REPORTS :: nat where "MAX_INVENTORY_REPORTS = 4096"
definition GENERATION_HISTORY_LIMIT :: nat where "GENERATION_HISTORY_LIMIT = 64"

fun valid_entry :: "entry \<Rightarrow> bool" where
  "valid_entry (entry_id, span_tokens) \<longleftrightarrow> is_digest entry_id \<and> 0 < span_tokens \<and> span_tokens \<le> max_counter"

definition validate_entries :: "entry list \<Rightarrow> unit result" where
  "validate_entries entries = require (list_all valid_entry entries) ManifestError"

definition valid_generation :: "string \<Rightarrow> int \<Rightarrow> bool" where
  "valid_generation generation epoch \<longleftrightarrow>
     generation \<noteq> [] \<and> code_points generation \<le> MAX_GENERATION_LENGTH \<and> 0 \<le> epoch \<and> epoch \<le> max_counter"

definition valid_worker_identity :: "int \<Rightarrow> string \<Rightarrow> int \<Rightarrow> bool" where
  "valid_worker_identity rank generation epoch \<longleftrightarrow>
     0 \<le> rank \<and> rank < int MAX_INVENTORY_REPORTS \<and> valid_generation generation epoch"

definition validate_checkpoint ::
  "int \<Rightarrow> int \<Rightarrow> int \<Rightarrow> inventory_checkpoint \<Rightarrow> unit result" where
  "validate_checkpoint eb max_bytes max_report_entries ck =
     and_then (inventory_capacity eb max_bytes) (\<lambda>capacity.
     if ck_sequence ck < 0 \<or> max_counter < ck_sequence ck
        \<or> ck_cycle ck < 0 \<or> max_counter < ck_cycle ck
        \<or> ck_count ck \<le> 0 \<or> max 1 (ck_held_count ck) < ck_count ck
        \<or> \<not> (0 \<le> ck_index ck \<and> ck_index ck < ck_count ck)
        \<or> \<not> (0 \<le> ck_held_count ck \<and> ck_held_count ck \<le> capacity)
        \<or> max_report_entries < int (length (ck_entries ck))
        \<or> ck_held_count ck < int (length (ck_entries ck))
     then Inl ManifestError else validate_entries (ck_entries ck))"

definition validate_delta :: "int \<Rightarrow> inventory_delta \<Rightarrow> unit result" where
  "validate_delta max_report_entries d =
     (if delta_base d < 0 \<or> max_counter < delta_base d
         \<or> delta_sequence d \<le> 0 \<or> max_counter < delta_sequence d
         \<or> delta_sequence d \<noteq> delta_base d + 1
      then Inl ManifestError else
      and_then (validate_entries (delta_added d)) (\<lambda>_.
      and_then (validate_entries (map (\<lambda>entry_id. (entry_id, 1)) (delta_removed d))) (\<lambda>_.
      if max_report_entries < int (length (delta_added d) + length (delta_removed d))
         \<or> \<not> distinct (map fst (delta_added d))
         \<or> \<not> distinct (delta_removed d)
         \<or> set (map fst (delta_added d)) \<inter> set (delta_removed d) \<noteq> {}
      then Inl ManifestError else Inr ())))"

definition validate_inventory_report ::
  "int \<Rightarrow> worker_report \<Rightarrow> int \<Rightarrow> int \<Rightarrow> unit result" where
  "validate_inventory_report eb report max_bytes max_report_entries =
     (if max_bytes \<le> 0 \<or> max_report_entries \<le> 0 then Inl ValueError
      else if \<not> valid_worker_identity (rep_rank report) (rep_generation report) (rep_epoch report)
      then Inl ManifestError
      else and_then (validate_checkpoint eb max_bytes max_report_entries (rep_checkpoint report))
        (\<lambda>_. case rep_delta report of
               None \<Rightarrow> Inr ()
             | Some d \<Rightarrow> validate_delta max_report_entries d))"

section \<open>The reporter\<close>

record reporter =
  r_rank :: int
  r_generation :: string
  r_epoch :: int
  r_max_bytes :: int
  r_max_report_entries :: int
  r_held :: "(string, int) dict"
  r_observed :: "(string, int) dict"
  r_dirty :: bool
  r_sequence :: int
  r_history :: "inventory_delta list"
  r_delta_cursor :: int
  r_checkpoint_items :: "entry list"
  r_checkpoint_sequence :: int
  r_checkpoint_cycle :: int
  r_checkpoint_index :: int

definition InventoryReporter :: "int \<Rightarrow> int \<Rightarrow> string \<Rightarrow> int \<Rightarrow> int \<Rightarrow> int \<Rightarrow> reporter result" where
  "InventoryReporter eb rank generation epoch max_bytes max_report_entries =
     (if \<not> valid_worker_identity rank generation epoch then Inl ValueError
      else if max_bytes \<le> 0 \<or> max_report_entries \<le> 0 then Inl ValueError
      else and_then (inventory_capacity eb max_bytes) (\<lambda>_.
        Inr \<lparr>r_rank = rank, r_generation = generation, r_epoch = epoch, r_max_bytes = max_bytes,
             r_max_report_entries = max_report_entries, r_held = [], r_observed = [],
             r_dirty = False, r_sequence = 0, r_history = [], r_delta_cursor = 0,
             r_checkpoint_items = [], r_checkpoint_sequence = 0, r_checkpoint_cycle = 0,
             r_checkpoint_index = 0\<rparr>))"

text \<open>The bounded selection loop of \<open>replace\<close>.\<close>

fun select_entries :: "int \<Rightarrow> int \<Rightarrow> entry list \<Rightarrow> entry list \<Rightarrow> entry list" where
  "select_entries eb max_bytes selected [] = selected"
| "select_entries eb max_bytes selected (item # items) =
     (if (int (length selected) + 1) * eb > max_bytes then selected
      else select_entries eb max_bytes (selected @ [item]) items)"

definition replace :: "int \<Rightarrow> (string, int) dict \<Rightarrow> reporter \<Rightarrow> reporter result" where
  "replace eb entries r =
     (let selected = select_entries eb (r_max_bytes r) [] entries in
      and_then (validate_entries selected) (\<lambda>_.
        Inr (r\<lparr>r_held := dict_of (rev selected), r_dirty := True\<rparr>)))"

definition add :: "int \<Rightarrow> string \<Rightarrow> int \<Rightarrow> reporter \<Rightarrow> reporter result" where
  "add eb entry_id span_tokens r =
     and_then (validate_entries [(entry_id, span_tokens)]) (\<lambda>_.
     (let previous = dict_get (r_held r) entry_id;
          held = dict_pop entry_id (r_held r)
      in and_then
           (if (int (length held) + 1) * eb > r_max_bytes r
            then (case held of [] \<Rightarrow> Inl StopIteration | _ # newer \<Rightarrow> Inr newer)
            else Inr held)
           (\<lambda>kept. Inr (r\<lparr>r_held := dict_set entry_id span_tokens kept,
                         r_dirty := r_dirty r \<or> previous \<noteq> Some span_tokens\<rparr>))))"

definition remove :: "string \<Rightarrow> reporter \<Rightarrow> reporter" where
  "remove entry_id r =
     r\<lparr>r_held := dict_pop entry_id (r_held r),
       r_dirty := r_dirty r \<or> dict_get (r_held r) entry_id \<noteq> None\<rparr>"

definition held_entry_ids :: "reporter \<Rightarrow> string list" where
  "held_entry_ids r = dict_keys (r_held r)"

definition startup :: "reporter \<Rightarrow> entry list \<times> reporter" where
  "startup r =
     (let inventory = sort (r_held r) in
      (inventory,
       r\<lparr>r_observed := r_held r, r_dirty := False, r_checkpoint_items := inventory,
         r_checkpoint_sequence := r_sequence r\<rparr>))"

text \<open>\<open>==\<close> on dictionaries ignores the insertion order.\<close>

definition dict_equal :: "(string, int) dict \<Rightarrow> (string, int) dict \<Rightarrow> bool" where
  "dict_equal a b \<longleftrightarrow>
     length a = length b \<and> list_all (\<lambda>(k, v). dict_get b k = Some v) a"

definition obsolete :: "reporter \<Rightarrow> string list" where
  "obsolete r = sort (map fst (filter (\<lambda>(k, s). dict_get (r_held r) k \<noteq> Some s) (r_observed r)))"

definition unreported :: "reporter \<Rightarrow> entry list" where
  "unreported r = sort (filter (\<lambda>(k, s). dict_get (r_observed r) k = None) (r_held r))"

text \<open>The mutation branch of \<open>next_report\<close>: one bounded delta, or a deliberate sequence gap when
  the removals alone exceed a report.\<close>

definition emit_delta :: "int \<Rightarrow> reporter \<Rightarrow> reporter" where
  "emit_delta batch_size r =
     (let removed = obsolete r;
          base = r_sequence r;
          fits = int (length removed) \<le> batch_size;
          added = (if fits then take (nat (batch_size - int (length removed))) (unreported r) else []);
          sequence = (if fits then base + 1 else base + 2);
          delta = \<lparr>delta_sequence = sequence, delta_base = sequence - 1, delta_added = added,
                   delta_removed = (if fits then removed else [])\<rparr>;
          observed = (if fits
             then fold (\<lambda>(k, v) d. dict_set k v d) added (fold dict_pop removed (r_observed r))
             else r_held r);
          history = deque_append 64 (if fits then r_history r else []) delta
      in r\<lparr>r_sequence := sequence, r_observed := observed, r_history := history,
           r_delta_cursor := int (length history) - 1,
           r_checkpoint_items := sort observed, r_checkpoint_sequence := sequence,
           r_checkpoint_cycle := r_checkpoint_cycle r + 1, r_checkpoint_index := 0\<rparr>)"

definition checkpoint_page :: "int \<Rightarrow> reporter \<Rightarrow> inventory_checkpoint" where
  "checkpoint_page batch_size r =
     (let items = r_checkpoint_items r in
      \<lparr>ck_sequence = r_checkpoint_sequence r, ck_cycle = r_checkpoint_cycle r,
       ck_index = r_checkpoint_index r,
       ck_count = max 1 ((int (length items) + batch_size - 1) div batch_size),
       ck_held_count = int (length items),
       ck_entries = take (nat batch_size) (drop (nat (r_checkpoint_index r * batch_size)) items)\<rparr>)"

definition next_report :: "int \<Rightarrow> reporter \<Rightarrow> (worker_report \<times> reporter) result" where
  "next_report batch_size r0 =
     (if batch_size \<le> 0 \<or> r_max_report_entries r0 < batch_size then Inl ValueError
      else
       (let r1 = (if r_dirty r0 \<and> \<not> dict_equal (r_held r0) (r_observed r0)
                  then emit_delta batch_size r0 else r0);
            ck = checkpoint_page batch_size r1;
            wrap = ck_count ck \<le> r_checkpoint_index r1 + 1;
            history = r_history r1;
            delta = (if history = [] then None
                     else Some (history ! nat (r_delta_cursor r1 mod int (length history))))
        in Inr
          (\<lparr>rep_rank = r_rank r1, rep_generation = r_generation r1, rep_epoch = r_epoch r1,
            rep_checkpoint = ck, rep_delta = delta\<rparr>,
           r1\<lparr>r_dirty := length (r_held r1) \<noteq> length (r_observed r1),
              r_checkpoint_index := (if wrap then 0 else r_checkpoint_index r1 + 1),
              r_checkpoint_cycle := (if wrap then r_checkpoint_cycle r1 + 1 else r_checkpoint_cycle r1),
              r_delta_cursor := (if history = [] then r_delta_cursor r1
                 else (r_delta_cursor r1 + 1) mod int (length history))\<rparr>)))"

section \<open>A run of one worker process\<close>

text \<open>
  After \<open>startup\<close> a worker only adds, removes and replaces entries and asks for reports; a call
  that raises leaves the reporter as it was.  The run carries two ghosts: the image each emitted
  sequence number stands for, and the reports sent so far.
\<close>

datatype reporter_op =
    Add string int
  | Remove string
  | Replace "(string, int) dict"
  | Report int

record source =
  src_reporter :: reporter
  src_image :: "int \<Rightarrow> (string \<Rightarrow> int option) option"
  src_sent :: "worker_report list"

fun source_step :: "int \<Rightarrow> reporter_op \<Rightarrow> source \<Rightarrow> source" where
  "source_step eb (Add entry_id span_tokens) s =
     (case add eb entry_id span_tokens (src_reporter s) of
        Inl _ \<Rightarrow> s | Inr r \<Rightarrow> s\<lparr>src_reporter := r\<rparr>)"
| "source_step eb (Remove entry_id) s = s\<lparr>src_reporter := remove entry_id (src_reporter s)\<rparr>"
| "source_step eb (Replace entries) s =
     (case replace eb entries (src_reporter s) of
        Inl _ \<Rightarrow> s | Inr r \<Rightarrow> s\<lparr>src_reporter := r\<rparr>)"
| "source_step eb (Report batch_size) s =
     (case next_report batch_size (src_reporter s) of
        Inl _ \<Rightarrow> s
      | Inr (report, r) \<Rightarrow>
          s\<lparr>src_reporter := r,
            src_image := (src_image s)(r_sequence r \<mapsto> dict_get (r_observed r)),
            src_sent := src_sent s @ [report]\<rparr>)"

definition source_run :: "int \<Rightarrow> reporter_op list \<Rightarrow> source \<Rightarrow> source" where
  "source_run eb ops s = fold (source_step eb) ops s"

definition source_start :: "reporter \<Rightarrow> source" where
  "source_start r =
     \<lparr>src_reporter = snd (startup r),
      src_image = [r_sequence r \<mapsto> dict_get (r_held r)], src_sent = []\<rparr>"

section \<open>Lemmas on the dictionary operations of a report\<close>

lemma dict_get_fold_pop:
  "dict_get (fold dict_pop ks d) = dict_get d |` (- set ks)"
  by (induction ks arbitrary: d) (auto simp: restrict_map_def fun_eq_iff)

lemma distinct_fold_pop: "distinct (dict_keys d) \<Longrightarrow> distinct (dict_keys (fold dict_pop ks d))"
  by (induction ks arbitrary: d) auto

lemma dict_get_fold_set:
  "distinct (map fst items) \<Longrightarrow>
   dict_get (fold (\<lambda>(k, v) d. dict_set k v d) items d) = dict_get d ++ map_of items"
proof (induction items arbitrary: d)
  case (Cons p items)
  obtain k v where p: "p = (k, v)" by force
  with Cons.prems have "map_of items k = None" by (auto simp: map_of_eq_None_iff)
  with Cons p show ?case by (auto simp: fun_eq_iff map_add_def split: option.splits)
qed simp

lemma distinct_fold_set:
  "distinct (dict_keys d) \<Longrightarrow> distinct (dict_keys (fold (\<lambda>(k, v) d. dict_set k v d) items d))"
  by (induction items arbitrary: d) (auto split: prod.splits)

lemma map_of_sort: "distinct (dict_keys d) \<Longrightarrow> map_of (sort d) = map_of d"
  by (intro map_of_eqI) (auto simp: distinct_map image_iff inj_on_def)

lemma submap_length_le:
  assumes "distinct (dict_keys a)" "distinct (dict_keys b)" "map_of a \<subseteq>\<^sub>m map_of b"
  shows "length a \<le> length b"
proof -
  have "dom (map_of a) \<subseteq> dom (map_of b)" using assms(3) by (rule map_le_implies_dom_le)
  then have "card (dom (map_of a)) \<le> card (dom (map_of b))" by (intro card_mono finite_dom_map_of)
  then show ?thesis using assms(1,2) by (simp add: dom_map_of_conv_image_fst card_keys)
qed

lemma submap_same_length:
  assumes "distinct (dict_keys a)" "distinct (dict_keys b)" "map_of a \<subseteq>\<^sub>m map_of b"
    and "length a = length b"
  shows "map_of a = map_of b"
proof -
  have sub: "dom (map_of a) \<subseteq> dom (map_of b)" using assms(3) by (rule map_le_implies_dom_le)
  have "card (dom (map_of a)) = card (dom (map_of b))"
    using assms(1,2,4) by (simp add: dom_map_of_conv_image_fst card_keys)
  then have "dom (map_of a) = dom (map_of b)" by (intro card_subset_eq sub finite_dom_map_of)
  then have "map_of b \<subseteq>\<^sub>m map_of a" using assms(3) by (auto simp: map_le_def)
  then show ?thesis using assms(3) by (rule map_le_antisym [rotated])
qed

lemma dict_equal_iff:
  assumes "distinct (dict_keys a)" "distinct (dict_keys b)"
  shows "dict_equal a b \<longleftrightarrow> map_of a = map_of b"
proof
  assume eq: "dict_equal a b"
  have "map_of a \<subseteq>\<^sub>m map_of b"
    unfolding map_le_def using eq
    by (auto simp: dict_equal_def list_all_iff split_beta dest: map_of_SomeD) (metis fst_conv map_of_SomeD snd_conv)
  then show "map_of a = map_of b" using eq assms by (intro submap_same_length) (auto simp: dict_equal_def)
next
  assume eq: "map_of a = map_of b"
  have "length a = length b"
    using assms eq card_keys [of a] card_keys [of b] by (metis dom_map_of_conv_image_fst)
  moreover have "\<forall>(k, v) \<in> set a. map_of b k = Some v"
    unfolding eq [symmetric] using assms(1) by auto
  ultimately show "dict_equal a b" by (auto simp: dict_equal_def list_all_iff)
qed

lemma map_of_obsolete:
  assumes "distinct (dict_keys (r_observed r))"
  shows "set (obsolete r) = {k. dict_get (r_observed r) k \<noteq> None
                              \<and> dict_get (r_held r) k \<noteq> dict_get (r_observed r) k}"
  using assms by (force simp: obsolete_def dest: map_of_SomeD)

lemma distinct_obsolete: "distinct (dict_keys (r_observed r)) \<Longrightarrow> distinct (obsolete r)"
  by (simp add: obsolete_def distinct_map_filter)

lemma set_unreported:
  "set (unreported r) = {(k, s) \<in> set (r_held r). dict_get (r_observed r) k = None}"
  by (auto simp: unreported_def)

lemma distinct_unreported:
  assumes "distinct (dict_keys (r_held r))"
  shows "distinct (map fst (unreported r))"
proof -
  have "mset (map fst (unreported r)) =
      mset (map fst (filter (\<lambda>(k, s). dict_get (r_observed r) k = None) (r_held r)))"
    by (simp add: unreported_def)
  then show ?thesis using assms by (metis distinct_map_filter mset_eq_imp_distinct_iff)
qed

section \<open>Invariant of the reporter\<close>

definition delta_wf :: "int \<Rightarrow> inventory_delta \<Rightarrow> bool" where
  "delta_wf bound d \<longleftrightarrow>
     0 \<le> delta_base d \<and> delta_sequence d = delta_base d + 1
     \<and> list_all valid_entry (delta_added d) \<and> list_all is_digest (delta_removed d)
     \<and> distinct (map fst (delta_added d)) \<and> distinct (delta_removed d)
     \<and> fst ` set (delta_added d) \<inter> set (delta_removed d) = {}
     \<and> int (length (delta_added d) + length (delta_removed d)) \<le> bound"

definition reporter_inv :: "int \<Rightarrow> reporter \<Rightarrow> bool" where
  "reporter_inv eb r \<longleftrightarrow>
     0 < eb \<and> eb \<le> r_max_bytes r \<and> 0 < r_max_report_entries r
     \<and> valid_worker_identity (r_rank r) (r_generation r) (r_epoch r)
     \<and> distinct (dict_keys (r_held r)) \<and> distinct (dict_keys (r_observed r))
     \<and> int (length (r_held r)) * eb \<le> r_max_bytes r
     \<and> int (length (r_observed r)) * eb \<le> r_max_bytes r
     \<and> list_all valid_entry (r_held r) \<and> list_all valid_entry (r_observed r)
     \<and> (\<not> r_dirty r \<longrightarrow> dict_get (r_held r) = dict_get (r_observed r))
     \<and> r_checkpoint_items r = sort (r_observed r) \<and> r_checkpoint_sequence r = r_sequence r
     \<and> 0 \<le> r_sequence r \<and> 0 \<le> r_checkpoint_cycle r \<and> 0 \<le> r_checkpoint_index r
     \<and> 0 \<le> r_delta_cursor r
     \<and> (\<forall>d \<in> set (r_history r). delta_wf (r_max_report_entries r) d \<and> delta_sequence d \<le> r_sequence r)"

lemma reporter_invD:
  assumes "reporter_inv eb r"
  shows "0 < eb" "eb \<le> r_max_bytes r" "0 < r_max_report_entries r"
    "distinct (dict_keys (r_held r))" "distinct (dict_keys (r_observed r))"
    "int (length (r_held r)) * eb \<le> r_max_bytes r"
    "int (length (r_observed r)) * eb \<le> r_max_bytes r"
    "list_all valid_entry (r_held r)" "list_all valid_entry (r_observed r)"
    "\<not> r_dirty r \<Longrightarrow> dict_get (r_held r) = dict_get (r_observed r)"
    "r_checkpoint_items r = sort (r_observed r)" "r_checkpoint_sequence r = r_sequence r"
    "0 \<le> r_sequence r" "0 \<le> r_checkpoint_cycle r" "0 \<le> r_checkpoint_index r"
    "0 \<le> r_delta_cursor r"
    "\<And>d. d \<in> set (r_history r) \<Longrightarrow> delta_wf (r_max_report_entries r) d"
    "\<And>d. d \<in> set (r_history r) \<Longrightarrow> delta_sequence d \<le> r_sequence r"
    "valid_worker_identity (r_rank r) (r_generation r) (r_epoch r)"
  using assms by (simp_all add: reporter_inv_def)

lemma InventoryReporter_inv:
  assumes "0 < eb" "InventoryReporter eb rank generation epoch mb mre = Inr r"
  shows "reporter_inv eb r" and "r_sequence r = 0" and "r_history r = []"
  using assms
  by (auto simp: InventoryReporter_def reporter_inv_def inventory_capacity_def and_then_Inr_iff
      split: if_splits)

lemma list_all_dict_set:
  "list_all P d \<Longrightarrow> P (k, v) \<Longrightarrow> list_all P (dict_set k v d)"
  by (induction d) auto

lemma list_all_dict_pop: "list_all P d \<Longrightarrow> list_all P (dict_pop k d)"
  by (induction d) auto

lemma list_all_dict_of: "list_all P items \<Longrightarrow> list_all P (dict_of items)"
  by (induction items rule: rev_induct) (auto simp: list_all_dict_set)

lemma length_dict_set: "length (dict_set k v d) = (if k \<in> fst ` set d then length d else length d + 1)"
  by (induction d) (auto split: if_splits)

lemma length_dict_of_le: "length (dict_of items) \<le> length items"
  by (induction items rule: rev_induct) (auto simp: length_dict_set)

lemma length_dict_pop_le: "length (dict_pop k d) \<le> length d"
  by (induction d) auto

lemma select_entries_prefix: "\<exists>n. select_entries eb mb sel items = sel @ take n items"
proof (induction items arbitrary: sel)
  case (Cons x items)
  obtain n where "select_entries eb mb (sel @ [x]) items = (sel @ [x]) @ take n items"
    using Cons.IH by blast
  then have "select_entries eb mb (sel @ [x]) items = sel @ take (Suc n) (x # items)" by simp
  then show ?case by (metis append_Nil2 select_entries.simps(2) take0)
qed simp

lemma select_entries_bound:
  "int (length sel) * eb \<le> mb \<Longrightarrow> int (length (select_entries eb mb sel items)) * eb \<le> mb"
  by (induction items arbitrary: sel) (auto simp: algebra_simps)

lemma replace_inv:
  assumes inv: "reporter_inv eb r" and "replace eb entries r = Inr r'"
  shows "reporter_inv eb r'"
proof -
  let ?sel = "select_entries eb (r_max_bytes r) [] entries"
  from assms(2) have r': "r' = r\<lparr>r_held := dict_of (rev ?sel), r_dirty := True\<rparr>"
    and valid: "list_all valid_entry ?sel"
    by (auto simp: replace_def Let_def validate_entries_def and_then_Inr_iff)
  have "int (length (dict_of (rev ?sel))) * eb \<le> int (length ?sel) * eb"
    using length_dict_of_le [of "rev ?sel"] reporter_invD(1) [OF inv] by (intro mult_right_mono) auto
  also have "\<dots> \<le> r_max_bytes r"
    using reporter_invD(1,2) [OF inv] by (intro select_entries_bound) auto
  finally show ?thesis
    using inv valid by (auto simp: r' reporter_inv_def list_all_dict_of)
qed

lemma add_inv:
  assumes inv: "reporter_inv eb r" and "add eb e n r = Inr r'"
  shows "reporter_inv eb r'"
proof -
  let ?held = "dict_pop e (r_held r)"
  from assms(2) obtain kept where valid: "valid_entry (e, n)"
    and kept: "(if (int (length ?held) + 1) * eb > r_max_bytes r
            then (case ?held of [] \<Rightarrow> Inl StopIteration | _ # newer \<Rightarrow> Inr newer)
            else Inr ?held) = Inr kept"
    and r': "r' = r\<lparr>r_held := dict_set e n kept,
                   r_dirty := r_dirty r \<or> dict_get (r_held r) e \<noteq> Some n\<rparr>"
    by (auto simp: add_def Let_def validate_entries_def and_then_Inr_iff)
  note D = reporter_invD [OF inv]
  have suffix: "kept = ?held \<and> (int (length ?held) + 1) * eb \<le> r_max_bytes r
      \<or> (\<exists>x. ?held = x # kept)"
    using kept by (auto split: if_splits list.splits)
  have dist: "distinct (dict_keys ?held)" using D(4) by simp
  then have kdist: "distinct (dict_keys kept)" using suffix by auto
  have all: "list_all valid_entry kept"
    using suffix list_all_dict_pop [OF D(8), of e] by auto
  have fresh: "e \<notin> fst ` set kept"
  proof -
    have "set kept \<subseteq> set ?held" using suffix by auto
    then have "fst ` set kept \<subseteq> fst ` set (r_held r) - {e}"
      unfolding set_keys_dict_pop [symmetric] by (rule image_mono)
    then show ?thesis by blast
  qed
  have len: "int (length (dict_set e n kept)) * eb \<le> r_max_bytes r"
    using suffix
  proof
    assume "\<exists>x. ?held = x # kept"
    then have "int (length kept) + 1 \<le> int (length (r_held r))"
      using length_dict_pop_le [of e "r_held r"] by auto
    then have "(int (length kept) + 1) * eb \<le> int (length (r_held r)) * eb"
      using D(1) by (intro mult_right_mono) auto
    then show ?thesis using D(6) fresh by (simp add: length_dict_set algebra_simps)
  qed (use fresh in \<open>simp add: length_dict_set algebra_simps\<close>)
  have same: "dict_get (dict_set e n kept) = dict_get (r_held r)"
    if "dict_get (r_held r) e = Some n"
  proof -
    have "e \<in> dom (dict_get (r_held r))" using that by auto
    then have "int (length ?held) + 1 = int (length (r_held r))"
      using length_dict_pop [OF D(4), of e] that by (cases "r_held r") auto
    then have "kept = ?held" using kept D(6) by (auto split: if_splits)
    then show ?thesis using that by (auto simp: fun_eq_iff)
  qed
  show ?thesis
    unfolding r' using inv valid len kdist list_all_dict_set [OF all valid] same
    by (auto simp: reporter_inv_def)
qed

lemma remove_inv: "reporter_inv eb r \<Longrightarrow> reporter_inv eb (remove e r)"
proof -
  assume inv: "reporter_inv eb r"
  note D = reporter_invD [OF inv]
  have "int (length (dict_pop e (r_held r))) * eb \<le> int (length (r_held r)) * eb"
    using length_dict_pop_le [of e "r_held r"] D(1) by (intro mult_right_mono) auto
  also have "\<dots> \<le> r_max_bytes r" by (rule D(6))
  finally have len: "int (length (dict_pop e (r_held r))) * eb \<le> r_max_bytes r" .
  have clean: "dict_get (dict_pop e (r_held r)) = dict_get (r_observed r)"
    if "\<not> (r_dirty r \<or> dict_get (r_held r) e \<noteq> None)"
    using that D(10) by (auto simp: fun_eq_iff)
  show ?thesis
    using inv list_all_dict_pop [OF D(8), of e] len clean
    unfolding remove_def reporter_inv_def by (auto simp del: dict_get_pop not_None_eq)
qed

lemma startup_inv:
  assumes "reporter_inv eb r"
  shows "reporter_inv eb (snd (startup r))"
  using assms by (simp add: startup_def reporter_inv_def Let_def)

section \<open>What a report says\<close>

definition apply_delta :: "inventory_delta \<Rightarrow> (string \<Rightarrow> int option) \<Rightarrow> (string \<Rightarrow> int option)" where
  "apply_delta d m = (m |` (- set (delta_removed d))) ++ map_of (delta_added d)"

definition delta_fits :: "int \<Rightarrow> reporter \<Rightarrow> bool" where
  "delta_fits b r \<longleftrightarrow> int (length (obsolete r)) \<le> b"

definition new_delta :: "int \<Rightarrow> reporter \<Rightarrow> inventory_delta" where
  "new_delta b r = last (r_history (emit_delta b r))"

lemma emit_delta_frame [simp]:
  "r_held (emit_delta b r) = r_held r" "r_dirty (emit_delta b r) = r_dirty r"
  "r_rank (emit_delta b r) = r_rank r" "r_generation (emit_delta b r) = r_generation r"
  "r_epoch (emit_delta b r) = r_epoch r" "r_max_bytes (emit_delta b r) = r_max_bytes r"
  "r_max_report_entries (emit_delta b r) = r_max_report_entries r"
  "r_checkpoint_items (emit_delta b r) = sort (r_observed (emit_delta b r))"
  "r_checkpoint_sequence (emit_delta b r) = r_sequence (emit_delta b r)"
  "r_checkpoint_index (emit_delta b r) = 0"
  "r_checkpoint_cycle (emit_delta b r) = r_checkpoint_cycle r + 1"
  by (simp_all add: emit_delta_def Let_def)

lemma emit_delta_sequence:
  "r_sequence (emit_delta b r) = (if delta_fits b r then r_sequence r + 1 else r_sequence r + 2)"
  by (simp add: emit_delta_def Let_def delta_fits_def)

lemma new_delta_eq:
  "new_delta b r =
     \<lparr>delta_sequence = r_sequence (emit_delta b r), delta_base = r_sequence (emit_delta b r) - 1,
      delta_added = (if delta_fits b r
         then take (nat (b - int (length (obsolete r)))) (unreported r) else []),
      delta_removed = (if delta_fits b r then obsolete r else [])\<rparr>"
  by (simp add: new_delta_def emit_delta_def Let_def delta_fits_def)

lemma emit_delta_history:
  "r_history (emit_delta b r) = deque_append 64 (if delta_fits b r then r_history r else []) (new_delta b r)"
  by (simp only: new_delta_eq) (simp add: emit_delta_def Let_def delta_fits_def)

lemma emit_delta_cursor: "r_delta_cursor (emit_delta b r) = int (length (r_history (emit_delta b r))) - 1"
  by (simp add: emit_delta_def Let_def)

lemma emit_delta_history_nonempty: "r_history (emit_delta b r) \<noteq> []"
  by (simp add: emit_delta_history)

lemma set_emit_delta_history:
  "set (r_history (emit_delta b r)) \<subseteq> insert (new_delta b r) (set (r_history r))"
  unfolding emit_delta_history using set_deque_append [of 64 _ "new_delta b r"] by fastforce

lemma emit_delta_observed_fits:
  assumes "delta_fits b r"
  shows "r_observed (emit_delta b r) =
    fold (\<lambda>(k, v) d. dict_set k v d) (delta_added (new_delta b r))
      (fold dict_pop (delta_removed (new_delta b r)) (r_observed r))"
  using assms by (simp only: new_delta_eq) (simp add: emit_delta_def Let_def delta_fits_def)

lemma emit_delta_observed_gap: "\<not> delta_fits b r \<Longrightarrow> r_observed (emit_delta b r) = r_held r"
  by (simp add: emit_delta_def Let_def delta_fits_def)

lemma new_delta_added_set: "set (delta_added (new_delta b r)) \<subseteq> set (unreported r)"
  using set_take_subset by (fastforce simp: new_delta_eq)

lemma new_delta_distinct:
  assumes "distinct (dict_keys (r_held r))"
  shows "distinct (map fst (delta_added (new_delta b r)))"
  using distinct_unreported [OF assms] by (auto simp: new_delta_eq take_map [symmetric] intro: distinct_take)

lemma new_delta_image:
  assumes "reporter_inv eb r" "delta_fits b r"
  shows "dict_get (r_observed (emit_delta b r)) = apply_delta (new_delta b r) (dict_get (r_observed r))"
  using new_delta_distinct [OF reporter_invD(4) [OF assms(1)]]
  by (simp add: emit_delta_observed_fits [OF assms(2)] dict_get_fold_set dict_get_fold_pop apply_delta_def)

text \<open>After a mutation report the observed image is an identical-value subset of the held one.\<close>

lemma emit_delta_submap:
  assumes inv: "reporter_inv eb r"
  shows "dict_get (r_observed (emit_delta b r)) \<subseteq>\<^sub>m dict_get (r_held r)"
proof (cases "delta_fits b r")
  case True
  let ?d = "new_delta b r"
  note D = reporter_invD [OF inv]
  have removed: "set (delta_removed ?d) = set (obsolete r)" using True by (simp add: new_delta_eq)
  have added: "map_of (delta_added ?d) k = Some v \<Longrightarrow> dict_get (r_held r) k = Some v" for k v
    using new_delta_added_set [of b r] D(4)
    by (auto simp: set_unreported dest!: map_of_SomeD)
  have kept: "dict_get (r_held r) k = Some v"
    if "dict_get (r_observed r) k = Some v" "k \<notin> set (delta_removed ?d)" for k v
    using that removed map_of_obsolete [OF D(5)] by auto
  show ?thesis
    unfolding new_delta_image [OF inv True] apply_delta_def map_le_def
    by (auto simp: restrict_map_def map_add_def added kept split: option.splits if_splits)
qed (simp add: emit_delta_observed_gap)

lemma distinct_emit_delta_observed:
  assumes "reporter_inv eb r"
  shows "distinct (dict_keys (r_observed (emit_delta b r)))"
  using reporter_invD(4,5) [OF assms]
  by (cases "delta_fits b r")
    (simp_all add: emit_delta_observed_fits emit_delta_observed_gap distinct_fold_set distinct_fold_pop)

lemma list_all_submap:
  assumes "list_all P b" "distinct (dict_keys a)" "map_of a \<subseteq>\<^sub>m map_of b"
  shows "list_all P a"
proof -
  have "x \<in> set b" if "x \<in> set a" for x
  proof -
    obtain k v where x: "x = (k, v)" by force
    then have "map_of a k = Some v" using that assms(2) by simp
    then have "map_of b k = Some v" using assms(3) by (auto simp: map_le_def dom_def)
    then show ?thesis unfolding x by (rule map_of_SomeD)
  qed
  then show ?thesis using assms(1) by (auto simp: list_all_iff)
qed

lemma new_delta_wf:
  assumes inv: "reporter_inv eb r" and b: "0 < b" "b \<le> r_max_report_entries r"
  shows "delta_wf (r_max_report_entries r) (new_delta b r)"
proof -
  let ?d = "new_delta b r"
  note D = reporter_invD [OF inv]
  have seq: "0 \<le> delta_base ?d" "delta_sequence ?d = delta_base ?d + 1"
    using D(13) by (simp_all add: new_delta_eq emit_delta_sequence)
  have held: "set (delta_added ?d) \<subseteq> set (r_held r)"
    using new_delta_added_set [of b r] by (auto simp: set_unreported)
  then have added: "list_all valid_entry (delta_added ?d)" using D(8) by (auto simp: list_all_iff)
  have "set (delta_removed ?d) \<subseteq> fst ` set (r_observed r)"
    by (auto simp: new_delta_eq obsolete_def)
  then have removed: "list_all is_digest (delta_removed ?d)"
    using D(9) by (fastforce simp: list_all_iff)
  have disj: "fst ` set (delta_added ?d) \<inter> set (delta_removed ?d) = {}"
    using new_delta_added_set [of b r] map_of_obsolete [OF D(5)]
    by (auto simp: set_unreported new_delta_eq split: if_splits)
  have "int (length (delta_added ?d) + length (delta_removed ?d)) \<le> b"
    using b by (auto simp: new_delta_eq delta_fits_def)
  then show ?thesis
    using seq added removed disj b new_delta_distinct [OF D(4)] distinct_obsolete [OF D(5)]
    by (auto simp: delta_wf_def) (auto simp: new_delta_eq)
qed

lemma emit_delta_inv:
  assumes inv: "reporter_inv eb r" and b: "0 < b" "b \<le> r_max_report_entries r" and "r_dirty r"
  shows "reporter_inv eb (emit_delta b r)"
proof -
  let ?r = "emit_delta b r"
  note D = reporter_invD [OF inv]
  have len: "length (r_observed ?r) \<le> length (r_held r)"
    using distinct_emit_delta_observed [OF inv] D(4) emit_delta_submap [OF inv] by (rule submap_length_le)
  have "int (length (r_observed ?r)) * eb \<le> int (length (r_held r)) * eb"
    using len D(1) by (intro mult_right_mono) auto
  then have bound: "int (length (r_observed ?r)) * eb \<le> r_max_bytes r" using D(6) by linarith
  have hist: "delta_wf (r_max_report_entries r) d \<and> delta_sequence d \<le> r_sequence ?r"
    if "d \<in> set (r_history ?r)" for d
  proof (cases "d = new_delta b r")
    case True
    then show ?thesis using new_delta_wf [OF inv b] by (simp add: new_delta_eq)
  next
    case False
    then have "d \<in> set (r_history r)" using that set_emit_delta_history [of b r] by blast
    then show ?thesis using D(17,18) [of d] by (simp add: emit_delta_sequence)
  qed
  have "0 < length (r_history ?r)" using emit_delta_history_nonempty by simp
  then show ?thesis
    using inv assms(4) bound hist distinct_emit_delta_observed [OF inv]
      list_all_submap [OF D(8) distinct_emit_delta_observed [OF inv] emit_delta_submap [OF inv]]
    by (auto simp: reporter_inv_def emit_delta_sequence emit_delta_cursor)
qed

lemma next_report_InrE:
  assumes "next_report b r = Inr (rep, r')"
  obtains ra i c k where "0 < b" "b \<le> r_max_report_entries r"
    "ra = (if r_dirty r \<and> \<not> dict_equal (r_held r) (r_observed r) then emit_delta b r else r)"
    "rep_checkpoint rep = checkpoint_page b ra"
    "rep_delta rep = (if r_history ra = [] then None
        else Some (r_history ra ! nat (r_delta_cursor ra mod int (length (r_history ra)))))"
    "rep_rank rep = r_rank r" "rep_generation rep = r_generation r" "rep_epoch rep = r_epoch r"
    "r' = ra\<lparr>r_dirty := length (r_held ra) \<noteq> length (r_observed ra),
             r_checkpoint_index := i, r_checkpoint_cycle := c, r_delta_cursor := k\<rparr>"
    "0 \<le> r_checkpoint_index ra \<Longrightarrow> 0 \<le> i"
    "0 \<le> r_checkpoint_cycle ra \<Longrightarrow> 0 \<le> c"
    "0 \<le> r_delta_cursor ra \<Longrightarrow> 0 \<le> k"
proof -
  let ?r1 = "if r_dirty r \<and> \<not> dict_equal (r_held r) (r_observed r) then emit_delta b r else r"
  let ?wrap = "ck_count (checkpoint_page b ?r1) \<le> r_checkpoint_index ?r1 + 1"
  show thesis
    by (rule that [where ra = ?r1 and i = "if ?wrap then 0 else r_checkpoint_index ?r1 + 1"
          and c = "if ?wrap then r_checkpoint_cycle ?r1 + 1 else r_checkpoint_cycle ?r1"
          and k = "if r_history ?r1 = [] then r_delta_cursor ?r1
             else (r_delta_cursor ?r1 + 1) mod int (length (r_history ?r1))"])
      (use assms in \<open>auto simp: next_report_def Let_def split: if_splits\<close>)
qed

lemma next_report_held: "next_report b r = Inr (rep, r') \<Longrightarrow> r_held r' = r_held r"
  by (erule next_report_InrE) (simp split: if_splits)

text \<open>The image a report leaves behind is part of what the worker holds at that moment.\<close>

lemma next_report_observed:
  assumes inv: "reporter_inv eb r" and "next_report b r = Inr (rep, r')"
  shows "dict_get (r_observed r') \<subseteq>\<^sub>m dict_get (r_held r')"
  using assms(2)
proof (rule next_report_InrE)
  fix r1 i c k
  assume r1: "r1 = (if r_dirty r \<and> \<not> dict_equal (r_held r) (r_observed r) then emit_delta b r else r)"
    and r': "r' = r1\<lparr>r_dirty := length (r_held r1) \<noteq> length (r_observed r1),
             r_checkpoint_index := i, r_checkpoint_cycle := c, r_delta_cursor := k\<rparr>"
  have obs: "r_observed r' = r_observed r1" and held: "r_held r' = r_held r1"
    by (simp_all add: r')
  show ?thesis
  proof (cases "r_dirty r \<and> \<not> dict_equal (r_held r) (r_observed r)")
    case True
    then show ?thesis using emit_delta_submap [OF inv] obs held r1 by simp
  next
    case False
    then have "dict_get (r_held r) = dict_get (r_observed r)"
      using reporter_invD(4,5,10) [OF inv] by (auto simp: dict_equal_iff)
    moreover have "r1 = r" using False r1 by auto
    ultimately show ?thesis using obs held by simp
  qed
qed

lemma next_report_inv:
  assumes inv: "reporter_inv eb r" and nr: "next_report b r = Inr (rep, r')"
  shows "reporter_inv eb r'"
  using nr
proof (rule next_report_InrE)
  fix r1 i c k
  assume b: "0 < b" "b \<le> r_max_report_entries r"
    and r1: "r1 = (if r_dirty r \<and> \<not> dict_equal (r_held r) (r_observed r) then emit_delta b r else r)"
    and r': "r' = r1\<lparr>r_dirty := length (r_held r1) \<noteq> length (r_observed r1),
             r_checkpoint_index := i, r_checkpoint_cycle := c, r_delta_cursor := k\<rparr>"
    and nonneg: "0 \<le> r_checkpoint_index r1 \<Longrightarrow> 0 \<le> i"
      "0 \<le> r_checkpoint_cycle r1 \<Longrightarrow> 0 \<le> c"
      "0 \<le> r_delta_cursor r1 \<Longrightarrow> 0 \<le> k"
  have inv1: "reporter_inv eb r1"
    using inv b emit_delta_inv [OF inv b] by (auto simp: r1)
  have obs: "r_observed r' = r_observed r1" and held: "r_held r' = r_held r1"
    by (simp_all add: r')
  have "dict_get (r_held r1) = dict_get (r_observed r1)"
    if "length (r_held r1) = length (r_observed r1)"
    using submap_same_length [of "r_observed r1" "r_held r1"] that reporter_invD(4,5) [OF inv1]
      next_report_observed [OF inv nr] obs held by simp
  then show ?thesis
    using inv1 nonneg by (auto simp: r' reporter_inv_def)
qed

lemma next_report_sequence:
  assumes "reporter_inv eb r" "next_report b r = Inr (rep, r')"
  shows "ck_sequence (rep_checkpoint rep) = r_sequence r'"
    and "\<forall>(k, v) \<in> set (ck_entries (rep_checkpoint rep)). dict_get (r_observed r') k = Some v"
    and "\<And>d. rep_delta rep = Some d \<Longrightarrow> d \<in> set (r_history r')"
proof -
  from assms(2) obtain r1 i c k where b: "0 < b" "b \<le> r_max_report_entries r"
    and r1: "r1 = (if r_dirty r \<and> \<not> dict_equal (r_held r) (r_observed r) then emit_delta b r else r)"
    and ck: "rep_checkpoint rep = checkpoint_page b r1"
    and delta: "rep_delta rep = (if r_history r1 = [] then None
        else Some (r_history r1 ! nat (r_delta_cursor r1 mod int (length (r_history r1)))))"
    and r': "r' = r1\<lparr>r_dirty := length (r_held r1) \<noteq> length (r_observed r1),
             r_checkpoint_index := i, r_checkpoint_cycle := c, r_delta_cursor := k\<rparr>"
    by (rule next_report_InrE) blast
  have same: "r_observed r' = r_observed r1" "r_sequence r' = r_sequence r1" "r_history r' = r_history r1"
    by (simp_all add: r')
  have inv1: "reporter_inv eb r1"
    using assms(1) b emit_delta_inv [OF assms(1) b] by (auto simp: r1)
  note D1 = reporter_invD [OF inv1]
  show "ck_sequence (rep_checkpoint rep) = r_sequence r'"
    using D1(12) by (simp add: ck same checkpoint_page_def Let_def)
  have "set (ck_entries (rep_checkpoint rep)) \<subseteq> set (r_observed r1)"
    using D1(11) by (auto simp: ck checkpoint_page_def Let_def dest!: in_set_takeD in_set_dropD)
  then show "\<forall>(k, v) \<in> set (ck_entries (rep_checkpoint rep)). dict_get (r_observed r') k = Some v"
    using D1(5) by (auto simp: same)
  show "d \<in> set (r_history r')" if "rep_delta rep = Some d" for d
  proof -
    have "r_history r1 \<noteq> []" and d: "d = r_history r1 ! nat (r_delta_cursor r1 mod int (length (r_history r1)))"
      using that delta by (auto split: if_splits)
    then have "nat (r_delta_cursor r1 mod int (length (r_history r1))) < length (r_history r1)"
      using pos_mod_bound [of "int (length (r_history r1))" "r_delta_cursor r1"]
      by (simp add: nat_less_iff)
    then show ?thesis using d same by simp
  qed
qed

lemma next_report_cases:
  assumes "next_report b r = Inr (rep, r')"
  obtains (quiet) "r_sequence r' = r_sequence r" "r_observed r' = r_observed r" "r_history r' = r_history r"
  | (mutation) "r_dirty r" "0 < b" "b \<le> r_max_report_entries r"
      "r_sequence r' = r_sequence (emit_delta b r)" "r_observed r' = r_observed (emit_delta b r)"
      "r_history r' = r_history (emit_delta b r)"
  using assms by (rule next_report_InrE) (auto split: if_splits)

section \<open>Invariant of a run\<close>

text \<open>The law every sent or retained delta satisfies: applied to the image of its base it gives the
  image of its sequence.  The base of a deliberate gap has no image.\<close>

definition delta_law :: "(int \<Rightarrow> (string \<Rightarrow> int option) option) \<Rightarrow> inventory_delta \<Rightarrow> bool" where
  "delta_law img d \<longleftrightarrow>
     (\<forall>m. img (delta_base d) = Some m \<longrightarrow> img (delta_sequence d) = Some (apply_delta d m))"

definition page_law :: "(int \<Rightarrow> (string \<Rightarrow> int option) option) \<Rightarrow> inventory_checkpoint \<Rightarrow> bool" where
  "page_law img ck \<longleftrightarrow>
     (\<exists>m. img (ck_sequence ck) = Some m \<and> (\<forall>(k, v) \<in> set (ck_entries ck). m k = Some v))"

definition source_inv :: "int \<Rightarrow> source \<Rightarrow> bool" where
  "source_inv eb s \<longleftrightarrow>
     (let r = src_reporter s; img = src_image s in
       reporter_inv eb r
       \<and> img (r_sequence r) = Some (dict_get (r_observed r))
       \<and> (\<forall>n \<in> dom img. n \<le> r_sequence r)
       \<and> (\<forall>d. (d \<in> set (r_history r) \<or> (\<exists>rep \<in> set (src_sent s). rep_delta rep = Some d)) \<longrightarrow>
             delta_sequence d \<le> r_sequence r \<and> delta_base d < delta_sequence d \<and> delta_law img d)
       \<and> (\<forall>rep \<in> set (src_sent s).
             rep_rank rep = r_rank r \<and> rep_generation rep = r_generation r \<and> rep_epoch rep = r_epoch r
             \<and> page_law img (rep_checkpoint rep)))"

lemma source_invD:
  assumes "source_inv eb s"
  shows "reporter_inv eb (src_reporter s)"
    "src_image s (r_sequence (src_reporter s)) = Some (dict_get (r_observed (src_reporter s)))"
    "\<And>n. src_image s n \<noteq> None \<Longrightarrow> n \<le> r_sequence (src_reporter s)"
    "\<And>d. d \<in> set (r_history (src_reporter s)) \<Longrightarrow> delta_law (src_image s) d"
    "\<And>rep d. rep \<in> set (src_sent s) \<Longrightarrow> rep_delta rep = Some d \<Longrightarrow> delta_law (src_image s) d"
    "\<And>d. d \<in> set (r_history (src_reporter s)) \<or> (\<exists>rep \<in> set (src_sent s). rep_delta rep = Some d) \<Longrightarrow>
         delta_sequence d \<le> r_sequence (src_reporter s) \<and> delta_base d < delta_sequence d"
    "\<And>rep. rep \<in> set (src_sent s) \<Longrightarrow> page_law (src_image s) (rep_checkpoint rep)"
    "\<And>rep. rep \<in> set (src_sent s) \<Longrightarrow> rep_rank rep = r_rank (src_reporter s)
        \<and> rep_generation rep = r_generation (src_reporter s) \<and> rep_epoch rep = r_epoch (src_reporter s)"
  using assms unfolding source_inv_def Let_def by blast+

lemma delta_law_extend:
  assumes "delta_law img d" "delta_base d < delta_sequence d" "delta_sequence d < n"
  shows "delta_law (img(n \<mapsto> m)) d"
  using assms by (auto simp: delta_law_def)

lemma page_law_extend:
  assumes "page_law img ck" "img n = None"
  shows "page_law (img(n \<mapsto> m)) ck"
  using assms by (auto simp: page_law_def)

lemma source_inv_report_quiet:
  assumes inv: "source_inv eb s" and nr: "next_report b (src_reporter s) = Inr (rep, r')"
    and same: "r_sequence r' = r_sequence (src_reporter s)" "r_observed r' = r_observed (src_reporter s)"
      "r_history r' = r_history (src_reporter s)"
  shows "source_inv eb (source_step eb (Report b) s)"
proof -
  note S = source_invD [OF inv] and Q = next_report_sequence [OF source_invD(1) [OF inv] nr]
  have img: "(src_image s)(r_sequence r' \<mapsto> dict_get (r_observed r')) = src_image s"
    using S(2) same by (simp add: fun_upd_idem)
  have ident: "rep_rank rep = r_rank r'" "rep_generation rep = r_generation r'"
      "rep_epoch rep = r_epoch r'" "r_rank r' = r_rank (src_reporter s)"
      "r_generation r' = r_generation (src_reporter s)" "r_epoch r' = r_epoch (src_reporter s)"
    using nr by (auto elim!: next_report_InrE split: if_splits)
  have page: "page_law (src_image s) (rep_checkpoint rep)"
    using S(2) Q(1,2) same by (auto simp: page_law_def)
  have old: "d \<in> set (r_history (src_reporter s)) \<or> (\<exists>q \<in> set (src_sent s). rep_delta q = Some d)"
    if "d \<in> set (r_history r') \<or> (\<exists>q \<in> set (src_sent s @ [rep]). rep_delta q = Some d)" for d
    using that Q(3) same(3) by auto
  have deltas: "\<forall>d. (d \<in> set (r_history r') \<or> (\<exists>q \<in> set (src_sent s @ [rep]). rep_delta q = Some d)) \<longrightarrow>
       delta_sequence d \<le> r_sequence r' \<and> delta_base d < delta_sequence d \<and> delta_law (src_image s) d"
    using old S(4-6) same(1) by metis
  have "\<forall>q \<in> set (src_sent s @ [rep]). rep_rank q = r_rank r' \<and> rep_generation q = r_generation r'
      \<and> rep_epoch q = r_epoch r' \<and> page_law (src_image s) (rep_checkpoint q)"
    using S(7,8) ident page by auto
  moreover have "\<forall>n \<in> dom (src_image s). n \<le> r_sequence r'" using S(3) same(1) by auto
  moreover have "source_step eb (Report b) s = s\<lparr>src_reporter := r', src_sent := src_sent s @ [rep]\<rparr>"
    using img by (simp add: nr)
  moreover have "src_image s (r_sequence r') = Some (dict_get (r_observed r'))" using S(2) same by simp
  ultimately show ?thesis
    using next_report_inv [OF S(1) nr] deltas by (simp add: source_inv_def Let_def)
qed

lemma source_inv_report_mutation:
  assumes inv: "source_inv eb s" and nr: "next_report b (src_reporter s) = Inr (rep, r')"
    and b: "0 < b" "b \<le> r_max_report_entries (src_reporter s)"
    and same: "r_sequence r' = r_sequence (emit_delta b (src_reporter s))"
      "r_observed r' = r_observed (emit_delta b (src_reporter s))"
      "r_history r' = r_history (emit_delta b (src_reporter s))"
  shows "source_inv eb (source_step eb (Report b) s)"
proof -
  let ?r = "src_reporter s" and ?d = "new_delta b (src_reporter s)"
  let ?img = "(src_image s)(r_sequence r' \<mapsto> dict_get (r_observed r'))"
  note S = source_invD [OF inv] and Q = next_report_sequence [OF source_invD(1) [OF inv] nr]
  have later: "r_sequence ?r < r_sequence r'" by (simp add: same emit_delta_sequence)
  then have fresh: "src_image s (r_sequence r') = None" using S(3) by fastforce
  have dseq: "delta_sequence ?d = r_sequence r'" "delta_base ?d = r_sequence r' - 1"
    by (simp_all add: new_delta_eq same)
  have new: "delta_law ?img ?d"
  proof (cases "delta_fits b ?r")
    case True
    then have "delta_base ?d = r_sequence ?r" by (simp add: dseq same emit_delta_sequence)
    then show ?thesis
      using S(2) later new_delta_image [OF S(1) True] by (simp add: delta_law_def dseq(1) same(2))
  next
    case False
    then have base: "delta_base ?d = r_sequence ?r + 1" by (simp add: dseq same emit_delta_sequence)
    then have "src_image s (delta_base ?d) = None" using S(3) by fastforce
    moreover have "delta_base ?d \<noteq> r_sequence r'" using dseq by simp
    ultimately show ?thesis by (simp add: delta_law_def)
  qed
  have old: "delta_sequence d \<le> r_sequence r' \<and> delta_base d < delta_sequence d \<and> delta_law ?img d"
    if "d \<in> set (r_history ?r) \<or> (\<exists>rep \<in> set (src_sent s). rep_delta rep = Some d)" for d
  proof -
    have seq: "delta_sequence d \<le> r_sequence ?r" "delta_base d < delta_sequence d" using S(6) [OF that] by auto
    moreover have "delta_law (src_image s) d" using that S(4,5) by blast
    ultimately show ?thesis using later by (auto intro: delta_law_extend)
  qed
  have hist: "delta_sequence d \<le> r_sequence r' \<and> delta_base d < delta_sequence d \<and> delta_law ?img d"
    if "d \<in> set (r_history r')" for d
    using that old new dseq set_emit_delta_history [of b ?r] unfolding same(3) by fastforce
  have ident: "rep_rank rep = r_rank r'" "rep_generation rep = r_generation r'"
      "rep_epoch rep = r_epoch r'" "r_rank r' = r_rank ?r"
      "r_generation r' = r_generation ?r" "r_epoch r' = r_epoch ?r"
    using nr by (auto elim!: next_report_InrE split: if_splits)
  have page: "page_law ?img (rep_checkpoint rep)" using Q(1,2) by (auto simp: page_law_def)
  have pages: "page_law ?img (rep_checkpoint q)" if "q \<in> set (src_sent s)" for q
    using S(7) [OF that] fresh by (rule page_law_extend)
  have dom: "\<forall>n \<in> dom ?img. n \<le> r_sequence r'" using S(3) later by fastforce
  have deltas: "\<forall>d. (d \<in> set (r_history r') \<or> (\<exists>q \<in> set (src_sent s @ [rep]). rep_delta q = Some d)) \<longrightarrow>
       delta_sequence d \<le> r_sequence r' \<and> delta_base d < delta_sequence d \<and> delta_law ?img d"
    using hist old Q(3) by (metis Un_iff empty_iff empty_set set_ConsD set_append)
  have "\<forall>q \<in> set (src_sent s @ [rep]). rep_rank q = r_rank r' \<and> rep_generation q = r_generation r'
      \<and> rep_epoch q = r_epoch r' \<and> page_law ?img (rep_checkpoint q)"
    using S(8) ident page pages by auto
  then show ?thesis
    using next_report_inv [OF S(1) nr] dom deltas by (simp add: source_inv_def Let_def nr)
qed

lemma source_inv_step: "source_inv eb s \<Longrightarrow> source_inv eb (source_step eb op s)"
proof (induction op)
  case (Add e n)
  have frame: "r_sequence r' = r_sequence r \<and> r_observed r' = r_observed r \<and> r_history r' = r_history r
      \<and> r_rank r' = r_rank r \<and> r_generation r' = r_generation r \<and> r_epoch r' = r_epoch r"
    if "add eb e n r = Inr r'" for r r'
    using that by (auto simp: add_def Let_def and_then_Inr_iff)
  show ?case
    using Add frame add_inv by (auto simp: source_inv_def Let_def split: sum.splits)
next
  case (Remove e)
  then show ?case using remove_inv by (auto simp: source_inv_def Let_def remove_def)
next
  case (Replace es)
  have frame: "r_sequence r' = r_sequence r \<and> r_observed r' = r_observed r \<and> r_history r' = r_history r
      \<and> r_rank r' = r_rank r \<and> r_generation r' = r_generation r \<and> r_epoch r' = r_epoch r"
    if "replace eb es r = Inr r'" for r r'
    using that by (auto simp: replace_def Let_def and_then_Inr_iff)
  show ?case
    using Replace frame replace_inv by (auto simp: source_inv_def Let_def split: sum.splits)
next
  case (Report b)
  show ?case
  proof (cases "next_report b (src_reporter s)")
    case (Inl e)
    then show ?thesis using Report by simp
  next
    case (Inr p)
    obtain rep r' where "p = (rep, r')" by force
    with Inr have nr: "next_report b (src_reporter s) = Inr (rep, r')" by simp
    then show ?thesis
    proof (cases rule: next_report_cases)
      case quiet
      with Report nr show ?thesis by (rule source_inv_report_quiet)
    next
      case mutation
      show ?thesis by (rule source_inv_report_mutation [OF Report nr mutation(2-6)])
    qed
  qed
qed

lemma source_inv_run: "source_inv eb s \<Longrightarrow> source_inv eb (source_run eb ops s)"
  unfolding source_run_def by (induction ops arbitrary: s) (simp_all add: source_inv_step)

lemma source_inv_start:
  assumes "reporter_inv eb r" "r_history r = []"
  shows "source_inv eb (source_start r)"
  using startup_inv [OF assms(1)] assms(2)
  by (auto simp: source_inv_def source_start_def startup_def Let_def split: if_splits)

section \<open>A worker process and the contract of its reports\<close>

text \<open>
  \<open>register_kv_caches\<close> builds the reporter of a process, installs the scanned offers, applies the
  withdrawal markers and takes the startup inventory; then the process runs.
\<close>

record worker_config =
  wc_entry_bytes :: nat
  wc_rank :: int
  wc_generation :: string
  wc_epoch :: int
  wc_max_bytes :: int
  wc_max_report_entries :: int
  wc_offers :: "(string, int) dict"
  wc_withdrawn :: "string list"

definition wc_eb :: "worker_config \<Rightarrow> int" where
  "wc_eb w = int (Suc (wc_entry_bytes w))"

definition worker_reporter :: "worker_config \<Rightarrow> reporter result" where
  "worker_reporter w =
     and_then (InventoryReporter (wc_eb w) (wc_rank w) (wc_generation w) (wc_epoch w)
                 (wc_max_bytes w) (wc_max_report_entries w)) (\<lambda>r.
     and_then (replace (wc_eb w) (wc_offers w) r) (\<lambda>r.
     Inr (fold remove (wc_withdrawn w) r)))"

definition worker_source :: "worker_config \<Rightarrow> reporter_op list \<Rightarrow> source option" where
  "worker_source w ops =
     (case worker_reporter w of Inl _ \<Rightarrow> None
      | Inr r \<Rightarrow> Some (source_run (wc_eb w) ops (source_start r)))"

definition worker_startup :: "worker_config \<Rightarrow> entry list set" where
  "worker_startup w = (case worker_reporter w of Inl _ \<Rightarrow> {} | Inr r \<Rightarrow> {fst (startup r)})"

definition worker_image :: "worker_config \<Rightarrow> reporter_op list \<Rightarrow> int \<Rightarrow> (string \<Rightarrow> int option) option" where
  "worker_image w ops = (case worker_source w ops of None \<Rightarrow> (\<lambda>_. None) | Some s \<Rightarrow> src_image s)"

definition worker_sent :: "worker_config \<Rightarrow> reporter_op list \<Rightarrow> worker_report set" where
  "worker_sent w ops = (case worker_source w ops of None \<Rightarrow> {} | Some s \<Rightarrow> set (src_sent s))"

definition worker_held :: "worker_config \<Rightarrow> reporter_op list \<Rightarrow> string \<Rightarrow> int option" where
  "worker_held w ops =
     (case worker_source w ops of None \<Rightarrow> (\<lambda>_. None) | Some s \<Rightarrow> dict_get (r_held (src_reporter s)))"

text \<open>The report of a successful \<open>next_report(batch)\<close> after \<open>ops\<close>.\<close>

definition worker_latest :: "worker_config \<Rightarrow> reporter_op list \<Rightarrow> int \<Rightarrow> worker_report set" where
  "worker_latest w ops b =
     (case worker_source w ops of None \<Rightarrow> {}
      | Some s \<Rightarrow> (case next_report b (src_reporter s) of Inl _ \<Rightarrow> {} | Inr (rep, _) \<Rightarrow> {rep}))"

text \<open>
  What the scheduler relies on: the reports of one process generation, in any order, with losses
  and repetitions, describe the images of its sequence numbers.
\<close>

locale inventory_source =
  fixes rank :: int and generation :: string and epoch :: int
    and img :: "int \<Rightarrow> (string \<Rightarrow> int option) option"
    and sent :: "worker_report set"
    and startups :: "entry list set"
  assumes sent_identity: "rep \<in> sent \<Longrightarrow>
      rep_rank rep = rank \<and> rep_generation rep = generation \<and> rep_epoch rep = epoch"
    and sent_delta: "rep \<in> sent \<Longrightarrow> rep_delta rep = Some d \<Longrightarrow> delta_law img d"
    and sent_page: "rep \<in> sent \<Longrightarrow> page_law img (rep_checkpoint rep)"
    and sent_startup: "es \<in> startups \<Longrightarrow> \<exists>m. img 0 = Some m \<and> (\<forall>(k, v) \<in> set es. m k = Some v)"

text \<open>The newest report carries the highest sequence number, whose image the worker holds.\<close>

locale inventory_latest = inventory_source +
  fixes latest :: "worker_report set" and held :: "string \<Rightarrow> int option"
  assumes latest_sent: "rep \<in> latest \<Longrightarrow> rep \<in> sent"
    and latest_highest: "rep \<in> latest \<Longrightarrow> img n \<noteq> None \<Longrightarrow> n \<le> ck_sequence (rep_checkpoint rep)"
    and latest_held: "rep \<in> latest \<Longrightarrow> img (ck_sequence (rep_checkpoint rep)) = Some m \<Longrightarrow> m \<subseteq>\<^sub>m held"

lemma fold_remove_inv: "reporter_inv eb r \<Longrightarrow> reporter_inv eb (fold remove es r)"
  by (induction es arbitrary: r) (simp_all add: remove_inv)

lemma fold_remove_frame:
  "r_history (fold remove es r) = r_history r \<and> r_sequence (fold remove es r) = r_sequence r
   \<and> r_rank (fold remove es r) = r_rank r \<and> r_generation (fold remove es r) = r_generation r
   \<and> r_epoch (fold remove es r) = r_epoch r"
  by (induction es arbitrary: r) (simp_all add: remove_def)

lemma worker_reporter_Inr:
  assumes "worker_reporter w = Inr r"
  shows "reporter_inv (wc_eb w) r" "r_history r = []" "r_sequence r = 0"
    "r_rank r = wc_rank w" "r_generation r = wc_generation w" "r_epoch r = wc_epoch w"
proof -
  obtain r0 r1 where r0: "InventoryReporter (wc_eb w) (wc_rank w) (wc_generation w) (wc_epoch w)
                 (wc_max_bytes w) (wc_max_report_entries w) = Inr r0"
    and r1: "replace (wc_eb w) (wc_offers w) r0 = Inr r1" and r: "r = fold remove (wc_withdrawn w) r1"
    using assms by (auto simp: worker_reporter_def and_then_Inr_iff)
  have eb: "0 < wc_eb w" by (simp add: wc_eb_def)
  note inv0 = InventoryReporter_inv [OF eb r0]
  show "reporter_inv (wc_eb w) r"
    unfolding r by (intro fold_remove_inv replace_inv [OF inv0(1) r1])
  have "r_rank r0 = wc_rank w \<and> r_generation r0 = wc_generation w \<and> r_epoch r0 = wc_epoch w"
    using r0 by (auto simp: InventoryReporter_def and_then_Inr_iff split: if_splits)
  moreover have "r_history r1 = r_history r0 \<and> r_sequence r1 = r_sequence r0 \<and> r_rank r1 = r_rank r0
      \<and> r_generation r1 = r_generation r0 \<and> r_epoch r1 = r_epoch r0"
    using r1 by (auto simp: replace_def Let_def and_then_Inr_iff)
  ultimately show "r_history r = []" "r_sequence r = 0"
    "r_rank r = wc_rank w" "r_generation r = wc_generation w" "r_epoch r = wc_epoch w"
    using inv0 fold_remove_frame [of "wc_withdrawn w" r1] by (simp_all add: r)
qed

lemma source_step_identity:
  "r_rank (src_reporter (source_step eb op s)) = r_rank (src_reporter s)
   \<and> r_generation (src_reporter (source_step eb op s)) = r_generation (src_reporter s)
   \<and> r_epoch (src_reporter (source_step eb op s)) = r_epoch (src_reporter s)"
  by (cases op)
    (auto simp: add_def remove_def replace_def Let_def and_then_Inr_iff elim!: next_report_InrE
      split: sum.splits if_splits)

lemma source_run_identity:
  "r_rank (src_reporter (source_run eb ops s)) = r_rank (src_reporter s)
   \<and> r_generation (src_reporter (source_run eb ops s)) = r_generation (src_reporter s)
   \<and> r_epoch (src_reporter (source_run eb ops s)) = r_epoch (src_reporter s)"
  unfolding source_run_def by (induction ops arbitrary: s) (simp_all add: source_step_identity)

lemma source_step_image_0:
  assumes "source_inv eb s" "0 \<in> dom (src_image s)"
  shows "src_image (source_step eb op s) 0 = src_image s 0"
proof (cases op)
  case (Report b)
  show ?thesis
  proof (cases "next_report b (src_reporter s)")
    case (Inr p)
    obtain rep r' where "p = (rep, r')" by force
    with Inr have nr: "next_report b (src_reporter s) = Inr (rep, r')" by simp
    then show ?thesis
    proof (cases rule: next_report_cases)
      case quiet
      then show ?thesis using Report nr source_invD(2) [OF assms(1)] by auto
    next
      case mutation
      have "0 < r_sequence r'"
        using mutation reporter_invD(13) [OF source_invD(1) [OF assms(1)]]
        by (simp add: emit_delta_sequence)
      then show ?thesis using Report nr by simp
    qed
  qed (simp add: Report)
qed (auto split: sum.splits)

lemma source_run_image_0:
  assumes "source_inv eb s" "0 \<in> dom (src_image s)"
  shows "src_image (source_run eb ops s) 0 = src_image s 0"
  using assms unfolding source_run_def
proof (induction ops arbitrary: s)
  case (Cons op ops)
  have "src_image (source_step eb op s) 0 = src_image s 0"
    using Cons.prems by (rule source_step_image_0)
  with Cons source_inv_step show ?case by (simp add: domIff)
qed simp

lemma worker_source_Some:
  assumes "worker_source w ops = Some s"
  shows "source_inv (wc_eb w) s" and "r_rank (src_reporter s) = wc_rank w"
    and "r_generation (src_reporter s) = wc_generation w" and "r_epoch (src_reporter s) = wc_epoch w"
proof -
  obtain r where r: "worker_reporter w = Inr r" and s: "s = source_run (wc_eb w) ops (source_start r)"
    using assms by (auto simp: worker_source_def split: sum.splits)
  note R = worker_reporter_Inr [OF r]
  show "source_inv (wc_eb w) s" unfolding s by (intro source_inv_run source_inv_start R)
  show "r_rank (src_reporter s) = wc_rank w"
    and "r_generation (src_reporter s) = wc_generation w" and "r_epoch (src_reporter s) = wc_epoch w"
    using R source_run_identity [of "wc_eb w" ops "source_start r"]
    by (simp_all add: s source_start_def startup_def Let_def)
qed

lemma worker_startup_image:
  assumes "es \<in> worker_startup w"
  shows "\<exists>m. worker_image w ops 0 = Some m \<and> (\<forall>(k, v) \<in> set es. m k = Some v)"
proof -
  obtain r where r: "worker_reporter w = Inr r" and es: "es = sort (r_held r)"
    using assms by (auto simp: worker_startup_def startup_def Let_def split: sum.splits)
  note R = worker_reporter_Inr [OF r]
  have "src_image (source_run (wc_eb w) ops (source_start r)) 0 = src_image (source_start r) 0"
    using R(3) by (intro source_run_image_0 source_inv_start R) (simp add: source_start_def)
  then have "worker_image w ops 0 = Some (dict_get (r_held r))"
    using R(3) by (simp add: worker_image_def worker_source_def r source_start_def)
  moreover have "\<forall>(k, v) \<in> set es. dict_get (r_held r) k = Some v"
    using reporter_invD(4) [OF R(1)] by (auto simp: es)
  ultimately show ?thesis by blast
qed

interpretation worker: inventory_source
  "wc_rank w" "wc_generation w" "wc_epoch w" "worker_image w ops" "worker_sent w ops" "worker_startup w"
  for w ops
proof unfold_locales
  fix rep
  assume "rep \<in> worker_sent w ops"
  then obtain s where s: "worker_source w ops = Some s" and rep: "rep \<in> set (src_sent s)"
    by (auto simp: worker_sent_def split: option.splits)
  note W = worker_source_Some [OF s] and S = source_invD [OF worker_source_Some(1) [OF s]]
  show "rep_rank rep = wc_rank w \<and> rep_generation rep = wc_generation w \<and> rep_epoch rep = wc_epoch w"
    using S(8) [OF rep] W by simp
  show "page_law (worker_image w ops) (rep_checkpoint rep)"
    using S(7) [OF rep] by (simp add: worker_image_def s)
  show "delta_law (worker_image w ops) d" if "rep_delta rep = Some d" for d
    using S(5) [OF rep that] by (simp add: worker_image_def s)
qed (rule worker_startup_image)

interpretation latest: inventory_latest
  "wc_rank w" "wc_generation w" "wc_epoch w" "worker_image w (ops @ [Report b])"
  "worker_sent w (ops @ [Report b])" "worker_startup w"
  "worker_latest w ops b" "worker_held w (ops @ [Report b])"
  for w ops b
proof unfold_locales
  fix rep
  assume "rep \<in> worker_latest w ops b"
  then obtain s r' where s: "worker_source w ops = Some s"
    and nr: "next_report b (src_reporter s) = Inr (rep, r')"
    by (auto simp: worker_latest_def split: option.splits sum.splits)
  let ?s' = "source_step (wc_eb w) (Report b) s"
  have s': "worker_source w (ops @ [Report b]) = Some ?s'"
    using s by (auto simp: worker_source_def source_run_def split: sum.splits)
  have r': "src_reporter ?s' = r'" "src_sent ?s' = src_sent s @ [rep]" by (simp_all add: nr)
  note S = source_invD [OF worker_source_Some(1) [OF s]]
    and S' = source_invD [OF worker_source_Some(1) [OF s']]
    and Q = next_report_sequence [OF source_invD(1) [OF worker_source_Some(1) [OF s]] nr]
  show "rep \<in> worker_sent w (ops @ [Report b])"
    using r' by (simp add: worker_sent_def s')
  show "n \<le> ck_sequence (rep_checkpoint rep)" if "worker_image w (ops @ [Report b]) n \<noteq> None" for n
    using S'(3) that Q(1) r'(1) by (simp only: worker_image_def s' option.case)
  show "m \<subseteq>\<^sub>m worker_held w (ops @ [Report b])"
    if "worker_image w (ops @ [Report b]) (ck_sequence (rep_checkpoint rep)) = Some m" for m
    using S'(2) that Q(1) r'(1) next_report_observed [OF S(1) nr]
    by (simp only: worker_image_def worker_held_def s' option.case option.inject)
qed

end
