(* ===== verification/Quorum_Catalog.thy ===== *)
theory Quorum_Catalog
  imports Quorum_Reporter
begin

text \<open>
  \<open>quorum.py\<close>, scheduler side: \<open>QuorumCatalog\<close>, which merges the reports of every rank and
  exposes an entry only while all ranks hold it with the same span.  The per-rank dictionaries of
  the class are maps on ranks; the reverse index \<open>_entry_ranks\<close>, the recency order and the cached
  quorum count are kept exactly, because the correctness of a lookup rests on their agreement.
  An operation that may raise returns its outcome together with the catalog, since the source
  mutates the catalog before some of its raises.
\<close>

section \<open>State\<close>

record pending_checkpoint =
  pd_sequence :: int
  pd_cycle :: int
  pd_count :: int
  pd_held_count :: int
  pd_pages :: "(int, entry list) dict"
  pd_entry_count :: int

record catalog =
  c_expected :: "int set"
  c_max_bytes :: int
  c_max_report_entries :: int
  c_generation :: "int \<Rightarrow> (string \<times> int) option"
  c_generation_history :: "int \<Rightarrow> (string \<times> int) list"
  c_sequences :: "int \<Rightarrow> int option"
  c_rank_entries :: "int \<Rightarrow> (string, int) dict"
  c_entry_ranks :: "(string, int set) dict"
  c_pending :: "int \<Rightarrow> pending_checkpoint option"
  c_desynchronized :: "int set"
  c_generation_conflicts :: "int set"
  c_recency :: "string list"
  c_generation_changes_total :: int
  c_quorum_count :: "int option"

definition QuorumCatalog :: "int \<Rightarrow> int list \<Rightarrow> int \<Rightarrow> int \<Rightarrow> catalog result" where
  "QuorumCatalog eb expected_ranks max_bytes max_report_entries =
     (let ranks = take (MAX_INVENTORY_REPORTS + 1) expected_ranks in
      if ranks = [] \<or> (\<exists>rank \<in> set ranks. rank < 0)
         \<or> MAX_INVENTORY_REPORTS < length ranks \<or> \<not> distinct ranks
         \<or> sort ranks \<noteq> [0..int (length ranks) - 1]
      then Inl ValueError
      else if max_bytes \<le> 0 then Inl ValueError
      else if max_report_entries \<le> 0 then Inl ValueError
      else and_then (inventory_capacity eb max_bytes) (\<lambda>_.
        Inr \<lparr>c_expected = set ranks, c_max_bytes = max_bytes,
             c_max_report_entries = max_report_entries, c_generation = (\<lambda>_. None),
             c_generation_history = (\<lambda>_. []), c_sequences = (\<lambda>_. None),
             c_rank_entries = (\<lambda>_. []), c_entry_ranks = [], c_pending = (\<lambda>_. None),
             c_desynchronized = set ranks, c_generation_conflicts = {}, c_recency = [],
             c_generation_changes_total = 0, c_quorum_count = None\<rparr>))"

section \<open>The reverse index\<close>

text \<open>One iteration of the loop of \<open>_withdraw_rank\<close>.\<close>

definition discard_holder :: "int \<Rightarrow> string \<Rightarrow> catalog \<Rightarrow> catalog" where
  "discard_holder rank entry_id c =
     (case dict_get (c_entry_ranks c) entry_id of
        None \<Rightarrow> c
      | Some ranks \<Rightarrow>
          if ranks - {rank} = {}
          then c\<lparr>c_entry_ranks := dict_pop entry_id (c_entry_ranks c),
                 c_recency := removeAll entry_id (c_recency c)\<rparr>
          else c\<lparr>c_entry_ranks := dict_set entry_id (ranks - {rank}) (c_entry_ranks c)\<rparr>)"

definition withdraw_rank :: "int \<Rightarrow> catalog \<Rightarrow> catalog" where
  "withdraw_rank rank c =
     (let c1 = fold (discard_holder rank) (dict_keys (c_rank_entries c rank)) (c\<lparr>c_quorum_count := None\<rparr>)
      in c1\<lparr>c_rank_entries := (c_rank_entries c1)(rank := [])\<rparr>)"

definition touch :: "string \<Rightarrow> catalog \<Rightarrow> catalog" where
  "touch entry_id c = c\<lparr>c_recency := removeAll entry_id (c_recency c) @ [entry_id]\<rparr>"

text \<open>One iteration of the loop of \<open>_replace_rank\<close>.\<close>

definition add_holder :: "int \<Rightarrow> string \<Rightarrow> catalog \<Rightarrow> catalog" where
  "add_holder rank entry_id c =
     touch entry_id
       (c\<lparr>c_entry_ranks := dict_set entry_id
            (insert rank (case dict_get (c_entry_ranks c) entry_id of None \<Rightarrow> {} | Some ranks \<Rightarrow> ranks))
            (c_entry_ranks c)\<rparr>)"

text \<open>The body of the loop of \<open>_enforce_bound\<close>: the least recently used entry leaves every rank.\<close>

definition evict_entry :: "string \<Rightarrow> string list \<Rightarrow> catalog \<Rightarrow> catalog" where
  "evict_entry entry_id recency c =
     (let ranks = (case dict_get (c_entry_ranks c) entry_id of None \<Rightarrow> {} | Some ranks \<Rightarrow> ranks)
      in c\<lparr>c_quorum_count := None, c_recency := recency,
           c_entry_ranks := dict_pop entry_id (c_entry_ranks c),
           c_rank_entries := (\<lambda>rank. if rank \<in> ranks then dict_pop entry_id (c_rank_entries c rank)
                                     else c_rank_entries c rank)\<rparr>)"

fun evict_oldest :: "int \<Rightarrow> string list \<Rightarrow> catalog \<Rightarrow> catalog" where
  "evict_oldest eb [] c = c"
| "evict_oldest eb (entry_id # recency) c =
     (if int (length (c_entry_ranks c)) * eb > c_max_bytes c
      then evict_oldest eb recency (evict_entry entry_id recency c)
      else c)"

definition enforce_bound :: "int \<Rightarrow> catalog \<Rightarrow> catalog" where
  "enforce_bound eb c = evict_oldest eb (c_recency c) c"

definition install_rank :: "int \<Rightarrow> int \<Rightarrow> (string, int) dict \<Rightarrow> catalog \<Rightarrow> catalog" where
  "install_rank eb rank entries c =
     (let c1 = withdraw_rank rank c;
          c2 = c1\<lparr>c_rank_entries := (c_rank_entries c1)(rank := entries)\<rparr>;
          c3 = fold (add_holder rank) (dict_keys entries) c2;
          c4 = c3\<lparr>c_desynchronized := c_desynchronized c3 - {rank}\<rparr>
      in enforce_bound eb c4)"

definition replace_rank :: "int \<Rightarrow> int \<Rightarrow> (string, int) dict \<Rightarrow> catalog \<Rightarrow> unit result \<times> catalog" where
  "replace_rank eb rank entries c =
     (case validate_entries entries of
        Inl e \<Rightarrow> (Inl e, c)
      | Inr _ \<Rightarrow> (Inr (), install_rank eb rank entries c))"

section \<open>Process generations\<close>

definition validate_generation_identity :: "string \<Rightarrow> int \<Rightarrow> unit result" where
  "validate_generation_identity generation epoch = require (valid_generation generation epoch) ValueError"

datatype disposition = Initial | Stale | Conflict | Newer | Current

definition generation_disposition :: "int \<Rightarrow> string \<Rightarrow> int \<Rightarrow> catalog \<Rightarrow> disposition" where
  "generation_disposition rank generation epoch c =
     (case c_generation c rank of
        None \<Rightarrow> Initial
      | Some (previous_generation, previous_epoch) \<Rightarrow>
          if epoch < previous_epoch
          then (if (generation, epoch) \<in> set (c_generation_history c rank) then Stale else Conflict)
          else if epoch > previous_epoch then Newer
          else if generation \<noteq> previous_generation \<or> rank \<in> c_generation_conflicts c then Conflict
          else Current)"

text \<open>The counter and history updates of \<open>_adopt_generation\<close>.\<close>

definition record_generation :: "int \<Rightarrow> string \<times> int \<Rightarrow> catalog \<Rightarrow> catalog" where
  "record_generation rank identity c =
     (case c_generation c rank of
        None \<Rightarrow> c
      | Some previous \<Rightarrow>
          if previous = identity then c
          else c\<lparr>c_generation_changes_total := c_generation_changes_total c + 1,
                 c_generation_history :=
                   (if previous \<in> set (c_generation_history c rank) then c_generation_history c
                    else (c_generation_history c)(rank :=
                       deque_append GENERATION_HISTORY_LIMIT (c_generation_history c rank) previous))\<rparr>)"

definition adopt_generation :: "int \<Rightarrow> string \<Rightarrow> int \<Rightarrow> catalog \<Rightarrow> catalog" where
  "adopt_generation rank generation epoch c =
     (let c1 = withdraw_rank rank (record_generation rank (generation, epoch) c)
      in c1\<lparr>c_generation := (c_generation c1)(rank \<mapsto> (generation, epoch)),
            c_sequences := (c_sequences c1)(rank \<mapsto> 0),
            c_pending := (c_pending c1)(rank := None),
            c_desynchronized := insert rank (c_desynchronized c1),
            c_generation_conflicts := c_generation_conflicts c1 - {rank}\<rparr>)"

text \<open>Withdraw a rank, forget its pending checkpoint and wait for a complete one.\<close>

definition desynchronize :: "int \<Rightarrow> catalog \<Rightarrow> catalog" where
  "desynchronize rank c =
     (let c1 = withdraw_rank rank c
      in c1\<lparr>c_desynchronized := insert rank (c_desynchronized c1)\<rparr>)"

definition drop_pending :: "int \<Rightarrow> catalog \<Rightarrow> catalog" where
  "drop_pending rank c = c\<lparr>c_pending := (c_pending c)(rank := None)\<rparr>"

definition mark_generation_conflict :: "int \<Rightarrow> catalog \<Rightarrow> catalog" where
  "mark_generation_conflict rank c =
     (let c1 = (if rank \<in> c_generation_conflicts c then c
                else c\<lparr>c_generation_changes_total := c_generation_changes_total c + 1\<rparr>);
          c2 = desynchronize rank (drop_pending rank c1)
      in c2\<lparr>c_generation_conflicts := insert rank (c_generation_conflicts c2)\<rparr>)"

section \<open>Reports\<close>

text \<open>The installation of a startup image after its generation has been adopted.\<close>

definition install_startup :: "int \<Rightarrow> int \<Rightarrow> entry list \<Rightarrow> catalog \<Rightarrow> unit result \<times> catalog" where
  "install_startup eb rank entries c =
     (case inventory_capacity eb (c_max_bytes c) of
        Inl e \<Rightarrow> (Inl e, c)
      | Inr capacity \<Rightarrow>
          (let items = take (nat (capacity + 1)) entries in
           case validate_entries items of
             Inl e \<Rightarrow> (Inl e, c)
           | Inr _ \<Rightarrow>
               if int (length items) * eb > c_max_bytes c then (Inl ManifestError, c)
               else if length (dict_of items) \<noteq> length items then (Inl ManifestError, c)
               else replace_rank eb rank (dict_of items) c))"

definition apply_startup ::
  "int \<Rightarrow> int \<Rightarrow> string \<Rightarrow> int \<Rightarrow> entry list \<Rightarrow> catalog \<Rightarrow> unit result \<times> catalog" where
  "apply_startup eb rank generation epoch entries c =
     (if rank \<notin> c_expected c then (Inl ValueError, c)
      else case validate_generation_identity generation epoch of
        Inl e \<Rightarrow> (Inl e, mark_generation_conflict rank c)
      | Inr _ \<Rightarrow>
          (case generation_disposition rank generation epoch c of
             Stale \<Rightarrow> (Inr (), c)
           | Conflict \<Rightarrow> (Inr (), mark_generation_conflict rank c)
           | Current \<Rightarrow> (Inr (), c)
           | _ \<Rightarrow> install_startup eb rank entries (adopt_generation rank generation epoch c)))"

definition sequence_of :: "catalog \<Rightarrow> int \<Rightarrow> int" where
  "sequence_of c rank = (case c_sequences c rank of None \<Rightarrow> 0 | Some n \<Rightarrow> n)"

definition delta_update :: "inventory_delta \<Rightarrow> (string, int) dict \<Rightarrow> (string, int) dict" where
  "delta_update d entries =
     fold (\<lambda>(entry_id, span_tokens) m. dict_set entry_id span_tokens m) (delta_added d)
       (fold dict_pop (delta_removed d) entries)"

definition apply_report_delta :: "int \<Rightarrow> int \<Rightarrow> inventory_delta option \<Rightarrow> catalog \<Rightarrow> unit result \<times> catalog" where
  "apply_report_delta eb rank delta c =
     (case delta of
        None \<Rightarrow> (Inr (), c)
      | Some d \<Rightarrow>
          if rank \<in> c_desynchronized c then (Inr (), c)
          else if delta_base d = sequence_of c rank \<and> delta_sequence d = sequence_of c rank + 1
          then replace_rank eb rank (delta_update d (c_rank_entries c rank))
                 (c\<lparr>c_sequences := (c_sequences c)(rank \<mapsto> delta_sequence d)\<rparr>)
          else if delta_sequence d > sequence_of c rank then (Inr (), desynchronize rank c)
          else (Inr (), c))"

definition checkpoint_gap :: "int \<Rightarrow> inventory_checkpoint \<Rightarrow> catalog \<Rightarrow> catalog" where
  "checkpoint_gap rank ck c =
     (if rank \<notin> c_desynchronized c \<and> ck_sequence ck > sequence_of c rank
      then desynchronize rank c else c)"

definition pending_for :: "int \<Rightarrow> inventory_checkpoint \<Rightarrow> catalog \<Rightarrow> pending_checkpoint" where
  "pending_for rank ck c =
     (let fresh = \<lparr>pd_sequence = ck_sequence ck, pd_cycle = ck_cycle ck, pd_count = ck_count ck,
                   pd_held_count = ck_held_count ck, pd_pages = [], pd_entry_count = 0\<rparr>
      in case c_pending c rank of
           None \<Rightarrow> fresh
         | Some p \<Rightarrow> if pd_cycle p \<noteq> ck_cycle ck \<or> pd_sequence p \<noteq> ck_sequence ck then fresh else p)"

text \<open>The concatenation of the pages \<open>0 .. count - 1\<close> in order.\<close>

definition flattened :: "pending_checkpoint \<Rightarrow> entry list" where
  "flattened p =
     concat (map (\<lambda>index. case dict_get (pd_pages p) index of None \<Rightarrow> [] | Some page \<Rightarrow> page)
                 [0..pd_count p - 1])"

definition complete_checkpoint :: "int \<Rightarrow> int \<Rightarrow> pending_checkpoint \<Rightarrow> catalog \<Rightarrow> unit result \<times> catalog" where
  "complete_checkpoint eb rank p c =
     (let items = flattened p in
      if pd_sequence p < sequence_of c rank then (Inr (), c)
      else if int (length items) \<noteq> pd_held_count p \<or> length (dict_of items) \<noteq> length items
      then (Inr (), desynchronize rank c)
      else replace_rank eb rank (dict_of items)
             (c\<lparr>c_sequences := (c_sequences c)(rank \<mapsto> pd_sequence p)\<rparr>))"

definition apply_report_checkpoint :: "int \<Rightarrow> int \<Rightarrow> inventory_checkpoint \<Rightarrow> catalog \<Rightarrow> unit result \<times> catalog" where
  "apply_report_checkpoint eb rank ck c =
     (let p = pending_for rank ck c in
      if ck_count ck \<le> 0 \<or> \<not> (0 \<le> ck_index ck \<and> ck_index ck < ck_count ck)
         \<or> ck_count ck \<noteq> pd_count p \<or> ck_held_count ck \<noteq> pd_held_count p
      then (Inr (), desynchronize rank (drop_pending rank c))
      else
       (let previous_page = (case dict_get (pd_pages p) (ck_index ck) of None \<Rightarrow> [] | Some page \<Rightarrow> page);
            projected_count = pd_entry_count p - int (length previous_page) + int (length (ck_entries ck))
        in if projected_count > pd_held_count p
           then (Inr (), desynchronize rank (drop_pending rank c))
           else
            (let p' = p\<lparr>pd_pages := dict_set (ck_index ck) (ck_entries ck) (pd_pages p),
                        pd_entry_count := projected_count\<rparr>;
                 c' = c\<lparr>c_pending := (c_pending c)(rank \<mapsto> p')\<rparr>
             in if int (length (pd_pages p')) = pd_count p'
                then (case complete_checkpoint eb rank p' c' of
                        (Inl e, c'') \<Rightarrow> (Inl e, c'')
                      | (Inr _, c'') \<Rightarrow> (Inr (), drop_pending rank c''))
                else (Inr (), c'))))"

text \<open>The part of \<open>apply_report\<close> after the generation has been accepted.\<close>

definition apply_report_body :: "int \<Rightarrow> worker_report \<Rightarrow> catalog \<Rightarrow> unit result \<times> catalog" where
  "apply_report_body eb report c =
     (let rank = rep_rank report in
      case validate_inventory_report eb report (c_max_bytes c) (c_max_report_entries c) of
        Inl e \<Rightarrow>
          if e = ManifestError then (Inr (), desynchronize rank (drop_pending rank c)) else (Inl e, c)
      | Inr _ \<Rightarrow>
          (case apply_report_delta eb rank (rep_delta report) c of
             (Inl e, c1) \<Rightarrow> (Inl e, c1)
           | (Inr _, c1) \<Rightarrow>
               apply_report_checkpoint eb rank (rep_checkpoint report)
                 (checkpoint_gap rank (rep_checkpoint report) c1)))"

definition apply_report :: "int \<Rightarrow> worker_report \<Rightarrow> catalog \<Rightarrow> unit result \<times> catalog" where
  "apply_report eb report c =
     (let rank = rep_rank report in
      if rank \<notin> c_expected c then (Inl ValueError, c)
      else case validate_generation_identity (rep_generation report) (rep_epoch report) of
        Inl e \<Rightarrow> (Inl e, mark_generation_conflict rank c)
      | Inr _ \<Rightarrow>
          (case generation_disposition rank (rep_generation report) (rep_epoch report) c of
             Stale \<Rightarrow> (Inr (), c)
           | Conflict \<Rightarrow> (Inr (), mark_generation_conflict rank c)
           | Current \<Rightarrow> apply_report_body eb report c
           | _ \<Rightarrow> apply_report_body eb report
                   (adopt_generation rank (rep_generation report) (rep_epoch report) c)))"

section \<open>Queries\<close>

definition has_quorum :: "string \<Rightarrow> int option \<Rightarrow> catalog \<Rightarrow> bool" where
  "has_quorum entry_id span_tokens c =
     (let ranks = (case dict_get (c_entry_ranks c) entry_id of None \<Rightarrow> {} | Some ranks \<Rightarrow> ranks) in
      if ranks \<noteq> c_expected c then False
      else
       (let spans = (\<lambda>rank. dict_get (c_rank_entries c rank) entry_id) ` ranks in
        if card spans \<noteq> 1 then False
        else case span_tokens of
               Some n \<Rightarrow> spans = {Some n}
             | None \<Rightarrow> spans \<noteq> {None}))"

fun first_quorum :: "(int \<times> string) list \<Rightarrow> catalog \<Rightarrow> (int \<times> string) option" where
  "first_quorum [] c = None"
| "first_quorum ((span_tokens, entry_id) # candidates) c =
     (if has_quorum entry_id (Some span_tokens) c then Some (span_tokens, entry_id)
      else first_quorum candidates c)"

definition longest :: "(int \<times> string) list \<Rightarrow> catalog \<Rightarrow> (int \<times> string) option \<times> catalog" where
  "longest candidates c =
     (case first_quorum (rev (sort candidates)) c of
        None \<Rightarrow> (None, c)
      | Some (span_tokens, entry_id) \<Rightarrow> (Some (span_tokens, entry_id), touch entry_id c))"

definition count_quorum :: "catalog \<Rightarrow> int" where
  "count_quorum c = int (length (filter (\<lambda>entry_id. has_quorum entry_id None c) (dict_keys (c_entry_ranks c))))"

definition quorum_count :: "catalog \<Rightarrow> int \<times> catalog" where
  "quorum_count c =
     (case c_quorum_count c of
        Some n \<Rightarrow> (n, c)
      | None \<Rightarrow> (count_quorum c, c\<lparr>c_quorum_count := Some (count_quorum c)\<rparr>))"

definition ready_rank_count :: "catalog \<Rightarrow> int" where
  "ready_rank_count c = int (card (c_expected c - c_desynchronized c))"

definition has_all_rank_identities :: "catalog \<Rightarrow> bool" where
  "has_all_rank_identities c \<longleftrightarrow> {rank. c_generation c rank \<noteq> None} = c_expected c"

definition is_ready :: "catalog \<Rightarrow> bool" where
  "is_ready c \<longleftrightarrow> has_all_rank_identities c \<and> c_desynchronized c = {}"

section \<open>Consistency of the index\<close>

definition holders :: "catalog \<Rightarrow> string \<Rightarrow> int set" where
  "holders c entry_id = {rank. entry_id \<in> fst ` set (c_rank_entries c rank)}"

text \<open>The reverse index is exactly the inverse of the per-rank dictionaries, and the recency order
  lists its keys.\<close>

definition index_of :: "int set \<Rightarrow> int set option" where
  "index_of ranks = (if ranks = {} then None else Some ranks)"

definition index_inv :: "catalog \<Rightarrow> bool" where
  "index_inv c \<longleftrightarrow>
     (\<forall>rank. distinct (dict_keys (c_rank_entries c rank)))
     \<and> (\<forall>rank. list_all valid_entry (c_rank_entries c rank))
     \<and> (\<forall>rank. rank \<notin> c_expected c \<longrightarrow> c_rank_entries c rank = [])
     \<and> (\<forall>rank \<in> c_desynchronized c. c_rank_entries c rank = [])
     \<and> distinct (dict_keys (c_entry_ranks c))
     \<and> (\<forall>e. dict_get (c_entry_ranks c) e = index_of (holders c e))
     \<and> distinct (c_recency c) \<and> set (c_recency c) = fst ` set (c_entry_ranks c)"

lemma index_invD:
  assumes "index_inv c"
  shows "distinct (dict_keys (c_rank_entries c rank))"
    and "list_all valid_entry (c_rank_entries c rank)"
    and "rank \<notin> c_expected c \<Longrightarrow> c_rank_entries c rank = []"
    and "rank \<in> c_desynchronized c \<Longrightarrow> c_rank_entries c rank = []"
    and "distinct (dict_keys (c_entry_ranks c))"
    and "dict_get (c_entry_ranks c) e = index_of (holders c e)"
    and "distinct (c_recency c)" and "set (c_recency c) = fst ` set (c_entry_ranks c)"
  using assms by (auto simp: index_inv_def)

text \<open>The rest of the state is untouched by the index operations.\<close>

definition same_control :: "catalog \<Rightarrow> catalog \<Rightarrow> bool" where
  "same_control c c' \<longleftrightarrow>
     c_expected c' = c_expected c \<and> c_max_bytes c' = c_max_bytes c
     \<and> c_max_report_entries c' = c_max_report_entries c \<and> c_generation c' = c_generation c
     \<and> c_generation_history c' = c_generation_history c \<and> c_sequences c' = c_sequences c
     \<and> c_pending c' = c_pending c \<and> c_generation_conflicts c' = c_generation_conflicts c
     \<and> c_generation_changes_total c' = c_generation_changes_total c"

lemma same_control_refl [simp]: "same_control c c"
  by (simp add: same_control_def)

lemma same_control_trans: "same_control a b \<Longrightarrow> same_control b c \<Longrightarrow> same_control a c"
  by (simp add: same_control_def)

definition without :: "int \<Rightarrow> int set option \<Rightarrow> int set option" where
  "without rank R = (case R of None \<Rightarrow> None | Some ranks \<Rightarrow> index_of (ranks - {rank}))"

lemma discard_holder_frame:
  "same_control c (discard_holder rank e c)"
  "c_desynchronized (discard_holder rank e c) = c_desynchronized c"
  "c_rank_entries (discard_holder rank e c) = c_rank_entries c"
  "c_quorum_count (discard_holder rank e c) = c_quorum_count c"
  by (auto simp: discard_holder_def same_control_def split: option.splits)

lemma discard_holder_index:
  "dict_get (c_entry_ranks (discard_holder rank e c)) =
     (dict_get (c_entry_ranks c))(e := without rank (dict_get (c_entry_ranks c) e))"
  by (auto simp: discard_holder_def without_def index_of_def fun_eq_iff split: option.splits)

definition recency_inv :: "catalog \<Rightarrow> bool" where
  "recency_inv c \<longleftrightarrow> distinct (dict_keys (c_entry_ranks c)) \<and> distinct (c_recency c)
     \<and> set (c_recency c) = fst ` set (c_entry_ranks c)"

lemma discard_holder_recency: "recency_inv c \<Longrightarrow> recency_inv (discard_holder rank e c)"
  by (auto simp: recency_inv_def discard_holder_def distinct_removeAll
      dest!: map_of_SomeD intro: rev_image_eqI split: option.splits)

lemma fold_discard_holder:
  "same_control c (fold (discard_holder rank) es c)
   \<and> c_desynchronized (fold (discard_holder rank) es c) = c_desynchronized c
   \<and> c_rank_entries (fold (discard_holder rank) es c) = c_rank_entries c
   \<and> c_quorum_count (fold (discard_holder rank) es c) = c_quorum_count c
   \<and> (recency_inv c \<longrightarrow> recency_inv (fold (discard_holder rank) es c))
   \<and> (\<forall>e. dict_get (c_entry_ranks (fold (discard_holder rank) es c)) e =
        (if e \<in> set es then without rank (dict_get (c_entry_ranks c) e)
         else dict_get (c_entry_ranks c) e))"
proof (induction es arbitrary: c)
  case (Cons e es)
  have idem: "without rank (without rank R) = without rank R" for R
    by (auto simp: without_def index_of_def split: option.splits)
  show ?case
    using Cons.IH [of "discard_holder rank e c"] discard_holder_recency [of c rank e]
      same_control_trans [OF discard_holder_frame(1) [of c rank e]]
    by (auto simp: discard_holder_frame discard_holder_index idem)
qed simp

lemma withdraw_rank_frame:
  "same_control c (withdraw_rank rank c)"
  "c_desynchronized (withdraw_rank rank c) = c_desynchronized c"
  "c_rank_entries (withdraw_rank rank c) = (c_rank_entries c)(rank := [])"
  "c_quorum_count (withdraw_rank rank c) = None"
  using fold_discard_holder [of "c\<lparr>c_quorum_count := None\<rparr>" rank "dict_keys (c_rank_entries c rank)"]
  by (auto simp: withdraw_rank_def Let_def same_control_def)

lemma withdraw_rank_inv:
  assumes "index_inv c"
  shows "index_inv (withdraw_rank rank c)"
proof -
  note I = index_invD [OF assms]
  let ?c0 = "c\<lparr>c_quorum_count := None\<rparr>" and ?c' = "withdraw_rank rank c"
  let ?es = "dict_keys (c_rank_entries c rank)"
  note F = fold_discard_holder [of ?c0 rank ?es]
  have rec: "recency_inv ?c'"
    using F I by (simp add: recency_inv_def withdraw_rank_def Let_def)
  have holders': "holders ?c' e = holders c e - {rank}" for e
    by (auto simp: holders_def withdraw_rank_frame)
  have get: "dict_get (c_entry_ranks ?c') e =
      (if e \<in> set ?es then without rank (index_of (holders c e)) else index_of (holders c e))" for e
    using F by (simp add: withdraw_rank_def Let_def I(6))
  have "dict_get (c_entry_ranks ?c') e = index_of (holders ?c' e)" for e
    unfolding get holders' by (auto simp: without_def index_of_def holders_def)
  then show ?thesis
    using rec I(1-4) withdraw_rank_frame(1) [of c rank]
    by (auto simp: index_inv_def recency_inv_def withdraw_rank_frame same_control_def)
qed

lemma add_holder_frame:
  "same_control c (add_holder rank e c)"
  "c_desynchronized (add_holder rank e c) = c_desynchronized c"
  "c_rank_entries (add_holder rank e c) = c_rank_entries c"
  "c_quorum_count (add_holder rank e c) = c_quorum_count c"
  by (auto simp: add_holder_def touch_def same_control_def)

lemma add_holder_recency: "recency_inv c \<Longrightarrow> recency_inv (add_holder rank e c)"
  by (auto simp: recency_inv_def add_holder_def touch_def distinct_removeAll)

definition with_rank :: "int \<Rightarrow> int set option \<Rightarrow> int set option" where
  "with_rank rank R = Some (insert rank (case R of None \<Rightarrow> {} | Some ranks \<Rightarrow> ranks))"

lemma fold_add_holder:
  "same_control c (fold (add_holder rank) es c)
   \<and> c_desynchronized (fold (add_holder rank) es c) = c_desynchronized c
   \<and> c_rank_entries (fold (add_holder rank) es c) = c_rank_entries c
   \<and> c_quorum_count (fold (add_holder rank) es c) = c_quorum_count c
   \<and> (recency_inv c \<longrightarrow> recency_inv (fold (add_holder rank) es c))
   \<and> (\<forall>e. dict_get (c_entry_ranks (fold (add_holder rank) es c)) e =
        (if e \<in> set es then with_rank rank (dict_get (c_entry_ranks c) e)
         else dict_get (c_entry_ranks c) e))"
proof (induction es arbitrary: c)
  case (Cons e es)
  have idem: "with_rank rank (with_rank rank R) = with_rank rank R" for R
    by (auto simp: with_rank_def split: option.splits)
  have index: "dict_get (c_entry_ranks (add_holder rank e c)) =
     (dict_get (c_entry_ranks c))(e := with_rank rank (dict_get (c_entry_ranks c) e))"
    by (auto simp: add_holder_def touch_def with_rank_def)
  show ?case
    using Cons.IH [of "add_holder rank e c"] add_holder_recency [of c rank e]
      same_control_trans [OF add_holder_frame(1) [of c rank e]]
    by (auto simp: add_holder_frame index idem)
qed simp

lemma evict_entry_frame:
  "same_control c (evict_entry e recency c)"
  "c_desynchronized (evict_entry e recency c) = c_desynchronized c"
  "c_quorum_count (evict_entry e recency c) = None"
  by (simp_all add: evict_entry_def Let_def same_control_def)

lemma evict_entry_entries:
  assumes "index_inv c"
  shows "c_rank_entries (evict_entry e recency c) r = dict_pop e (c_rank_entries c r)"
proof -
  have "dict_pop e (c_rank_entries c r) = c_rank_entries c r" if "r \<notin> holders c e"
    using that by (simp add: holders_def delete_id)
  then show ?thesis
    by (auto simp: evict_entry_def Let_def index_invD(6) [OF assms] index_of_def)
qed

lemma evict_entry_inv:
  assumes "index_inv c" and "c_recency c = e # recency"
  shows "index_inv (evict_entry e recency c)"
proof -
  note I = index_invD [OF assms(1)] and E = evict_entry_entries [OF assms(1), of e recency]
  let ?c' = "evict_entry e recency c"
  have "holders ?c' x = (if x = e then {} else holders c x)" for x
    by (auto simp: holders_def E)
  moreover have "c_entry_ranks ?c' = dict_pop e (c_entry_ranks c)" "c_recency ?c' = recency"
    by (simp_all add: evict_entry_def Let_def)
  moreover have "set recency = fst ` set (c_entry_ranks c) - {e}" "distinct recency"
    using I(7,8) assms(2) by auto
  moreover have "dict_pop e [] = ([] :: (string, int) dict)" by simp
  ultimately show ?thesis
    using I(1-6) evict_entry_frame(1) [of c e recency]
    by (simp add: index_inv_def E evict_entry_frame same_control_def list_all_dict_pop index_of_def)
qed

lemma map_le_pop: "dict_get (dict_pop e d) \<subseteq>\<^sub>m dict_get d"
  by (auto simp: map_le_def)

text \<open>Enforcing the memory bound keeps the index consistent, only forgets entries, and reaches the
  bound.\<close>

lemma evict_oldest_result:
  assumes "index_inv c" and "c_recency c = recency" and "0 \<le> c_max_bytes c"
  shows "index_inv (evict_oldest eb recency c)"
    and "same_control c (evict_oldest eb recency c)"
    and "c_desynchronized (evict_oldest eb recency c) = c_desynchronized c"
    and "c_quorum_count c = None \<Longrightarrow> c_quorum_count (evict_oldest eb recency c) = None"
    and "dict_get (c_rank_entries (evict_oldest eb recency c) r) \<subseteq>\<^sub>m dict_get (c_rank_entries c r)"
    and "int (length (c_entry_ranks (evict_oldest eb recency c))) * eb \<le> c_max_bytes c"
  using assms
proof (induction recency arbitrary: c)
  case Nil
  { case 1 then show ?case by simp }
  { case 2 then show ?case by simp }
  { case 3 then show ?case by simp }
  { case 4 then show ?case by simp }
  { case 5 then show ?case by simp }
  { case 6
    then have "c_entry_ranks c = []" using index_invD(8) [OF 6(1)] by simp
    then show ?case using 6 by simp }
next
  case (Cons e recency)
  {
    fix d :: catalog
    assume d: "index_inv d" "c_recency d = e # recency" "0 \<le> c_max_bytes d"
    then have "index_inv (evict_entry e recency d)" "c_recency (evict_entry e recency d) = recency"
      "0 \<le> c_max_bytes (evict_entry e recency d)" "c_max_bytes (evict_entry e recency d) = c_max_bytes d"
      using evict_entry_inv by (simp_all add: evict_entry_def Let_def)
  }
  note step = this
  { case 1 then show ?case using step [OF 1] Cons.IH(1) by simp }
  { case 2 then show ?case
      using same_control_trans [OF evict_entry_frame(1) Cons.IH(2) [OF step(1-3) [OF 2]]] by simp }
  { case 3 then show ?case using step [OF 3] Cons.IH(3) by (simp add: evict_entry_frame) }
  { case 4 then show ?case using step [OF 4(2-)] Cons.IH(4) by (simp add: evict_entry_frame) }
  { case 5
    have "dict_get (c_rank_entries (evict_entry e recency c) r) \<subseteq>\<^sub>m dict_get (c_rank_entries c r)"
      unfolding evict_entry_entries [OF 5(1)] by (rule map_le_pop)
    then show ?case using map_le_trans [OF Cons.IH(5) [OF step(1-3) [OF 5]]] by simp }
  { case 6
    then show ?case using step [OF 6] Cons.IH(6) [of "evict_entry e recency c"] by simp }
qed

lemma evict_oldest_id:
  "int (length (c_entry_ranks c)) * eb \<le> c_max_bytes c \<Longrightarrow> evict_oldest eb recency c = c"
  by (cases recency) auto

text \<open>The state of \<open>_replace_rank\<close> before it enforces the bound.\<close>

definition placed :: "int \<Rightarrow> (string, int) dict \<Rightarrow> catalog \<Rightarrow> catalog" where
  "placed rank entries c =
     (let c1 = withdraw_rank rank c;
          c3 = fold (add_holder rank) (dict_keys entries)
                 (c1\<lparr>c_rank_entries := (c_rank_entries c1)(rank := entries)\<rparr>)
      in c3\<lparr>c_desynchronized := c_desynchronized c3 - {rank}\<rparr>)"

lemma install_rank_placed:
  "install_rank eb rank entries c = evict_oldest eb (c_recency (placed rank entries c)) (placed rank entries c)"
  by (simp add: install_rank_def placed_def enforce_bound_def Let_def)

lemma placed_frame:
  "same_control c (placed rank entries c)"
  "c_desynchronized (placed rank entries c) = c_desynchronized c - {rank}"
  "c_rank_entries (placed rank entries c) = (c_rank_entries c)(rank := entries)"
  "c_quorum_count (placed rank entries c) = None"
proof -
  let ?c1 = "withdraw_rank rank c"
  let ?c2 = "?c1\<lparr>c_rank_entries := (c_rank_entries ?c1)(rank := entries)\<rparr>"
  note F = fold_add_holder [of ?c2 rank "dict_keys entries"]
  have "same_control c ?c2"
    using withdraw_rank_frame(1) [of c rank] by (simp add: same_control_def)
  then show "same_control c (placed rank entries c)"
    using F by (simp add: same_control_def placed_def Let_def)
  show "c_desynchronized (placed rank entries c) = c_desynchronized c - {rank}"
    "c_rank_entries (placed rank entries c) = (c_rank_entries c)(rank := entries)"
    "c_quorum_count (placed rank entries c) = None"
    using F by (simp_all add: placed_def Let_def withdraw_rank_frame)
qed

lemma placed_inv:
  assumes "index_inv c" "rank \<in> c_expected c" "distinct (dict_keys entries)" "list_all valid_entry entries"
  shows "index_inv (placed rank entries c)"
proof -
  let ?c1 = "withdraw_rank rank c" and ?c' = "placed rank entries c"
  let ?c2 = "?c1\<lparr>c_rank_entries := (c_rank_entries ?c1)(rank := entries)\<rparr>"
  note F = fold_add_holder [of ?c2 rank "dict_keys entries"]
  note I1 = index_invD [OF withdraw_rank_inv [OF assms(1), of rank]] and I = index_invD [OF assms(1)]
  have "recency_inv ?c2" using I1 by (simp add: recency_inv_def)
  with F have rec: "recency_inv ?c'" by (simp add: recency_inv_def placed_def Let_def)
  have get: "dict_get (c_entry_ranks ?c') e =
      (if e \<in> fst ` set entries then with_rank rank (index_of (holders ?c1 e)) else index_of (holders ?c1 e))" for e
    using F by (simp add: placed_def Let_def I1(6))
  have "holders ?c1 e = holders c e - {rank}" for e
    by (auto simp: holders_def withdraw_rank_frame)
  moreover have "holders ?c' e = (if e \<in> fst ` set entries then insert rank (holders c e) else holders c e - {rank})" for e
    by (auto simp: holders_def placed_frame)
  ultimately have "dict_get (c_entry_ranks ?c') e = index_of (holders ?c' e)" for e
    by (auto simp: get with_rank_def index_of_def)
  then show ?thesis
    using rec I(1-4) assms(2-) placed_frame(1) [of c rank entries]
    by (auto simp: index_inv_def recency_inv_def placed_frame same_control_def)
qed

lemma install_rank_result:
  assumes "index_inv c" "rank \<in> c_expected c" "distinct (dict_keys entries)"
    "list_all valid_entry entries" "0 \<le> c_max_bytes c"
  shows "index_inv (install_rank eb rank entries c)"
    and "same_control c (install_rank eb rank entries c)"
    and "c_desynchronized (install_rank eb rank entries c) = c_desynchronized c - {rank}"
    and "c_quorum_count (install_rank eb rank entries c) = None"
    and "dict_get (c_rank_entries (install_rank eb rank entries c) r)
      \<subseteq>\<^sub>m (if r = rank then dict_get entries else dict_get (c_rank_entries c r))"
    and "int (length (c_entry_ranks (install_rank eb rank entries c))) * eb \<le> c_max_bytes c"
proof -
  note P = placed_frame(1) [of c rank entries]
  have mb: "0 \<le> c_max_bytes (placed rank entries c)" "c_max_bytes (placed rank entries c) = c_max_bytes c"
    using P assms(5) by (simp_all add: same_control_def)
  note R = evict_oldest_result [OF placed_inv [OF assms(1-4)] refl mb(1), of eb, folded install_rank_placed]
  show "index_inv (install_rank eb rank entries c)" by (rule R)
  show "same_control c (install_rank eb rank entries c)" by (rule same_control_trans [OF P R(2)])
  show "c_desynchronized (install_rank eb rank entries c) = c_desynchronized c - {rank}"
    using R(3) placed_frame(2) by simp
  show "c_quorum_count (install_rank eb rank entries c) = None"
    using R(4) placed_frame(4) by simp
  show "dict_get (c_rank_entries (install_rank eb rank entries c) r)
      \<subseteq>\<^sub>m (if r = rank then dict_get entries else dict_get (c_rank_entries c r))"
    using R(5) [of r] by (simp add: placed_frame split: if_splits)
  show "int (length (c_entry_ranks (install_rank eb rank entries c))) * eb \<le> c_max_bytes c"
    using R(6) mb by simp
qed

section \<open>The catalog invariant\<close>

definition pending_inv :: "int \<Rightarrow> int \<Rightarrow> pending_checkpoint \<Rightarrow> bool" where
  "pending_inv eb max_bytes p \<longleftrightarrow>
     0 < pd_count p \<and> pd_count p \<le> max 1 (pd_held_count p) \<and> pd_held_count p * eb \<le> max_bytes
     \<and> distinct (dict_keys (pd_pages p)) \<and> fst ` set (pd_pages p) \<subseteq> {0..<pd_count p}
     \<and> (\<forall>page \<in> snd ` set (pd_pages p). list_all valid_entry page)
     \<and> pd_entry_count p = int (sum_list (map (length \<circ> snd) (pd_pages p)))
     \<and> pd_entry_count p \<le> pd_held_count p"

definition catalog_inv :: "int \<Rightarrow> catalog \<Rightarrow> bool" where
  "catalog_inv eb c \<longleftrightarrow>
     0 < eb \<and> eb \<le> c_max_bytes c \<and> 0 < c_max_report_entries c
     \<and> finite (c_expected c) \<and> c_expected c \<noteq> {} \<and> c_expected c \<subseteq> {0..<int MAX_INVENTORY_REPORTS}
     \<and> index_inv c \<and> int (length (c_entry_ranks c)) * eb \<le> c_max_bytes c
     \<and> (\<forall>n. c_quorum_count c = Some n \<longrightarrow> n = count_quorum c)
     \<and> c_generation_conflicts c \<subseteq> c_desynchronized c \<and> c_desynchronized c \<subseteq> c_expected c
     \<and> (\<forall>rank. c_generation c rank = None \<and> rank \<in> c_expected c \<longrightarrow> rank \<in> c_desynchronized c)
     \<and> (\<forall>rank p. c_pending c rank = Some p \<longrightarrow> pending_inv eb (c_max_bytes c) p)
     \<and> (\<forall>rank. length (c_generation_history c rank) \<le> GENERATION_HISTORY_LIMIT)"

lemma catalog_invD:
  assumes "catalog_inv eb c"
  shows "0 < eb" "eb \<le> c_max_bytes c" "0 < c_max_report_entries c"
    "finite (c_expected c)" "c_expected c \<noteq> {}" "c_expected c \<subseteq> {0..<int MAX_INVENTORY_REPORTS}"
    "index_inv c" "int (length (c_entry_ranks c)) * eb \<le> c_max_bytes c"
    "c_quorum_count c = Some n \<Longrightarrow> n = count_quorum c"
    "c_generation_conflicts c \<subseteq> c_desynchronized c" "c_desynchronized c \<subseteq> c_expected c"
    "c_generation c rank = None \<Longrightarrow> rank \<in> c_expected c \<Longrightarrow> rank \<in> c_desynchronized c"
    "c_pending c rank = Some p \<Longrightarrow> pending_inv eb (c_max_bytes c) p"
    "length (c_generation_history c rank) \<le> GENERATION_HISTORY_LIMIT"
  using assms by (auto simp: catalog_inv_def)

lemma QuorumCatalog_inv:
  assumes "0 < eb" and "QuorumCatalog eb ranks mb mre = Inr c"
  shows "catalog_inv eb c" and "c_expected c = {0..<int (length ranks)}"
    and "\<And>rank. c_generation c rank = None"
proof -
  let ?ranks = "take (MAX_INVENTORY_REPORTS + 1) ranks"
  have ok: "?ranks \<noteq> []" "\<not> MAX_INVENTORY_REPORTS < length ?ranks"
      "sort ?ranks = [0..int (length ?ranks) - 1]" "0 < mb" "0 < mre" "eb \<le> mb"
    and c: "c_expected c = set ?ranks"
      "c_max_bytes c = mb" "c_max_report_entries c = mre"
      "c_rank_entries c = (\<lambda>_. [])" "c_entry_ranks c = []" "c_recency c = []"
      "c_quorum_count c = None" "c_generation_conflicts c = {}" "c_desynchronized c = set ?ranks"
      "c_pending c = (\<lambda>_. None)" "c_generation_history c = (\<lambda>_. [])" "c_generation c = (\<lambda>_. None)"
    using assms(2)
    by (auto simp: QuorumCatalog_def Let_def and_then_Inr_iff inventory_capacity_def split: if_splits)
  have all: "?ranks = ranks" using ok(2) by (auto simp: min_def split: if_splits)
  have "set ranks = set (sort ranks)" by simp
  also have "\<dots> = set [0..int (length ranks) - 1]" using ok(3) all by simp
  finally have "set ranks = {0..int (length ranks) - 1}" by (simp only: set_upto)
  then have set: "set ranks = {0..<int (length ranks)}"
    by (simp only: set_eq_iff atLeastAtMost_iff atLeastLessThan_iff zle_diff1_eq) simp
  then show "c_expected c = {0..<int (length ranks)}" using c(1) all by simp
  show "\<And>rank. c_generation c rank = None" using c by simp
  have "index_inv c"
    using c by (simp add: index_inv_def holders_def index_of_def)
  then show "catalog_inv eb c"
    using ok assms(1) c set all by (auto simp: catalog_inv_def)
qed

text \<open>Forgetting entries never grows the index.\<close>

lemma entry_ranks_mono:
  assumes "index_inv c" "index_inv c'"
    and "\<And>r. dict_get (c_rank_entries c' r) \<subseteq>\<^sub>m dict_get (c_rank_entries c r)"
  shows "length (c_entry_ranks c') \<le> length (c_entry_ranks c)"
proof -
  have keys: "fst ` set (c_entry_ranks d) = {e. holders d e \<noteq> {}}" if "index_inv d" for d
    using index_invD(6) [OF that] by (auto simp: set_keys_eq_dom dom_def index_of_def)
  have "holders c' e \<subseteq> holders c e" for e
    using map_le_implies_dom_le [OF assms(3)] by (auto simp: holders_def set_keys_eq_dom)
  then have "fst ` set (c_entry_ranks c') \<subseteq> fst ` set (c_entry_ranks c)"
    unfolding keys [OF assms(1)] keys [OF assms(2)] by blast
  then have "card (fst ` set (c_entry_ranks c')) \<le> card (fst ` set (c_entry_ranks c))"
    by (intro card_mono) auto
  then show ?thesis
    by (simp add: card_keys index_invD(5) [OF assms(1)] index_invD(5) [OF assms(2)])
qed

lemma withdraw_rank_catalog_inv:
  assumes "catalog_inv eb c"
  shows "catalog_inv eb (withdraw_rank rank c)"
proof -
  note C = catalog_invD [OF assms]
  let ?c' = "withdraw_rank rank c"
  have inv: "index_inv ?c'" by (rule withdraw_rank_inv [OF C(7)])
  have "length (c_entry_ranks ?c') \<le> length (c_entry_ranks c)"
    by (rule entry_ranks_mono [OF C(7) inv]) (simp add: withdraw_rank_frame)
  then have "int (length (c_entry_ranks ?c')) * eb \<le> c_max_bytes c"
    using C(1,8) by (meson dual_order.trans mult_right_mono of_nat_mono less_imp_le)
  then show ?thesis
    using C inv withdraw_rank_frame(1) [of c rank]
    by (auto simp: catalog_inv_def same_control_def withdraw_rank_frame)
qed

lemma desynchronize_frame:
  "same_control c (desynchronize rank c)"
  "c_desynchronized (desynchronize rank c) = insert rank (c_desynchronized c)"
  "c_rank_entries (desynchronize rank c) = (c_rank_entries c)(rank := [])"
  using withdraw_rank_frame(1) [of c rank]
  by (simp_all add: desynchronize_def Let_def withdraw_rank_frame same_control_def)

lemma count_quorum_cong:
  "c_expected c' = c_expected c \<Longrightarrow> c_rank_entries c' = c_rank_entries c \<Longrightarrow>
   c_entry_ranks c' = c_entry_ranks c \<Longrightarrow> count_quorum c' = count_quorum c"
  by (simp add: count_quorum_def has_quorum_def)

text \<open>Updates of the control fields only.\<close>

lemma catalog_inv_control:
  assumes "catalog_inv eb c"
    and "c_expected c' = c_expected c" "c_max_bytes c' = c_max_bytes c"
      "c_max_report_entries c' = c_max_report_entries c" "c_rank_entries c' = c_rank_entries c"
      "c_entry_ranks c' = c_entry_ranks c" "c_recency c' = c_recency c"
      "c_quorum_count c' = c_quorum_count c"
    and "c_generation_conflicts c' \<subseteq> c_desynchronized c'" "c_desynchronized c' \<subseteq> c_expected c"
      "\<And>r. r \<in> c_desynchronized c' \<Longrightarrow> c_rank_entries c r = []"
      "\<And>r. c_generation c' r = None \<Longrightarrow> r \<in> c_expected c \<Longrightarrow> r \<in> c_desynchronized c'"
      "\<And>r p. c_pending c' r = Some p \<Longrightarrow> pending_inv eb (c_max_bytes c) p"
      "\<And>r. length (c_generation_history c' r) \<le> GENERATION_HISTORY_LIMIT"
  shows "catalog_inv eb c'"
proof -
  have "index_inv c'"
    using catalog_invD(7) [OF assms(1)] assms(2-11) by (simp add: index_inv_def holders_def)
  moreover have "count_quorum c' = count_quorum c"
    using assms(2-8) by (intro count_quorum_cong)
  ultimately show ?thesis
    using assms(1) assms(2-8) assms(9-14) by (simp add: catalog_inv_def)
qed

lemma desynchronize_inv:
  assumes "catalog_inv eb c" "rank \<in> c_expected c"
  shows "catalog_inv eb (desynchronize rank c)"
proof -
  note C = catalog_invD [OF withdraw_rank_catalog_inv [OF assms(1), of rank]]
  have "c_expected (withdraw_rank rank c) = c_expected c"
    using withdraw_rank_frame(1) [of c rank] by (simp add: same_control_def)
  then show ?thesis
    using C(10-14) assms(2) index_invD(4) [OF catalog_invD(7) [OF assms(1)]]
    by (intro catalog_inv_control [OF withdraw_rank_catalog_inv [OF assms(1), of rank]])
      (auto simp: desynchronize_def Let_def withdraw_rank_frame)
qed

lemma drop_pending_inv:
  assumes "catalog_inv eb c"
  shows "catalog_inv eb (drop_pending rank c)"
  using catalog_invD(10-14) [OF assms] index_invD(4) [OF catalog_invD(7) [OF assms]]
  by (intro catalog_inv_control [OF assms]) (auto simp: drop_pending_def split: if_splits)

lemma mark_generation_conflict_inv:
  assumes "catalog_inv eb c" "rank \<in> c_expected c"
  shows "catalog_inv eb (mark_generation_conflict rank c)"
proof -
  let ?c1 = "if rank \<in> c_generation_conflicts c then c
             else c\<lparr>c_generation_changes_total := c_generation_changes_total c + 1\<rparr>"
  let ?c2 = "desynchronize rank (drop_pending rank ?c1)"
  note C = catalog_invD [OF assms(1)]
  have "catalog_inv eb ?c1"
    by (rule catalog_inv_control [OF assms(1)])
      (simp_all add: C index_invD(4) [OF C(7)] split: if_splits)
  moreover have "rank \<in> c_expected (drop_pending rank ?c1)"
    using assms(2) by (simp add: drop_pending_def)
  ultimately have inv2: "catalog_inv eb ?c2"
    by (intro desynchronize_inv drop_pending_inv)
  note C2 = catalog_invD [OF inv2]
  show ?thesis
    unfolding mark_generation_conflict_def Let_def
    by (rule catalog_inv_control [OF inv2])
      (use C2(10-14) index_invD(4) [OF C2(7)] in \<open>auto simp: desynchronize_frame(2)\<close>)
qed

lemma record_generation_inv:
  assumes "catalog_inv eb c"
  shows "catalog_inv eb (record_generation rank identity c)"
  using catalog_invD(10-14) [OF assms] index_invD(4) [OF catalog_invD(7) [OF assms]]
  by (intro catalog_inv_control [OF assms])
    (auto simp: record_generation_def length_deque_append split: option.splits if_splits)

lemma record_generation_frame [simp]:
  "c_expected (record_generation rank identity c) = c_expected c"
  "c_desynchronized (record_generation rank identity c) = c_desynchronized c"
  "c_max_bytes (record_generation rank identity c) = c_max_bytes c"
  "c_rank_entries (record_generation rank identity c) = c_rank_entries c"
  "c_generation (record_generation rank identity c) = c_generation c"
  "c_pending (record_generation rank identity c) = c_pending c"
  "c_sequences (record_generation rank identity c) = c_sequences c"
  "c_generation_conflicts (record_generation rank identity c) = c_generation_conflicts c"
  by (auto simp: record_generation_def split: option.splits)

lemma adopt_generation_inv:
  assumes "catalog_inv eb c" "rank \<in> c_expected c"
  shows "catalog_inv eb (adopt_generation rank generation epoch c)"
proof -
  let ?c0 = "record_generation rank (generation, epoch) c"
  have inv: "catalog_inv eb (desynchronize rank ?c0)"
    using assms by (intro desynchronize_inv record_generation_inv) simp_all
  note C = catalog_invD [OF inv]
  show ?thesis
    unfolding adopt_generation_def Let_def
    by (rule catalog_inv_control [OF inv])
      (use C(10-14) index_invD(4) [OF C(7)] in \<open>auto simp: desynchronize_def Let_def split: if_splits\<close>)
qed

lemma install_rank_inv:
  assumes "catalog_inv eb c" "rank \<in> c_expected c" "distinct (dict_keys entries)"
    "list_all valid_entry entries" "c_generation c rank \<noteq> None" "rank \<notin> c_generation_conflicts c"
  shows "catalog_inv eb (install_rank eb rank entries c)"
proof -
  note C = catalog_invD [OF assms(1)]
  have mb: "0 \<le> c_max_bytes c" using C(1,2) by simp
  note R = install_rank_result [OF C(7) assms(2-4) mb]
  show ?thesis
    using C(1-6) C(10-14) R(1,6) R(2) [of eb] assms(5,6)
    by (auto simp: catalog_inv_def same_control_def R(3,4))
qed

text \<open>\<open>_replace_rank\<close> never raises on validated entries.\<close>

lemma replace_rank_eq:
  "list_all valid_entry entries \<Longrightarrow> replace_rank eb rank entries c = (Inr (), install_rank eb rank entries c)"
  by (simp add: replace_rank_def validate_entries_def require_def)

lemma set_sequence_inv:
  assumes "catalog_inv eb c"
  shows "catalog_inv eb (c\<lparr>c_sequences := f\<rparr>)"
  using catalog_invD(10-14) [OF assms] index_invD(4) [OF catalog_invD(7) [OF assms]]
  by (intro catalog_inv_control [OF assms]) auto

lemma validate_entries_Inr [simp]: "validate_entries es = Inr u \<longleftrightarrow> list_all valid_entry es"
  by (simp add: validate_entries_def)

lemma validate_entries_Inl [simp]:
  "validate_entries es = Inl e \<longleftrightarrow> \<not> list_all valid_entry es \<and> e = ManifestError"
  by (simp add: validate_entries_def)

lemma install_startup_inv:
  assumes "catalog_inv eb c" "rank \<in> c_expected c"
    "c_generation c rank \<noteq> None" "rank \<notin> c_generation_conflicts c"
  shows "catalog_inv eb (snd (install_startup eb rank entries c))"
  using assms
  by (auto simp: install_startup_def Let_def replace_rank_eq list_all_dict_of
      intro!: install_rank_inv split: sum.splits)

lemma adopt_generation_frame:
  "c_expected (adopt_generation rank generation epoch c) = c_expected c"
  "c_max_bytes (adopt_generation rank generation epoch c) = c_max_bytes c"
  "c_max_report_entries (adopt_generation rank generation epoch c) = c_max_report_entries c"
  "c_generation (adopt_generation rank generation epoch c) = (c_generation c)(rank \<mapsto> (generation, epoch))"
  "c_sequences (adopt_generation rank generation epoch c) = (c_sequences c)(rank \<mapsto> 0)"
  "c_pending (adopt_generation rank generation epoch c) = (c_pending c)(rank := None)"
  "c_desynchronized (adopt_generation rank generation epoch c) = insert rank (c_desynchronized c)"
  "c_generation_conflicts (adopt_generation rank generation epoch c) = c_generation_conflicts c - {rank}"
  "c_rank_entries (adopt_generation rank generation epoch c) = (c_rank_entries c)(rank := [])"
  using withdraw_rank_frame(1) [of "record_generation rank (generation, epoch) c" rank]
  by (auto simp: adopt_generation_def Let_def withdraw_rank_frame same_control_def
      record_generation_def split: option.splits)

lemma mark_generation_conflict_frame:
  "c_expected (mark_generation_conflict rank c) = c_expected c"
  "c_max_bytes (mark_generation_conflict rank c) = c_max_bytes c"
  "c_max_report_entries (mark_generation_conflict rank c) = c_max_report_entries c"
  "c_generation (mark_generation_conflict rank c) = c_generation c"
  "c_sequences (mark_generation_conflict rank c) = c_sequences c"
  "c_pending (mark_generation_conflict rank c) = (c_pending c)(rank := None)"
  "c_desynchronized (mark_generation_conflict rank c) = insert rank (c_desynchronized c)"
  "c_generation_conflicts (mark_generation_conflict rank c) = insert rank (c_generation_conflicts c)"
  "c_rank_entries (mark_generation_conflict rank c) = (c_rank_entries c)(rank := [])"
  using desynchronize_frame(1) [of "drop_pending rank (if rank \<in> c_generation_conflicts c then c
      else c\<lparr>c_generation_changes_total := c_generation_changes_total c + 1\<rparr>)" rank]
  by (auto simp: mark_generation_conflict_def Let_def desynchronize_frame drop_pending_def
      same_control_def)

lemma apply_startup_inv:
  assumes "catalog_inv eb c"
  shows "catalog_inv eb (snd (apply_startup eb rank generation epoch entries c))"
  using assms mark_generation_conflict_inv [OF assms] install_startup_inv [OF adopt_generation_inv [OF assms]]
  by (auto simp: apply_startup_def adopt_generation_frame split: sum.splits disposition.splits)

lemma delta_update_get:
  "distinct (map fst (delta_added d)) \<Longrightarrow>
   dict_get (delta_update d entries) = apply_delta d (dict_get entries)"
  by (simp add: delta_update_def apply_delta_def dict_get_fold_set dict_get_fold_pop)

lemma delta_update_distinct:
  "distinct (dict_keys entries) \<Longrightarrow> distinct (dict_keys (delta_update d entries))"
  unfolding delta_update_def by (intro distinct_fold_set distinct_fold_pop)

lemma delta_update_valid:
  assumes "list_all valid_entry entries" "list_all valid_entry (delta_added d)"
  shows "list_all valid_entry (delta_update d entries)"
proof -
  have "list_all valid_entry (fold dict_pop ks m)" if "list_all valid_entry m" for ks and m :: "(string, int) dict"
    using that by (induction ks arbitrary: m) (auto intro: list_all_dict_pop)
  moreover have "list_all valid_entry (fold (\<lambda>(k, v) m. dict_set k v m) es m)"
    if "list_all valid_entry m" "list_all valid_entry es" for es m
    using that by (induction es arbitrary: m) (auto intro: list_all_dict_set)
  ultimately show ?thesis using assms unfolding delta_update_def by blast
qed

text \<open>The facts a validated report provides.\<close>

lemma validate_checkpoint_Inr:
  assumes "validate_checkpoint eb mb mre ck = Inr u" "0 < eb"
  shows "0 \<le> ck_sequence ck" "0 < ck_count ck" "ck_count ck \<le> max 1 (ck_held_count ck)"
    "0 \<le> ck_index ck" "ck_index ck < ck_count ck" "0 \<le> ck_held_count ck" "ck_held_count ck * eb \<le> mb"
    "int (length (ck_entries ck)) \<le> ck_held_count ck" "list_all valid_entry (ck_entries ck)"
proof -
  have cap: "ck_held_count ck \<le> mb div eb" "eb \<le> mb"
    and rest: "0 \<le> ck_sequence ck" "0 < ck_count ck" "ck_count ck \<le> max 1 (ck_held_count ck)"
    "0 \<le> ck_index ck" "ck_index ck < ck_count ck" "0 \<le> ck_held_count ck"
    "int (length (ck_entries ck)) \<le> ck_held_count ck" "list_all valid_entry (ck_entries ck)"
    using assms(1)
    by (simp_all add: validate_checkpoint_def and_then_Inr_iff inventory_capacity_def not_less not_le
        le_max_iff_disj split: if_splits)
  have "ck_held_count ck * eb \<le> mb div eb * eb" using cap(1) assms(2) by simp
  also have "\<dots> \<le> mb" using assms(2) by (simp add: minus_mod_eq_div_mult [symmetric])
  finally show "ck_held_count ck * eb \<le> mb" .
  show "0 \<le> ck_sequence ck" "0 < ck_count ck" "ck_count ck \<le> max 1 (ck_held_count ck)"
    "0 \<le> ck_index ck" "ck_index ck < ck_count ck" "0 \<le> ck_held_count ck"
    "int (length (ck_entries ck)) \<le> ck_held_count ck" "list_all valid_entry (ck_entries ck)"
    by (rule rest)+
qed

lemma validate_delta_Inr:
  assumes "validate_delta mre d = Inr u"
  shows "delta_sequence d = delta_base d + 1" "list_all valid_entry (delta_added d)"
    "distinct (map fst (delta_added d))"
  using assms by (simp_all add: validate_delta_def and_then_Inr_iff split: if_splits)

lemma validate_inventory_report_Inr:
  assumes "validate_inventory_report eb rep mb mre = Inr u"
  shows "validate_checkpoint eb mb mre (rep_checkpoint rep) = Inr ()"
    "rep_delta rep = Some d \<Longrightarrow> validate_delta mre d = Inr ()"
  using assms by (simp_all add: validate_inventory_report_def and_then_Inr_iff split: if_splits)

lemma validate_entries_error: "validate_entries es = Inl e \<Longrightarrow> e = ManifestError"
  by simp

lemma validate_inventory_report_Inl:
  assumes "validate_inventory_report eb rep mb mre = Inl e" "0 < mb" "0 < mre" "eb \<le> mb"
  shows "e = ManifestError"
proof -
  have "e = ManifestError" if "validate_checkpoint eb mb mre ck = Inl e" for ck
    using that assms(4) by (auto simp: validate_checkpoint_def inventory_capacity_def split: if_splits)
  moreover have "e = ManifestError" if "validate_delta mre d = Inl e" for d
    using that by (auto simp: validate_delta_def and_then_Inl_iff split: if_splits)
  ultimately show ?thesis
    using assms(1-3) by (auto simp: validate_inventory_report_def and_then_Inl_iff split: if_splits option.splits)
qed

section \<open>Locality: an operation of one rank only forgets entries of the others\<close>

definition rank_local :: "int \<Rightarrow> catalog \<Rightarrow> catalog \<Rightarrow> bool" where
  "rank_local rank c c' \<longleftrightarrow>
     c_expected c' = c_expected c \<and> c_max_bytes c' = c_max_bytes c
     \<and> c_max_report_entries c' = c_max_report_entries c
     \<and> (\<forall>r. r \<noteq> rank \<longrightarrow> c_generation c' r = c_generation c r \<and> c_sequences c' r = c_sequences c r
          \<and> c_pending c' r = c_pending c r \<and> (r \<in> c_desynchronized c' \<longleftrightarrow> r \<in> c_desynchronized c)
          \<and> (r \<in> c_generation_conflicts c' \<longleftrightarrow> r \<in> c_generation_conflicts c)
          \<and> dict_get (c_rank_entries c' r) \<subseteq>\<^sub>m dict_get (c_rank_entries c r))"

lemma rank_local_refl [simp]: "rank_local rank c c"
  by (simp add: rank_local_def)

lemma rank_local_trans: "rank_local rank a b \<Longrightarrow> rank_local rank b c \<Longrightarrow> rank_local rank a c"
  unfolding rank_local_def by (metis map_le_trans)

lemma desynchronize_local: "rank_local rank c (desynchronize rank c)"
  using desynchronize_frame(1) [of c rank] by (simp add: rank_local_def same_control_def desynchronize_frame)

lemma drop_pending_local: "rank_local rank c (drop_pending rank c)"
  by (simp add: rank_local_def drop_pending_def)

lemma adopt_generation_local: "rank_local rank c (adopt_generation rank generation epoch c)"
  by (simp add: rank_local_def adopt_generation_frame)

lemma mark_generation_conflict_local: "rank_local rank c (mark_generation_conflict rank c)"
  by (simp add: rank_local_def mark_generation_conflict_frame)

lemma install_rank_local:
  assumes "index_inv c" "rank \<in> c_expected c" "distinct (dict_keys entries)"
    "list_all valid_entry entries" "0 \<le> c_max_bytes c"
  shows "rank_local rank c (install_rank eb rank entries c)"
  using install_rank_result [OF assms, of eb]
  by (simp add: rank_local_def same_control_def) (metis (full_types))

section \<open>The report operations keep the invariant\<close>

lemma apply_report_delta_cases:
  obtains (keep) "apply_report_delta eb rank delta c = (Inr (), c)"
  | (gap) "apply_report_delta eb rank delta c = (Inr (), desynchronize rank c)"
  | (advance) d :: inventory_delta where "delta = Some d" "rank \<notin> c_desynchronized c"
      "delta_base d = sequence_of c rank" "delta_sequence d = sequence_of c rank + 1"
      "apply_report_delta eb rank delta c = replace_rank eb rank (delta_update d (c_rank_entries c rank))
                 (c\<lparr>c_sequences := (c_sequences c)(rank \<mapsto> delta_sequence d)\<rparr>)"
proof (cases delta)
  case (Some d)
  consider "rank \<in> c_desynchronized c"
    | "rank \<notin> c_desynchronized c" "delta_base d = sequence_of c rank" "delta_sequence d = sequence_of c rank + 1"
    | "rank \<notin> c_desynchronized c" "\<not> (delta_base d = sequence_of c rank \<and> delta_sequence d = sequence_of c rank + 1)"
    by blast
  then show thesis
    using keep gap advance [OF Some]
    by cases (simp_all add: Some apply_report_delta_def split: if_splits, metis)
qed (use keep in \<open>simp add: apply_report_delta_def\<close>)

lemma apply_report_delta_result:
  assumes inv: "catalog_inv eb c" and rank: "rank \<in> c_expected c" "c_generation c rank \<noteq> None"
    and valid: "\<And>d :: inventory_delta. delta = Some d \<Longrightarrow> validate_delta mre d = Inr ()"
  shows "fst (apply_report_delta eb rank delta c) = Inr ()"
    and "catalog_inv eb (snd (apply_report_delta eb rank delta c))"
    and "rank_local rank c (snd (apply_report_delta eb rank delta c))"
    and "c_generation (snd (apply_report_delta eb rank delta c)) = c_generation c"
    and "c_pending (snd (apply_report_delta eb rank delta c)) = c_pending c"
    and "c_generation_conflicts (snd (apply_report_delta eb rank delta c)) = c_generation_conflicts c"
proof -
  note C = catalog_invD [OF inv] and I = index_invD [OF catalog_invD(7) [OF inv]]
  have "fst (apply_report_delta eb rank delta c) = Inr ()
    \<and> catalog_inv eb (snd (apply_report_delta eb rank delta c))
    \<and> rank_local rank c (snd (apply_report_delta eb rank delta c))
    \<and> c_generation (snd (apply_report_delta eb rank delta c)) = c_generation c
    \<and> c_pending (snd (apply_report_delta eb rank delta c)) = c_pending c
    \<and> c_generation_conflicts (snd (apply_report_delta eb rank delta c)) = c_generation_conflicts c"
  proof (cases rule: apply_report_delta_cases [of eb rank delta c])
    case keep
    then show ?thesis using inv by simp
  next
    case gap
    then show ?thesis
      using desynchronize_inv [OF inv rank(1)] desynchronize_local desynchronize_frame(1) [of c rank]
      by (simp add: same_control_def)
  next
    case (advance d)
    let ?c1 = "c\<lparr>c_sequences := (c_sequences c)(rank \<mapsto> delta_sequence d)\<rparr>"
    let ?m = "delta_update d (c_rank_entries c rank)"
    have m: "list_all valid_entry ?m" "distinct (dict_keys ?m)"
      using validate_delta_Inr [OF valid [OF advance(1)]]
      by (auto intro: delta_update_valid delta_update_distinct I)
    have inv1: "catalog_inv eb ?c1" by (rule set_sequence_inv [OF inv])
    have "rank \<notin> c_generation_conflicts c" using C(10) advance(2) by blast
    then have "catalog_inv eb (install_rank eb rank ?m ?c1)"
      using rank m by (intro install_rank_inv [OF inv1]) auto
    moreover have mb: "0 \<le> c_max_bytes ?c1" using C(1,2) by simp
    note R = install_rank_result [OF catalog_invD(7) [OF inv1] _ m(2,1) mb, of rank eb]
      and L = install_rank_local [OF catalog_invD(7) [OF inv1] _ m(2,1) mb, of rank eb]
    have "rank_local rank c ?c1" by (simp add: rank_local_def)
    ultimately show ?thesis
      using rank_local_trans [OF _ L] R(2) rank(1) by (simp add: advance(5) replace_rank_eq m same_control_def)
  qed
  then show "fst (apply_report_delta eb rank delta c) = Inr ()"
    and "catalog_inv eb (snd (apply_report_delta eb rank delta c))"
    and "rank_local rank c (snd (apply_report_delta eb rank delta c))"
    and "c_generation (snd (apply_report_delta eb rank delta c)) = c_generation c"
    and "c_pending (snd (apply_report_delta eb rank delta c)) = c_pending c"
    and "c_generation_conflicts (snd (apply_report_delta eb rank delta c)) = c_generation_conflicts c"
    by simp_all
qed

lemma checkpoint_gap_result:
  assumes "catalog_inv eb c" "rank \<in> c_expected c"
  shows "catalog_inv eb (checkpoint_gap rank ck c)" and "rank_local rank c (checkpoint_gap rank ck c)"
    and "c_generation (checkpoint_gap rank ck c) = c_generation c"
    and "c_pending (checkpoint_gap rank ck c) = c_pending c"
    and "c_sequences (checkpoint_gap rank ck c) = c_sequences c"
    and "c_generation_conflicts (checkpoint_gap rank ck c) = c_generation_conflicts c"
  using assms desynchronize_inv [OF assms] desynchronize_local [of rank c] desynchronize_frame(1) [of c rank]
  by (auto simp: checkpoint_gap_def same_control_def)

lemma sum_pages_dict_set:
  "distinct (dict_keys d) \<Longrightarrow>
   int (sum_list (map (length \<circ> snd) (dict_set k page d))) =
     int (sum_list (map (length \<circ> snd) d))
     - int (length (case dict_get d k of None \<Rightarrow> [] | Some old \<Rightarrow> old)) + int (length page)"
  by (induction d) (auto split: option.splits dest: map_of_SomeD intro: rev_image_eqI)

lemma set_snd_dict_set: "snd ` set (dict_set k v d) \<subseteq> insert v (snd ` set d)"
  by (induction d) auto

lemma pending_for_inv:
  assumes "catalog_inv eb c" "validate_checkpoint eb (c_max_bytes c) mre ck = Inr ()"
  shows "pending_inv eb (c_max_bytes c) (pending_for rank ck c)"
    and "pd_sequence (pending_for rank ck c) = ck_sequence ck"
proof -
  note V = validate_checkpoint_Inr [OF assms(2) catalog_invD(1) [OF assms(1)]]
  show "pending_inv eb (c_max_bytes c) (pending_for rank ck c)"
    using catalog_invD(13) [OF assms(1), of rank] V
    by (auto simp: pending_for_def Let_def split: option.splits) (simp_all add: pending_inv_def)
  show "pd_sequence (pending_for rank ck c) = ck_sequence ck"
    by (simp add: pending_for_def Let_def split: option.splits)
qed

lemma pending_page_inv:
  assumes p: "pending_inv eb mb p" and ck: "0 \<le> ck_index ck" "ck_index ck < ck_count ck"
    "list_all valid_entry (ck_entries ck)" "ck_count ck = pd_count p"
    and projected: "projected = pd_entry_count p
      - int (length (case dict_get (pd_pages p) (ck_index ck) of None \<Rightarrow> [] | Some page \<Rightarrow> page))
      + int (length (ck_entries ck))" "projected \<le> pd_held_count p"
  shows "pending_inv eb mb (p\<lparr>pd_pages := dict_set (ck_index ck) (ck_entries ck) (pd_pages p),
                             pd_entry_count := projected\<rparr>)"
proof -
  have "list_all valid_entry page" if "page \<in> snd ` set (dict_set (ck_index ck) (ck_entries ck) (pd_pages p))" for page
  proof -
    have "page \<in> insert (ck_entries ck) (snd ` set (pd_pages p))"
      by (rule subsetD [OF set_snd_dict_set that])
    then show ?thesis using p ck(3) by (auto simp: pending_inv_def)
  qed
  then show ?thesis
    using p ck projected sum_pages_dict_set [of "pd_pages p" "ck_index ck" "ck_entries ck"]
    by (simp add: pending_inv_def)
qed

lemma flattened_set:
  "x \<in> set (flattened p) \<Longrightarrow> \<exists>page \<in> snd ` set (pd_pages p). x \<in> set page"
  by (auto simp: flattened_def split: option.splits dest!: sym [of "Some _"] dest!: map_of_SomeD)
    (metis snd_conv)

lemma flattened_valid: "pending_inv eb mb p \<Longrightarrow> list_all valid_entry (flattened p)"
  by (auto simp: pending_inv_def list_all_iff dest!: flattened_set)

text \<open>Completing a checkpoint either leaves the catalog, withdraws the rank, or installs the image.\<close>

lemma complete_checkpoint_cases:
  assumes "pending_inv eb mb p"
  obtains (old) "complete_checkpoint eb rank p c = (Inr (), c)" "pd_sequence p < sequence_of c rank"
  | (bad) "complete_checkpoint eb rank p c = (Inr (), desynchronize rank c)"
  | (installed) "distinct (dict_keys (flattened p))" "sequence_of c rank \<le> pd_sequence p"
      "int (length (flattened p)) = pd_held_count p"
      "complete_checkpoint eb rank p c = (Inr (), install_rank eb rank (flattened p)
         (c\<lparr>c_sequences := (c_sequences c)(rank \<mapsto> pd_sequence p)\<rparr>))"
proof -
  consider "pd_sequence p < sequence_of c rank"
    | "sequence_of c rank \<le> pd_sequence p" "distinct (dict_keys (flattened p))"
      "int (length (flattened p)) = pd_held_count p"
    | "sequence_of c rank \<le> pd_sequence p"
      "\<not> (distinct (dict_keys (flattened p)) \<and> int (length (flattened p)) = pd_held_count p)"
    by linarith
  then show thesis
  proof cases
    case 1
    then show thesis using old by (simp add: complete_checkpoint_def Let_def)
  next
    case 2
    then show thesis
      using flattened_valid [OF assms]
      by (intro installed) (simp_all add: complete_checkpoint_def Let_def dict_of_distinct replace_rank_eq)
  next
    case 3
    then show thesis
      by (intro bad) (auto simp: complete_checkpoint_def Let_def length_dict_of_eq_iff)
  qed
qed

definition with_page :: "int \<Rightarrow> inventory_checkpoint \<Rightarrow> pending_checkpoint \<Rightarrow> pending_checkpoint" where
  "with_page projected ck p =
     p\<lparr>pd_pages := dict_set (ck_index ck) (ck_entries ck) (pd_pages p), pd_entry_count := projected\<rparr>"

text \<open>A checkpoint page withdraws the rank, waits for more pages, or completes a checkpoint.\<close>

lemma apply_report_checkpoint_cases:
  assumes inv: "catalog_inv eb c" and valid: "validate_checkpoint eb (c_max_bytes c) mre ck = Inr ()"
  obtains (reject) "apply_report_checkpoint eb rank ck c = (Inr (), desynchronize rank (drop_pending rank c))"
  | (wait) n where "pending_inv eb (c_max_bytes c) (with_page n ck (pending_for rank ck c))"
      "apply_report_checkpoint eb rank ck c =
         (Inr (), c\<lparr>c_pending := (c_pending c)(rank \<mapsto> with_page n ck (pending_for rank ck c))\<rparr>)"
  | (old) n where "pending_inv eb (c_max_bytes c) (with_page n ck (pending_for rank ck c))"
      "ck_sequence ck < sequence_of c rank"
      "apply_report_checkpoint eb rank ck c = (Inr (), drop_pending rank c)"
  | (bad) p where "pending_inv eb (c_max_bytes c) p"
      "apply_report_checkpoint eb rank ck c = (Inr (), drop_pending rank (desynchronize rank
         (c\<lparr>c_pending := (c_pending c)(rank \<mapsto> p)\<rparr>)))"
  | (installed) n p where "p = with_page n ck (pending_for rank ck c)"
      "pending_inv eb (c_max_bytes c) p" "distinct (dict_keys (flattened p))"
      "sequence_of c rank \<le> ck_sequence ck"
      "apply_report_checkpoint eb rank ck c = (Inr (), drop_pending rank (install_rank eb rank (flattened p)
         (c\<lparr>c_pending := (c_pending c)(rank \<mapsto> p),
            c_sequences := (c_sequences c)(rank \<mapsto> ck_sequence ck)\<rparr>)))"
proof -
  define p where "p = pending_for rank ck c"
  note V = validate_checkpoint_Inr [OF valid catalog_invD(1) [OF inv]]
  note P = pending_for_inv [OF inv valid, of rank, folded p_def]
  define n where "n = pd_entry_count p
     - int (length (case dict_get (pd_pages p) (ck_index ck) of None \<Rightarrow> [] | Some page \<Rightarrow> page))
     + int (length (ck_entries ck))"
  let ?p' = "with_page n ck p"
  let ?c' = "c\<lparr>c_pending := (c_pending c)(rank \<mapsto> ?p')\<rparr>"
  show thesis
  proof (cases "ck_count ck = pd_count p \<and> ck_held_count ck = pd_held_count p \<and> n \<le> pd_held_count p")
    case False
    then show thesis
      by (intro reject) (auto simp: apply_report_checkpoint_def Let_def p_def [symmetric] n_def [symmetric])
  next
    case True
    have inv': "pending_inv eb (c_max_bytes c) ?p'"
      unfolding with_page_def using P(1) V True n_def by (intro pending_page_inv) auto
    have eq: "apply_report_checkpoint eb rank ck c =
        (if int (length (pd_pages ?p')) = pd_count ?p'
         then (case complete_checkpoint eb rank ?p' ?c' of
                 (Inl e, c'') \<Rightarrow> (Inl e, c'')
               | (Inr _, c'') \<Rightarrow> (Inr (), drop_pending rank c''))
         else (Inr (), ?c'))"
      using True V
      by (simp add: apply_report_checkpoint_def Let_def p_def [symmetric] n_def [symmetric] with_page_def)
    show thesis
    proof (cases "int (length (pd_pages ?p')) = pd_count ?p'")
      case False
      then show thesis using inv' eq by (intro wait [of n]) (simp_all add: p_def)
    next
      case full: True
      have seq: "sequence_of ?c' rank = sequence_of c rank" "pd_sequence ?p' = ck_sequence ck"
        using P(2) by (simp_all add: sequence_of_def with_page_def)
      show thesis
      proof (cases rule: complete_checkpoint_cases [OF inv', of rank ?c'])
        case 1
        then show thesis
          using inv' eq full seq by (intro old [of n]) (simp_all add: p_def drop_pending_def)
      next
        case 2
        then show thesis using inv' eq full by (intro bad [of ?p']) simp_all
      next
        case 3
        then show thesis
          using inv' eq full seq by (intro installed [of ?p' n]) (simp_all add: p_def)
      qed
    qed
  qed
qed

lemma set_pending_inv:
  assumes "catalog_inv eb c" "pending_inv eb (c_max_bytes c) p"
  shows "catalog_inv eb (c\<lparr>c_pending := (c_pending c)(rank \<mapsto> p)\<rparr>)"
  using catalog_invD(10-14) [OF assms(1)] index_invD(4) [OF catalog_invD(7) [OF assms(1)]] assms(2)
  by (intro catalog_inv_control [OF assms(1)]) (auto split: if_splits)

lemma drop_pending_frame [simp]:
  "c_generation (drop_pending rank c) = c_generation c"
  "c_expected (drop_pending rank c) = c_expected c"
  "c_desynchronized (drop_pending rank c) = c_desynchronized c"
  "c_sequences (drop_pending rank c) = c_sequences c"
  "c_rank_entries (drop_pending rank c) = c_rank_entries c"
  "c_pending (drop_pending rank c) = (c_pending c)(rank := None)"
  "c_max_bytes (drop_pending rank c) = c_max_bytes c"
  "c_generation_conflicts (drop_pending rank c) = c_generation_conflicts c"
  by (simp_all add: drop_pending_def)

lemma desynchronize_control [simp]:
  "c_generation (desynchronize rank c) = c_generation c"
  "c_expected (desynchronize rank c) = c_expected c"
  "c_sequences (desynchronize rank c) = c_sequences c"
  "c_pending (desynchronize rank c) = c_pending c"
  "c_max_bytes (desynchronize rank c) = c_max_bytes c"
  using desynchronize_frame(1) [of c rank] by (simp_all add: same_control_def)

lemma apply_report_checkpoint_result:
  assumes inv: "catalog_inv eb c" and rank: "rank \<in> c_expected c" "c_generation c rank \<noteq> None"
    "rank \<notin> c_generation_conflicts c"
    and valid: "validate_checkpoint eb (c_max_bytes c) mre ck = Inr ()"
  shows "fst (apply_report_checkpoint eb rank ck c) = Inr ()
    \<and> catalog_inv eb (snd (apply_report_checkpoint eb rank ck c))
    \<and> rank_local rank c (snd (apply_report_checkpoint eb rank ck c))
    \<and> c_generation (snd (apply_report_checkpoint eb rank ck c)) = c_generation c"
proof (cases rule: apply_report_checkpoint_cases [OF inv valid, of rank])
  case 1
  then show ?thesis
    using desynchronize_inv [OF drop_pending_inv [OF inv], of rank] rank(1)
      rank_local_trans [OF drop_pending_local desynchronize_local] by simp
next
  case (2 n)
  then show ?thesis
    using set_pending_inv [OF inv 2(1)] by (simp add: rank_local_def)
next
  case (3 n)
  then show ?thesis using drop_pending_inv [OF inv] drop_pending_local by simp
next
  case (4 p)
  let ?c' = "c\<lparr>c_pending := (c_pending c)(rank \<mapsto> p)\<rparr>"
  have "catalog_inv eb (drop_pending rank (desynchronize rank ?c'))"
    using rank(1) set_pending_inv [OF inv 4(1)] by (intro drop_pending_inv desynchronize_inv) auto
  moreover have "rank_local rank c ?c'" by (simp add: rank_local_def)
  ultimately show ?thesis
    using rank_local_trans [OF rank_local_trans [OF _ desynchronize_local] drop_pending_local, of rank c ?c']
    by (simp add: 4(2))
next
  case (5 n p)
  let ?c' = "c\<lparr>c_pending := (c_pending c)(rank \<mapsto> p), c_sequences := (c_sequences c)(rank \<mapsto> ck_sequence ck)\<rparr>"
  have inv': "catalog_inv eb ?c'"
    using set_sequence_inv [OF set_pending_inv [OF inv 5(2)]] by simp
  have fresh: "rank \<in> c_expected ?c'" "0 \<le> c_max_bytes ?c'" "c_generation ?c' rank \<noteq> None"
      "rank \<notin> c_generation_conflicts ?c'"
    using rank catalog_invD(1,2) [OF inv] by simp_all
  note flat = 5(3) flattened_valid [OF 5(2)]
  have "catalog_inv eb (drop_pending rank (install_rank eb rank (flattened p) ?c'))"
    using fresh flat by (intro drop_pending_inv install_rank_inv [OF inv'])
  moreover have "rank_local rank c ?c'" by (simp add: rank_local_def)
  moreover have "rank_local rank ?c' (install_rank eb rank (flattened p) ?c')"
    by (rule install_rank_local [OF catalog_invD(7) [OF inv'] fresh(1) flat fresh(2)])
  moreover have "c_generation (install_rank eb rank (flattened p) ?c') = c_generation c"
    using install_rank_result(2) [OF catalog_invD(7) [OF inv'] fresh(1) flat fresh(2), of eb]
    by (simp add: same_control_def)
  ultimately show ?thesis
    using rank_local_trans [OF rank_local_trans drop_pending_local] by (simp add: 5(5))
qed

lemma install_startup_local:
  assumes "catalog_inv eb c" "rank \<in> c_expected c"
  shows "rank_local rank c (snd (install_startup eb rank entries c))"
  using assms catalog_invD(1,2,7) [OF assms(1)]
  by (auto simp: install_startup_def Let_def replace_rank_eq list_all_dict_of
      intro!: install_rank_local split: sum.splits)

lemma apply_startup_local:
  assumes "catalog_inv eb c"
  shows "rank_local rank c (snd (apply_startup eb rank generation epoch entries c))"
proof -
  have "rank_local rank c (snd (install_startup eb rank entries (adopt_generation rank generation epoch c)))"
    if "rank \<in> c_expected c"
    using that
    by (intro rank_local_trans [OF adopt_generation_local install_startup_local]
        adopt_generation_inv assms) (simp_all add: adopt_generation_frame)
  then show ?thesis
    by (auto simp: apply_startup_def mark_generation_conflict_local split: sum.splits disposition.splits)
qed

lemma apply_report_body_valid:
  assumes "validate_inventory_report eb rep (c_max_bytes c) (c_max_report_entries c) = Inr u"
    and "fst (apply_report_delta eb (rep_rank rep) (rep_delta rep) c) = Inr ()"
  shows "apply_report_body eb rep c = apply_report_checkpoint eb (rep_rank rep) (rep_checkpoint rep)
    (checkpoint_gap (rep_rank rep) (rep_checkpoint rep) (snd (apply_report_delta eb (rep_rank rep) (rep_delta rep) c)))"
  using assms by (cases "apply_report_delta eb (rep_rank rep) (rep_delta rep) c")
    (simp add: apply_report_body_def Let_def)

text \<open>The outcome of the part of \<open>apply_report\<close> after a generation has been accepted.\<close>

lemma apply_report_body_result:
  assumes inv: "catalog_inv eb c" and rank: "rep_rank rep \<in> c_expected c"
    "c_generation c (rep_rank rep) \<noteq> None" "rep_rank rep \<notin> c_generation_conflicts c"
  shows "fst (apply_report_body eb rep c) = Inr ()
    \<and> catalog_inv eb (snd (apply_report_body eb rep c))
    \<and> rank_local (rep_rank rep) c (snd (apply_report_body eb rep c))
    \<and> c_generation (snd (apply_report_body eb rep c)) = c_generation c"
proof (cases "validate_inventory_report eb rep (c_max_bytes c) (c_max_report_entries c)")
  case (Inl e)
  note C = catalog_invD [OF inv]
  have "e = ManifestError" using validate_inventory_report_Inl [OF Inl] C(1-3) by simp
  then show ?thesis
    using Inl desynchronize_inv [OF drop_pending_inv [OF inv]] rank(1)
      rank_local_trans [OF drop_pending_local desynchronize_local]
    by (simp add: apply_report_body_def Let_def)
next
  case (Inr u)
  let ?rank = "rep_rank rep" and ?ck = "rep_checkpoint rep"
  note V = validate_inventory_report_Inr [OF Inr]
  note D = apply_report_delta_result [OF inv rank(1,2) V(2)]
  define c1 where "c1 = snd (apply_report_delta eb ?rank (rep_delta rep) c)"
  define c2 where "c2 = checkpoint_gap ?rank ?ck c1"
  have c1: "catalog_inv eb c1" "rank_local ?rank c c1" "c_generation c1 = c_generation c"
    "c_generation_conflicts c1 = c_generation_conflicts c"
    unfolding c1_def using D(2-4,6) by simp_all
  have r1: "?rank \<in> c_expected c1" "c_max_bytes c1 = c_max_bytes c"
    using c1(2) rank(1) by (simp_all add: rank_local_def)
  note G = checkpoint_gap_result [OF c1(1) r1(1), of ?ck, folded c2_def]
  have r2: "?rank \<in> c_expected c2" "c_max_bytes c2 = c_max_bytes c"
    using G(2) r1 by (simp_all add: rank_local_def)
  have "apply_report_body eb rep c = apply_report_checkpoint eb ?rank ?ck c2"
    using apply_report_body_valid [OF Inr D(1)] by (simp add: c1_def c2_def)
  moreover have "fst (apply_report_checkpoint eb ?rank ?ck c2) = Inr ()
    \<and> catalog_inv eb (snd (apply_report_checkpoint eb ?rank ?ck c2))
    \<and> rank_local ?rank c2 (snd (apply_report_checkpoint eb ?rank ?ck c2))
    \<and> c_generation (snd (apply_report_checkpoint eb ?rank ?ck c2)) = c_generation c2"
    using rank G c1 r2 V(1) by (intro apply_report_checkpoint_result [where mre = "c_max_report_entries c"]) simp_all
  ultimately show ?thesis
    using G(3) c1(3) rank_local_trans [OF rank_local_trans [OF c1(2) G(2)]] by simp
qed

lemma generation_disposition_Current:
  "generation_disposition rank generation epoch c = Current \<longleftrightarrow>
     c_generation c rank = Some (generation, epoch) \<and> rank \<notin> c_generation_conflicts c"
  by (auto simp: generation_disposition_def split: option.splits)

text \<open>
  Every report is handled in one of five ways.
\<close>

lemma apply_report_cases:
  assumes inv: "catalog_inv eb c"
  obtains (unexpected) "rep_rank rep \<notin> c_expected c" "apply_report eb rep c = (Inl ValueError, c)"
  | (malformed) "rep_rank rep \<in> c_expected c" "\<not> valid_generation (rep_generation rep) (rep_epoch rep)"
      "apply_report eb rep c = (Inl ValueError, mark_generation_conflict (rep_rank rep) c)"
  | (stale) "generation_disposition (rep_rank rep) (rep_generation rep) (rep_epoch rep) c = Stale"
      "apply_report eb rep c = (Inr (), c)"
  | (conflict) "rep_rank rep \<in> c_expected c" "valid_generation (rep_generation rep) (rep_epoch rep)"
      "generation_disposition (rep_rank rep) (rep_generation rep) (rep_epoch rep) c = Conflict"
      "apply_report eb rep c = (Inr (), mark_generation_conflict (rep_rank rep) c)"
  | (accepted) c0 where "rep_rank rep \<in> c_expected c0" "c_expected c0 = c_expected c" "catalog_inv eb c0"
      "c0 = c \<and> c_generation c (rep_rank rep) = Some (rep_generation rep, rep_epoch rep)
       \<or> c0 = adopt_generation (rep_rank rep) (rep_generation rep) (rep_epoch rep) c"
      "c_generation c0 (rep_rank rep) = Some (rep_generation rep, rep_epoch rep)"
      "rep_rank rep \<notin> c_generation_conflicts c0" "rank_local (rep_rank rep) c c0"
      "apply_report eb rep c = apply_report_body eb rep c0"
proof (cases "rep_rank rep \<in> c_expected c \<and> valid_generation (rep_generation rep) (rep_epoch rep)")
  case False
  then show thesis
    using unexpected malformed
    by (auto simp: apply_report_def validate_generation_identity_def require_def)
next
  case True
  let ?c0 = "adopt_generation (rep_rank rep) (rep_generation rep) (rep_epoch rep) c"
  have eq: "apply_report eb rep c =
     (case generation_disposition (rep_rank rep) (rep_generation rep) (rep_epoch rep) c of
             Stale \<Rightarrow> (Inr (), c)
           | Conflict \<Rightarrow> (Inr (), mark_generation_conflict (rep_rank rep) c)
           | Current \<Rightarrow> apply_report_body eb rep c
           | _ \<Rightarrow> apply_report_body eb rep ?c0)"
    using True by (simp add: apply_report_def validate_generation_identity_def require_def Let_def)
  have adopt: thesis if "apply_report eb rep c = apply_report_body eb rep ?c0"
    using True that adopt_generation_inv [OF inv] adopt_generation_local
    by (intro accepted [of ?c0]) (simp_all add: adopt_generation_frame)
  show thesis
  proof (cases "generation_disposition (rep_rank rep) (rep_generation rep) (rep_epoch rep) c")
    case Stale
    then show thesis using stale eq by simp
  next
    case Conflict
    then show thesis using conflict True eq by simp
  next
    case Current
    then show thesis
      using True inv eq iffD1 [OF generation_disposition_Current Current]
      by (intro accepted [of c]) simp_all
  qed (use adopt eq in simp_all)
qed

lemma apply_report_inv:
  assumes "catalog_inv eb c"
  shows "catalog_inv eb (snd (apply_report eb rep c))"
proof (cases rule: apply_report_cases [OF assms, of rep])
  case (5 c0)
  then show ?thesis using apply_report_body_result [OF 5(3), of rep] by simp
qed (use assms mark_generation_conflict_inv [OF assms] in simp_all)

lemma apply_report_local:
  assumes "catalog_inv eb c"
  shows "rank_local (rep_rank rep) c (snd (apply_report eb rep c))"
proof (cases rule: apply_report_cases [OF assms, of rep])
  case (5 c0)
  then show ?thesis
    using apply_report_body_result [OF 5(3), of rep] rank_local_trans [OF 5(7)] by simp
qed (simp_all add: mark_generation_conflict_local)

lemma touch_inv:
  assumes "catalog_inv eb c" "e \<in> set (c_recency c)"
  shows "catalog_inv eb (touch e c)"
proof -
  note C = catalog_invD [OF assms(1)] and I = index_invD [OF catalog_invD(7) [OF assms(1)]]
  have "set (c_recency (touch e c)) = set (c_recency c)" "distinct (c_recency (touch e c))"
    using assms(2) I(7) by (auto simp: touch_def distinct_removeAll)
  then have "index_inv (touch e c)"
    using C(7) by (simp add: index_inv_def holders_def touch_def)
  moreover have "count_quorum (touch e c) = count_quorum c"
    by (rule count_quorum_cong) (simp_all add: touch_def)
  ultimately show ?thesis using assms(1) by (simp add: catalog_inv_def touch_def)
qed

section \<open>Quorum\<close>

text \<open>An entry has quorum exactly when every expected rank's dictionary holds it with the span.\<close>

lemma holders_subset: "index_inv c \<Longrightarrow> holders c e \<subseteq> c_expected c"
  using index_invD(3) [of c] by (fastforce simp: holders_def)

lemma has_quorum_iff:
  assumes "catalog_inv eb c"
  shows "has_quorum e (Some n) c \<longleftrightarrow>
    (\<forall>rank \<in> c_expected c. dict_get (c_rank_entries c rank) e = Some n)"
proof -
  note C = catalog_invD [OF assms]
  have get: "(case dict_get (c_entry_ranks c) e of None \<Rightarrow> {} | Some ranks \<Rightarrow> ranks) = holders c e"
    by (simp add: index_invD(6) [OF C(7)] index_of_def)
  have sub: "holders c e = c_expected c"
    if "\<forall>rank \<in> c_expected c. dict_get (c_rank_entries c rank) e = Some n"
    using that holders_subset [OF C(7), of e] by (force simp: holders_def dest: map_of_SomeD)
  have img: "(\<lambda>rank. dict_get (c_rank_entries c rank) e) ` c_expected c = {Some n} \<longleftrightarrow>
      (\<forall>rank \<in> c_expected c. dict_get (c_rank_entries c rank) e = Some n)"
    (is "?f ` _ = _ \<longleftrightarrow> _")
  proof
    assume all: "\<forall>rank \<in> c_expected c. ?f rank = Some n"
    then have "?f ` c_expected c = (\<lambda>_. Some n) ` c_expected c" by (intro image_cong) simp_all
    then show "?f ` c_expected c = {Some n}" using C(5) by (simp add: image_constant_conv)
  next
    assume "?f ` c_expected c = {Some n}"
    then show "\<forall>rank \<in> c_expected c. ?f rank = Some n" by blast
  qed
  show ?thesis
    unfolding has_quorum_def get Let_def using sub img by auto
qed

lemma has_quorum_None_iff:
  assumes "catalog_inv eb c"
  shows "has_quorum e None c \<longleftrightarrow> (\<exists>n. has_quorum e (Some n) c)"
proof -
  note C = catalog_invD [OF assms]
  have get: "(case dict_get (c_entry_ranks c) e of None \<Rightarrow> {} | Some ranks \<Rightarrow> ranks) = holders c e"
    by (simp add: index_invD(6) [OF C(7)] index_of_def)
  have spans: "card S = 1 \<and> S \<noteq> {None} \<longleftrightarrow> (\<exists>n. card S = 1 \<and> S = {Some n})" for S :: "int option set"
  proof
    assume "card S = 1 \<and> S \<noteq> {None}"
    then obtain x where x: "S = {x}" by (auto simp: card_1_singleton_iff)
    with \<open>card S = 1 \<and> S \<noteq> {None}\<close> show "\<exists>n. card S = 1 \<and> S = {Some n}" by (cases x) simp_all
  qed auto
  show ?thesis
    unfolding has_quorum_def get Let_def
    using spans [of "(\<lambda>rank. dict_get (c_rank_entries c rank) e) ` c_expected c"] by auto
qed

section \<open>Runs of the scheduler's catalog\<close>

datatype catalog_op =
    Startup int string int "entry list"
  | Deliver worker_report
  | Longest "(int \<times> string) list"
  | QuorumCount

fun catalog_step :: "int \<Rightarrow> catalog_op \<Rightarrow> catalog \<Rightarrow> catalog" where
  "catalog_step eb (Startup rank generation epoch entries) c =
     snd (apply_startup eb rank generation epoch entries c)"
| "catalog_step eb (Deliver report) c = snd (apply_report eb report c)"
| "catalog_step eb (Longest candidates) c = snd (longest candidates c)"
| "catalog_step eb QuorumCount c = snd (quorum_count c)"

definition catalog_run :: "int \<Rightarrow> catalog_op list \<Rightarrow> catalog \<Rightarrow> catalog" where
  "catalog_run eb ops c = fold (catalog_step eb) ops c"

lemma first_quorum_Some:
  "first_quorum cs c = Some (n, e) \<Longrightarrow> (n, e) \<in> set cs \<and> has_quorum e (Some n) c"
  by (induction cs c rule: first_quorum.induct) (auto split: if_splits)

lemma first_quorum_None: "first_quorum cs c = None \<longleftrightarrow> (\<forall>(n, e) \<in> set cs. \<not> has_quorum e (Some n) c)"
  by (induction cs c rule: first_quorum.induct) auto

lemma first_quorum_least:
  "sorted_wrt (\<ge>) cs \<Longrightarrow> first_quorum cs c = Some x \<Longrightarrow> (n, e) \<in> set cs \<Longrightarrow>
   has_quorum e (Some n) c \<Longrightarrow> (n, e) \<le> x"
  by (induction cs c rule: first_quorum.induct) (auto split: if_splits)

lemma quorum_in_recency:
  assumes "catalog_inv eb c" "has_quorum e span_tokens c"
  shows "e \<in> set (c_recency c)"
proof -
  note C = catalog_invD [OF assms(1)]
  have "dict_get (c_entry_ranks c) e \<noteq> None"
    using assms(2) C(5) by (auto simp: has_quorum_def Let_def split: option.splits if_splits)
  then show ?thesis
    using index_invD(8) [OF C(7)] by (simp add: map_of_eq_None_iff)
qed

lemma longest_frame:
  "snd (longest cs c) = c \<or> (\<exists>e n. has_quorum e (Some n) c \<and> snd (longest cs c) = touch e c)"
  by (auto simp: longest_def split: option.splits dest: first_quorum_Some)

lemma catalog_step_inv: "catalog_inv eb c \<Longrightarrow> catalog_inv eb (catalog_step eb op c)"
proof (induction op)
  case (Longest cs)
  then show ?case
    using longest_frame [of cs c] touch_inv [OF Longest] quorum_in_recency [OF Longest] by auto
next
  case QuorumCount
  note C = catalog_invD [OF QuorumCount]
  have "catalog_inv eb (c\<lparr>c_quorum_count := Some (count_quorum c)\<rparr>)"
    using QuorumCount index_inv_def [of c] count_quorum_cong [of "c\<lparr>c_quorum_count := Some (count_quorum c)\<rparr>" c]
    by (simp add: catalog_inv_def index_inv_def holders_def)
  then show ?case using QuorumCount by (simp add: quorum_count_def split: option.splits)
qed (simp_all add: apply_startup_inv apply_report_inv)

lemma catalog_run_inv: "catalog_inv eb c \<Longrightarrow> catalog_inv eb (catalog_run eb ops c)"
  unfolding catalog_run_def by (induction ops arbitrary: c) (simp_all add: catalog_step_inv)

text \<open>The identity and rank an operation speaks for.\<close>

fun op_source :: "catalog_op \<Rightarrow> (int \<times> string \<times> int) option" where
  "op_source (Startup rank generation epoch entries) = Some (rank, generation, epoch)"
| "op_source (Deliver report) = Some (rep_rank report, rep_generation report, rep_epoch report)"
| "op_source (Longest candidates) = None"
| "op_source QuorumCount = None"

lemma catalog_step_query:
  assumes "op_source op = None"
  shows "c_generation (catalog_step eb op c) = c_generation c"
    "c_sequences (catalog_step eb op c) = c_sequences c"
    "c_desynchronized (catalog_step eb op c) = c_desynchronized c"
    "c_pending (catalog_step eb op c) = c_pending c"
    "c_rank_entries (catalog_step eb op c) = c_rank_entries c"
    "c_expected (catalog_step eb op c) = c_expected c"
    "c_generation_conflicts (catalog_step eb op c) = c_generation_conflicts c"
    "c_max_bytes (catalog_step eb op c) = c_max_bytes c"
    "c_max_report_entries (catalog_step eb op c) = c_max_report_entries c"
  using assms
  by (cases op; auto simp: longest_def quorum_count_def touch_def split: option.splits)+

lemma catalog_step_local:
  assumes "catalog_inv eb c" "\<And>r g n. op_source op = Some (r, g, n) \<Longrightarrow> r = rank"
  shows "rank_local rank c (catalog_step eb op c)"
proof (cases "op_source op")
  case None
  then show ?thesis by (simp add: rank_local_def catalog_step_query)
next
  case (Some a)
  then show ?thesis
    using assms apply_startup_local [OF assms(1)] apply_report_local [OF assms(1)]
    by (cases op) auto
qed

lemma catalog_step_expected: "catalog_inv eb c \<Longrightarrow> c_expected (catalog_step eb op c) = c_expected c"
  using catalog_step_local [of eb c op "case op_source op of None \<Rightarrow> 0 | Some (r, _) \<Rightarrow> r"]
  by (auto simp: rank_local_def split: option.splits)

section \<open>What the catalog knows of one process\<close>

context inventory_source
begin

text \<open>
  While the catalog follows this process, a synchronised rank's dictionary is part of the image of
  its sequence number, and every buffered page is part of the image of its checkpoint.
\<close>

definition shows_image :: "int \<Rightarrow> (string \<Rightarrow> int option) \<Rightarrow> bool" where
  "shows_image n entries \<longleftrightarrow> (\<exists>m. img n = Some m \<and> entries \<subseteq>\<^sub>m m)"

definition pages_shown :: "pending_checkpoint \<Rightarrow> bool" where
  "pages_shown p \<longleftrightarrow> (\<forall>page \<in> snd ` set (pd_pages p). \<exists>m. img (pd_sequence p) = Some m \<and> (\<forall>(k, v) \<in> set page. m k = Some v))"

definition tracks :: "catalog \<Rightarrow> bool" where
  "tracks c \<longleftrightarrow>
     (c_generation c rank = Some (generation, epoch) \<longrightarrow>
       (rank \<in> c_expected c - c_desynchronized c \<longrightarrow>
          shows_image (sequence_of c rank) (dict_get (c_rank_entries c rank)))
       \<and> (\<forall>p. c_pending c rank = Some p \<longrightarrow> pages_shown p))"

text \<open>Operations which speak for this process only carry what the process sent.\<close>

definition genuine :: "catalog_op \<Rightarrow> bool" where
  "genuine op \<longleftrightarrow>
     (op_source op = Some (rank, generation, epoch) \<longrightarrow>
       (case op of Startup _ _ _ es \<Rightarrow> es \<in> startups | Deliver rep \<Rightarrow> rep \<in> sent | _ \<Rightarrow> True))"

lemma shows_image_mono: "shows_image n m \<Longrightarrow> m' \<subseteq>\<^sub>m m \<Longrightarrow> shows_image n m'"
  unfolding shows_image_def using map_le_trans by blast

lemma tracks_local:
  assumes "tracks c" "rank_local r c c'" "r \<noteq> rank"
  shows "tracks c'"
  using assms shows_image_mono unfolding tracks_def rank_local_def sequence_of_def by fastforce

lemma tracks_desynchronized:
  assumes "rank \<in> c_desynchronized c'" "\<And>p. c_pending c' rank = Some p \<Longrightarrow> pages_shown p"
  shows "tracks c'"
  using assms by (simp add: tracks_def)

text \<open>The image of a base, updated by a delta of the process, is the image of its successor.\<close>

lemma delta_advances:
  assumes "rep \<in> sent" "rep_delta rep = Some d" "distinct (map fst (delta_added d))"
    and "shows_image (delta_base d) (dict_get entries)"
  shows "shows_image (delta_sequence d) (dict_get (delta_update d entries))"
proof -
  obtain m where m: "img (delta_base d) = Some m" "dict_get entries \<subseteq>\<^sub>m m"
    using assms(4) by (auto simp: shows_image_def)
  have "img (delta_sequence d) = Some (apply_delta d m)"
    using sent_delta [OF assms(1,2)] m(1) by (simp add: delta_law_def)
  moreover have "apply_delta d (dict_get entries) \<subseteq>\<^sub>m apply_delta d m"
    using m(2) by (auto simp: apply_delta_def map_le_def restrict_map_def map_add_def dom_def split: option.splits if_splits)
  ultimately show ?thesis
    by (simp add: shows_image_def delta_update_get [OF assms(3)])
qed

lemma pages_shown_with_page:
  assumes "pages_shown p" "rep \<in> sent" "pd_sequence p = ck_sequence (rep_checkpoint rep)"
  shows "pages_shown (with_page n (rep_checkpoint rep) p)"
proof -
  let ?ck = "rep_checkpoint rep"
  have "pd_pages (with_page n ?ck p) = dict_set (ck_index ?ck) (ck_entries ?ck) (pd_pages p)"
    and seq: "pd_sequence (with_page n ?ck p) = ck_sequence ?ck"
    using assms(3) by (simp_all add: with_page_def)
  then have sub: "snd ` set (pd_pages (with_page n ?ck p)) \<subseteq> insert (ck_entries ?ck) (snd ` set (pd_pages p))"
    using set_snd_dict_set by simp
  show ?thesis
    unfolding pages_shown_def seq
  proof
    fix page
    assume "page \<in> snd ` set (pd_pages (with_page n ?ck p))"
    with sub have "page \<in> insert (ck_entries ?ck) (snd ` set (pd_pages p))" by (rule subsetD)
    then show "\<exists>m. img (ck_sequence ?ck) = Some m \<and> (\<forall>(k, v) \<in> set page. m k = Some v)"
      using sent_page [OF assms(2)] assms(1,3) by (auto simp only: page_law_def pages_shown_def insert_iff)
  qed
qed


lemma pages_shown_pending_for:
  assumes "\<And>p. c_pending c r = Some p \<Longrightarrow> pages_shown p"
  shows "pages_shown (pending_for r ck c)"
  using assms by (auto simp: pending_for_def Let_def split: option.splits) (simp_all add: pages_shown_def)

lemma flattened_shown:
  assumes "pages_shown p" "distinct (dict_keys (flattened p))" "img (pd_sequence p) \<noteq> None"
  shows "shows_image (pd_sequence p) (dict_get (flattened p))"
proof -
  obtain m where m: "img (pd_sequence p) = Some m" using assms(3) by blast
  have "m k = Some v" if "(k, v) \<in> set (flattened p)" for k v
    using flattened_set [OF that] assms(1) m by (fastforce simp: pages_shown_def)
  then show ?thesis
    using m assms(2) by (auto simp: shows_image_def map_le_def)
qed

lemma tracks_delta:
  assumes "catalog_inv eb c" "tracks c" "rank \<in> c_expected c" "rep \<in> sent"
    and "c_generation c rank = Some (generation, epoch)"
    and valid: "\<And>d. rep_delta rep = Some d \<Longrightarrow> validate_delta mre d = Inr ()"
  shows "tracks (snd (apply_report_delta eb rank (rep_delta rep) c))"
proof (cases rule: apply_report_delta_cases [of eb rank "rep_delta rep" c])
  case keep
  then show ?thesis using assms by simp
next
  case gap
  then show ?thesis using assms by (intro tracks_desynchronized) (auto simp: tracks_def desynchronize_frame)
next
  case (advance d)
  note C = catalog_invD [OF assms(1)] and V = validate_delta_Inr [OF valid [OF advance(1)]]
  let ?m = "delta_update d (c_rank_entries c rank)"
  let ?c1 = "c\<lparr>c_sequences := (c_sequences c)(rank \<mapsto> delta_sequence d)\<rparr>"
  have m: "list_all valid_entry ?m" "distinct (dict_keys ?m)"
    using V index_invD [OF C(7)] by (auto intro: delta_update_valid delta_update_distinct)
  have "shows_image (delta_base d) (dict_get (c_rank_entries c rank))"
    using assms(2,3,5) advance(2,3) by (simp add: tracks_def)
  then have img: "shows_image (delta_sequence d) (dict_get ?m)"
    using V(3) assms(4) advance(1) by (intro delta_advances)
  note R = install_rank_result [OF catalog_invD(7) [OF set_sequence_inv [OF assms(1)]] _ m(2,1),
      of rank "(c_sequences c)(rank \<mapsto> delta_sequence d)" eb]
  have mb: "rank \<in> c_expected ?c1" "0 \<le> c_max_bytes ?c1" using assms(3) C(1,2) by simp_all
  have "shows_image (delta_sequence d) (dict_get (c_rank_entries (install_rank eb rank ?m ?c1) rank))"
    using R(5) [OF mb, of rank] by (intro shows_image_mono [OF img]) simp
  then show ?thesis
    using assms(2,5) R(2) [OF mb]
    by (simp add: advance(5) replace_rank_eq [OF m(1)] tracks_def same_control_def sequence_of_def)
qed

lemma tracks_gap: "tracks c \<Longrightarrow> tracks (checkpoint_gap rank ck c)"
  by (auto simp: checkpoint_gap_def tracks_def desynchronize_frame)

end

context inventory_source
begin

lemma tracks_checkpoint:
  assumes inv: "catalog_inv eb c" and "tracks c" "rank \<in> c_expected c" "rep \<in> sent"
    and gen: "c_generation c rank = Some (generation, epoch)"
    and valid: "validate_checkpoint eb (c_max_bytes c) mre (rep_checkpoint rep) = Inr ()"
  shows "tracks (snd (apply_report_checkpoint eb rank (rep_checkpoint rep) c))"
proof -
  let ?ck = "rep_checkpoint rep"
  have old: "pages_shown p" if "c_pending c rank = Some p" for p
    using that assms(2) gen by (simp add: tracks_def)
  have shown: "pages_shown (with_page n ?ck (pending_for rank ?ck c))" for n
    using assms(4) by (intro pages_shown_with_page pages_shown_pending_for old pending_for_inv(2) [OF inv valid])
  show ?thesis
  proof (cases rule: apply_report_checkpoint_cases [OF inv valid, of rank])
    case (5 n p)
    let ?c' = "c\<lparr>c_pending := (c_pending c)(rank \<mapsto> p), c_sequences := (c_sequences c)(rank \<mapsto> ck_sequence ?ck)\<rparr>"
    have seq: "pd_sequence p = ck_sequence ?ck"
      using pending_for_inv(2) [OF inv valid] by (simp add: 5(1) with_page_def)
    have inv': "catalog_inv eb ?c'" using set_sequence_inv [OF set_pending_inv [OF inv 5(2)]] by simp
    have mb: "rank \<in> c_expected ?c'" "0 \<le> c_max_bytes ?c'"
      using assms(3) catalog_invD(1,2) [OF inv] by simp_all
    note R = install_rank_result [OF catalog_invD(7) [OF inv'] mb(1) 5(3) flattened_valid [OF 5(2)] mb(2), of eb]
    have "img (ck_sequence ?ck) \<noteq> None" using sent_page [OF assms(4)] by (auto simp: page_law_def)
    then have img: "shows_image (ck_sequence ?ck) (dict_get (flattened p))"
      using shown 5(1,3) flattened_shown [of p] seq by simp
    have "shows_image (ck_sequence ?ck) (dict_get (c_rank_entries (install_rank eb rank (flattened p) ?c') rank))"
      using R(5) [of rank] by (intro shows_image_mono [OF img]) simp
    then show ?thesis
      using R(2) by (simp add: 5(5) tracks_def same_control_def sequence_of_def)
  next
    case (2 n)
    have "tracks (c\<lparr>c_pending := (c_pending c)(rank \<mapsto> with_page n ?ck (pending_for rank ?ck c))\<rparr>)"
      using assms(2) gen shown by (simp add: tracks_def sequence_of_def)
    then show ?thesis by (simp add: 2)
  next
    case (3 n)
    have "tracks (drop_pending rank c)" using assms(2) gen by (simp add: tracks_def sequence_of_def)
    then show ?thesis by (simp add: 3)
  qed (simp_all add: tracks_def desynchronize_frame)
qed

lemma tracks_body:
  assumes inv: "catalog_inv eb c" and "tracks c" "rank \<in> c_expected c" "rep \<in> sent"
    and gen: "c_generation c rank = Some (generation, epoch)"
  shows "tracks (snd (apply_report_body eb rep c))"
proof (cases "validate_inventory_report eb rep (c_max_bytes c) (c_max_report_entries c)")
  case (Inl e)
  then show ?thesis
    using sent_identity [OF assms(4)] assms(2)
    by (auto simp: apply_report_body_def Let_def tracks_def desynchronize_frame)
next
  case (Inr u)
  have r: "rep_rank rep = rank" using sent_identity [OF assms(4)] by simp
  note V = validate_inventory_report_Inr [OF Inr]
  let ?c1 = "snd (apply_report_delta eb rank (rep_delta rep) c)"
  have g: "c_generation c rank \<noteq> None" using gen by simp
  note D = apply_report_delta_result [OF inv assms(3) g V(2)]
  have c1: "tracks ?c1" using V(2) by (intro tracks_delta [OF inv assms(2-4) gen])
  have r1: "rank \<in> c_expected ?c1" "c_max_bytes ?c1 = c_max_bytes c"
    using D(3) [of "rep_delta rep"] assms(3) by (simp_all add: rank_local_def)
  note G = checkpoint_gap_result [OF D(2) r1(1), where ck = "rep_checkpoint rep"]
  have "apply_report_body eb rep c =
      apply_report_checkpoint eb rank (rep_checkpoint rep) (checkpoint_gap rank (rep_checkpoint rep) ?c1)"
    using apply_report_body_valid [OF Inr] D(1) [of "rep_delta rep"] by (simp add: r)
  moreover have "tracks (snd (apply_report_checkpoint eb rank (rep_checkpoint rep)
      (checkpoint_gap rank (rep_checkpoint rep) ?c1)))"
    using G V(1) r1 c1 gen D(4) assms(4)
    by (intro tracks_checkpoint [where mre = "c_max_report_entries c"] tracks_gap) (simp_all add: rank_local_def)
  ultimately show ?thesis by simp
qed

lemma tracks_apply_report:
  assumes inv: "catalog_inv eb c" and "tracks c" "genuine (Deliver rep)"
  shows "tracks (snd (apply_report eb rep c))"
proof (cases "rep_rank rep = rank")
  case False
  then show ?thesis using tracks_local [OF assms(2) apply_report_local [OF inv]] by simp
next
  case r: True
  show ?thesis
  proof (cases rule: apply_report_cases [OF inv, of rep])
    case (5 c0)
    have c0: "tracks c0"
      using 5(4) assms(2) by (auto simp: tracks_def adopt_generation_frame r)
    show ?thesis
    proof (cases "(rep_generation rep, rep_epoch rep) = (generation, epoch)")
      case True
      then have "rep \<in> sent" using assms(3) r by (simp add: genuine_def)
      then show ?thesis using tracks_body [OF 5(3) c0] 5 r True by simp
    next
      case False
      then show ?thesis
        using apply_report_body_result [OF 5(3), of rep] 5 by (auto simp: tracks_def r)
    qed
  qed (use assms(2) in \<open>auto simp: tracks_def mark_generation_conflict_frame r\<close>)
qed

lemma tracks_install_startup:
  assumes inv: "catalog_inv eb c" and r: "rank \<in> c_expected c" "sequence_of c rank = 0"
    "rank \<in> c_desynchronized c" "c_pending c rank = None" and es: "es \<in> startups"
  shows "tracks (snd (install_startup eb rank es c))"
proof -
  have keep: "tracks c" using r by (simp add: tracks_def)
  have "tracks (install_rank eb rank (dict_of items) c)"
    if items: "items = take n es" "list_all valid_entry items" "length (dict_of items) = length items" for n items
  proof -
    obtain m where m: "img 0 = Some m" "\<forall>(k, v) \<in> set es. m k = Some v" using sent_startup [OF es] by blast
    have d1: "distinct (dict_keys items)" using items(3) length_dict_of_eq_iff by blast
    note d = d1 dict_of_distinct [OF d1]
    have "set items \<subseteq> set es" using items(1) set_take_subset by simp
    then have "m k = Some v" if "dict_get items k = Some v" for k v
      using m(2) map_of_SomeD [OF that] by blast
    then have "dict_get items \<subseteq>\<^sub>m m" by (auto simp: map_le_def)
    note R = install_rank_result [OF catalog_invD(7) [OF inv] r(1) d(1) items(2), of eb]
    have mb: "0 \<le> c_max_bytes c" using catalog_invD(1,2) [OF inv] by simp
    have "shows_image 0 (dict_get items)"
      using \<open>dict_get items \<subseteq>\<^sub>m m\<close> m(1) by (simp add: shows_image_def)
    then have "shows_image 0 (dict_get (c_rank_entries (install_rank eb rank items c) rank))"
      by (rule shows_image_mono) (use R(5) [OF mb, of rank] in simp)
    moreover have "sequence_of (install_rank eb rank items c) rank = 0"
      using R(2) [OF mb] r(2) by (simp add: same_control_def sequence_of_def)
    ultimately show ?thesis
      using R(2) [OF mb] r(4) by (simp add: tracks_def d same_control_def)
  qed
  then show ?thesis
    using keep
    by (auto simp: install_startup_def Let_def replace_rank_eq list_all_dict_of split: sum.splits)
qed

end

context inventory_source
begin

lemma tracks_apply_startup:
  assumes inv: "catalog_inv eb c" and "tracks c" "genuine (Startup r g n es)"
  shows "tracks (snd (apply_startup eb r g n es c))"
proof (cases "r = rank")
  case False
  then show ?thesis using tracks_local [OF assms(2) apply_startup_local [OF inv]] by simp
next
  case r: True
  let ?c0 = "adopt_generation rank g n c"
  have adopt: "tracks (snd (install_startup eb rank es ?c0))" if "rank \<in> c_expected c"
  proof (cases "(g, n) = (generation, epoch)")
    case True
    then have "es \<in> startups" using assms(3) r by (simp add: genuine_def)
    then show ?thesis
      using that adopt_generation_inv [OF inv that]
      by (intro tracks_install_startup) (simp_all add: adopt_generation_frame sequence_of_def)
  next
    case False
    have "c_generation (snd (install_startup eb rank es ?c0)) = c_generation ?c0"
      using install_rank_result(2) [OF catalog_invD(7) [OF adopt_generation_inv [OF inv that]]]
        catalog_invD(1,2) [OF inv] that
      by (auto simp: install_startup_def Let_def replace_rank_eq list_all_dict_of adopt_generation_frame
          same_control_def split: sum.splits)
    then show ?thesis using False by (auto simp: tracks_def adopt_generation_frame)
  qed
  have conflict: "tracks (mark_generation_conflict rank c)"
    by (simp add: tracks_def mark_generation_conflict_frame)
  show ?thesis
    using adopt conflict assms(2)
    by (auto simp: apply_startup_def r split: sum.splits disposition.splits)
qed

lemma tracks_step:
  assumes "catalog_inv eb c" "tracks c" "genuine op"
  shows "tracks (catalog_step eb op c)"
proof (cases "op_source op")
  case None
  then show ?thesis
    using assms(2) unfolding tracks_def sequence_of_def by (simp add: catalog_step_query)
next
  case (Some a)
  then show ?thesis
    using assms tracks_apply_startup tracks_apply_report by (cases op) auto
qed

theorem tracks_run:
  "catalog_inv eb c \<Longrightarrow> tracks c \<Longrightarrow> list_all genuine ops \<Longrightarrow> tracks (catalog_run eb ops c)"
  unfolding catalog_run_def
  by (induction ops arbitrary: c) (simp_all add: tracks_step catalog_step_inv)

lemma tracks_initial: "c_generation c rank = None \<Longrightarrow> tracks c"
  by (simp add: tracks_def)

end

section \<open>Freshness after the newest report\<close>

text \<open>A rank that is still synchronised after a report has reached the report's sequence number.\<close>

lemma apply_report_body_reaches:
  assumes inv: "catalog_inv eb c" and rank: "rep_rank rep \<in> c_expected c"
    "c_generation c (rep_rank rep) \<noteq> None" "rep_rank rep \<notin> c_generation_conflicts c"
    and sync: "rep_rank rep \<notin> c_desynchronized (snd (apply_report_body eb rep c))"
  shows "ck_sequence (rep_checkpoint rep) \<le> sequence_of (snd (apply_report_body eb rep c)) (rep_rank rep)"
proof (cases "validate_inventory_report eb rep (c_max_bytes c) (c_max_report_entries c)")
  case (Inl e)
  have "e = ManifestError"
    using validate_inventory_report_Inl [OF Inl] catalog_invD(1-3) [OF inv] by simp
  then show ?thesis using sync Inl by (simp add: apply_report_body_def Let_def desynchronize_frame)
next
  case (Inr u)
  let ?rank = "rep_rank rep" and ?ck = "rep_checkpoint rep"
  note V = validate_inventory_report_Inr [OF Inr]
  note D = apply_report_delta_result [OF inv rank(1,2) V(2), of "rep_delta rep", simplified]
  define c1 where "c1 = snd (apply_report_delta eb ?rank (rep_delta rep) c)"
  define c2 where "c2 = checkpoint_gap ?rank ?ck c1"
  have body: "apply_report_body eb rep c = apply_report_checkpoint eb ?rank ?ck c2"
    using apply_report_body_valid [OF Inr D(1)] by (simp add: c1_def c2_def)
  have inv1: "catalog_inv eb c1" and r1: "?rank \<in> c_expected c1" "c_max_bytes c1 = c_max_bytes c"
    using D(2,3) rank(1) by (simp_all add: c1_def rank_local_def)
  note G = checkpoint_gap_result [OF inv1 r1(1), of ?ck, folded c2_def]
  have mb: "c_max_bytes c2 = c_max_bytes c" using G(2) r1 by (simp add: rank_local_def)
  have gap: "?rank \<in> c_desynchronized c2 \<or> ck_sequence ?ck \<le> sequence_of c2 ?rank"
    by (auto simp: c2_def checkpoint_gap_def desynchronize_frame)
  have valid: "validate_checkpoint eb (c_max_bytes c2) (c_max_report_entries c) ?ck = Inr ()"
    using V(1) mb by simp
  show ?thesis
  proof (cases rule: apply_report_checkpoint_cases [OF G(1) valid, of ?rank])
    case (5 n p)
    let ?c' = "c2\<lparr>c_pending := (c_pending c2)(?rank \<mapsto> p), c_sequences := (c_sequences c2)(?rank \<mapsto> ck_sequence ?ck)\<rparr>"
    have "catalog_inv eb ?c'" using set_sequence_inv [OF set_pending_inv [OF G(1) 5(2)]] by simp
    moreover have "?rank \<in> c_expected ?c'" "0 \<le> c_max_bytes ?c'"
      using G(2) r1 catalog_invD(1,2) [OF G(1)] by (simp_all add: rank_local_def)
    ultimately have "same_control ?c' (install_rank eb ?rank (flattened p) ?c')"
      using install_rank_result(2) catalog_invD(7) 5(3) flattened_valid [OF 5(2)] by blast
    then show ?thesis by (simp add: body 5(5) same_control_def sequence_of_def)
  qed (use gap sync body in \<open>simp_all add: desynchronize_frame sequence_of_def\<close>)
qed

lemma install_startup_generation:
  assumes "catalog_inv eb c" "rank \<in> c_expected c"
  shows "c_generation (snd (install_startup eb rank es c)) = c_generation c"
  using install_rank_result(2) [OF catalog_invD(7) [OF assms(1)] assms(2)] catalog_invD(1,2) [OF assms(1)]
  by (auto simp: install_startup_def Let_def replace_rank_eq list_all_dict_of same_control_def
      split: sum.splits)

text \<open>The generation of a rank only changes to the identity of an operation of that rank.\<close>

lemma catalog_step_generation:
  assumes inv: "catalog_inv eb c"
  shows "c_generation (catalog_step eb op c) rank = c_generation c rank
    \<or> (\<exists>g n. op_source op = Some (rank, g, n) \<and> c_generation (catalog_step eb op c) rank = Some (g, n))"
proof (cases "\<exists>g n. op_source op = Some (rank, g, n)")
  case False
  then show ?thesis
    using catalog_step_local [OF inv, of op "case op_source op of None \<Rightarrow> rank + 1 | Some (r, _) \<Rightarrow> r"]
    by (auto simp: rank_local_def split: option.splits)
next
  case True
  then obtain g n where src: "op_source op = Some (rank, g, n)" by blast
  show ?thesis
  proof (cases op)
    case (Startup r g' n' es)
    then show ?thesis
      using src install_startup_generation [OF adopt_generation_inv [OF inv]]
      by (auto simp: apply_startup_def adopt_generation_frame mark_generation_conflict_frame
          split: sum.splits disposition.splits)
  next
    case (Deliver rep)
    then have r: "rep_rank rep = rank" "rep_generation rep = g" "rep_epoch rep = n" using src by auto
    show ?thesis
    proof (cases rule: apply_report_cases [OF inv, of rep])
      case (5 c0)
      then show ?thesis
        using apply_report_body_result [OF 5(3), of rep] src r Deliver by simp
    qed (simp_all add: Deliver mark_generation_conflict_frame)
  qed (use src in simp_all)
qed

context inventory_latest
begin

text \<open>Every other process of this rank that the catalog may hear of is older.\<close>

definition no_newer :: "catalog_op \<Rightarrow> bool" where
  "no_newer op \<longleftrightarrow> (\<forall>g n. op_source op = Some (rank, g, n) \<longrightarrow> (g, n) = (generation, epoch) \<or> n < epoch)"

definition follows :: "catalog \<Rightarrow> bool" where
  "follows c \<longleftrightarrow> (\<forall>g n. c_generation c rank = Some (g, n) \<longrightarrow> (g, n) = (generation, epoch) \<or> n < epoch)"

lemma follows_run:
  "catalog_inv eb c \<Longrightarrow> follows c \<Longrightarrow> list_all no_newer ops \<Longrightarrow> follows (catalog_run eb ops c)"
  unfolding catalog_run_def
proof (induction ops arbitrary: c)
  case (Cons op ops)
  have "follows (catalog_step eb op c)"
    using Cons.prems catalog_step_generation [OF Cons.prems(1), of op rank]
    by (auto simp: follows_def no_newer_def)
  then show ?case using Cons catalog_step_inv by simp
qed simp

text \<open>Ghost freedom: once the newest report has been applied, a synchronised rank shows only
  entries the worker holds.\<close>

lemma latest_no_ghosts:
  assumes inv: "catalog_inv eb c" and "tracks c" "follows c" "rep \<in> latest" "rank \<in> c_expected c"
    and sync: "rank \<notin> c_desynchronized (snd (apply_report eb rep c))"
  shows "dict_get (c_rank_entries (snd (apply_report eb rep c)) rank) \<subseteq>\<^sub>m held"
proof -
  have sent: "rep \<in> sent" by (rule latest_sent [OF assms(4)])
  note id = sent_identity [OF sent]
  let ?c' = "snd (apply_report eb rep c)"
  have tracks: "tracks ?c'"
    using sent by (intro tracks_apply_report inv assms(2)) (simp add: genuine_def)
  show ?thesis
  proof (cases rule: apply_report_cases [OF inv, of rep])
    case 3
    then show ?thesis
      using assms(3) id
      by (auto simp: generation_disposition_def follows_def split: option.splits if_splits)
  next
    case (5 c0)
    have gen: "c_generation ?c' rank = Some (generation, epoch)" "c_expected ?c' = c_expected c"
      using apply_report_body_result [OF 5(3), of rep] 5 id by (simp_all add: rank_local_def)
    have reach: "ck_sequence (rep_checkpoint rep) \<le> sequence_of ?c' rank"
      using apply_report_body_reaches [OF 5(3), of rep] 5 id sync by simp
    have "shows_image (sequence_of ?c' rank) (dict_get (c_rank_entries ?c' rank))"
      using tracks gen sync assms(5) by (simp add: tracks_def)
    then obtain m where m: "img (sequence_of ?c' rank) = Some m" "dict_get (c_rank_entries ?c' rank) \<subseteq>\<^sub>m m"
      by (auto simp: shows_image_def)
    have "sequence_of ?c' rank = ck_sequence (rep_checkpoint rep)"
      using reach latest_highest [OF assms(4), of "sequence_of ?c' rank"] m(1) by simp
    then show ?thesis using m latest_held [OF assms(4)] map_le_trans by metis
  qed (use assms(5) sync id in \<open>simp_all add: mark_generation_conflict_frame\<close>)
qed

end

section \<open>The catalog and its workers together\<close>

text \<open>
  What the scheduler may hear of a worker's rank: the startup inventory and the reports of the
  worker, lost, repeated and in any order, and anything from older processes of the same rank
  (the epochs of a rank are strictly increasing).
\<close>

fun hears :: "worker_config \<Rightarrow> reporter_op list \<Rightarrow> catalog_op \<Rightarrow> bool" where
  "hears w ops (Startup rank generation epoch entries) \<longleftrightarrow>
     (rank = wc_rank w \<longrightarrow>
       generation = wc_generation w \<and> epoch = wc_epoch w \<and> entries \<in> worker_startup w \<or> epoch < wc_epoch w)"
| "hears w ops (Deliver report) \<longleftrightarrow>
     (rep_rank report = wc_rank w \<longrightarrow> report \<in> worker_sent w ops \<or> rep_epoch report < wc_epoch w)"
| "hears w ops _ \<longleftrightarrow> True"

lemma hears_genuine:
  assumes "hears w ops op"
  shows "worker.genuine w ops op"
  using assms worker.sent_identity [of _ w ops]
  by (cases op) (auto simp: worker.genuine_def)

lemma hears_no_newer:
  assumes "hears w (ops @ [Report b]) op"
  shows "latest.no_newer w op"
  using assms worker.sent_identity [of _ w "ops @ [Report b]"]
  by (cases op) (auto simp: latest.no_newer_def)

lemma run_other_ranks:
  assumes "catalog_inv eb c" "\<And>op r' g n. op \<in> set ops \<Longrightarrow> op_source op = Some (r', g, n) \<Longrightarrow> r' \<noteq> r"
  shows "dict_get (c_rank_entries (catalog_run eb ops c) r) \<subseteq>\<^sub>m dict_get (c_rank_entries c r)
    \<and> (r \<in> c_desynchronized (catalog_run eb ops c) \<longleftrightarrow> r \<in> c_desynchronized c)"
  using assms unfolding catalog_run_def
proof (induction ops arbitrary: c)
  case (Cons op ops)
  let ?q = "case op_source op of None \<Rightarrow> r + 1 | Some (r', _) \<Rightarrow> r'"
  have "rank_local ?q c (catalog_step eb op c)"
    by (rule catalog_step_local [OF Cons.prems(1)]) simp
  moreover have "?q \<noteq> r" using Cons.prems(2) [of op] by (auto split: option.splits)
  ultimately have "dict_get (c_rank_entries (catalog_step eb op c) r) \<subseteq>\<^sub>m dict_get (c_rank_entries c r)
    \<and> (r \<in> c_desynchronized (catalog_step eb op c) \<longleftrightarrow> r \<in> c_desynchronized c)"
    unfolding rank_local_def by metis
  moreover have "dict_get (c_rank_entries (fold (catalog_step eb) ops (catalog_step eb op c)) r)
      \<subseteq>\<^sub>m dict_get (c_rank_entries (catalog_step eb op c) r)
    \<and> (r \<in> c_desynchronized (fold (catalog_step eb) ops (catalog_step eb op c)) \<longleftrightarrow>
        r \<in> c_desynchronized (catalog_step eb op c))"
    using Cons.prems by (intro Cons.IH) (auto simp: catalog_step_inv)
  ultimately show ?case using map_le_trans by auto
qed simp

lemma catalog_run_expected: "catalog_inv eb c \<Longrightarrow> c_expected (catalog_run eb ops c) = c_expected c"
  unfolding catalog_run_def
  by (induction ops arbitrary: c) (simp_all add: catalog_step_expected catalog_step_inv)

lemma catalog_step_bounds: "catalog_inv eb c \<Longrightarrow> c_max_bytes (catalog_step eb op c) = c_max_bytes c"
  using catalog_step_local [of eb c op "case op_source op of None \<Rightarrow> 0 | Some (r, _) \<Rightarrow> r"]
  by (auto simp: rank_local_def split: option.splits)

lemma catalog_run_bounds: "catalog_inv eb c \<Longrightarrow> c_max_bytes (catalog_run eb ops c) = c_max_bytes c"
  unfolding catalog_run_def
  by (induction ops arbitrary: c) (simp_all add: catalog_step_bounds catalog_step_inv)

lemma catalog_run_append: "catalog_run eb (xs @ ys) c = catalog_run eb ys (catalog_run eb xs c)"
  by (simp add: catalog_run_def)

lemma QuorumCatalog_ranks:
  assumes "QuorumCatalog eb ranks mb mre = Inr c"
  shows "distinct ranks" "c_expected c = set ranks"
  using assms by (auto simp: QuorumCatalog_def Let_def and_then_Inr_iff not_less min_def split: if_splits)

section \<open>A concrete deployment\<close>

definition digest_of_char :: "char \<Rightarrow> string" where
  "digest_of_char c = replicate 64 c"

definition sample_worker :: "int \<Rightarrow> worker_config" where
  "sample_worker rank =
     \<lparr>wc_entry_bytes = 0, wc_rank = rank, wc_generation = ''g'', wc_epoch = 7, wc_max_bytes = 8,
      wc_max_report_entries = 4, wc_offers = [(digest_of_char CHR ''a'', 256), (digest_of_char CHR ''b'', 512)],
      wc_withdrawn = []\<rparr>"

definition sample_ops :: "int \<Rightarrow> reporter_op list" where
  "sample_ops rank = [Remove (digest_of_char CHR ''b'')]"

definition sample_report :: "int \<Rightarrow> worker_report" where
  "sample_report rank =
     \<lparr>rep_rank = rank, rep_generation = ''g'', rep_epoch = 7,
      rep_checkpoint = \<lparr>ck_sequence = 1, ck_cycle = 1, ck_index = 0, ck_count = 1, ck_held_count = 1,
        ck_entries = [(digest_of_char CHR ''a'', 256)]\<rparr>,
      rep_delta = Some \<lparr>delta_sequence = 1, delta_base = 0, delta_added = [],
        delta_removed = [digest_of_char CHR ''b'']\<rparr>\<rparr>"

definition sample_startup :: "int \<Rightarrow> catalog_op" where
  "sample_startup rank =
     Startup rank ''g'' 7 [(digest_of_char CHR ''a'', 256), (digest_of_char CHR ''b'', 512)]"

lemma sample_report_latest: "sample_report 0 \<in> worker_latest (sample_worker 0) (sample_ops 0) 2"
  by code_simp

lemma sample_report_latest1: "sample_report 1 \<in> worker_latest (sample_worker 1) (sample_ops 1) 2"
  by code_simp

definition sample_start :: catalog where
  "sample_start = (case QuorumCatalog 1 [0, 1] 8 4 of Inr c \<Rightarrow> c)"

lemma sample_catalog: "QuorumCatalog 1 [0, 1] 8 4 = Inr sample_start"
  by (simp add: sample_start_def QuorumCatalog_def Let_def inventory_capacity_def
      MAX_INVENTORY_REPORTS_def upto.simps)

lemma sample_quorum:
  "has_quorum (digest_of_char CHR ''a'') (Some 256)
     (catalog_run 1 ([sample_startup 0, sample_startup 1] @ map (Deliver \<circ> sample_report) [0, 1]) sample_start)"
  by code_simp

lemma sample_hears:
  "hears (sample_worker 0) (sample_ops 0 @ [Report 2]) (sample_startup 0)"
  "hears (sample_worker 0) (sample_ops 0 @ [Report 2]) (sample_startup 1)"
  "hears (sample_worker 1) (sample_ops 1 @ [Report 2]) (sample_startup 0)"
  "hears (sample_worker 1) (sample_ops 1 @ [Report 2]) (sample_startup 1)"
  by code_simp+

section \<open>Properties\<close>

text \<open>
  C1: Quorum without ghosts.  After the newest report of every rank has been applied, an entry with
  quorum is held by every worker with the claimed span, whatever was lost, repeated or reordered
  before, and whatever older processes of the same ranks sent.
\<close>

theorem quorum_is_held:
  assumes "0 < eb" and fresh: "QuorumCatalog eb ranks mb mre = Inr c"
    and ranks: "\<And>r. r \<in> set ranks \<Longrightarrow> wc_rank (w r) = r"
    and ops: "\<And>r op. r \<in> set ranks \<Longrightarrow> op \<in> set ops \<Longrightarrow> hears (w r) (wops r @ [Report (b r)]) op"
    and newest: "\<And>r. r \<in> set ranks \<Longrightarrow> rep r \<in> worker_latest (w r) (wops r) (b r)"
    and quorum: "has_quorum e (Some n) (catalog_run eb (ops @ map (Deliver \<circ> rep) ranks) c)"
    and r: "r \<in> set ranks"
  shows "worker_held (w r) (wops r @ [Report (b r)]) e = Some n"
proof -
  obtain xs ys where split: "ranks = xs @ r # ys" using r by (meson split_list)
  have other: "q \<noteq> r" if "q \<in> set xs \<union> set ys" for q
    using that QuorumCatalog_ranks(1) [OF fresh] split by auto
  have rep: "rep_rank (rep q) = q" if "q \<in> set ranks" for q
    using worker.sent_identity [OF latest.latest_sent [OF newest [OF that]]] ranks [OF that] by simp
  note C = QuorumCatalog_inv [OF assms(1) fresh]
  define c1 where "c1 = catalog_run eb (ops @ map (Deliver \<circ> rep) xs) c"
  define c2 where "c2 = snd (apply_report eb (rep r) c1)"
  define c3 where "c3 = catalog_run eb (map (Deliver \<circ> rep) ys) c2"
  have end3: "c3 = catalog_run eb (ops @ map (Deliver \<circ> rep) ranks) c"
    by (simp add: c3_def c2_def c1_def split catalog_run_def)
  have hears: "hears (w r) (wops r @ [Report (b r)]) op" if "op \<in> set (ops @ map (Deliver \<circ> rep) xs)" for op
    using that ops [OF r] other rep ranks [OF r] split by auto
  have inv1: "catalog_inv eb c1" unfolding c1_def by (rule catalog_run_inv [OF C(1)])
  have tracks: "worker.tracks (w r) (wops r @ [Report (b r)]) c1" unfolding c1_def
    using hears hears_genuine C(1,3) by (intro worker.tracks_run worker.tracks_initial) (auto simp: list_all_iff)
  have follows: "latest.follows (w r) c1" unfolding c1_def
    using hears_no_newer [OF hears] C(1,3)
    by (intro latest.follows_run) (auto simp: list_all_iff latest.follows_def)
  have inv2: "catalog_inv eb c2" unfolding c2_def by (rule apply_report_inv [OF inv1])
  have tail: "dict_get (c_rank_entries c3 r) \<subseteq>\<^sub>m dict_get (c_rank_entries c2 r)
      \<and> (r \<in> c_desynchronized c3 \<longleftrightarrow> r \<in> c_desynchronized c2)"
    unfolding c3_def using other rep split by (intro run_other_ranks [OF inv2]) auto
  have inv3: "catalog_inv eb c3" unfolding c3_def by (rule catalog_run_inv [OF inv2])
  have exp: "r \<in> c_expected c1" "r \<in> c_expected c3"
    using r QuorumCatalog_ranks(2) [OF fresh] catalog_run_expected [OF C(1)]
    by (simp_all add: c1_def end3)
  have got: "dict_get (c_rank_entries c3 r) e = Some n"
    using has_quorum_iff [OF inv3] quorum exp(2) by (simp add: end3)
  then have "r \<notin> c_desynchronized c3"
    using index_invD(4) [OF catalog_invD(7) [OF inv3], of r] by auto
  then have "dict_get (c_rank_entries c2 r) \<subseteq>\<^sub>m worker_held (w r) (wops r @ [Report (b r)])"
    unfolding c2_def using tail newest [OF r] exp(1) ranks [OF r]
      latest.latest_no_ghosts [OF inv1 tracks follows newest [OF r]] by (simp add: c2_def)
  then show ?thesis using tail got map_le_trans by (metis domI map_le_def)
qed

theorem quorum_is_held_witness:
  "has_quorum (digest_of_char CHR ''a'') (Some 256)
     (catalog_run 1 ([sample_startup 0, sample_startup 1] @ map (Deliver \<circ> sample_report) [0, 1]) sample_start)
   \<and> worker_held (sample_worker 1) (sample_ops 1 @ [Report 2]) (digest_of_char CHR ''a'') = Some 256"
  using sample_quorum
    quorum_is_held [OF _ sample_catalog, of sample_worker "[sample_startup 0, sample_startup 1]" sample_ops
      "\<lambda>_. 2" sample_report, OF _ _ _ _ sample_quorum, of 1]
    sample_report_latest sample_report_latest1 sample_hears
  by (auto simp: sample_worker_def)

text \<open>
  C3: The catalog is consistent in every run: the memory bound holds, an entry has quorum exactly
  when every rank holds it with the same span, and the cached quorum count is exact.
\<close>

theorem catalog_consistent:
  assumes "0 < eb" and "QuorumCatalog eb ranks mb mre = Inr c0" and "c = catalog_run eb ops c0"
  shows "int (length (c_entry_ranks c)) * eb \<le> mb
    \<and> (\<forall>e n. has_quorum e (Some n) c \<longleftrightarrow> (\<forall>rank \<in> set ranks. dict_get (c_rank_entries c rank) e = Some n))
    \<and> (\<forall>rank \<in> c_desynchronized c. c_rank_entries c rank = [])
    \<and> fst (quorum_count c) = int (card {e. \<exists>n. has_quorum e (Some n) c})"
proof -
  have inv: "catalog_inv eb c"
    unfolding assms(3) by (rule catalog_run_inv [OF QuorumCatalog_inv(1) [OF assms(1,2)]])
  note C = catalog_invD [OF inv] and I = index_invD [OF catalog_invD(7) [OF inv]]
  have "fst (quorum_count c) = count_quorum c"
    using C(9) by (simp add: quorum_count_def split: option.splits)
  also have "\<dots> = int (card {e \<in> fst ` set (c_entry_ranks c). has_quorum e None c})"
  proof -
    have "distinct (filter (\<lambda>e. has_quorum e None c) (dict_keys (c_entry_ranks c)))" using I(5) by simp
    from distinct_card [OF this] show ?thesis by (simp add: count_quorum_def)
  qed
  also have "{e \<in> fst ` set (c_entry_ranks c). has_quorum e None c} = {e. \<exists>n. has_quorum e (Some n) c}"
    using quorum_in_recency [OF inv] has_quorum_None_iff [OF inv] I(8) by auto
  finally have "fst (quorum_count c) = int (card {e. \<exists>n. has_quorum e (Some n) c})" .
  moreover have "c_max_bytes c = mb"
    using catalog_run_bounds [OF QuorumCatalog_inv(1) [OF assms(1,2)]] assms(2,3)
    by (auto simp: QuorumCatalog_def Let_def and_then_Inr_iff split: if_splits)
  moreover have "c_expected c = set ranks"
    using catalog_run_expected [OF QuorumCatalog_inv(1) [OF assms(1,2)]] QuorumCatalog_ranks(2) [OF assms(2)]
    by (simp add: assms(3))
  ultimately show ?thesis
    using C(8) has_quorum_iff [OF inv] I(4) by simp
qed

theorem catalog_consistent_witness:
  "fst (quorum_count (catalog_run 1 [sample_startup 0, sample_startup 1] sample_start))
     = int (card {e. \<exists>n. has_quorum e (Some n) (catalog_run 1 [sample_startup 0, sample_startup 1] sample_start)})"
  using catalog_consistent [OF _ sample_catalog refl, of "[sample_startup 0, sample_startup 1]"] by simp

text \<open>
  C6: \<open>longest\<close> returns a candidate with quorum and no candidate with quorum is longer; it returns
  nothing only when no candidate has quorum.  The whole catalog is unchanged when it returns nothing;
  otherwise it differs in the recency order alone, where the returned entry moves to the recent end.
\<close>

theorem longest_correct:
  "(case fst (longest cs c) of
      None \<Rightarrow> (\<forall>(n, e) \<in> set cs. \<not> has_quorum e (Some n) c) \<and> snd (longest cs c) = c
    | Some (n, e) \<Rightarrow> (n, e) \<in> set cs \<and> has_quorum e (Some n) c
        \<and> (\<forall>(n', e') \<in> set cs. has_quorum e' (Some n') c \<longrightarrow> n' \<le> n)
        \<and> snd (longest cs c) = c\<lparr>c_recency := removeAll e (c_recency c) @ [e]\<rparr>)"
proof (cases "first_quorum (rev (sort cs)) c")
  case None
  then have "\<forall>(n, e) \<in> set cs. \<not> has_quorum e (Some n) c" using first_quorum_None [of "rev (sort cs)" c] by simp
  then show ?thesis by (simp add: longest_def None)
next
  case (Some x)
  obtain n e where x: "x = (n, e)" by force
  have "sorted_wrt (\<ge>) (rev (sort cs))" by (simp add: sorted_wrt_rev)
  note least = first_quorum_least [OF this, of c x]
  have "n' \<le> n" if "(n', e') \<in> set cs" "has_quorum e' (Some n') c" for n' e'
    using least [of n' e'] Some x that by (auto simp: less_eq_prod_def)
  then show ?thesis
    using Some first_quorum_Some [of "rev (sort cs)" c n e] x by (auto simp: longest_def touch_def)
qed

theorem longest_correct_witness:
  "fst (longest [(256, digest_of_char CHR ''a''), (512, digest_of_char CHR ''b'')]
      (catalog_run 1 [sample_startup 0, sample_startup 1] sample_start)) = Some (512, digest_of_char CHR ''b'')
   \<and> snd (longest [(256, digest_of_char CHR ''a''), (512, digest_of_char CHR ''b'')]
        (catalog_run 1 [sample_startup 0, sample_startup 1] sample_start))
     = (catalog_run 1 [sample_startup 0, sample_startup 1] sample_start)\<lparr>c_recency :=
         removeAll (digest_of_char CHR ''b'') (c_recency (catalog_run 1 [sample_startup 0, sample_startup 1] sample_start))
           @ [digest_of_char CHR ''b'']\<rparr>"
proof -
  have found: "fst (longest [(256, digest_of_char CHR ''a''), (512, digest_of_char CHR ''b'')]
      (catalog_run 1 [sample_startup 0, sample_startup 1] sample_start)) = Some (512, digest_of_char CHR ''b'')"
    by code_simp
  then show ?thesis
    using longest_correct [of "[(256, digest_of_char CHR ''a''), (512, digest_of_char CHR ''b'')]"
        "catalog_run 1 [sample_startup 0, sample_startup 1] sample_start"] by simp
qed

text \<open>
  C5: A report is refused with \<open>ValueError\<close> exactly when its rank is unexpected or its process
  identity is malformed; the malformed identity withdraws the rank, and no other error escapes.
\<close>

theorem apply_report_errors:
  assumes "0 < eb" and "QuorumCatalog eb ranks mb mre = Inr c0" and "c = catalog_run eb ops c0"
  shows "fst (apply_report eb rep c) =
     (if rep_rank rep \<in> set ranks \<and> valid_generation (rep_generation rep) (rep_epoch rep)
      then Inr () else Inl ValueError)
    \<and> (rep_rank rep \<in> set ranks \<and> \<not> valid_generation (rep_generation rep) (rep_epoch rep) \<longrightarrow>
         rep_rank rep \<in> c_desynchronized (snd (apply_report eb rep c)))"
proof -
  note C0 = QuorumCatalog_inv(1) [OF assms(1,2)]
  have inv: "catalog_inv eb c" unfolding assms(3) by (rule catalog_run_inv [OF C0])
  have exp: "c_expected c = set ranks"
    using catalog_run_expected [OF C0] QuorumCatalog_ranks(2) [OF assms(2)] by (simp add: assms(3))
  show ?thesis
  proof (cases "rep_rank rep \<in> set ranks \<and> valid_generation (rep_generation rep) (rep_epoch rep)")
    case False
    then show ?thesis
      by (auto simp: apply_report_def Let_def exp validate_generation_identity_def require_def
          mark_generation_conflict_frame)
  next
    case True
    then have "fst (apply_report eb rep c) = Inr ()"
    proof (cases rule: apply_report_cases [OF inv, of rep])
      case (5 c0)
      then show ?thesis using apply_report_body_result [OF 5(3), of rep] by simp
    qed (use True exp in simp_all)
    then show ?thesis using True by simp
  qed
qed

theorem apply_report_errors_witness:
  "fst (apply_report 1 (sample_report 5) sample_start) = Inl ValueError"
  using apply_report_errors [OF _ sample_catalog refl, of "sample_report 5" "[]"]
  by (simp add: catalog_run_def sample_report_def)

end
