(* ===== verification/Sha256.thy ===== *)
theory Sha256
  imports Prelude "HOL-Library.Word"
begin

text \<open>
  Byte strings and the standard-library encodings the source uses: \<open>struct\<close> packing of 64-bit
  little-endian integers, \<open>bytes.hex\<close> and \<open>bytes.fromhex\<close>, and \<open>hashlib.sha256\<close> as FIPS 180-4
  defines it.  A byte is a \<^typ>\<open>char\<close>.  The operations of the program take the hash function as
  an argument \<open>sha\<close>; the locale \<open>hash_function\<close> states what they rely on and \<open>sha256\<close>
  interprets it.
\<close>

unbundle bit_operations_syntax

section \<open>Packed integers\<close>

definition le_bytes :: "64 word \<Rightarrow> string" where
  "le_bytes w = map (\<lambda>i. char_of (unat (take_bit 8 (drop_bit (8 * i) w)))) [0..<8]"

text \<open>\<open>struct.Struct("<q").pack\<close> and \<open>struct.Struct("<Q").pack\<close> on values in range.\<close>

definition pack_q :: "int \<Rightarrow> string" where
  "pack_q n = le_bytes (word_of_int n)"

definition pack_Q :: "int \<Rightarrow> string" where
  "pack_Q n = le_bytes (word_of_int n)"

section \<open>Hexadecimal\<close>

definition hex_digit :: "nat \<Rightarrow> char" where
  "hex_digit n = hex_digits ! n"

definition hex_of :: "string \<Rightarrow> string" where
  "hex_of bs = concat (map (\<lambda>b. [hex_digit (of_char b div 16), hex_digit (of_char b mod 16)]) bs)"

definition hex_value :: "char \<Rightarrow> nat" where
  "hex_value c = (if CHR ''a'' \<le> c then of_char c - 87 else of_char c - 48)"

fun from_hex :: "string \<Rightarrow> string" where
  "from_hex (a # b # cs) = char_of (16 * hex_value a + hex_value b) # from_hex cs"
| "from_hex _ = []"

section \<open>SHA-256\<close>

type_synonym w32 = "32 word"

definition rotr :: "nat \<Rightarrow> w32 \<Rightarrow> w32" where
  "rotr n x = word_rotr n x"

text \<open>The round constants (the fractional parts of the cube roots of the first 64 primes) in decimal.\<close>

definition K256 :: "w32 list" where
  "K256 = [
    1116352408, 1899447441, 3049323471, 3921009573, 961987163, 1508970993, 2453635748,
    2870763221, 3624381080, 310598401, 607225278, 1426881987, 1925078388, 2162078206,
    2614888103, 3248222580, 3835390401, 4022224774, 264347078, 604807628, 770255983,
    1249150122, 1555081692, 1996064986, 2554220882, 2821834349, 2952996808, 3210313671,
    3336571891, 3584528711, 113926993, 338241895, 666307205, 773529912, 1294757372,
    1396182291, 1695183700, 1986661051, 2177026350, 2456956037, 2730485921, 2820302411,
    3259730800, 3345764771, 3516065817, 3600352804, 4094571909, 275423344, 430227734,
    506948616, 659060556, 883997877, 958139571, 1322822218, 1537002063, 1747873779,
    1955562222, 2024104815, 2227730452, 2361852424, 2428436474, 2756734187, 3204031479,
    3329325298]"

record sha_state =
  sha_a :: w32
  sha_b :: w32
  sha_c :: w32
  sha_d :: w32
  sha_e :: w32
  sha_f :: w32
  sha_g :: w32
  sha_h :: w32

definition H256 :: sha_state where
  "H256 = \<lparr>sha_a = 1779033703, sha_b = 3144134277, sha_c = 1013904242, sha_d = 2773480762,
           sha_e = 1359893119, sha_f = 2600822924, sha_g = 528734635, sha_h = 1541459225\<rparr>"

definition small_sigma0 :: "w32 \<Rightarrow> w32" where
  "small_sigma0 x = rotr 7 x XOR rotr 18 x XOR drop_bit 3 x"

definition small_sigma1 :: "w32 \<Rightarrow> w32" where
  "small_sigma1 x = rotr 17 x XOR rotr 19 x XOR drop_bit 10 x"

text \<open>The message schedule, most recent word first.\<close>

fun schedule :: "nat \<Rightarrow> w32 list \<Rightarrow> w32 list" where
  "schedule 0 ws = ws"
| "schedule (Suc n) ws =
     schedule n ((small_sigma1 (ws ! 1) + ws ! 6 + small_sigma0 (ws ! 14) + ws ! 15) # ws)"

definition sha_round :: "w32 \<times> w32 \<Rightarrow> sha_state \<Rightarrow> sha_state" where
  "sha_round kw s =
     (let t1 = sha_h s + (rotr 6 (sha_e s) XOR rotr 11 (sha_e s) XOR rotr 25 (sha_e s))
               + ((sha_e s AND sha_f s) XOR (NOT (sha_e s) AND sha_g s)) + fst kw + snd kw;
          t2 = (rotr 2 (sha_a s) XOR rotr 13 (sha_a s) XOR rotr 22 (sha_a s))
               + ((sha_a s AND sha_b s) XOR (sha_a s AND sha_c s) XOR (sha_b s AND sha_c s))
      in \<lparr>sha_a = t1 + t2, sha_b = sha_a s, sha_c = sha_b s, sha_d = sha_c s,
          sha_e = sha_d s + t1, sha_f = sha_e s, sha_g = sha_f s, sha_h = sha_g s\<rparr>)"

definition sha_compress :: "w32 list \<Rightarrow> sha_state \<Rightarrow> sha_state" where
  "sha_compress block s =
     (let s' = fold sha_round (zip K256 (rev (schedule 48 (rev block)))) s
      in \<lparr>sha_a = sha_a s + sha_a s', sha_b = sha_b s + sha_b s', sha_c = sha_c s + sha_c s',
          sha_d = sha_d s + sha_d s', sha_e = sha_e s + sha_e s', sha_f = sha_f s + sha_f s',
          sha_g = sha_g s + sha_g s', sha_h = sha_h s + sha_h s'\<rparr>)"

text \<open>Padding: the byte 128, zero bytes, and the bit length as eight big-endian bytes.\<close>

definition sha_pad :: "string \<Rightarrow> string" where
  "sha_pad m =
     m @ [char_of (128::nat)] @ replicate ((119 - length m mod 64) mod 64) (char_of (0::nat))
     @ rev (le_bytes (word_of_int (8 * int (length m))))"

fun be_words :: "string \<Rightarrow> w32 list" where
  "be_words (a # b # c # d # cs) =
     word_of_int (((of_char a * 256 + of_char b) * 256 + of_char c) * 256 + of_char d) # be_words cs"
| "be_words _ = []"

function blocks_of :: "'a list \<Rightarrow> 'a list list" where
  "blocks_of xs = (if length xs < 16 then [] else take 16 xs # blocks_of (drop 16 xs))"
  by pat_completeness auto

termination
  by (relation "measure length") auto

declare blocks_of.simps [simp del]

definition be_bytes :: "w32 \<Rightarrow> string" where
  "be_bytes w = map (\<lambda>i. char_of (unat (take_bit 8 (drop_bit (24 - 8 * i) w)))) [0..<4]"

definition sha256 :: "string \<Rightarrow> string" where
  "sha256 m =
     (let s = fold sha_compress (blocks_of (be_words (sha_pad m))) H256
      in concat (map be_bytes [sha_a s, sha_b s, sha_c s, sha_d s, sha_e s, sha_f s, sha_g s, sha_h s]))"

lemma sha256_abc: "hex_of (sha256 ''abc'') = ''ba7816bf8f01cfea414140de5dae2223b00361a396177a9cb410ff61f20015ad''"
  by code_simp

section \<open>Lemmas\<close>

lemma length_le_bytes [simp]: "length (le_bytes w) = 8"
  by (simp add: le_bytes_def)

lemma length_pack_q [simp]: "length (pack_q n) = 8"
  by (simp add: pack_q_def)

lemma length_pack_Q [simp]: "length (pack_Q n) = 8"
  by (simp add: pack_Q_def)

lemma le_bytes_inj:
  assumes "le_bytes v = le_bytes w"
  shows "v = w"
proof (rule bit_word_eqI)
  fix n
  assume n: "n < LENGTH(64)"
  let ?i = "n div 8" and ?j = "n mod 8"
  have i: "?i < 8" using n by simp
  have "le_bytes v ! ?i = le_bytes w ! ?i" using assms by simp
  then have "char_of (unat (take_bit 8 (drop_bit (8 * ?i) v))) = char_of (unat (take_bit 8 (drop_bit (8 * ?i) w)))"
    using i by (simp add: le_bytes_def)
  moreover have "unat (take_bit 8 (drop_bit (8 * ?i) x)) < 256" for x :: "64 word"
    using take_bit_nat_less_exp [of 8 "unat (drop_bit (8 * ?i) x)"] by (simp add: unsigned_take_bit_eq)
  ultimately have "unat (take_bit 8 (drop_bit (8 * ?i) v)) = unat (take_bit 8 (drop_bit (8 * ?i) w))"
    by (metis char_of_eq_iff of_char_of mod_less)
  then have "take_bit 8 (drop_bit (8 * ?i) v) = take_bit 8 (drop_bit (8 * ?i) w)" by (rule word_unat_eq_iff [THEN iffD2])
  then have "bit (take_bit 8 (drop_bit (8 * ?i) v)) ?j = bit (take_bit 8 (drop_bit (8 * ?i) w)) ?j" by simp
  then show "bit v n = bit w n" by (simp add: bit_take_bit_iff bit_drop_bit_eq)
qed

lemma pack_q_inj:
  assumes "pack_q m = pack_q n" "- (2 ^ 63) \<le> m" "m < 2 ^ 63" "- (2 ^ 63) \<le> n" "n < 2 ^ 63"
  shows "m = n"
proof -
  have "word_of_int m = (word_of_int n :: 64 word)" using le_bytes_inj assms(1) by (simp add: pack_q_def)
  then have "signed_take_bit 63 m = signed_take_bit 63 n"
    using signed_take_bit_eq_iff_take_bit_eq [of 63 m n] by (simp add: word_of_int_eq_iff)
  then show ?thesis using assms by (simp add: signed_take_bit_int_eq_self)
qed

lemma pack_Q_inj:
  assumes "pack_Q m = pack_Q n" "0 \<le> m" "m < 2 ^ 64" "0 \<le> n" "n < 2 ^ 64"
  shows "m = n"
proof -
  have "word_of_int m = (word_of_int n :: 64 word)" using le_bytes_inj assms(1) by (simp add: pack_Q_def)
  then show ?thesis using assms by (simp add: word_of_int_eq_iff take_bit_int_eq_self)
qed

lemma length_hex_of [simp]: "length (hex_of bs) = 2 * length bs"
  by (induction bs) (simp_all add: hex_of_def)

lemma hex_digit_value: "n < 16 \<Longrightarrow> hex_value (hex_digit n) = n"
proof -
  have "\<forall>n \<in> set [0..<16]. hex_value (hex_digit n) = n" by code_simp
  then show "n < 16 \<Longrightarrow> hex_value (hex_digit n) = n" by simp
qed

lemma hex_value_digit: "c \<in> set hex_digits \<Longrightarrow> hex_digit (hex_value c) = c \<and> hex_value c < 16"
proof -
  have "\<forall>c \<in> set hex_digits. hex_digit (hex_value c) = c \<and> hex_value c < 16" by code_simp
  then show "c \<in> set hex_digits \<Longrightarrow> hex_digit (hex_value c) = c \<and> hex_value c < 16" by simp
qed

lemma hex_digit_in: "n < 16 \<Longrightarrow> hex_digit n \<in> set hex_digits"
  unfolding hex_digit_def by (rule nth_mem) (simp add: hex_digits_def)

text \<open>\<open>bytes.fromhex\<close> inverts \<open>bytes.hex\<close>.\<close>

lemma from_hex_hex_of [simp]: "from_hex (hex_of bs) = bs"
proof (induction bs)
  case (Cons b bs)
  have "of_char b < (256 :: nat)" by simp
  then have "of_char b div 16 < (16 :: nat)" by (simp add: div_less_iff_less_mult)
  then have "from_hex (hex_of (b # bs)) = char_of (16 * (of_char b div 16 :: nat) + of_char b mod 16) # from_hex (hex_of bs)"
    by (simp add: hex_of_def hex_digit_value)
  also have "16 * (of_char b div 16 :: nat) + of_char b mod 16 = of_char b" by simp
  finally show ?case using Cons by simp
qed (simp add: hex_of_def)

lemma hex_of_inj: "hex_of a = hex_of b \<longleftrightarrow> a = b"
  by (metis from_hex_hex_of)

lemma is_hex_hex_of [simp]: "is_hex (hex_of bs)"
  by (induction bs) (auto simp: hex_of_def is_hex_def hex_digit_in div_less_iff_less_mult)

lemma hex_of_from_hex: "is_hex s \<Longrightarrow> even (length s) \<Longrightarrow> hex_of (from_hex s) = s"
proof (induction s rule: from_hex.induct)
  case (1 a b cs)
  have v: "hex_value a < 16" "hex_value b < 16" "hex_digit (hex_value a) = a" "hex_digit (hex_value b) = b"
    using 1(2) hex_value_digit by (auto simp: is_hex_def)
  have "16 * hex_value a + hex_value b < 256" using v by simp
  then have "of_char (char_of (16 * hex_value a + hex_value b)) = 16 * hex_value a + hex_value b"
    by (simp add: of_char_of)
  then show ?case using v 1 by (simp add: hex_of_def is_hex_def)
qed (simp_all add: hex_of_def)

section \<open>The contract of a 256-bit hash function\<close>

locale hash_function =
  fixes sha :: "string \<Rightarrow> string"
  assumes sha_length [simp]: "length (sha m) = 32"
begin

lemma is_digest_sha [simp]: "is_digest (hex_of (sha m))"
  by (simp add: is_digest_def)

end

interpretation sha256: hash_function sha256
  by unfold_locales (simp add: sha256_def Let_def be_bytes_def)

end
