(* ===== verification/Prefix.thy ===== *)
theory Prefix
  imports Sha256
begin

text \<open>
  \<open>prefix.py\<close>: the exact-prefix keys shared by scheduler and workers.  Tokens are hashed in
  chunks, each digest chaining the previous one; the media identities active at a boundary are
  bound by one more hash.  The hash function is the argument \<open>sha\<close>.  Strings are their UTF-8
  bytes, so the encoding step of the source, which fails only on lone surrogates, is the identity.
\<close>

section \<open>Data\<close>

record media_feature =
  mf_modality :: string
  mf_identifier :: string
  mf_offset :: int
  mf_length :: int

record prefix_digest =
  px_span :: int
  px_digest :: string

definition DOMAIN :: string where
  "DOMAIN = ''spoolcache-exact-prefix/v2'' @ [char_of (0::nat)]"

definition MULTIMODAL_DOMAIN :: string where
  "MULTIMODAL_DOMAIN = ''spoolcache-multimodal-prefix/v1'' @ [char_of (0::nat)]"

section \<open>Media\<close>

fun validate_features :: "int \<Rightarrow> int \<Rightarrow> media_feature list \<Rightarrow> unit result" where
  "validate_features token_count previous_end [] = Inr ()"
| "validate_features token_count previous_end (f # fs) =
     (if mf_modality f = [] \<or> mf_identifier f = [] then Inl ValueError
      else if mf_offset f < 0 \<or> mf_length f \<le> 0 then Inl ValueError
      else if mf_offset f < previous_end then Inl ValueError
      else if mf_offset f + mf_length f > token_count then Inl ValueError
      else validate_features token_count (mf_offset f + mf_length f) fs)"

definition validate_multimodal_features ::
  "media_feature list \<Rightarrow> int \<Rightarrow> media_feature list result" where
  "validate_multimodal_features features token_count =
     (if token_count < 0 then Inl ValueError
      else and_then (validate_features token_count 0 features) (\<lambda>_. Inr features))"

definition encode_feature :: "media_feature \<Rightarrow> string" where
  "encode_feature f =
     pack_Q (mf_offset f) @ pack_Q (mf_length f)
     @ pack_Q (int (length (mf_modality f))) @ mf_modality f
     @ pack_Q (int (length (mf_identifier f))) @ mf_identifier f"

definition active_features :: "media_feature list \<Rightarrow> int \<Rightarrow> media_feature list" where
  "active_features features limit = filter (\<lambda>f. mf_offset f < limit) features"

definition multimodal_payload :: "media_feature list \<Rightarrow> int \<Rightarrow> string" where
  "multimodal_payload features limit =
     (let active = active_features features limit in
      if active = [] then []
      else MULTIMODAL_DOMAIN @ pack_Q (int (length active)) @ concat (map encode_feature active))"

section \<open>Boundaries\<close>

function gcd_loop :: "int \<Rightarrow> int \<Rightarrow> int" where
  "gcd_loop left right = (if right = 0 then left else gcd_loop right (left mod right))"
  by pat_completeness auto

termination
  by (relation "measure (\<lambda>(left, right). nat \<bar>right\<bar>)") (auto simp: abs_mod_less)

declare gcd_loop.simps [simp del]

definition aligned_prefix_span :: "int \<Rightarrow> int \<Rightarrow> int \<Rightarrow> int \<Rightarrow> int option \<Rightarrow> int" where
  "aligned_prefix_span prompt_tokens alignment chunk_tokens min_span_tokens max_span_tokens =
     (if prompt_tokens \<le> 1 \<or> alignment \<le> 0 \<or> chunk_tokens \<le> 0 then 0
      else
       (let quantum = alignment * chunk_tokens div gcd_loop alignment chunk_tokens;
            span0 = ((prompt_tokens - 1) div quantum) * quantum;
            limit = (case max_span_tokens of
                      None \<Rightarrow> span0
                    | Some m \<Rightarrow> min span0 ((m div quantum) * quantum))
        in if limit \<ge> min_span_tokens then limit else 0))"

section \<open>The digest chain\<close>

definition initial_input :: "string \<Rightarrow> string \<Rightarrow> string" where
  "initial_input deployment_digest cache_salt =
     DOMAIN @ from_hex deployment_digest @ pack_Q (int (length cache_salt)) @ cache_salt"

definition initial_digest :: "(string \<Rightarrow> string) \<Rightarrow> string \<Rightarrow> string \<Rightarrow> string result" where
  "initial_digest sha deployment_digest cache_salt =
     (if \<not> is_digest deployment_digest then Inl IdentityError
      else Inr (sha (initial_input deployment_digest cache_salt)))"

definition encode_chunk :: "int list \<Rightarrow> string" where
  "encode_chunk chunk = pack_Q (int (length chunk)) @ concat (map pack_q chunk)"

definition token_in_range :: "int \<Rightarrow> bool" where
  "token_in_range token \<longleftrightarrow> - (2 ^ 63) \<le> token \<and> token < 2 ^ 63"

definition all_boundaries :: "int \<Rightarrow> int \<Rightarrow> int list" where
  "all_boundaries chunk_tokens token_count =
     map (\<lambda>k. k * chunk_tokens) [1..token_count div chunk_tokens]"

definition boundary_digest :: "(string \<Rightarrow> string) \<Rightarrow> media_feature list \<Rightarrow> int \<Rightarrow> string \<Rightarrow> prefix_digest" where
  "boundary_digest sha features limit previous =
     (let media = multimodal_payload features limit
      in \<lparr>px_span = limit,
          px_digest = hex_of (if media \<noteq> [] then sha (previous @ media) else previous)\<rparr>)"

function digest_chunks ::
  "(string \<Rightarrow> string) \<Rightarrow> int \<Rightarrow> int set \<Rightarrow> media_feature list \<Rightarrow> int \<Rightarrow> string \<Rightarrow> int list \<Rightarrow> prefix_digest list"
where
  "digest_chunks sha chunk_tokens requested features start previous tokens =
     (let chunk = take (nat chunk_tokens) tokens in
      if chunk_tokens \<le> 0 \<or> int (length chunk) < chunk_tokens then []
      else
       (let previous' = sha (previous @ encode_chunk chunk);
            limit = start + chunk_tokens;
            rest = digest_chunks sha chunk_tokens requested features limit previous'
                     (drop (nat chunk_tokens) tokens)
        in if limit \<in> requested then boundary_digest sha features limit previous' # rest else rest))"
  by pat_completeness auto

termination
  by (relation "measure (\<lambda>(sha, chunk, req, feats, start, prev, tokens). length tokens)") auto

declare digest_chunks.simps [simp del]

definition prefix_digests ::
  "(string \<Rightarrow> string) \<Rightarrow> int list \<Rightarrow> string \<Rightarrow> string \<Rightarrow> int \<Rightarrow> int list option \<Rightarrow> media_feature list
     \<Rightarrow> prefix_digest list result" where
  "prefix_digests sha tokens deployment_digest cache_salt chunk_tokens boundaries multimodal_features =
     (if chunk_tokens \<le> 0 then Inl ValueError
      else if \<not> list_all token_in_range tokens then Inl ValueError
      else
       (let count = int (length tokens);
            requested = (case boundaries of
                           None \<Rightarrow> set (all_boundaries chunk_tokens count)
                         | Some bs \<Rightarrow> set bs)
        in if \<exists>b \<in> requested. b \<le> 0 \<or> b > count \<or> b mod chunk_tokens \<noteq> 0 then Inl ValueError
           else
            and_then (validate_multimodal_features multimodal_features count) (\<lambda>features.
            and_then (initial_digest sha deployment_digest cache_salt) (\<lambda>previous.
            Inr (digest_chunks sha chunk_tokens requested features 0 previous tokens)))))"

section \<open>Safe boundaries\<close>

lemma gcd_loop_eq: "0 \<le> a \<Longrightarrow> 0 \<le> b \<Longrightarrow> gcd_loop a b = gcd a b"
proof (induction a b rule: gcd_loop.induct)
  case (1 a b)
  show ?case
  proof (cases "b = 0")
    case True
    then show ?thesis using 1 by (simp add: gcd_loop.simps [of a 0])
  next
    case False
    then have "gcd_loop b (a mod b) = gcd b (a mod b)" using 1 by (simp add: pos_mod_sign)
    then show ?thesis using False by (simp add: gcd_loop.simps [of a b] gcd_red_int [symmetric])
  qed
qed

lemma largest_multiple:
  fixes n q t :: int
  assumes "0 < q"
  shows "q dvd t \<Longrightarrow> t \<le> n \<Longrightarrow> t \<le> (n div q) * q" and "(n div q) * q \<le> n"
proof -
  show "(n div q) * q \<le> n" using assms by (simp add: minus_mod_eq_div_mult [symmetric])
  assume "q dvd t" "t \<le> n"
  then obtain k where k: "t = q * k" by (auto elim: dvdE)
  have "t div q \<le> n div q" using \<open>t \<le> n\<close> assms by (rule zdiv_mono1)
  then have "k \<le> n div q" using k assms by simp
  then show "t \<le> (n div q) * q" using k assms by (simp add: mult.commute mult_left_mono)
qed

text \<open>
  C18: \<open>aligned_prefix_span\<close> returns the largest boundary that is a multiple of the alignment and of
  the chunk size, leaves at least one prompt token to compute and respects the optional maximum;
  a boundary below the minimum, and every degenerate input, gives zero.
\<close>

theorem aligned_prefix_span_correct:
  assumes "1 < p" "0 < a" "0 < c" "0 \<le> mn" and s: "s = aligned_prefix_span p a c mn mx"
  shows "0 \<le> s \<and> s < p \<and> a dvd s \<and> c dvd s \<and> (\<forall>m. mx = Some m \<longrightarrow> 0 \<le> m \<longrightarrow> s \<le> m)
    \<and> (s = 0 \<or> mn \<le> s)
    \<and> (\<forall>t. a dvd t \<and> c dvd t \<and> t < p \<and> mn \<le> t \<and> (\<forall>m. mx = Some m \<longrightarrow> t \<le> m) \<longrightarrow> t \<le> s)"
proof -
  let ?q = "a * c div gcd_loop a c"
  have "0 \<le> a * c div gcd a c" using assms(2,3) by (simp add: div_int_pos_iff)
  then have q: "?q = lcm a c" using assms(2,3) by (simp add: gcd_loop_eq lcm_gcd)
  have pos: "0 < ?q" using assms(2,3) unfolding q by (simp add: lcm_pos_int)
  define limit where "limit = (case mx of None \<Rightarrow> ((p - 1) div ?q) * ?q
      | Some m \<Rightarrow> min (((p - 1) div ?q) * ?q) ((m div ?q) * ?q))"
  have s': "s = (if limit \<ge> mn then limit else 0)"
    using assms by (simp add: s aligned_prefix_span_def Let_def limit_def)
  have dvd: "?q dvd limit" by (auto simp: limit_def min_def split: option.splits)
  have le: "limit \<le> p - 1" using largest_multiple(2) [OF pos, of "p - 1"]
    by (auto simp: limit_def split: option.splits)
  have lem: "limit \<le> m" if "mx = Some m" for m
    using that largest_multiple(2) [OF pos, of m] by (auto simp: limit_def)
  have best: "t \<le> limit" if "a dvd t" "c dvd t" "t < p" "\<forall>m. mx = Some m \<longrightarrow> t \<le> m" for t
  proof -
    have "?q dvd t" using that(1,2) by (simp add: q)
    then show ?thesis
      using that(3,4) largest_multiple(1) [OF pos, of t] by (auto simp: limit_def split: option.splits)
  qed
  have "a dvd limit" "c dvd limit" using dvd by (auto simp: q)
  moreover have "t \<le> s" if "a dvd t" "c dvd t" "t < p" "mn \<le> t" "\<forall>m. mx = Some m \<longrightarrow> t \<le> m" for t
    using best [OF that(1-3,5)] that(4) s' by simp
  ultimately show ?thesis using s' le lem assms(1,4) by auto
qed

theorem aligned_prefix_span_correct_witness:
  "aligned_prefix_span 1000 192 384 256 (Some 900) = 768 \<and> 384 dvd (768 :: int) \<and> (768 :: int) < 1000"
proof -
  have "aligned_prefix_span 1000 192 384 256 (Some 900) = 768" by code_simp
  with aligned_prefix_span_correct [of 1000 192 384 256 768 "Some 900"] show ?thesis by simp
qed

section \<open>The digests of a token sequence\<close>

text \<open>The reference: the chained digest of a whole number of chunks.\<close>

fun chain :: "(string \<Rightarrow> string) \<Rightarrow> nat \<Rightarrow> string \<Rightarrow> nat \<Rightarrow> int list \<Rightarrow> string" where
  "chain sha c previous 0 tokens = previous"
| "chain sha c previous (Suc k) tokens =
     chain sha c (sha (previous @ encode_chunk (take c tokens))) k (drop c tokens)"

lemma chain_take: "c * k \<le> length tokens \<Longrightarrow> chain sha c previous k (take (c * k) tokens) = chain sha c previous k tokens"
proof (induction k arbitrary: tokens previous)
  case (Suc k)
  have "take c (take (c * Suc k) tokens) = take c tokens" by (simp add: min_def)
  moreover have "drop c (take (c * Suc k) tokens) = take (c * k) (drop c tokens)"
    by (simp add: drop_take)
  moreover have "c * k \<le> length (drop c tokens)" using Suc.prems by simp
  ultimately show ?case using Suc.IH by simp
qed simp

lemma digest_chunks_step:
  assumes "0 < c" "c \<le> length tokens"
  shows "digest_chunks sha (int c) requested features start previous tokens =
    (let previous' = sha (previous @ encode_chunk (take c tokens)); limit = start + int c;
         rest = digest_chunks sha (int c) requested features limit previous' (drop c tokens)
     in if limit \<in> requested then boundary_digest sha features limit previous' # rest else rest)"
  using assms by (subst digest_chunks.simps) (simp add: Let_def)

lemma digest_chunks_end:
  "length tokens < c \<Longrightarrow> digest_chunks sha (int c) requested features start previous tokens = []"
  by (subst digest_chunks.simps) (simp add: Let_def)

definition indices :: "nat \<Rightarrow> nat list" where
  "indices n = [1..<Suc n]"

lemma indices_0 [simp]: "indices 0 = []"
  by (simp add: indices_def)

lemma indices_Suc: "indices (Suc n) = 1 # map Suc (indices n)"
  by (simp add: indices_def map_Suc_upt upt_conv_Cons del: upt_Suc)

lemma set_indices [simp]: "set (indices n) = {1..n}"
  by (auto simp: indices_def simp del: upt_Suc)

lemma strict_sorted_indices: "sorted_wrt (<) (indices n)"
  by (simp add: indices_def strict_sorted_iff del: upt_Suc)

lemma digest_chunks_eq:
  assumes "0 < c"
  shows "digest_chunks sha (int c) requested features start previous tokens =
    map (\<lambda>k. boundary_digest sha features (start + int (k * c)) (chain sha c previous k tokens))
      (filter (\<lambda>k. start + int (k * c) \<in> requested) (indices (length tokens div c)))"
proof (induction "length tokens div c" arbitrary: tokens start previous)
  case 0
  then have "length tokens < c" using assms by (simp add: div_eq_0_iff)
  then show ?case using 0 by (simp add: digest_chunks_end)
next
  case (Suc n)
  then have le: "c \<le> length tokens"
    by (metis div_less le_less_linear nat.distinct(1))
  have n: "n = length (drop c tokens) div c"
    using Suc(2) le assms by (simp add: le_div_geq)
  let ?p = "sha (previous @ encode_chunk (take c tokens))"
  let ?f = "\<lambda>k. boundary_digest sha features (start + int (k * c)) (chain sha c previous k tokens)"
  have step: "start + int c + int (k * c) = start + int (Suc k * c)" for k by simp
  have rest: "digest_chunks sha (int c) requested features (start + int c) ?p (drop c tokens) =
      map (?f \<circ> Suc) (filter (\<lambda>k. start + int (Suc k * c) \<in> requested) (indices n))"
    unfolding Suc(1) [OF n] n [symmetric] step by (simp add: comp_def del: of_nat_mult mult_Suc)
  have "map ?f (filter (\<lambda>k. start + int (k * c) \<in> requested) (indices (Suc n))) =
      (if start + int c \<in> requested then [?f 1] else [])
      @ map (?f \<circ> Suc) (filter (\<lambda>k. start + int (Suc k * c) \<in> requested) (indices n))"
    unfolding indices_Suc by (simp add: filter_map comp_def del: of_nat_mult mult_Suc) simp
  then show ?case
    unfolding Suc(2) [symmetric] by (simp add: digest_chunks_step [OF assms le] rest Let_def del: of_nat_mult mult_Suc) simp
qed

text \<open>The key of a prefix: the chain over its chunks, closed by its media.\<close>

definition exact_key ::
  "(string \<Rightarrow> string) \<Rightarrow> string \<Rightarrow> string \<Rightarrow> nat \<Rightarrow> int list \<Rightarrow> string \<Rightarrow> string" where
  "exact_key sha deployment_digest salt c tokens media =
     (let chained = chain sha c (sha (initial_input deployment_digest salt)) (length tokens div c) tokens
      in if media = [] then chained else sha (chained @ media))"

lemma prefix_digests_Inr:
  assumes "prefix_digests sha tokens dep salt c bs feats = Inr ds"
  obtains "0 < c" "list_all token_in_range tokens" "is_digest dep"
    "validate_features (int (length tokens)) 0 feats = Inr ()"
    "\<forall>b \<in> (case bs of None \<Rightarrow> set (all_boundaries c (int (length tokens))) | Some bs \<Rightarrow> set bs).
        0 < b \<and> b \<le> int (length tokens) \<and> c dvd b"
    "ds = digest_chunks sha c
       (case bs of None \<Rightarrow> set (all_boundaries c (int (length tokens))) | Some bs \<Rightarrow> set bs)
       feats 0 (sha (initial_input dep salt)) tokens"
  using assms
  by (auto simp: prefix_digests_def Let_def and_then_Inr_iff validate_multimodal_features_def
      initial_digest_def not_le not_less split: if_splits)

lemma boundaries_of_chunks:
  assumes "0 < c" "\<forall>b \<in> R. 0 < b \<and> b \<le> int n \<and> int c dvd b"
  shows "(\<lambda>k. int (k * c)) ` set (filter (\<lambda>k. int (k * c) \<in> R) (indices (n div c))) = R"
proof (intro equalityI subsetI)
  fix b
  assume b: "b \<in> R"
  with assms obtain j where j: "b = int c * j" "0 < b" "b \<le> int n" by (metis dvdE)
  then have "0 < j" using assms(1) by (simp add: zero_less_mult_iff)
  then obtain k where k: "j = int k" "0 < k" by (metis zero_less_imp_eq_int)
  have "k * c \<le> n" using j(1,3) k(1) by (metis mult.commute of_nat_le_iff of_nat_mult)
  then have "k \<le> n div c" using assms(1) by (simp add: less_eq_div_iff_mult_less_eq)
  moreover have "b = int (k * c)" using j(1) k(1) by (simp add: mult.commute)
  ultimately show "b \<in> (\<lambda>k. int (k * c)) ` set (filter (\<lambda>k. int (k * c) \<in> R) (indices (n div c)))"
    using b k(2) by (intro image_eqI [of _ _ k]) auto
qed auto

lemma sorted_boundaries:
  assumes "0 < c" "\<forall>b \<in> R. 0 < b \<and> b \<le> int n \<and> int c dvd b"
  shows "map (\<lambda>k. int (k * c)) (filter (\<lambda>k. int (k * c) \<in> R) (indices (n div c))) = sorted_list_of_set R"
proof -
  let ?xs = "map (\<lambda>k. int (k * c)) (filter (\<lambda>k. int (k * c) \<in> R) (indices (n div c)))"
  have "sorted_wrt (<) (filter (\<lambda>k. int (k * c) \<in> R) (indices (n div c)))"
    by (intro sorted_wrt_filter strict_sorted_indices)
  then have "sorted_wrt (<) ?xs"
    using assms(1) by (auto simp: sorted_wrt_map elim: sorted_wrt_mono_rel [rotated])
  moreover have "set ?xs = R" using boundaries_of_chunks [OF assms] by simp
  ultimately show ?thesis
    by (metis strict_sorted_equal strict_sorted_list_of_set finite_set sorted_list_of_set.set_sorted_key_list_of_set)
qed

lemma prefix_digests_keys:
  assumes "prefix_digests sha tokens dep salt c bs feats = Inr ds"
  shows "map px_span ds = sorted_list_of_set
      (case bs of None \<Rightarrow> set (all_boundaries c (int (length tokens))) | Some bs \<Rightarrow> set bs)
    \<and> (\<forall>d \<in> set ds. px_digest d = hex_of (exact_key sha dep salt (nat c)
         (take (nat (px_span d)) tokens) (multimodal_payload feats (px_span d))))"
  using assms
proof (rule prefix_digests_Inr)
  let ?R = "case bs of None \<Rightarrow> set (all_boundaries c (int (length tokens))) | Some bs \<Rightarrow> set bs"
  assume c: "0 < c" and R: "\<forall>b \<in> ?R. 0 < b \<and> b \<le> int (length tokens) \<and> c dvd b"
    and ds: "ds = digest_chunks sha c ?R feats 0 (sha (initial_input dep salt)) tokens"
  define n where "n = nat c"
  have n: "0 < n" "c = int n" using c by (simp_all add: n_def)
  let ?ks = "filter (\<lambda>k. int (k * n) \<in> ?R) (indices (length tokens div n))"
  let ?d = "\<lambda>k. boundary_digest sha feats (int (k * n)) (chain sha n (sha (initial_input dep salt)) k tokens)"
  have ds': "ds = map ?d ?ks" using digest_chunks_eq [OF n(1), of sha ?R feats 0] by (simp add: ds n(2))
  have "map px_span ds = map (\<lambda>k. int (k * n)) ?ks"
    by (simp add: ds' boundary_digest_def Let_def)
  then have "map px_span ds = sorted_list_of_set ?R"
    using sorted_boundaries [OF n(1), of ?R "length tokens"] R n(2) by simp
  moreover have "px_digest d = hex_of (exact_key sha dep salt n
         (take (nat (px_span d)) tokens) (multimodal_payload feats (px_span d)))" if d: "d \<in> set ds" for d
  proof -
    obtain k where k: "d = ?d k" "k \<in> set ?ks" using d unfolding ds' by (auto simp only: set_map)
    then have "k \<le> length tokens div n" by simp
    then have le: "k * n \<le> length tokens" using n(1) by (simp add: less_eq_div_iff_mult_less_eq)
    have "length (take (k * n) tokens) div n = k" using le n(1) by simp
    then show ?thesis
      using chain_take [of n k tokens] le
      by (simp add: k(1) boundary_digest_def exact_key_def Let_def mult.commute del: of_nat_mult)
  qed
  ultimately show ?thesis by (simp add: n_def)
qed

text \<open>
  C4: A successful \<open>prefix_digests\<close> returns one digest per requested boundary, in increasing order,
  and each is the key of the tokens before the boundary and of the media that start there, so it
  does not depend on anything after the boundary.
\<close>

theorem prefix_digests_spec:
  assumes "prefix_digests sha tokens dep salt c bs feats = Inr ds"
  shows "map px_span ds = sorted_list_of_set
      (case bs of None \<Rightarrow> set (all_boundaries c (int (length tokens))) | Some bs \<Rightarrow> set bs)
    \<and> (\<forall>d \<in> set ds. px_digest d = hex_of (exact_key sha dep salt (nat c)
         (take (nat (px_span d)) tokens) (multimodal_payload feats (px_span d))))"
  by (rule prefix_digests_keys [OF assms])

lemma prefix_digests_facts:
  assumes "prefix_digests sha tokens dep salt c bs feats = Inr ds" "e \<in> set ds"
  shows "0 < c" "list_all token_in_range tokens" "is_digest dep"
    "validate_features (int (length tokens)) 0 feats = Inr ()"
    "c dvd px_span e" "0 < px_span e" "px_span e \<le> int (length tokens)"
proof -
  let ?R = "case bs of None \<Rightarrow> set (all_boundaries c (int (length tokens))) | Some bs \<Rightarrow> set bs"
  have "finite ?R" by (simp split: option.splits)
  moreover have "px_span e \<in> set (map px_span ds)" using assms(2) by simp
  ultimately have R: "px_span e \<in> ?R" using prefix_digests_keys [OF assms(1)] by simp
  from assms(1) show "0 < c" "list_all token_in_range tokens" "is_digest dep"
    "validate_features (int (length tokens)) 0 feats = Inr ()"
    "c dvd px_span e" "0 < px_span e" "px_span e \<le> int (length tokens)"
    by (rule prefix_digests_Inr; use R in blast)+
qed

section \<open>Distinct prefixes have distinct keys\<close>

text \<open>The inputs a key computation hashes.\<close>

fun chain_inputs :: "(string \<Rightarrow> string) \<Rightarrow> nat \<Rightarrow> string \<Rightarrow> nat \<Rightarrow> int list \<Rightarrow> string list" where
  "chain_inputs sha c previous 0 tokens = []"
| "chain_inputs sha c previous (Suc k) tokens =
     (previous @ encode_chunk (take c tokens))
     # chain_inputs sha c (sha (previous @ encode_chunk (take c tokens))) k (drop c tokens)"

definition key_inputs ::
  "(string \<Rightarrow> string) \<Rightarrow> string \<Rightarrow> string \<Rightarrow> nat \<Rightarrow> int list \<Rightarrow> string \<Rightarrow> string list" where
  "key_inputs sha deployment_digest salt c tokens media =
     (let first = initial_input deployment_digest salt; k = length tokens div c
      in first # chain_inputs sha c (sha first) k tokens
         @ (if media = [] then [] else [chain sha c (sha first) k tokens @ media]))"

lemma concat_fixed_inj:
  assumes "\<And>x. length (f x) = Suc n" "inj_on f A" "set xs \<subseteq> A" "set ys \<subseteq> A"
    and "concat (map f xs) = concat (map f ys)"
  shows "xs = ys"
  using assms(3-5)
proof (induction xs arbitrary: ys)
  case Nil
  then show ?case using assms(1) by (cases ys) (auto dest: arg_cong [of _ _ length])
next
  case (Cons x xs)
  show ?case
  proof (cases ys)
    case Nil
    then show ?thesis using Cons.prems(3) assms(1) [of x] by auto
  next
    case (Cons y ys')
    then have "f x = f y \<and> concat (map f xs) = concat (map f ys')"
      using Cons.prems(3) assms(1) by (simp add: append_eq_append_conv)
    then show ?thesis using Cons Cons.prems Cons.IH [of ys'] assms(2) by (auto dest: inj_onD)
  qed
qed

lemma pack_q_inj_on: "inj_on pack_q {n. token_in_range n}"
  by (auto intro!: inj_onI pack_q_inj simp: token_in_range_def)

lemma encode_chunk_inj:
  assumes "encode_chunk xs = encode_chunk ys" "list_all token_in_range xs" "list_all token_in_range ys"
  shows "xs = ys"
proof -
  have "concat (map pack_q xs) = concat (map pack_q ys)"
    using assms(1) by (simp add: encode_chunk_def append_eq_append_conv)
  then show ?thesis
    using assms(2,3) by (intro concat_fixed_inj [OF _ pack_q_inj_on, of 7]) (auto simp: list_all_iff)
qed

definition small :: "string \<Rightarrow> bool" where
  "small s \<longleftrightarrow> length s < 2 ^ 64"

definition feature_fits :: "media_feature \<Rightarrow> bool" where
  "feature_fits f \<longleftrightarrow> 0 \<le> mf_offset f \<and> mf_offset f < 2 ^ 64 \<and> 0 \<le> mf_length f \<and> mf_length f < 2 ^ 64
     \<and> small (mf_modality f) \<and> small (mf_identifier f)"

lemma length_prefixed_inj:
  assumes "pack_Q (int (length a)) @ a @ r = pack_Q (int (length b)) @ b @ s" "small a" "small b"
  shows "a = b \<and> r = s"
proof -
  have p: "pack_Q (int (length a)) = pack_Q (int (length b))" "a @ r = b @ s"
    using assms(1) by (auto simp: append_eq_append_conv)
  have lt: "int (length x) < 2 ^ 64" if "small x" for x :: string
    using that of_nat_less_iff [of "length x" "2 ^ 64", where 'a = int] by (simp add: small_def)
  have "length a = length b" using pack_Q_inj [OF p(1)] assms(2,3) lt by simp
  then show ?thesis using p(2) by simp
qed

lemma encode_feature_inj:
  assumes "encode_feature f @ r = encode_feature g @ s" "feature_fits f" "feature_fits g"
  shows "f = g \<and> r = s"
proof -
  have e: "pack_Q (mf_offset f) = pack_Q (mf_offset g)" "pack_Q (mf_length f) = pack_Q (mf_length g)"
    and rest: "pack_Q (int (length (mf_modality f))) @ mf_modality f
        @ pack_Q (int (length (mf_identifier f))) @ mf_identifier f @ r
      = pack_Q (int (length (mf_modality g))) @ mf_modality g
        @ pack_Q (int (length (mf_identifier g))) @ mf_identifier g @ s"
    using assms(1) by (auto simp: encode_feature_def append_eq_append_conv)
  have small: "small (mf_modality f)" "small (mf_modality g)" "small (mf_identifier f)" "small (mf_identifier g)"
    using assms(2,3) by (auto simp: feature_fits_def)
  have m: "mf_modality f = mf_modality g"
    "pack_Q (int (length (mf_identifier f))) @ mf_identifier f @ r
     = pack_Q (int (length (mf_identifier g))) @ mf_identifier g @ s"
    using length_prefixed_inj [OF rest small(1,2)] by auto
  have "mf_identifier f = mf_identifier g \<and> r = s" by (rule length_prefixed_inj [OF m(2) small(3,4)])
  moreover have "mf_offset f = mf_offset g" "mf_length f = mf_length g"
    using assms(2,3) e by (auto simp: feature_fits_def intro: pack_Q_inj)
  ultimately show ?thesis using m(1) by simp
qed

lemma encode_features_inj:
  "concat (map encode_feature fs) = concat (map encode_feature gs) \<Longrightarrow> length fs = length gs \<Longrightarrow>
   list_all feature_fits fs \<Longrightarrow> list_all feature_fits gs \<Longrightarrow> fs = gs"
proof (induction fs gs rule: list_induct2')
  case (4 f fs g gs)
  then have "encode_feature f @ concat (map encode_feature fs) = encode_feature g @ concat (map encode_feature gs)"
    by simp
  from encode_feature_inj [OF this] 4 show ?case by simp
qed simp_all

lemma multimodal_payload_inj:
  assumes "multimodal_payload fs b = multimodal_payload gs b"
    and "list_all feature_fits fs" "list_all feature_fits gs"
    and "length fs < 2 ^ 64" "length gs < 2 ^ 64"
  shows "active_features fs b = active_features gs b"
proof (cases "active_features fs b = [] \<or> active_features gs b = []")
  case True
  then show ?thesis
    using assms(1) by (auto simp: multimodal_payload_def Let_def MULTIMODAL_DOMAIN_def split: if_splits)
next
  case False
  let ?f = "active_features fs b" and ?g = "active_features gs b"
  have e: "pack_Q (int (length ?f)) = pack_Q (int (length ?g))"
    "concat (map encode_feature ?f) = concat (map encode_feature ?g)"
    using assms(1) False by (auto simp: multimodal_payload_def Let_def append_eq_append_conv)
  have lt: "int (length (active_features hs b)) < 2 ^ 64" if "length hs < 2 ^ 64" for hs
  proof -
    have "length (active_features hs b) < 2 ^ 64"
      unfolding active_features_def by (rule le_less_trans [OF length_filter_le that])
    then show ?thesis using of_nat_less_iff [of _ "2 ^ 64", where 'a = int] by simp
  qed
  have "length ?f = length ?g" using pack_Q_inj [OF e(1)] lt assms(4,5) by simp
  then show ?thesis
    using encode_features_inj [OF e(2)] assms(2,3) by (simp add: active_features_def list_all_iff)
qed

lemma pack_Q_last:
  assumes "0 \<le> n" "n < 2 ^ 56"
  shows "pack_Q n ! 7 = char_of (0 :: nat)"
proof -
  have n: "n = take_bit 56 n" using assms by (simp add: take_bit_int_eq_self)
  have "\<not> bit n (56 + j)" for j by (subst n) (simp add: bit_take_bit_iff)
  then have "drop_bit 56 (word_of_int n :: 64 word) = 0"
    by (intro bit_word_eqI) (simp add: bit_drop_bit_eq bit_word_of_int_iff)
  then show ?thesis by (simp add: pack_Q_def le_bytes_def)
qed

text \<open>The two uses of the hash after the first are kept apart by the chunk length.\<close>

lemma chunk_not_media:
  assumes "length chunk < 2 ^ 56" "multimodal_payload feats b \<noteq> []"
  shows "encode_chunk chunk \<noteq> multimodal_payload feats b"
proof
  assume eq: "encode_chunk chunk = multimodal_payload feats b"
  have "int (length chunk) < 2 ^ 56" using assms(1) of_nat_less_iff [of _ "2 ^ 56", where 'a = int] by simp
  then have "encode_chunk chunk ! 7 = char_of (0 :: nat)"
    by (simp add: encode_chunk_def nth_append pack_Q_last)
  moreover have "multimodal_payload feats b ! 7 = CHR ''c''"
    using assms(2) by (simp add: multimodal_payload_def Let_def MULTIMODAL_DOMAIN_def split: if_splits)
  moreover have "char_of (0 :: nat) \<noteq> CHR ''c''" by code_simp
  ultimately show False using eq by simp
qed

context hash_function
begin

lemma length_chain [simp]: "length p = 32 \<Longrightarrow> length (chain sha c p k tokens) = 32"
  by (induction k arbitrary: p tokens) simp_all

lemma chain_last:
  assumes "0 < k" "c * k \<le> length tokens" "length p = 32"
  shows "\<exists>q chunk. chain sha c p k tokens = sha (q @ encode_chunk chunk) \<and> length q = 32
    \<and> length chunk = c \<and> q @ encode_chunk chunk \<in> set (chain_inputs sha c p k tokens)"
  using assms
proof (induction k arbitrary: p tokens)
  case (Suc k)
  show ?case
  proof (cases k)
    case 0
    then show ?thesis using Suc.prems by (intro exI [of _ p] exI [of _ "take c tokens"]) simp
  next
    case (Suc j)
    let ?p = "sha (p @ encode_chunk (take c tokens))"
    have "c * k \<le> length (drop c tokens)" using Suc.prems(2) by simp
    with Suc.IH [of "drop c tokens" ?p] Suc obtain q chunk where
      "chain sha c ?p k (drop c tokens) = sha (q @ encode_chunk chunk)" "length q = 32" "length chunk = c"
      "q @ encode_chunk chunk \<in> set (chain_inputs sha c ?p k (drop c tokens))"
      by auto
    then show ?thesis by (intro exI [of _ q] exI [of _ chunk]) simp
  qed
qed simp

lemma chain_inj:
  assumes "chain sha c p k xs = chain sha c q k ys"
    and "inj_on sha (set (chain_inputs sha c p k xs) \<union> set (chain_inputs sha c q k ys))"
    and "length p = 32" "length q = 32" "c * k \<le> length xs" "c * k \<le> length ys"
    and "list_all token_in_range xs" "list_all token_in_range ys"
  shows "p = q \<and> take (c * k) xs = take (c * k) ys"
  using assms
proof (induction k arbitrary: p q xs ys)
  case (Suc k)
  let ?a = "p @ encode_chunk (take c xs)" and ?b = "q @ encode_chunk (take c ys)"
  have ranges: "list_all token_in_range (drop c zs)" "list_all token_in_range (take c zs)"
    if "list_all token_in_range zs" for zs
    using that by (auto simp: list_all_iff dest: in_set_dropD in_set_takeD)
  have step: "sha ?a = sha ?b \<and> take (c * k) (drop c xs) = take (c * k) (drop c ys)"
    using Suc.prems ranges by (intro Suc.IH) (auto elim: inj_on_subset)
  have "?a = ?b" by (rule inj_onD [OF Suc.prems(2)]) (use step in simp_all)
  then have "p = q" "take c xs = take c ys"
    using Suc.prems ranges by (auto simp: append_eq_append_conv intro: encode_chunk_inj)
  then show ?case using step by (simp add: take_add)
qed simp

text \<open>Equal keys of prefixes of the same length come from the same deployment, salt, tokens and
  media, unless the hash function collides on the inputs the two computations hash.\<close>

lemma exact_key_inj:
  assumes eq: "exact_key sha d s c xs m = exact_key sha d' s' c ys m'"
    and inj: "inj_on sha (set (key_inputs sha d s c xs m) \<union> set (key_inputs sha d' s' c ys m'))"
    and len: "length xs = c * k" "length ys = c * k" "0 < k" "0 < c"
    and ranges: "list_all token_in_range xs" "list_all token_in_range ys"
    and apart: "\<And>chunk. length chunk = c \<Longrightarrow> m \<noteq> [] \<Longrightarrow> encode_chunk chunk \<noteq> m"
      "\<And>chunk. length chunk = c \<Longrightarrow> m' \<noteq> [] \<Longrightarrow> encode_chunk chunk \<noteq> m'"
  shows "initial_input d s = initial_input d' s' \<and> xs = ys \<and> m = m'"
proof -
  let ?p = "sha (initial_input d s)" and ?q = "sha (initial_input d' s')"
  let ?x = "chain sha c ?p k xs" and ?y = "chain sha c ?q k ys"
  have k: "length xs div c = k" "length ys div c = k" using len by simp_all
  have key: "exact_key sha d s c xs m = (if m = [] then ?x else sha (?x @ m))"
    "exact_key sha d' s' c ys m' = (if m' = [] then ?y else sha (?y @ m'))"
    by (simp_all add: exact_key_def Let_def k)
  have in_x: "set (key_inputs sha d s c xs m) = {initial_input d s} \<union> set (chain_inputs sha c ?p k xs)
      \<union> (if m = [] then {} else {?x @ m})"
    and in_y: "set (key_inputs sha d' s' c ys m') = {initial_input d' s'} \<union> set (chain_inputs sha c ?q k ys)
      \<union> (if m' = [] then {} else {?y @ m'})"
    by (auto simp: key_inputs_def Let_def k)
  have chains: "?x = ?y \<and> m = m'"
  proof (cases "m = []"; cases "m' = []")
    assume "m = []" "m' = []"
    then show ?thesis using eq key by simp
  next
    assume m: "m \<noteq> []" "m' \<noteq> []"
    have "?x @ m = ?y @ m'"
      by (rule inj_onD [OF inj]) (use eq key in_x in_y m in simp_all)
    then show ?thesis by (simp add: append_eq_append_conv)
  next
    assume m: "m = []" "m' \<noteq> []"
    obtain q chunk where q: "?x = sha (q @ encode_chunk chunk)" "length q = 32" "length chunk = c"
      "q @ encode_chunk chunk \<in> set (chain_inputs sha c ?p k xs)"
      using chain_last [of k c xs ?p] len by auto
    have "q @ encode_chunk chunk = ?y @ m'"
      by (rule inj_onD [OF inj]) (use eq key m q in_x in_y in simp_all)
    then have "encode_chunk chunk = m'" using q(2) by (simp add: append_eq_append_conv)
    then show ?thesis using apart(2) q(3) m by blast
  next
    assume m: "m \<noteq> []" "m' = []"
    obtain q chunk where q: "?y = sha (q @ encode_chunk chunk)" "length q = 32" "length chunk = c"
      "q @ encode_chunk chunk \<in> set (chain_inputs sha c ?q k ys)"
      using chain_last [of k c ys ?q] len by auto
    have "q @ encode_chunk chunk = ?x @ m"
      by (rule inj_onD [OF inj]) (use eq key m q in_x in_y in simp_all)
    then have "encode_chunk chunk = m" using q(2) by (simp add: append_eq_append_conv)
    then show ?thesis using apart(1) q(3) m by blast
  qed
  have p: "?p = ?q \<and> take (c * k) xs = take (c * k) ys"
    using chains len ranges in_x in_y by (intro chain_inj) (auto intro: inj_on_subset [OF inj])
  have "initial_input d s = initial_input d' s'"
    by (rule inj_onD [OF inj]) (use p in_x in_y in simp_all)
  then show ?thesis using p chains len by simp
qed

end

lemma validate_features_Inr:
  assumes "validate_features n e fs = Inr u" "0 \<le> e"
  shows "f \<in> set fs \<Longrightarrow> 0 \<le> mf_offset f \<and> 0 < mf_length f \<and> mf_offset f + mf_length f \<le> n"
  using assms by (induction n e fs rule: validate_features.induct) (auto split: if_splits)

lemma length_from_hex_digest: "is_digest d \<Longrightarrow> length (from_hex d) = 32"
  using hex_of_from_hex [of d] length_hex_of [of "from_hex d"] by (auto simp: is_digest_def)

lemma initial_input_inj:
  assumes "initial_input d s = initial_input d' s'" "is_digest d" "is_digest d'"
  shows "d = d' \<and> s = s'"
proof -
  have "from_hex d = from_hex d' \<and> s = s'"
    using assms length_from_hex_digest by (auto simp: initial_input_def append_eq_append_conv)
  then show ?thesis using hex_of_from_hex assms(2,3) by (metis even_numeral is_digest_def)
qed

text \<open>The sizes of a request that fits into a 56-bit address space.\<close>

definition addressable :: "int list \<Rightarrow> media_feature list \<Rightarrow> bool" where
  "addressable tokens features \<longleftrightarrow>
     length tokens < 2 ^ 56 \<and> length features < 2 ^ 56
     \<and> list_all (\<lambda>f. length (mf_modality f) < 2 ^ 56 \<and> length (mf_identifier f) < 2 ^ 56) features"

lemma addressable_fits:
  assumes "addressable tokens fs" "validate_features (int (length tokens)) 0 fs = Inr u"
  shows "list_all feature_fits fs" "length fs < 2 ^ 64"
proof -
  have n: "int (length tokens) < 2 ^ 56"
    using assms(1) of_nat_less_iff [of _ "2 ^ 56", where 'a = int] by (simp add: addressable_def)
  have "feature_fits f" if "f \<in> set fs" for f
    using validate_features_Inr [OF assms(2) order.refl that] assms(1) that n
    by (auto simp: feature_fits_def small_def addressable_def list_all_iff)
  then show "list_all feature_fits fs" by (simp add: list_all_iff)
  show "length fs < 2 ^ 64" using assms(1) by (simp add: addressable_def)
qed

text \<open>
  C2: Exactness of the keys.  If two successful calls give the same digest at the same boundary,
  then the deployments, the salts, the tokens before the boundary and the media active there are
  equal, unless the hash function collides among the inputs the two calls hashed.
\<close>

theorem equal_keys_equal_prefixes:
  assumes hash: "\<forall>m. length (sha m) = 32"
    and calls: "prefix_digests sha xs d s c bs fs = Inr ds" "prefix_digests sha ys d' s' c bs' gs = Inr ds'"
    and shared: "e \<in> set ds" "e' \<in> set ds'" "px_span e = b" "px_span e' = b" "px_digest e = px_digest e'"
    and sizes: "addressable xs fs" "addressable ys gs"
    and no_collision: "inj_on sha
      (set (key_inputs sha d s (nat c) (take (nat b) xs) (multimodal_payload fs b))
       \<union> set (key_inputs sha d' s' (nat c) (take (nat b) ys) (multimodal_payload gs b)))"
  shows "d = d' \<and> s = s' \<and> take (nat b) xs = take (nat b) ys \<and> active_features fs b = active_features gs b"
proof -
  have "hash_function sha" using hash by (simp add: hash_function_def)
  note exact = hash_function.exact_key_inj [OF this]
  note S = prefix_digests_keys [OF calls(1)] prefix_digests_keys [OF calls(2)]
  note F = prefix_digests_facts [OF calls(1) shared(1), unfolded shared(3)]
    and F' = prefix_digests_facts [OF calls(2) shared(2), unfolded shared(4)]
  have facts: "0 < c \<and> list_all token_in_range xs \<and> is_digest d \<and> c dvd b \<and> 0 < b \<and> b \<le> int (length xs)
      \<and> validate_features (int (length xs)) 0 fs = Inr ()"
    using F by blast
  have facts': "list_all token_in_range ys \<and> is_digest d' \<and> b \<le> int (length ys)
      \<and> validate_features (int (length ys)) 0 gs = Inr ()"
    using F' by blast
  obtain k where k: "b = c * k" using facts by (auto elim: dvdE)
  have kpos: "0 < k" using k F(1,6) zero_less_mult_pos [of c k] by simp
  have nb: "nat b = nat c * nat k" using k facts kpos by (simp add: nat_mult_distrib)
  have len: "length (take (nat b) xs) = nat c * nat k" "length (take (nat b) ys) = nat c * nat k"
    using nb facts facts' by (simp_all add: min_def) linarith+
  have "1 \<le> nat k" using kpos by simp
  then have "nat c \<le> nat c * nat k" by simp
  then have small: "nat c < 2 ^ 56" using len(1) sizes(1) nb facts unfolding addressable_def by linarith
  have eq: "exact_key sha d s (nat c) (take (nat b) xs) (multimodal_payload fs b)
      = exact_key sha d' s' (nat c) (take (nat b) ys) (multimodal_payload gs b)"
    using S shared hex_of_inj by metis
  have "initial_input d s = initial_input d' s' \<and> take (nat b) xs = take (nat b) ys
      \<and> multimodal_payload fs b = multimodal_payload gs b"
  proof (rule exact [OF eq no_collision len])
    show "list_all token_in_range (take (nat b) xs)" "list_all token_in_range (take (nat b) ys)"
      using facts facts' by (auto simp: list_all_iff dest: in_set_takeD)
  qed (use facts kpos small chunk_not_media in auto)
  then show ?thesis
    using initial_input_inj facts facts' multimodal_payload_inj
      addressable_fits [OF sizes(1)] addressable_fits [OF sizes(2)] by blast
qed

definition last32 :: "string \<Rightarrow> string" where
  "last32 m = take 32 (rev m @ replicate 32 CHR ''0'')"

definition sample_media :: "media_feature list" where
  "sample_media = [\<lparr>mf_modality = ''image'', mf_identifier = ''x'', mf_offset = 0, mf_length = 1\<rparr>]"

lemma sample_inputs_distinct:
  "distinct (map last32 (key_inputs last32 (replicate 64 CHR ''a'') ''s'' 1 [5, 6] (multimodal_payload sample_media 2)))"
  by code_simp

lemma sample_digests:
  "prefix_digests last32 [5, 6, 7] (replicate 64 CHR ''a'') ''s'' 1 (Some [2]) sample_media
   = prefix_digests last32 [5, 6, 9] (replicate 64 CHR ''a'') ''s'' 1 (Some [2]) sample_media"
  "map_sum id (map px_span) (prefix_digests last32 [5, 6, 7] (replicate 64 CHR ''a'') ''s'' 1 (Some [2]) sample_media)
   = Inr [2]"
  by code_simp+

theorem equal_keys_equal_prefixes_witness:
  "take (nat 2) [5, 6, 7 :: int] = take (nat 2) [5, 6, 9]"
proof -
  obtain ds where ds: "prefix_digests last32 [5, 6, 7] (replicate 64 CHR ''a'') ''s'' 1 (Some [2]) sample_media = Inr ds"
    "map px_span ds = [2]"
    using sample_digests(2) by (auto simp: map_sum_def split: sum.splits)
  then obtain e where e: "e \<in> set ds" "px_span e = 2" by (cases ds) auto
  have len: "\<forall>m. length (last32 m) = 32" by (simp add: last32_def min_def)
  have inj: "inj_on last32 (set (key_inputs last32 (replicate 64 CHR ''a'') ''s'' (nat 1) (take (nat 2) [5, 6, 7])
        (multimodal_payload sample_media 2))
      \<union> set (key_inputs last32 (replicate 64 CHR ''a'') ''s'' (nat 1) (take (nat 2) [5, 6, 9])
        (multimodal_payload sample_media 2)))"
    using sample_inputs_distinct by (simp add: distinct_map numeral_2_eq_2)
  show ?thesis
    using equal_keys_equal_prefixes [OF len ds(1) ds(1) [unfolded sample_digests(1)] e(1) e(1) e(2) e(2) refl _ _ inj]
    by (simp add: addressable_def sample_media_def)
qed

text \<open>The digests of a call are well-formed entry identifiers.\<close>

lemma prefix_digests_digest:
  assumes "hash_function sha" "prefix_digests sha tokens dep salt c bs feats = Inr ds" "d \<in> set ds"
  shows "is_digest (px_digest d)"
proof -
  have len: "length (sha m) = 32" for m using assms(1) by (simp add: hash_function_def)
  have "px_digest d = hex_of (exact_key sha dep salt (nat c)
         (take (nat (px_span d)) tokens) (multimodal_payload feats (px_span d)))"
    using prefix_digests_keys [OF assms(2)] assms(3) by blast
  then show ?thesis
    using hash_function.length_chain [OF assms(1)] len by (simp add: is_digest_def exact_key_def Let_def)
qed

theorem prefix_digests_spec_witness:
  "map_sum id (map px_span) (prefix_digests last32 [5, 6, 7] (replicate 64 CHR ''a'') ''s'' 1 (Some [2]) sample_media)
   = Inr (sorted_list_of_set {2})"
proof -
  obtain ds where ds: "prefix_digests last32 [5, 6, 7] (replicate 64 CHR ''a'') ''s'' 1 (Some [2]) sample_media = Inr ds"
    using sample_digests(2) by (auto simp: map_sum_def split: sum.splits)
  show ?thesis using prefix_digests_spec [OF ds] by (simp add: ds)
qed

end
