(* ===== verification/Identity.thy ===== *)
theory Identity
  imports Sha256 Topology
begin

text \<open>
  \<open>identity.py\<close> and \<open>rank_ownership_sha256\<close> of \<open>topology.py\<close>: the canonical JSON encoding, the
  digests built on it, and the validated deployment and rank identities.  \<open>json.dumps\<close> is the
  encoder of the standard library with the options of the source (sorted keys, compact separators,
  no ASCII escapes, no NaN).
  The lemmas show that the encoding of a float-free value determines the value up to the order of
  its dictionary keys.
\<close>

section \<open>Canonical JSON\<close>

definition digit_char :: "nat \<Rightarrow> char" where
  "digit_char n = char_of (48 + n)"

fun dec_nat :: "nat \<Rightarrow> string" where
  "dec_nat n = (if n < 10 then [digit_char n] else dec_nat (n div 10) @ [digit_char (n mod 10)])"

declare dec_nat.simps [simp del]

definition dec_int :: "int \<Rightarrow> string" where
  "dec_int n = (if n < 0 then CHR ''-'' # dec_nat (nat (- n)) else dec_nat (nat n))"

text \<open>The escapes of \<open>json.dumps(ensure_ascii=False)\<close>.\<close>

definition escape_char :: "char \<Rightarrow> string" where
  "escape_char c =
     (if c = CHR 0x22 then [CHR 0x5C, CHR 0x22]
      else if c = CHR 0x5C then [CHR 0x5C, CHR 0x5C]
      else if c = CHR 0x0A then [CHR 0x5C, CHR ''n'']
      else if c = CHR 0x0D then [CHR 0x5C, CHR ''r'']
      else if c = CHR 0x09 then [CHR 0x5C, CHR ''t'']
      else if c = CHR 0x0C then [CHR 0x5C, CHR ''f'']
      else if c = CHR 0x08 then [CHR 0x5C, CHR ''b'']
      else if of_char c < (32 :: nat)
      then [CHR 0x5C, CHR ''u'', CHR ''0'', CHR ''0'', hex_digit (of_char c div 16), hex_digit (of_char c mod 16)]
      else [c])"

definition json_string :: "string \<Rightarrow> string" where
  "json_string s = CHR 0x22 # concat (map escape_char s) @ [CHR 0x22]"

fun commas :: "string list \<Rightarrow> string" where
  "commas [] = []"
| "commas [x] = x"
| "commas (x # xs) = x @ CHR '','' # commas xs"

text \<open>
  What the encoder depends on: how a float prints (\<open>float.__repr__\<close>) and how many levels of containers
  the interpreter's recursion limit still allows at the call.
\<close>

record json_encoder =
  float_repr :: "rat \<Rightarrow> string"
  nesting_limit :: nat

text \<open>\<open>str(int)\<close> and \<open>int(str)\<close> refuse more than 4300 digits, the sign not counted.\<close>

definition MAX_STR_DIGITS :: int where
  "MAX_STR_DIGITS = 4300"

definition writable_int :: "int \<Rightarrow> bool" where
  "writable_int n \<longleftrightarrow> int (length (dec_nat (nat \<bar>n\<bar>))) \<le> MAX_STR_DIGITS"

fun json_encode :: "(rat \<Rightarrow> string) \<Rightarrow> nat \<Rightarrow> pyval \<Rightarrow> string result" where
  "json_encode fl limit PyNone = Inr ''null''"
| "json_encode fl limit (PyBool b) = Inr (if b then ''true'' else ''false'')"
| "json_encode fl limit (PyInt n) = (if writable_int n then Inr (dec_int n) else Inl ValueError)"
| "json_encode fl limit (PyFloat (Finite q)) = Inr (fl q)"
| "json_encode fl limit (PyFloat _) = Inl ValueError"
| "json_encode fl limit (PyStr s) = Inr (json_string s)"
| "json_encode fl 0 (PyList vs) = Inl RecursionError"
| "json_encode fl 0 (PyDict kvs) = Inl RecursionError"
| "json_encode fl (Suc limit) (PyList vs) =
     and_then (map_result (json_encode fl limit) vs) (\<lambda>ts. Inr (CHR ''['' # commas ts @ '']''))"
| "json_encode fl (Suc limit) (PyDict kvs) =
     and_then (map_result (\<lambda>(k, v). and_then (json_encode fl limit v) (\<lambda>t. Inr (json_string k @ CHR '':'' # t))) (sort_key fst kvs))
       (\<lambda>ts. Inr (CHR ''{'' # commas ts @ ''}''))"

definition json_dumps :: "json_encoder \<Rightarrow> pyval \<Rightarrow> string result" where
  "json_dumps enc v = json_encode (float_repr enc) (nesting_limit enc) v"

definition canonical_json :: "json_encoder \<Rightarrow> pyval \<Rightarrow> string result" where
  "canonical_json enc v =
     (case json_dumps enc v of
        Inr t \<Rightarrow> Inr t
      | Inl e \<Rightarrow> if e \<in> {TypeError, ValueError} then Inl IdentityError else Inl e)"

definition sha256_json :: "(string \<Rightarrow> string) \<Rightarrow> json_encoder \<Rightarrow> pyval \<Rightarrow> string result" where
  "sha256_json sha enc v = and_then (canonical_json enc v) (\<lambda>t. Inr (hex_of (sha t)))"

section \<open>Identities\<close>

text \<open>The attributes of vLLM's model configuration; an absent attribute reads as its default.\<close>

record model_config =
  mc_model :: pyval
  mc_model_weights :: pyval
  mc_revision :: pyval

definition model_namespace_sha256 ::
  "(string \<Rightarrow> string) \<Rightarrow> json_encoder \<Rightarrow> model_config \<Rightarrow> string result" where
  "model_namespace_sha256 sha enc m =
     (case mc_model m of
        PyStr model \<Rightarrow>
          if model = [] then Inl IdentityError
          else
            and_then (case mc_model_weights m of
                        PyNone \<Rightarrow> Inr []
                      | PyStr s \<Rightarrow> Inr s
                      | _ \<Rightarrow> Inl IdentityError) (\<lambda>original.
            and_then (case mc_revision m of
                        PyNone \<Rightarrow> Inr PyNone
                      | PyStr s \<Rightarrow> Inr (PyStr s)
                      | _ \<Rightarrow> Inl IdentityError) (\<lambda>revision.
            sha256_json sha enc (PyDict
              [(''schema'', PyStr ''spoolcache-model-namespace/v1''),
               (''locator'', PyStr (if original = [] then model else original)),
               (''revision'', revision)])))
      | _ \<Rightarrow> Inl IdentityError)"

record deployment_identity =
  di_schema :: string
  di_profile :: string
  di_model_namespace_sha256 :: string
  di_model_config_sha256 :: string
  di_execution_config_sha256 :: string
  di_vllm_version :: string
  di_vllm_build_sha256 :: string
  di_kv_cache_dtype :: string
  di_topology :: "(string, pyval) dict"
  di_layout_sha256 :: string
  di_chunk_tokens :: int
  di_spoolcache_version :: string
  di_publication_policy :: string

definition required_topology :: "string set" where
  "required_topology = {''tp'', ''pp'', ''dcp'', ''dp'', ''dp_rank'', ''world_size'', ''world_size_across_dp''}"

text \<open>A topology value that has already been checked to be an integer.\<close>

definition topology_int :: "(string, pyval) dict \<Rightarrow> string \<Rightarrow> int" where
  "topology_int topology name =
     (case dict_get topology name of Some v \<Rightarrow> (case as_int v of Some n \<Rightarrow> n | None \<Rightarrow> 0) | None \<Rightarrow> 0)"

definition DeploymentIdentity :: "deployment_identity \<Rightarrow> deployment_identity result" where
  "DeploymentIdentity d =
     (let top = di_topology d; int_at = topology_int top in
      if \<not> list_all is_digest [di_model_namespace_sha256 d, di_model_config_sha256 d,
             di_execution_config_sha256 d, di_vllm_build_sha256 d, di_layout_sha256 d]
      then Inl IdentityError
      else if di_schema d \<noteq> ''spoolcache-deployment/v2'' then Inl IdentityError
      else if di_profile d = [] \<or> di_vllm_version d = [] \<or> di_spoolcache_version d = []
              \<or> di_kv_cache_dtype d = [] \<or> di_publication_policy d \<noteq> ''prompt-snapshot-v1''
      then Inl IdentityError
      else if set (dict_keys top) \<noteq> required_topology then Inl IdentityError
      else if \<exists>(name, value) \<in> set top. name \<noteq> ''dp_rank'' \<and>
                 (case as_int value of None \<Rightarrow> True | Some n \<Rightarrow> n \<le> 0)
      then Inl IdentityError
      else if (case dict_get top ''dp_rank'' of None \<Rightarrow> True
               | Some v \<Rightarrow> (case as_int v of None \<Rightarrow> True | Some n \<Rightarrow> n < 0))
      then Inl IdentityError
      else if int_at ''dp'' \<le> int_at ''dp_rank'' then Inl IdentityError
      else if int_at ''world_size'' \<noteq> int_at ''tp'' * int_at ''pp'' then Inl IdentityError
      else if int_at ''world_size_across_dp'' \<noteq> int_at ''world_size'' * int_at ''dp''
      then Inl IdentityError
      else if int_at ''tp'' mod int_at ''dcp'' \<noteq> 0 then Inl IdentityError
      else if di_chunk_tokens d \<le> 0 then Inl IdentityError
      else Inr d)"

definition deployment_payload :: "deployment_identity \<Rightarrow> pyval" where
  "deployment_payload d = PyDict
     [(''schema'', PyStr (di_schema d)), (''profile'', PyStr (di_profile d)),
      (''model_namespace_sha256'', PyStr (di_model_namespace_sha256 d)),
      (''model_config_sha256'', PyStr (di_model_config_sha256 d)),
      (''execution_config_sha256'', PyStr (di_execution_config_sha256 d)),
      (''vllm_version'', PyStr (di_vllm_version d)),
      (''vllm_build_sha256'', PyStr (di_vllm_build_sha256 d)),
      (''kv_cache_dtype'', PyStr (di_kv_cache_dtype d)),
      (''topology'', PyDict (di_topology d)),
      (''layout_sha256'', PyStr (di_layout_sha256 d)),
      (''chunk_tokens'', PyInt (di_chunk_tokens d)),
      (''spoolcache_version'', PyStr (di_spoolcache_version d)),
      (''publication_policy'', PyStr (di_publication_policy d))]"

definition deployment_digest :: "(string \<Rightarrow> string) \<Rightarrow> json_encoder \<Rightarrow> deployment_identity \<Rightarrow> string result" where
  "deployment_digest sha enc d = sha256_json sha enc (deployment_payload d)"

record rank_identity =
  ri_deployment_digest :: string
  ri_physical_rank :: int
  ri_shard_layout_sha256 :: string
  ri_layer_ownership_sha256 :: string

definition RankIdentity :: "rank_identity \<Rightarrow> rank_identity result" where
  "RankIdentity r =
     (if \<not> list_all is_digest [ri_deployment_digest r, ri_shard_layout_sha256 r, ri_layer_ownership_sha256 r]
      then Inl IdentityError
      else if ri_physical_rank r < 0 then Inl IdentityError
      else Inr r)"

definition rank_payload :: "rank_identity \<Rightarrow> pyval" where
  "rank_payload r = PyDict
     [(''deployment_digest'', PyStr (ri_deployment_digest r)),
      (''physical_rank'', PyInt (ri_physical_rank r)),
      (''shard_layout_sha256'', PyStr (ri_shard_layout_sha256 r)),
      (''layer_ownership_sha256'', PyStr (ri_layer_ownership_sha256 r))]"

definition rank_digest :: "(string \<Rightarrow> string) \<Rightarrow> json_encoder \<Rightarrow> rank_identity \<Rightarrow> string result" where
  "rank_digest sha enc r = sha256_json sha enc (rank_payload r)"

section \<open>Stage ownership\<close>

fun check_aliases :: "string list \<Rightarrow> string set \<Rightarrow> (string \<times> string list) list \<Rightarrow> unit result" where
  "check_aliases layers seen [] = Inr ()"
| "check_aliases layers seen ((name, targets) # rest) =
     (if name = [] \<or> name \<in> seen \<or> targets = [] \<or> \<not> set targets \<subseteq> set layers
      then Inl ValueError
      else check_aliases layers (insert name seen) rest)"

definition ownership_payload ::
  "string list \<Rightarrow> (string \<times> string list) list \<Rightarrow> worker_coordinate \<Rightarrow> int \<Rightarrow> int \<Rightarrow> pyval" where
  "ownership_payload layers aliases coordinate pp_degree dp_rank = PyDict
     ([(''layers'', PyList (map PyStr layers)), (''pp'', PyInt pp_degree), (''dp_rank'', PyInt dp_rank)]
      @ (if aliases = [] then []
         else [(''shared_layer_aliases'',
                PyList (map (\<lambda>(name, targets). PyList [PyStr name, PyList (map PyStr targets)]) aliases))])
      @ (if pp_degree > 1
         then [(''worker_coordinate'', PyDict
                  [(''global_rank'', PyInt (global_rank coordinate)), (''pp_rank'', PyInt (pp_rank coordinate)),
                   (''tp_rank'', PyInt (tp_rank coordinate)), (''dcp_rank'', PyInt (dcp_rank coordinate))])]
         else []))"

definition rank_ownership_sha256 ::
  "(string \<Rightarrow> string) \<Rightarrow> json_encoder \<Rightarrow> string list \<Rightarrow> (string \<times> string list) list \<Rightarrow>
   worker_coordinate \<Rightarrow> int \<Rightarrow> int \<Rightarrow> string result" where
  "rank_ownership_sha256 sha enc layers aliases coordinate pp_degree dp_rank =
     (if [] \<in> set layers then Inl ValueError
      else if \<not> distinct layers then Inl ValueError
      else if pp_degree \<le> 0 then Inl ValueError
      else if dp_rank < 0 then Inl ValueError
      else and_then (check_aliases layers {} aliases) (\<lambda>_.
        sha256_json sha enc (ownership_payload layers aliases coordinate pp_degree dp_rank)))"

section \<open>The encoding determines the value\<close>

text \<open>A value without floats whose dictionaries have distinct keys, and its sorted form.\<close>

fun plain :: "pyval \<Rightarrow> bool" where
  "plain (PyFloat _) = False"
| "plain (PyList vs) = list_all plain vs"
| "plain (PyDict kvs) = (distinct (map fst kvs) \<and> list_all (\<lambda>(k, v). plain v) kvs)"
| "plain _ = True"

text \<open>What the encoder accepts: bounded integers and bounded nesting.\<close>

fun nests_within :: "nat \<Rightarrow> pyval \<Rightarrow> bool" where
  "nests_within d (PyList vs) = (0 < d \<and> list_all (nests_within (d - 1)) vs)"
| "nests_within d (PyDict kvs) = (0 < d \<and> list_all (\<lambda>(k, v). nests_within (d - 1) v) kvs)"
| "nests_within d v = True"

fun writable_ints :: "pyval \<Rightarrow> bool" where
  "writable_ints (PyInt n) = writable_int n"
| "writable_ints (PyList vs) = list_all writable_ints vs"
| "writable_ints (PyDict kvs) = list_all (\<lambda>(k, v). writable_ints v) kvs"
| "writable_ints v = True"

definition encodable :: "json_encoder \<Rightarrow> pyval \<Rightarrow> bool" where
  "encodable enc v \<longleftrightarrow> nests_within (nesting_limit enc) v \<and> writable_ints v"

fun key_sorted :: "pyval \<Rightarrow> pyval" where
  "key_sorted (PyList vs) = PyList (map key_sorted vs)"
| "key_sorted (PyDict kvs) = PyDict (map (\<lambda>(k, v). (k, key_sorted v)) (sort_key fst kvs))"
| "key_sorted v = v"

fun json_text :: "pyval \<Rightarrow> string" where
  "json_text PyNone = ''null''"
| "json_text (PyBool b) = (if b then ''true'' else ''false'')"
| "json_text (PyInt n) = dec_int n"
| "json_text (PyFloat _) = []"
| "json_text (PyStr s) = json_string s"
| "json_text (PyList vs) = CHR ''['' # commas (map json_text vs) @ '']''"
| "json_text (PyDict kvs) = CHR ''{'' # commas (map (\<lambda>(k, v). json_string k @ CHR '':'' # json_text v) kvs) @ ''}''"

lemma insort_key_map: "insort_key f (g x) (map g xs) = map g (insort_key (f \<circ> g) x xs)"
  by (induction xs) auto

lemma sort_key_map: "sort_key f (map g xs) = map g (sort_key (f \<circ> g) xs)"
  by (induction xs) (simp_all add: insort_key_map comp_def)

lemma json_encode_plain:
  "plain v \<Longrightarrow> nests_within d v \<Longrightarrow> writable_ints v \<Longrightarrow> json_encode fl d v = Inr (json_text (key_sorted v))"
proof (induction fl d v rule: json_encode.induct)
  case (9 fl d vs)
  then have "map_result (json_encode fl d) vs = Inr (map (json_text \<circ> key_sorted) vs)"
    by (intro map_result_total) (auto simp: list_all_iff)
  then show ?case by (simp add: comp_def)
next
  case (10 fl d kvs)
  have "map_result (\<lambda>(k, v). and_then (json_encode fl d v) (\<lambda>t. Inr (json_string k @ CHR '':'' # t))) (sort_key fst kvs)
      = Inr (map (\<lambda>(k, v). json_string k @ CHR '':'' # json_text (key_sorted v)) (sort_key fst kvs))"
  proof (intro map_result_total)
    fix p
    assume p: "p \<in> set (sort_key fst kvs)"
    obtain k v where kv: "p = (k, v)" by force
    have at: "(k, v) \<in> set kvs" using p kv by simp
    have "plain v" "nests_within d v" "writable_ints v"
      using 10(2-4) at by (fastforce simp: list_all_iff)+
    then have "json_encode fl d v = Inr (json_text (key_sorted v))" by (rule 10(1) [OF p kv [symmetric]])
    then show "(case p of (k, v) \<Rightarrow> and_then (json_encode fl d v) (\<lambda>t. Inr (json_string k @ CHR '':'' # t)))
        = Inr (case p of (k, v) \<Rightarrow> json_string k @ CHR '':'' # json_text (key_sorted v))" by (simp add: kv)
  qed
  then show ?case by (simp add: comp_def case_prod_unfold)
qed auto

text \<open>Conversely only encodable values encode, and within the nesting limit the only error is \<open>ValueError\<close>.\<close>

lemma map_result_Inl: "map_result f xs = Inl e \<Longrightarrow> \<exists>x \<in> set xs. f x = Inl e"
  by (induction xs) (auto simp: and_then_def split: sum.splits)

lemma map_result_Inr_member: "map_result f xs = Inr ys \<Longrightarrow> x \<in> set xs \<Longrightarrow> \<exists>y. f x = Inr y"
  by (induction xs arbitrary: ys) (auto simp: and_then_Inr_iff)

lemma json_encode_total: "json_encode fl d v = Inr t \<Longrightarrow> nests_within d v \<and> writable_ints v"
proof (induction fl d v arbitrary: t rule: json_encode.induct)
  case (9 fl d vs)
  then obtain ts where "map_result (json_encode fl d) vs = Inr ts" by (auto simp: and_then_Inr_iff)
  then have "nests_within d v \<and> writable_ints v" if "v \<in> set vs" for v
    using 9(1) [OF that] map_result_Inr_member [of "json_encode fl d" vs ts v] that by (auto 0 3)
  then show ?case by (simp add: list_all_iff)
next
  case (10 fl d kvs)
  then obtain ts where ts: "map_result (\<lambda>(k, v). and_then (json_encode fl d v) (\<lambda>t. Inr (json_string k @ CHR '':'' # t))) (sort_key fst kvs) = Inr ts"
    by (auto simp: and_then_Inr_iff)
  have "nests_within d v \<and> writable_ints v" if p: "(k, v) \<in> set kvs" for k v
  proof -
    obtain t where "json_encode fl d v = Inr t"
      using map_result_Inr_member [OF ts, of "(k, v)"] p by (auto simp: and_then_Inr_iff)
    then show ?thesis using 10(1) [of "(k, v)" k v] p by simp
  qed
  then show ?case by (auto simp: list_all_iff)
qed (auto split: if_splits)

lemma json_encode_error: "nests_within d v \<Longrightarrow> json_encode fl d v = Inl e \<Longrightarrow> e = ValueError"
proof (induction fl d v arbitrary: e rule: json_encode.induct)
  case (9 fl d vs)
  then obtain v where "v \<in> set vs" "json_encode fl d v = Inl e"
    by (auto simp: and_then_def split: sum.splits dest: map_result_Inl)
  then show ?case using 9(1,2) by (auto simp: list_all_iff)
next
  case (10 fl d kvs)
  then obtain k v where "(k, v) \<in> set kvs" "json_encode fl d v = Inl e"
    by (auto simp: and_then_def split: sum.splits dest!: map_result_Inl)
  then show ?case using 10(1) [of "(k, v)" k v e] 10(2) by (auto simp: list_all_iff)
qed (auto split: if_splits)

lemma digit_char_nat: "n < 10 \<Longrightarrow> of_char (digit_char n) = 48 + n"
  by (simp add: digit_char_def of_char_of)

definition is_dec :: "char \<Rightarrow> bool" where
  "is_dec c \<longleftrightarrow> 48 \<le> (of_char c :: nat) \<and> (of_char c :: nat) < 58"

definition stops :: "string \<Rightarrow> bool" where
  "stops r \<longleftrightarrow> r = [] \<or> \<not> is_dec (hd r)"

definition dec_value :: "string \<Rightarrow> nat" where
  "dec_value s = foldl (\<lambda>a c. 10 * a + (of_char c - 48)) 0 s"

lemma dec_nat_digits: "list_all is_dec (dec_nat n) \<and> dec_nat n \<noteq> []"
proof (induction n rule: dec_nat.induct)
  case (1 n)
  have digit: "is_dec (digit_char m)" if "m < 10" for m
    using that by (simp add: is_dec_def digit_char_nat)
  show ?case using 1 digit by (simp add: dec_nat.simps [of n])
qed

lemma dec_value_dec_nat: "dec_value (dec_nat n) = n"
proof (induction n rule: dec_nat.induct)
  case (1 n)
  show ?case
  proof (cases "n < 10")
    case True
    then show ?thesis by (simp add: dec_nat.simps [of n] dec_value_def digit_char_nat)
  next
    case False
    then have "dec_value (dec_nat n) = 10 * (n div 10) + n mod 10"
      using 1 by (simp add: dec_nat.simps [of n] dec_value_def digit_char_nat)
    then show ?thesis by simp
  qed
qed

lemma takeWhile_dec: "stops r \<Longrightarrow> list_all is_dec ds \<Longrightarrow> takeWhile is_dec (ds @ r) = ds"
  by (cases r) (auto simp: stops_def list_all_iff takeWhile_append takeWhile_eq_all_conv)

lemma dec_nat_inj:
  assumes "dec_nat m @ r = dec_nat n @ s" "stops r" "stops s"
  shows "m = n \<and> r = s"
proof -
  have "dec_nat m = dec_nat n"
    using assms takeWhile_dec [of r "dec_nat m"] takeWhile_dec [of s "dec_nat n"] dec_nat_digits by metis
  then show ?thesis using assms(1) dec_value_dec_nat by (metis same_append_eq)
qed

lemma dec_nat_not_minus: "dec_nat n @ r \<noteq> CHR ''-'' # s"
proof
  assume "dec_nat n @ r = CHR ''-'' # s"
  then have "is_dec CHR ''-''" using dec_nat_digits [of n] by (cases "dec_nat n") auto
  moreover have "\<not> is_dec CHR ''-''" by code_simp
  ultimately show False by blast
qed

lemma dec_int_inj:
  assumes "dec_int m @ r = dec_int n @ s" "stops r" "stops s"
  shows "m = n \<and> r = s"
proof (cases "m < 0"; cases "n < 0")
  assume "m < 0" "n < 0"
  then show ?thesis using assms dec_nat_inj [of "nat (- m)" r "nat (- n)" s] by (auto simp: dec_int_def)
next
  assume "\<not> m < 0" "\<not> n < 0"
  then show ?thesis using assms dec_nat_inj [of "nat m" r "nat n" s] by (auto simp: dec_int_def)
qed (use assms(1) dec_nat_not_minus in \<open>auto simp: dec_int_def\<close>, metis+)

text \<open>Reading one escaped character back.\<close>

fun unescape :: "string \<Rightarrow> (char \<times> string) option" where
  "unescape (c # rest) =
     (if c \<noteq> CHR 0x5C then Some (c, rest)
      else case rest of
          [] \<Rightarrow> None
        | b # rest' \<Rightarrow>
            if b = CHR ''u''
            then (case rest' of _ # _ # x # y # rest'' \<Rightarrow>
                    Some (char_of (16 * hex_value x + hex_value y), rest'') | _ \<Rightarrow> None)
            else Some (if b = CHR ''n'' then CHR 0x0A else if b = CHR ''r'' then CHR 0x0D
                       else if b = CHR ''t'' then CHR 0x09 else if b = CHR ''f'' then CHR 0x0C
                       else if b = CHR ''b'' then CHR 0x08 else b, rest'))"
| "unescape [] = None"

lemma unescape_escape: "unescape (escape_char c @ r) = Some (c, r)"
proof (cases "of_char c < (32 :: nat)")
  case True
  then have "hex_value (hex_digit (of_char c div 16)) = of_char c div 16"
    "hex_value (hex_digit (of_char c mod 16)) = of_char c mod 16"
    by (simp_all add: hex_digit_value)
  moreover have "16 * (of_char c div 16 :: nat) + of_char c mod 16 = of_char c" by simp
  ultimately show ?thesis by (simp add: escape_char_def)
next
  case False
  then show ?thesis by (simp add: escape_char_def)
qed

lemma escape_not_quote: "escape_char c @ r \<noteq> CHR 0x22 # s"
  by (auto simp: escape_char_def split: if_splits)

lemma json_string_inj:
  assumes "json_string a @ r = json_string b @ s"
  shows "a = b \<and> r = s"
proof -
  have "concat (map escape_char a) @ CHR 0x22 # r = concat (map escape_char b) @ CHR 0x22 # s"
    using assms by (simp add: json_string_def)
  then show ?thesis
  proof (induction a arbitrary: b)
    case Nil
    then show ?case using escape_not_quote [of _ _ r] by (cases b) (auto dest: sym)
  next
    case (Cons c a)
    show ?case
    proof (cases b)
      case Nil
      then show ?thesis using Cons.prems escape_not_quote [of c _ s] by simp
    next
      case b: (Cons d b')
      let ?l = "concat (map escape_char a) @ CHR 0x22 # r" and ?m = "concat (map escape_char b') @ CHR 0x22 # s"
      have "unescape (escape_char c @ ?l) = unescape (escape_char d @ ?m)"
        using Cons.prems b by simp
      then have "c = d" "?l = ?m" by (simp_all only: unescape_escape option.inject prod.inject)
      then show ?thesis using Cons.IH b by blast
    qed
  qed
qed

text \<open>A comma-separated sequence of prefix-free items before a closing bracket.\<close>

lemma commas_Cons: "commas (x # xs) @ c # r = x @ (if xs = [] then c # r else CHR '','' # commas xs @ c # r)"
  by (cases xs) auto

lemma commas_inj:
  assumes item: "\<And>x y r s. x \<in> set xs \<Longrightarrow> y \<in> set ys \<Longrightarrow> f x @ r = f y @ s \<Longrightarrow> stops r \<Longrightarrow> stops s \<Longrightarrow> x = y \<and> r = s"
    and first: "\<And>x. x \<in> set xs \<union> set ys \<Longrightarrow> f x \<noteq> [] \<and> hd (f x) \<noteq> c"
    and close: "\<not> is_dec c" "c \<noteq> CHR '',''"
    and eq: "commas (map f xs) @ c # r = commas (map f ys) @ c # s"
  shows "xs = ys \<and> r = s"
  using item first eq
proof (induction xs arbitrary: ys)
  case Nil
  have "ys = []"
  proof (cases ys)
    case (Cons y ys')
    then have "f y \<noteq> [] \<and> hd (f y) \<noteq> c" using Nil.prems(2) by simp
    then show ?thesis using Nil.prems(3) Cons commas_Cons [of "f y" "map f ys'" c s] by (cases "f y") auto
  qed
  then show ?case using Nil.prems(3) by simp
next
  case (Cons x xs)
  have "\<not> is_dec CHR '',''" by code_simp
  then have stop: "stops (c # t)" "stops (CHR '','' # t)" for t
    using close(1) by (simp_all add: stops_def)
  show ?case
  proof (cases ys)
    case Nil
    have "f x \<noteq> [] \<and> hd (f x) \<noteq> c" using Cons.prems(2) by simp
    then show ?thesis using Cons.prems(3) Nil commas_Cons [of "f x" "map f xs" c r] by (cases "f x") auto
  next
    case ys: (Cons y ys')
    have "x = y \<and> (if map f xs = [] then c # r else CHR '','' # commas (map f xs) @ c # r)
        = (if map f ys' = [] then c # s else CHR '','' # commas (map f ys') @ c # s)"
      using Cons.prems(3) ys commas_Cons stop by (intro Cons.prems(1)) (simp_all del: commas.simps)
    then have xy: "x = y" and tail: "(xs = [] \<and> ys' = [] \<and> r = s)
        \<or> (commas (map f xs) @ c # r = commas (map f ys') @ c # s \<and> xs \<noteq> [] \<and> ys' \<noteq> [])"
      using close(2) by (auto split: if_splits)
    from tail show ?thesis
    proof
      assume "commas (map f xs) @ c # r = commas (map f ys') @ c # s \<and> xs \<noteq> [] \<and> ys' \<noteq> []"
      then have "xs = ys' \<and> r = s" using Cons.prems(1,2) ys by (intro Cons.IH) auto
      then show ?thesis using xy ys by simp
    qed (use xy ys in simp)
  qed
qed

text \<open>The first character of an encoding tells the kind of the value.\<close>

definition char_kind :: "char \<Rightarrow> nat" where
  "char_kind c = (if c = CHR ''n'' then 0 else if c = CHR ''t'' then 1 else if c = CHR ''f'' then 2
     else if c = CHR 0x22 then 4 else if c = CHR ''['' then 5 else if c = CHR ''{'' then 6
     else if is_dec c \<or> c = CHR ''-'' then 3 else 7)"

fun value_kind :: "pyval \<Rightarrow> nat" where
  "value_kind PyNone = 0"
| "value_kind (PyBool b) = (if b then 1 else 2)"
| "value_kind (PyInt n) = 3"
| "value_kind (PyStr s) = 4"
| "value_kind (PyList vs) = 5"
| "value_kind (PyDict kvs) = 6"
| "value_kind (PyFloat q) = 7"

lemma char_kind_dec: "is_dec c \<Longrightarrow> char_kind c = 3"
  by (auto simp: char_kind_def is_dec_def)

lemma json_text_kind:
  assumes "plain v"
  shows "json_text v \<noteq> []" "char_kind (hd (json_text v)) = value_kind v"
proof -
  have dec: "char_kind (hd (dec_nat n)) = 3 \<and> dec_nat n \<noteq> []" for n
    using dec_nat_digits [of n] by (cases "dec_nat n") (auto intro: char_kind_dec)
  have "json_text v \<noteq> [] \<and> char_kind (hd (json_text v)) = value_kind v"
  proof (cases v)
    case (PyInt n)
    moreover have "char_kind CHR ''-'' = 3" by code_simp
    ultimately show ?thesis using dec by (simp add: dec_int_def)
  qed (use assms in \<open>simp_all add: json_string_def char_kind_def\<close>)
  then show "json_text v \<noteq> []" "char_kind (hd (json_text v)) = value_kind v" by blast+
qed

lemma json_text_first: "plain v \<Longrightarrow> json_text v \<noteq> [] \<and> hd (json_text v) \<noteq> CHR '']''"
proof -
  assume "plain v"
  moreover have "char_kind CHR '']'' = 7" by code_simp
  moreover have "plain v \<Longrightarrow> value_kind v \<noteq> 7" by (cases v) auto
  ultimately show ?thesis using json_text_kind by metis
qed

lemma json_text_same_kind:
  assumes "plain v" "plain w" "json_text v @ r = json_text w @ s"
  shows "value_kind v = value_kind w"
proof -
  have "hd (json_text v) = hd (json_text v @ r)" using json_text_kind(1) [OF assms(1)] by simp
  also have "\<dots> = hd (json_text w)" using json_text_kind(1) [OF assms(2)] assms(3) by simp
  finally show ?thesis using json_text_kind(2) [OF assms(1)] json_text_kind(2) [OF assms(2)] by simp
qed

lemma json_text_inj:
  "plain v \<Longrightarrow> plain w \<Longrightarrow> json_text v @ r = json_text w @ s \<Longrightarrow> stops r \<Longrightarrow> stops s \<Longrightarrow> v = w \<and> r = s"
proof (induction v arbitrary: w r s)
  case PyNone
  note kind = json_text_same_kind [OF PyNone.prems(1-3)]
  show ?case using kind PyNone.prems(3) by (cases w) (simp_all split: if_splits)
next
  case (PyBool b)
  note kind = json_text_same_kind [OF PyBool.prems(1-3)]
  show ?case using kind PyBool.prems(3) by (cases w) (simp_all split: if_splits)
next
  case (PyInt n)
  note kind = json_text_same_kind [OF PyInt.prems(1-3)]
  show ?case using kind PyInt.prems dec_int_inj [of n r _ s] by (cases w) (simp_all split: if_splits)
next
  case (PyFloat q)
  then show ?case by simp
next
  case (PyStr t)
  note kind = json_text_same_kind [OF PyStr.prems(1-3)]
  show ?case using kind PyStr.prems json_string_inj [of t r _ s] by (cases w) (simp_all split: if_splits)
next
  case (PyList vs)
  note kind = json_text_same_kind [OF PyList.prems(1-3)]
  then obtain ws where w: "w = PyList ws" by (cases w) (simp_all split: if_splits)
  have plains: "plain x" if "x \<in> set vs \<union> set ws" for x
    using that PyList.prems(1,2) w by (auto simp: list_all_iff)
  have "vs = ws \<and> r = s"
  proof (rule commas_inj [where f = json_text and c = "CHR '']''"])
    show "commas (map json_text vs) @ CHR '']'' # r = commas (map json_text ws) @ CHR '']'' # s"
      using PyList.prems(3) w by simp
    show "\<not> is_dec CHR '']''" by code_simp
    show "x = y \<and> r = s" if "x \<in> set vs" "y \<in> set ws" "json_text x @ r = json_text y @ s" "stops r" "stops s"
      for x y r s
      using PyList.IH [OF that(1) plains plains that(3-5)] that by simp
  qed (use plains json_text_first in auto)
  then show ?case using w by simp
next
  case (PyDict kvs)
  note kind = json_text_same_kind [OF PyDict.prems(1-3)]
  then obtain ws where w: "w = PyDict ws" by (cases w) (simp_all split: if_splits)
  have plains: "plain v" if "(k, v) \<in> set kvs \<union> set ws" for k v
    using that PyDict.prems(1,2) w by (auto simp: list_all_iff)
  let ?f = "\<lambda>(k, v). json_string k @ CHR '':'' # json_text v"
  have "kvs = ws \<and> r = s"
  proof (rule commas_inj [where f = ?f and c = "CHR ''}''"])
    show "commas (map ?f kvs) @ CHR ''}'' # r = commas (map ?f ws) @ CHR ''}'' # s"
      using PyDict.prems(3) w by simp
    show "\<not> is_dec CHR ''}''" by code_simp
    show "x = y \<and> r = s" if x: "x \<in> set kvs" and y: "y \<in> set ws" and eq: "?f x @ r = ?f y @ s"
      and stop: "stops r" "stops s" for x y r s
    proof -
      obtain k v k' v' where p: "x = (k, v)" "y = (k', v')" by force
      have "json_string k @ CHR '':'' # json_text v @ r = json_string k' @ CHR '':'' # json_text v' @ s"
        using eq p by simp
      then have "k = k'" "json_text v @ r = json_text v' @ s" using json_string_inj by blast+
      then show ?thesis
        using PyDict.IH [OF x, of v v' r s] plains [of k v] plains [of k' v'] x y p stop by auto
    qed
  qed (auto simp: json_string_def)
  then show ?case using w by simp
qed

lemma plain_key_sorted: "plain v \<Longrightarrow> plain (key_sorted v)"
proof (induction v)
  case (PyDict kvs)
  have "distinct (map fst (sort_key fst kvs))" using PyDict.prems by (simp add: distinct_map)
  then show ?case using PyDict by (auto simp: list_all_iff comp_def case_prod_unfold)
qed (auto simp: list_all_iff)

lemma canonical_json_plain: "plain v \<Longrightarrow> encodable enc v \<Longrightarrow> canonical_json enc v = Inr (json_text (key_sorted v))"
  by (simp add: canonical_json_def json_dumps_def json_encode_plain encodable_def)

lemma canonical_json_encodable: "canonical_json enc v = Inr t \<Longrightarrow> encodable enc v"
  using json_encode_total [of "float_repr enc" "nesting_limit enc" v]
  by (auto simp: canonical_json_def json_dumps_def encodable_def split: sum.splits if_splits)

lemma canonical_json_Inr:
  assumes "canonical_json enc v = Inr t" "plain v"
  shows "t = json_text (key_sorted v)"
  using canonical_json_plain [OF assms(2) canonical_json_encodable [OF assms(1)]] assms(1) by simp

lemma canonical_json_error: "canonical_json enc v = Inl e \<Longrightarrow> nests_within (nesting_limit enc) v \<Longrightarrow> e = IdentityError"
  using json_encode_error [of "nesting_limit enc" v "float_repr enc"]
  by (auto simp: canonical_json_def json_dumps_def split: sum.splits if_splits)

text \<open>Two float-free values have the same canonical encoding exactly when they are equal up to the
  order of their dictionary keys.\<close>

lemma json_text_iff:
  assumes "plain v" "plain w"
  shows "json_text (key_sorted v) = json_text (key_sorted w) \<longleftrightarrow> key_sorted v = key_sorted w"
  using json_text_inj [of "key_sorted v" "key_sorted w" "[]" "[]"] assms
  by (auto simp: plain_key_sorted stops_def)

lemma sha256_json_plain:
  "plain v \<Longrightarrow> encodable enc v \<Longrightarrow> sha256_json sha enc v = Inr (hex_of (sha (json_text (key_sorted v))))"
  by (simp add: sha256_json_def canonical_json_plain)

lemma sha256_json_Inr:
  assumes "sha256_json sha enc v = Inr h" "plain v"
  shows "h = hex_of (sha (json_text (key_sorted v)))"
  using assms canonical_json_Inr [OF _ assms(2)] by (auto simp: sha256_json_def and_then_Inr_iff)

text \<open>Equal digests of float-free values, without a collision of the two encodings, mean equal
  values up to key order.\<close>

lemma sha256_json_inj:
  assumes "plain v" "plain w" "sha256_json sha enc v = Inr h" "sha256_json sha enc w = Inr h"
    and "inj_on sha {json_text (key_sorted v), json_text (key_sorted w)}"
  shows "key_sorted v = key_sorted w"
proof -
  have "sha (json_text (key_sorted v)) = sha (json_text (key_sorted w))"
    using sha256_json_Inr [OF assms(3,1)] sha256_json_Inr [OF assms(4,2)] by (simp add: hex_of_inj)
  then have "json_text (key_sorted v) = json_text (key_sorted w)"
    by (rule inj_onD [OF assms(5)]) simp_all
  then show ?thesis using json_text_iff [OF assms(1,2)] by simp
qed

text \<open>Key order does not matter to what encodes.\<close>

lemma key_sorted_nests: "nests_within d (key_sorted v) = nests_within d v"
proof (induction v arbitrary: d)
  case (PyDict kvs)
  have "(\<forall>p \<in> set kvs. nests_within (d - 1) (key_sorted (snd p))) = (\<forall>p \<in> set kvs. nests_within (d - 1) (snd p))"
    using PyDict.IH by (metis prod.collapse snds.intros)
  then show ?case by (simp add: list_all_iff case_prod_unfold)
qed (auto simp: list_all_iff)

lemma key_sorted_writable: "writable_ints (key_sorted v) = writable_ints v"
proof (induction v)
  case (PyDict kvs)
  have "(\<forall>p \<in> set kvs. writable_ints (key_sorted (snd p))) = (\<forall>p \<in> set kvs. writable_ints (snd p))"
    using PyDict.IH by (metis prod.collapse snds.intros)
  then show ?case by (simp add: list_all_iff case_prod_unfold)
qed (auto simp: list_all_iff)

lemma encodable_key_sorted: "encodable enc (key_sorted v) = encodable enc v"
  by (simp add: encodable_def key_sorted_nests key_sorted_writable)

lemma sorted_dict_get:
  assumes "distinct (map fst kvs)"
  shows "map_of (map (\<lambda>(k, v). (k, key_sorted v)) (sort_key fst kvs)) k = map_option key_sorted (map_of kvs k)"
proof -
  have "map_of (sort_key fst kvs) = map_of kvs"
    using assms by (intro map_of_eqI) (auto simp: distinct_map)
  then show ?thesis by (simp add: map_of_map)
qed

lemma key_sorted_dict_eqD:
  assumes "key_sorted (PyDict xs) = key_sorted (PyDict ys)" "distinct (map fst xs)" "distinct (map fst ys)"
  shows "map_option key_sorted (map_of xs k) = map_option key_sorted (map_of ys k)"
  using assms(1) sorted_dict_get [OF assms(2), of k] sorted_dict_get [OF assms(3), of k] by simp

lemma DeploymentIdentity_Inr:
  assumes "DeploymentIdentity d = Inr d'"
  shows "d' = d" and "set (dict_keys (di_topology d)) = required_topology"
    and "distinct (dict_keys (di_topology d)) \<Longrightarrow> (nm, val) \<in> set (di_topology d) \<Longrightarrow> \<exists>n. val = PyInt n"
proof -
  let ?top = "di_topology d"
  have top: "set (dict_keys ?top) = required_topology"
    and ints: "\<not> (\<exists>(nm, val) \<in> set ?top. nm \<noteq> ''dp_rank'' \<and>
                 (case as_int val of None \<Rightarrow> True | Some n \<Rightarrow> n \<le> 0))"
    and dp: "\<not> (case dict_get ?top ''dp_rank'' of None \<Rightarrow> True
               | Some v \<Rightarrow> (case as_int v of None \<Rightarrow> True | Some n \<Rightarrow> n < 0))"
    and eq: "d' = d"
    using assms by (simp_all add: DeploymentIdentity_def Let_def split: if_splits)
  show "d' = d" "set (dict_keys ?top) = required_topology" by (rule eq, rule top)
  assume dist: "distinct (dict_keys ?top)" and at: "(nm, val) \<in> set ?top"
  have some: "\<exists>n. val = PyInt n" if "as_int val \<noteq> None" using that by (cases val) auto
  show "\<exists>n. val = PyInt n"
  proof (cases "nm = ''dp_rank''")
    case True
    then have "dict_get ?top ''dp_rank'' = Some val" using dist at by simp
    then show ?thesis using dp some by (auto split: option.splits)
  next
    case False
    then have "\<not> (case as_int val of None \<Rightarrow> True | Some n \<Rightarrow> n \<le> 0)" using ints at by blast
    then show ?thesis using some by (auto split: option.splits)
  qed
qed

lemma plain_deployment_payload:
  assumes "DeploymentIdentity d = Inr d'" "distinct (dict_keys (di_topology d))"
  shows "plain (deployment_payload d)"
proof -
  have "plain val" if "(nm, val) \<in> set (di_topology d)" for nm val
    using DeploymentIdentity_Inr(3) [OF assms(1,2) that] by auto
  then show ?thesis using assms(2) by (auto simp: deployment_payload_def list_all_iff)
qed

text \<open>Two topologies with integer vals that agree as sorted vals agree as dictionaries.\<close>

lemma topology_eqD:
  assumes "key_sorted (PyDict xs) = key_sorted (PyDict ys)" "distinct (map fst xs)" "distinct (map fst ys)"
    and "\<And>k v. (k, v) \<in> set xs \<Longrightarrow> \<exists>n. v = PyInt n" "\<And>k v. (k, v) \<in> set ys \<Longrightarrow> \<exists>n. v = PyInt n"
  shows "map_of xs = map_of ys"
proof
  fix k :: string
  have int: "map_option key_sorted (map_of zs k) = map_of zs k"
    if "\<And>k v. (k, v) \<in> set zs \<Longrightarrow> \<exists>n. v = PyInt n" for zs
    using that by (cases "map_of zs k") (auto dest!: map_of_SomeD, fastforce)
  show "map_of xs k = map_of ys k"
    using key_sorted_dict_eqD [OF assms(1-3), of k] int [OF assms(4)] int [OF assms(5)] by simp
qed

lemma key_sorted_field:
  assumes "key_sorted (PyDict xs) = key_sorted (PyDict ys)" "distinct (map fst xs)" "distinct (map fst ys)"
    and "map_of xs k = Some v" "map_of ys k = Some w"
  shows "key_sorted v = key_sorted w"
  using key_sorted_dict_eqD [OF assms(1-3), of k] assms(4,5) by simp

lemma plain_ownership_payload: "plain (ownership_payload layers aliases c pp dp)"
  by (auto simp: ownership_payload_def list_all_iff)

lemma distinct_ownership_keys:
  "ownership_payload layers aliases c pp dp = PyDict kvs \<Longrightarrow> distinct (map fst kvs)"
  using plain_ownership_payload [of layers aliases c pp dp] by simp

section \<open>Properties\<close>

text \<open>
  C15: The canonical encoding is exact.  A float-free value with duplicate-free dictionaries encodes
  exactly when its integers have at most 4300 digits and its containers nest within the recursion
  limit; within that limit the only error is \<open>IdentityError\<close>.  Two values that encode have the same
  bytes precisely when they are equal up to the order of dictionary keys, and a value equal up to
  that order to one that encodes has its encoding.
\<close>

theorem canonical_json_exact:
  assumes "plain v" "plain w"
  shows "((\<exists>t. canonical_json enc v = Inr t) \<longleftrightarrow> nests_within (nesting_limit enc) v \<and> writable_ints v)
    \<and> (nests_within (nesting_limit enc) v \<and> \<not> writable_ints v \<longrightarrow> canonical_json enc v = Inl IdentityError)
    \<and> (canonical_json enc v = Inr t \<longrightarrow> (canonical_json enc w = Inr t \<longleftrightarrow> key_sorted v = key_sorted w))"
proof -
  have exists: "(\<exists>t. canonical_json enc v = Inr t) \<longleftrightarrow> encodable enc v"
    using canonical_json_encodable canonical_json_plain [OF assms(1)] by blast
  have error: "canonical_json enc v = Inl IdentityError" if h: "nests_within (nesting_limit enc) v" "\<not> writable_ints v"
  proof (cases "canonical_json enc v")
    case (Inl e)
    then show ?thesis using canonical_json_error [OF Inl h(1)] by simp
  next
    case (Inr t)
    then show ?thesis using exists h(2) unfolding encodable_def by blast
  qed
  have "canonical_json enc w = Inr t \<longleftrightarrow> key_sorted v = key_sorted w" if t: "canonical_json enc v = Inr t"
  proof
    assume "canonical_json enc w = Inr t"
    from canonical_json_Inr [OF t assms(1)] canonical_json_Inr [OF this assms(2)]
    show "key_sorted v = key_sorted w" unfolding json_text_iff [OF assms, symmetric] by (rule trans [OF sym])
  next
    assume eq: "key_sorted v = key_sorted w"
    have "encodable enc w"
      using canonical_json_encodable [OF t] encodable_key_sorted [of enc v] encodable_key_sorted [of enc w] by (simp add: eq)
    from canonical_json_plain [OF assms(2) this] show "canonical_json enc w = Inr t"
      unfolding canonical_json_Inr [OF t assms(1)] eq .
  qed
  with exists error show ?thesis by (simp add: encodable_def)
qed

definition sample_encoder :: json_encoder where
  "sample_encoder = \<lparr>float_repr = (\<lambda>_. []), nesting_limit = 10\<rparr>"

theorem canonical_json_exact_witness:
  "canonical_json sample_encoder (PyDict [(''a'', PyStr ''x''), (''b'', PyInt (-12))])
     = canonical_json sample_encoder (PyDict [(''b'', PyInt (-12)), (''a'', PyStr ''x'')])
   \<and> canonical_json sample_encoder (PyList [PyInt 1, PyInt 2]) \<noteq> canonical_json sample_encoder (PyList [PyInt 12])"
proof -
  let ?v = "PyDict [(''b'', PyInt (-12)), (''a'', PyStr ''x'')]" and ?w = "PyDict [(''a'', PyStr ''x''), (''b'', PyInt (-12))]"
  have ok: "key_sorted ?v = key_sorted ?w" "nests_within (nesting_limit sample_encoder) ?v" "writable_ints ?v"
      "nests_within (nesting_limit sample_encoder) (PyList [PyInt 1, PyInt 2])" "writable_ints (PyList [PyInt 1, PyInt 2])"
    by code_simp+
  obtain t u where "canonical_json sample_encoder ?v = Inr t" "canonical_json sample_encoder (PyList [PyInt 1, PyInt 2]) = Inr u"
    using canonical_json_exact [of ?v ?v sample_encoder t]
      canonical_json_exact [of "PyList [PyInt 1, PyInt 2]" "PyList [PyInt 12]" sample_encoder t] ok by auto
  then show ?thesis
    using canonical_json_exact [of ?v ?w sample_encoder t]
      canonical_json_exact [of "PyList [PyInt 1, PyInt 2]" "PyList [PyInt 12]" sample_encoder u] ok
    by (simp add: eq_commute [of "Inr u"])
qed

text \<open>
  C12: The deployment digest binds the whole identity: two accepted identities with the same digest
  agree in every field and in every topology value, unless the hash collides on their encodings.
\<close>

theorem deployment_digest_binds:
  assumes accepted: "DeploymentIdentity a = Inr a" "DeploymentIdentity b = Inr b"
    and dicts: "distinct (dict_keys (di_topology a))" "distinct (dict_keys (di_topology b))"
    and same: "deployment_digest sha enc a = Inr h" "deployment_digest sha enc b = Inr h"
    and no_collision: "inj_on sha {json_text (key_sorted (deployment_payload a)),
                                    json_text (key_sorted (deployment_payload b))}"
  shows "a = b\<lparr>di_topology := di_topology a\<rparr> \<and> dict_get (di_topology a) = dict_get (di_topology b)"
proof -
  note plain = plain_deployment_payload [OF accepted(1) dicts(1)] plain_deployment_payload [OF accepted(2) dicts(2)]
  have eq: "key_sorted (deployment_payload a) = key_sorted (deployment_payload b)"
    using sha256_json_inj [OF plain _ _ no_collision] same by (simp add: deployment_digest_def)
  have field: "key_sorted v = key_sorted w"
    if "map_of (case deployment_payload a of PyDict kvs \<Rightarrow> kvs) k = Some v"
      "map_of (case deployment_payload b of PyDict kvs \<Rightarrow> kvs) k = Some w" for k v w
    using key_sorted_field [OF eq [unfolded deployment_payload_def], of k v w] that
    by (simp add: deployment_payload_def)
  have "dict_get (di_topology a) = dict_get (di_topology b)"
    using DeploymentIdentity_Inr(3) [OF accepted(1) dicts(1)] DeploymentIdentity_Inr(3) [OF accepted(2) dicts(2)]
      field [of "''topology''" "PyDict (di_topology a)" "PyDict (di_topology b)"] dicts
    by (intro topology_eqD) (auto simp: deployment_payload_def)
  moreover have strs: "f a = f b" if "map_of (case deployment_payload a of PyDict kvs \<Rightarrow> kvs) k = Some (PyStr (f a))"
      "map_of (case deployment_payload b of PyDict kvs \<Rightarrow> kvs) k = Some (PyStr (f b))" for f k
    using field [OF that] by simp
  have "di_chunk_tokens a = di_chunk_tokens b"
    using field [of "''chunk_tokens''" "PyInt (di_chunk_tokens a)" "PyInt (di_chunk_tokens b)"]
    by (simp add: deployment_payload_def)
  moreover have "di_schema a = di_schema b"
    by (rule strs [of "''schema''"]) (simp_all add: deployment_payload_def)
  moreover have "di_profile a = di_profile b"
    by (rule strs [of "''profile''"]) (simp_all add: deployment_payload_def)
  moreover have "di_model_namespace_sha256 a = di_model_namespace_sha256 b"
    by (rule strs [of "''model_namespace_sha256''"]) (simp_all add: deployment_payload_def)
  moreover have "di_model_config_sha256 a = di_model_config_sha256 b"
    by (rule strs [of "''model_config_sha256''"]) (simp_all add: deployment_payload_def)
  moreover have "di_execution_config_sha256 a = di_execution_config_sha256 b"
    by (rule strs [of "''execution_config_sha256''"]) (simp_all add: deployment_payload_def)
  moreover have "di_vllm_version a = di_vllm_version b"
    by (rule strs [of "''vllm_version''"]) (simp_all add: deployment_payload_def)
  moreover have "di_vllm_build_sha256 a = di_vllm_build_sha256 b"
    by (rule strs [of "''vllm_build_sha256''"]) (simp_all add: deployment_payload_def)
  moreover have "di_kv_cache_dtype a = di_kv_cache_dtype b"
    by (rule strs [of "''kv_cache_dtype''"]) (simp_all add: deployment_payload_def)
  moreover have "di_layout_sha256 a = di_layout_sha256 b"
    by (rule strs [of "''layout_sha256''"]) (simp_all add: deployment_payload_def)
  moreover have "di_spoolcache_version a = di_spoolcache_version b"
    by (rule strs [of "''spoolcache_version''"]) (simp_all add: deployment_payload_def)
  moreover have "di_publication_policy a = di_publication_policy b"
    by (rule strs [of "''publication_policy''"]) (simp_all add: deployment_payload_def)
  ultimately show ?thesis by (intro conjI deployment_identity.equality) simp_all
qed

definition sample_deployment :: deployment_identity where
  "sample_deployment =
     \<lparr>di_schema = ''spoolcache-deployment/v2'', di_profile = ''p'',
      di_model_namespace_sha256 = replicate 64 CHR ''a'', di_model_config_sha256 = replicate 64 CHR ''b'',
      di_execution_config_sha256 = replicate 64 CHR ''c'', di_vllm_version = ''v'',
      di_vllm_build_sha256 = replicate 64 CHR ''d'', di_kv_cache_dtype = ''fp8'',
      di_topology = [(''tp'', PyInt 2), (''pp'', PyInt 1), (''dcp'', PyInt 1), (''dp'', PyInt 1),
        (''dp_rank'', PyInt 0), (''world_size'', PyInt 2), (''world_size_across_dp'', PyInt 2)],
      di_layout_sha256 = replicate 64 CHR ''e'', di_chunk_tokens = 256, di_spoolcache_version = ''0.3.0'',
      di_publication_policy = ''prompt-snapshot-v1''\<rparr>"

theorem deployment_digest_binds_witness:
  "DeploymentIdentity sample_deployment = Inr sample_deployment
   \<and> dict_get (di_topology sample_deployment) = dict_get (di_topology sample_deployment)"
proof -
  have ok: "DeploymentIdentity sample_deployment = Inr sample_deployment"
    "distinct (dict_keys (di_topology sample_deployment))"
    by code_simp+
  have "plain (deployment_payload sample_deployment)" "encodable sample_encoder (deployment_payload sample_deployment)"
    by code_simp+
  then obtain h where digest: "deployment_digest (\<lambda>m. m) sample_encoder sample_deployment = Inr h"
    by (simp add: deployment_digest_def sha256_json_plain)
  show ?thesis
    using deployment_digest_binds [OF ok(1) ok(1) ok(2) ok(2) digest digest] ok(1) by simp
qed

text \<open>
  C16: The ownership digest binds the owned layers, the aliases, the pipeline degree and the
  data-parallel rank, and with several pipeline stages also the worker coordinate, unless the hash
  collides on the two encodings; with one stage it does not depend on the coordinate.
\<close>

theorem rank_ownership_binds:
  assumes "rank_ownership_sha256 sha enc layers aliases c pp dp = Inr h"
    and "rank_ownership_sha256 sha enc layers' aliases' c' pp' dp' = Inr h"
    and "inj_on sha {json_text (key_sorted (ownership_payload layers aliases c pp dp)),
                      json_text (key_sorted (ownership_payload layers' aliases' c' pp' dp'))}"
  shows "layers = layers' \<and> aliases = aliases' \<and> pp = pp' \<and> dp = dp' \<and> (1 < pp \<longrightarrow> c = c')
    \<and> rank_ownership_sha256 sha enc layers aliases k 1 dp = rank_ownership_sha256 sha enc layers aliases k' 1 dp"
proof -
  let ?p = "ownership_payload layers aliases c pp dp" and ?q = "ownership_payload layers' aliases' c' pp' dp'"
  have "sha256_json sha enc ?p = Inr h" "sha256_json sha enc ?q = Inr h"
    using assms(1,2) by (auto simp: rank_ownership_sha256_def and_then_Inr_iff split: if_splits)
  then have eq: "key_sorted ?p = key_sorted ?q"
    by (rule sha256_json_inj [OF plain_ownership_payload plain_ownership_payload _ _ assms(3)])
  have get: "map_option key_sorted (map_of (case ?p of PyDict kvs \<Rightarrow> kvs) f)
      = map_option key_sorted (map_of (case ?q of PyDict kvs \<Rightarrow> kvs) f)" for f
    using key_sorted_dict_eqD [OF eq [unfolded ownership_payload_def]] 
    by (simp add: ownership_payload_def)
  have strs: "map PyStr xs = map PyStr ys \<longleftrightarrow> xs = ys" for xs ys
    by (metis (no_types) inj_map_eq_map injI pyval.inject(4))
  let ?enc = "\<lambda>(name, targets). PyList [PyStr name, PyList (map PyStr targets)]"
  have enc_inj: "map ?enc xs = map ?enc ys \<longleftrightarrow> xs = ys" for xs ys
    by (intro inj_map_eq_map injI) (auto simp: strs)
  have enc_sorted: "map (\<lambda>x. key_sorted (?enc x)) xs = map ?enc xs" for xs
    by (auto simp: comp_def)
  let ?coord = "\<lambda>c :: worker_coordinate. [(''global_rank'', PyInt (global_rank c)), (''pp_rank'', PyInt (pp_rank c)),
      (''tp_rank'', PyInt (tp_rank c)), (''dcp_rank'', PyInt (dcp_rank c))]"
  have "layers = layers'" "pp = pp'" "dp = dp'"
    using get [of "''layers''"] get [of "''pp''"] get [of "''dp_rank''"] strs
    by (simp_all add: ownership_payload_def comp_def)
  moreover have "c = c'" if "1 < pp"
  proof -
    have "key_sorted (PyDict (?coord c)) = key_sorted (PyDict (?coord c'))"
      using get [of "''worker_coordinate''"] that \<open>pp = pp'\<close>
      by (simp add: ownership_payload_def del: key_sorted.simps split: if_splits)
    note inner = key_sorted_dict_eqD [OF this]
    show ?thesis
      using inner [of "''global_rank''"] inner [of "''pp_rank''"] inner [of "''tp_rank''"] inner [of "''dcp_rank''"]
      by (intro worker_coordinate.equality) simp_all
  qed
  moreover have "aliases = aliases'"
    using get [of "''shared_layer_aliases''"] enc_inj
    by (auto simp: ownership_payload_def comp_def enc_sorted split: if_splits)
  ultimately show ?thesis
    by (simp add: rank_ownership_sha256_def ownership_payload_def)
qed

theorem rank_ownership_binds_witness:
  "rank_ownership_sha256 (\<lambda>m. m) sample_encoder [''l''] [] (coordinate_at 1 1 0) 1 0
   = rank_ownership_sha256 (\<lambda>m. m) sample_encoder [''l''] [] (coordinate_at 1 1 3) 1 0"
proof -
  have "encodable sample_encoder (ownership_payload [''l''] [] (coordinate_at 1 1 0) 1 0)" by code_simp
  then obtain h where "rank_ownership_sha256 (\<lambda>m. m) sample_encoder [''l''] [] (coordinate_at 1 1 0) 1 0 = Inr h"
    by (simp add: rank_ownership_sha256_def sha256_json_plain plain_ownership_payload)
  from rank_ownership_binds [OF this this, of "coordinate_at 1 1 0" "coordinate_at 1 1 3"]
  show ?thesis by simp
qed

end
