(* ===== verification/Float_Division.thy ===== *)
theory Float_Division
  imports Prelude "HOL-Library.Log_Nat"
begin

text \<open>
  Python's true division of integers: the IEEE 754 double nearest to the exact quotient, ties to
  even, with \<open>OverflowError\<close> beyond the largest double.  The source uses it once, in
  \<open>math.ceil((window - 1) / logical_tokens_per_page)\<close>; the lemma \<open>ceil_true_div\<close> shows when the
  rounding cannot change the ceiling.
\<close>

definition round_even :: "rat \<Rightarrow> int" where
  "round_even q =
     (let f = \<lfloor>q\<rfloor>; d = q - of_int f
      in if d < 1 / 2 then f else if 1 / 2 < d then f + 1 else if even f then f else f + 1)"

text \<open>The binary exponent of a positive quotient: \<open>2 ^ k \<le> a / b < 2 ^ (k + 1)\<close>.\<close>

definition binary_exponent :: "int \<Rightarrow> int \<Rightarrow> int" where
  "binary_exponent a b =
     (let k = bitlen a - bitlen b in if 2 powi k \<le> (of_int a / of_int b :: rat) then k else k - 1)"

definition nearest_double :: "int \<Rightarrow> int \<Rightarrow> rat" where
  "nearest_double a b =
     (let e = max (binary_exponent a b - 52) (- 1074)
      in of_int (round_even (of_int a / of_int b / 2 powi e)) * 2 powi e)"

definition true_div :: "int \<Rightarrow> int \<Rightarrow> rat result" where
  "true_div a b =
     (if b = 0 then Inl ZeroDivisionError
      else if a = 0 then Inr 0
      else let r = nearest_double \<bar>a\<bar> \<bar>b\<bar>
           in if 2 powi 1024 \<le> r then Inl OverflowError
              else Inr (if (a < 0) = (b < 0) then r else - r))"

text \<open>The double nearest to a non-negative rational, infinite beyond the range.\<close>

definition round_double :: "rat \<Rightarrow> pyfloat" where
  "round_double q =
     (if q = 0 then Finite 0
      else case quotient_of q of (a, b) \<Rightarrow>
        let r = nearest_double a b in if 2 powi 1024 \<le> r then Infinite else Finite r)"

lemma round_even_error: "\<bar>of_int (round_even q) - q\<bar> \<le> 1 / 2"
proof -
  have "0 \<le> q - of_int \<lfloor>q\<rfloor>" "q - of_int \<lfloor>q\<rfloor> < 1" by linarith+
  then show ?thesis by (auto simp: round_even_def Let_def abs_le_iff)
qed

lemma bitlen_rat_bounds:
  assumes "0 < a"
  shows "2 powi (bitlen a - 1) \<le> (of_int a :: rat)" and "(of_int a :: rat) < 2 powi (bitlen a)"
proof -
  have pos: "0 < bitlen a" using assms by (simp add: bitlen_eq_zero_iff order.not_eq_order_implies_strict bitlen_nonneg)
  have b: "2 ^ nat (bitlen a - 1) \<le> a" "a < 2 ^ nat (bitlen a)" using bitlen_bounds [OF assms] by auto
  have "(2 :: rat) powi (bitlen a - 1) = of_int (2 ^ nat (bitlen a - 1))"
    "(2 :: rat) powi (bitlen a) = of_int (2 ^ nat (bitlen a))"
    using pos by (simp_all add: power_int_def)
  then show "2 powi (bitlen a - 1) \<le> (of_int a :: rat)" "(of_int a :: rat) < 2 powi (bitlen a)"
    using b by (simp_all only: of_int_le_iff of_int_less_iff)
qed

lemma binary_exponent_le:
  assumes "0 < a" "0 < b"
  shows "2 powi (binary_exponent a b) \<le> (of_int a / of_int b :: rat)"
proof (cases "2 powi (bitlen a - bitlen b) \<le> (of_int a / of_int b :: rat)")
  case False
  have "2 powi (bitlen a - 1 - bitlen b) = 2 powi (bitlen a - 1) / (2 powi (bitlen b) :: rat)"
    by (simp add: power_int_diff)
  also have "\<dots> \<le> of_int a / of_int b"
    using bitlen_rat_bounds [OF assms(1)] bitlen_rat_bounds(2) [OF assms(2)] assms
    by (intro frac_le) auto
  finally have "2 powi (bitlen a - bitlen b - 1) \<le> (of_int a / of_int b :: rat)"
    by (simp add: algebra_simps)
  then show ?thesis using False by (simp add: binary_exponent_def)
qed (simp add: binary_exponent_def)

lemma nearest_double_error:
  assumes "0 < a" "0 < b" "- 1022 \<le> binary_exponent a b"
  shows "\<bar>nearest_double a b - of_int a / of_int b\<bar> \<le> of_int a / of_int b / 2 ^ 53"
proof -
  let ?q = "of_int a / of_int b :: rat" and ?e = "binary_exponent a b - 52"
  let ?m = "of_int (round_even (?q / 2 powi ?e)) :: rat"
  have "max ?e (- 1074) = ?e" using assms(3) by simp
  then have val: "nearest_double a b = ?m * 2 powi ?e" by (simp only: nearest_double_def Let_def)
  have "nearest_double a b - ?q = (?m - ?q / 2 powi ?e) * 2 powi ?e"
    by (simp add: val algebra_simps)
  then have "\<bar>nearest_double a b - ?q\<bar> = \<bar>?m - ?q / 2 powi ?e\<bar> * 2 powi ?e"
    by (simp add: abs_mult)
  also have "\<dots> \<le> 1 / 2 * 2 powi ?e"
    by (intro mult_right_mono round_even_error) simp
  also have "\<dots> = 2 powi (binary_exponent a b) / 2 ^ 53"
    by (simp add: power_int_diff)
  also have "\<dots> \<le> ?q / 2 ^ 53"
    using binary_exponent_le [OF assms(1,2)] by (intro divide_right_mono) auto
  finally show ?thesis .
qed

lemma ceiling_div_eq: "0 < b \<Longrightarrow> \<lceil>of_int a / (of_int b :: rat)\<rceil> = (a + b - 1) div b"
proof -
  assume b: "0 < b"
  have "- (- a div b) = (a + b - 1) div b"
  proof (cases "a mod b = 0")
    case True
    then obtain c where a: "a = b * c" by auto
    have "(a + b - 1) div b = (c * b + (b - 1)) div b" by (simp add: a algebra_simps)
    also have "\<dots> = c" using b by (simp add: div_pos_pos_trivial)
    finally have "(a + b - 1) div b = c" .
    moreover have "- a div b = - c" using b by (simp add: a flip: mult_minus_right)
    ultimately show ?thesis by simp
  next
    case False
    have "(a + b - 1) div b = ((a div b + 1) * b + (a mod b - 1)) div b"
      using div_mult_mod_eq [of a b] by (intro arg_cong2 [of _ _ _ _ "(div)"]) (auto simp: algebra_simps)
    also have "\<dots> = a div b + 1"
      using False b pos_mod_sign [OF b, of a] pos_mod_bound [OF b, of a]
      by (simp add: div_pos_pos_trivial)
    finally show ?thesis using False b by (simp add: zdiv_zminus1_eq_if)
  qed
  then show ?thesis by (simp add: ceiling_divide_eq_div)
qed

lemma binary_exponent_bounds:
  assumes "0 < a" "a < 2 ^ 53" "0 < b" "b < 2 ^ 53"
  shows "- 1022 \<le> binary_exponent a b" and "binary_exponent a b \<le> 52"
proof -
  have "bitlen b \<le> 53" using assms bitlen_le_iff_power [of b 53] by simp
  moreover have "1 \<le> bitlen a" using assms(1) bitlen_nonneg [of a] bitlen_eq_zero_iff [of a] by linarith
  ultimately show "- 1022 \<le> binary_exponent a b" by (simp add: binary_exponent_def Let_def)
  have "2 powi (binary_exponent a b) \<le> (of_int a / of_int b :: rat)"
    using assms by (intro binary_exponent_le)
  also have "\<dots> \<le> of_int a" using assms by (simp add: field_simps)
  also have "\<dots> < of_int (2 ^ 53)" using assms by (simp only: of_int_less_iff)
  also have "\<dots> = 2 powi 53" by simp
  finally have "(2 :: rat) powi (binary_exponent a b) < 2 powi 53" .
  then show "binary_exponent a b \<le> 52"
    using power_int_increasing [of 53 "binary_exponent a b" "2 :: rat"] by force
qed

lemma round_even_int: "round_even (of_int n) = n"
  by (simp add: round_even_def)

lemma nearest_double_exact:
  assumes "0 < c" "0 < b" "c * b < 2 ^ 53" "b < 2 ^ 53"
  shows "nearest_double (c * b) b = of_int c"
proof -
  let ?e = "binary_exponent (c * b) b - 52"
  have bounds: "- 1022 \<le> binary_exponent (c * b) b" "?e \<le> 0"
    using binary_exponent_bounds [of "c * b" b] assms by auto
  have max: "max ?e (- 1074) = ?e" using bounds by simp
  have "of_int (c * b) / of_int b / 2 powi ?e = (of_int (c * 2 ^ nat (- ?e)) :: rat)"
    using bounds assms by (simp add: power_int_def field_simps)
  then have "nearest_double (c * b) b = of_int (c * 2 ^ nat (- ?e)) * 2 powi ?e"
    unfolding nearest_double_def Let_def max by (simp only: round_even_int)
  then show ?thesis using bounds by (simp add: power_int_def flip: power_mult_distrib)
qed

lemma nearest_double_ceiling:
  assumes "0 < a" "a < 2 ^ 53" "0 < b" "b < 2 ^ 53"
  shows "\<lceil>nearest_double a b\<rceil> = (a + b - 1) div b"
proof (cases "b dvd a")
  case True
  then obtain c where a: "a = c * b" by (metis dvd_def mult.commute)
  have "nearest_double a b = of_int c" using assms nearest_double_exact [of c b] by (simp add: a zero_less_mult_iff)
  moreover have "(a + b - 1) div b = c" using assms ceiling_div_eq [of b a] by (simp add: a)
  ultimately show ?thesis by simp
next
  case False
  let ?q = "of_int a / of_int b :: rat" and ?c = "\<lceil>of_int a / of_int b :: rat\<rceil>"
  have "of_int a < (2 ^ 53 :: rat)" using assms(2) by (metis of_int_less_iff of_int_numeral of_int_power)
  then have "?q / 2 ^ 53 < 1 / of_int b" using assms by (simp add: field_simps)
  then have err: "\<bar>nearest_double a b - ?q\<bar> < 1 / of_int b"
    using nearest_double_error [OF assms(1,3) binary_exponent_bounds(1) [OF assms]] by linarith
  have ne: "of_int ?c \<noteq> ?q"
  proof
    assume "of_int ?c = ?q"
    then have "of_int ?c * of_int b = ?q * of_int b" by (rule arg_cong)
    then have "of_int (?c * b) = (of_int a :: rat)" using assms(3) by simp
    then have "a = ?c * b" by (metis of_int_eq_iff)
    then show False using False by (metis dvd_triv_right)
  qed
  have gap: "1 / of_int b \<le> of_int n - ?q" if "?q < of_int n" for n
  proof -
    have "of_int a < (of_int (n * b) :: rat)" using that assms by (simp add: field_simps)
    then have "of_int (a + 1) \<le> (of_int (n * b) :: rat)" by (simp only: of_int_less_iff of_int_le_iff)
    then show ?thesis using assms by (simp add: field_simps)
  qed
  have gap': "1 / of_int b \<le> ?q - of_int n" if "of_int n < ?q" for n
  proof -
    have "(of_int (n * b) :: rat) < of_int a" using that assms by (simp add: field_simps)
    then have "(of_int (n * b + 1) :: rat) \<le> of_int a" by (simp only: of_int_less_iff of_int_le_iff)
    then show ?thesis using assms by (simp add: field_simps)
  qed
  have "?q < of_int ?c" using ne le_of_int_ceiling [of ?q] by linarith
  moreover have "of_int (?c - 1) < ?q" by linarith
  ultimately have "nearest_double a b \<le> of_int ?c" "of_int ?c - 1 < nearest_double a b"
    using err gap [of ?c] gap' [of "?c - 1"] by linarith+
  then have "\<lceil>nearest_double a b\<rceil> = ?c" by (intro ceiling_unique) auto
  then show ?thesis using assms by (simp add: ceiling_div_eq)
qed

text \<open>Below \<open>2 ^ 53\<close> the ceiling of the rounded quotient is the exact ceiling.\<close>

lemma ceil_true_div:
  assumes "0 < a" "a < 2 ^ 53" "0 < b" "b < 2 ^ 53"
  shows "\<exists>r. true_div a b = Inr r \<and> \<lceil>r\<rceil> = (a + b - 1) div b"
proof -
  have "of_int a / of_int b \<le> (of_int a :: rat)" using assms by (simp add: field_simps)
  then have "\<lceil>nearest_double a b\<rceil> \<le> a"
    using assms by (simp add: nearest_double_ceiling ceiling_le_iff flip: ceiling_div_eq)
  then have "nearest_double a b \<le> of_int a" by (simp add: ceiling_le_iff)
  also have "\<dots> < of_int (2 ^ 1024)" using assms(2) by (simp only: of_int_less_iff) simp
  also have "\<dots> = 2 powi 1024" by simp
  finally have "true_div a b = Inr (nearest_double a b)"
    using assms by (simp add: true_div_def Let_def)
  then show ?thesis using nearest_double_ceiling [OF assms] by simp
qed

end
