(* ===== verification/Hma.thy ===== *)
theory Hma
  imports Identity Float_Division
begin

text \<open>
  The page geometry of \<open>hma.py\<close> (up to \<open>HMALayout\<close>) and the page descriptors of \<open>manifest.py\<close>:
  validated layers, groups and layouts, the page counts and physical pages selected for a prefix
  span, the three layout digests, the page slices derived for one token file, and the cursor check
  that a chain of files covers every required page of every layer exactly once.  A block table is
  a list of dynamically typed values, since the source inspects the type of every page it selects.
\<close>

section \<open>Geometry\<close>

definition VLLM_RUNTIME_KV_PROFILE :: string where
  "VLLM_RUNTIME_KV_PROFILE = ''vllm-runtime-kv-v1''"

definition LAYOUT_SCHEMA :: string where
  "LAYOUT_SCHEMA = ''spoolcache-hma-layout/v4''"

record layer_geometry =
  lg_name :: string
  lg_spec_name :: string
  lg_page_size_bytes :: int

definition LayerGeometry :: "layer_geometry \<Rightarrow> layer_geometry result" where
  "LayerGeometry l =
     (if lg_name l = [] \<or> 512 < code_points (lg_name l) then Inl LayoutError
      else if lg_spec_name l = [] \<or> lg_page_size_bytes l \<le> 0 then Inl LayoutError
      else Inr l)"

record group_geometry =
  group_index :: int
  gg_spec_name :: string
  block_size :: int
  storage_block_size :: int
  manager_page_size_bytes :: int
  dcp_replicated :: bool
  dcp_shard_count :: int
  logical_tokens_per_page :: int
  reuse_policy :: string
  reuse_window_tokens :: "int option"
  running_state_tail_pages :: int
  is_eagle_group :: bool
  gg_layers :: "layer_geometry list"

definition reuse_policies :: "string list" where
  "reuse_policies = [''full'', ''sliding'', ''recurrent_align'', ''circular_one'']"

definition GroupGeometry :: "group_geometry \<Rightarrow> group_geometry result" where
  "GroupGeometry g =
     (if group_index g < 0
         \<or> list_ex (\<lambda>n. n \<le> 0) [block_size g, storage_block_size g, manager_page_size_bytes g,
                                dcp_shard_count g, logical_tokens_per_page g]
      then Inl LayoutError
      else if block_size g < storage_block_size g then Inl LayoutError
      else if logical_tokens_per_page g \<noteq> block_size g * dcp_shard_count g then Inl LayoutError
      else if reuse_policy g \<notin> set reuse_policies then Inl LayoutError
      else if (if reuse_policy g = ''sliding''
               then (case reuse_window_tokens g of None \<Rightarrow> True | Some w \<Rightarrow> w \<le> 1)
               else reuse_window_tokens g \<noteq> None)
      then Inl LayoutError
      else if running_state_tail_pages g < 0 then Inl LayoutError
      else if reuse_policy g \<noteq> ''recurrent_align'' \<and> running_state_tail_pages g \<noteq> 0
      then Inl LayoutError
      else let names = map lg_name (gg_layers g)
           in if names \<noteq> sort names \<or> \<not> distinct names then Inl LayoutError else Inr g)"

definition window_pages :: "int \<Rightarrow> int \<Rightarrow> int result" where
  "window_pages window width = and_then (true_div (window - 1) width) (\<lambda>q. Inr \<lceil>q\<rceil>)"

definition selected_page_count :: "group_geometry \<Rightarrow> int \<Rightarrow> int result" where
  "selected_page_count g span_tokens =
     (if span_tokens \<le> 0 then Inl LayoutError
      else if reuse_policy g = ''circular_one'' then Inr 1
      else if span_tokens mod logical_tokens_per_page g \<noteq> 0 then Inl LayoutError
      else
        let required = span_tokens div logical_tokens_per_page g in
        if reuse_policy g = ''full'' then Inr required
        else if reuse_policy g = ''sliding''
        then (case reuse_window_tokens g of
                None \<Rightarrow> Inl AssertionError
              | Some window \<Rightarrow>
                  and_then (window_pages window (logical_tokens_per_page g)) (\<lambda>pages. Inr (min required pages)))
        else if reuse_policy g = ''recurrent_align'' then Inr 1
        else Inl AssertionError)"

text \<open>The final checks of a selection: every page a positive \<open>int\<close>, no page twice.\<close>

definition checked_pages :: "pyval list \<Rightarrow> int list result" where
  "checked_pages pages =
     and_then (map_result (\<lambda>v. case as_int v of
                               None \<Rightarrow> Inl LayoutError
                             | Some p \<Rightarrow> if p \<le> 0 then Inl LayoutError else Inr p) pages)
       (\<lambda>ps. if distinct ps then Inr ps else Inl LayoutError)"

definition group_select_physical_pages :: "group_geometry \<Rightarrow> pyval list \<Rightarrow> int \<Rightarrow> int list result" where
  "group_select_physical_pages g block_table span_tokens =
     and_then (selected_page_count g span_tokens) (\<lambda>selected.
       let boundary_pages = span_tokens div logical_tokens_per_page g;
           active_index = int (length block_table) - 1 - running_state_tail_pages g
       in and_then
            (if reuse_policy g = ''circular_one''
             then (if length block_table \<noteq> 1 then Inl LayoutError else Inr [block_table ! 0])
             else if reuse_policy g = ''recurrent_align''
             then (if active_index < boundary_pages then Inl LayoutError
                   else Inr [block_table ! nat active_index])
             else if int (length block_table) < boundary_pages then Inl LayoutError
             else Inr (drop (nat (boundary_pages - selected)) (take (nat boundary_pages) block_table)))
            checked_pages)"

section \<open>Layouts\<close>

record hma_layout =
  num_manager_blocks :: int
  dcp_degree :: int
  groups :: "group_geometry list"
  layout_schema :: string

definition layout_layers :: "hma_layout \<Rightarrow> string list" where
  "layout_layers L = concat (map (\<lambda>g. map lg_name (gg_layers g)) (groups L))"

definition HMALayout :: "hma_layout \<Rightarrow> hma_layout result" where
  "HMALayout L =
     (if layout_schema L \<noteq> LAYOUT_SCHEMA then Inl LayoutError
      else if num_manager_blocks L \<le> 0 \<or> dcp_degree L \<le> 0 then Inl LayoutError
      else if map group_index (groups L) \<noteq> map int [0..<length (groups L)] then Inl LayoutError
      else if layout_layers L = [] then Inl LayoutError
      else if \<not> distinct (layout_layers L) then Inl LayoutError
      else Inr L)"

definition layout_profile :: "hma_layout \<Rightarrow> string" where
  "layout_profile L = VLLM_RUNTIME_KV_PROFILE"

definition window_value :: "int option \<Rightarrow> pyval" where
  "window_value w = (case w of None \<Rightarrow> PyNone | Some n \<Rightarrow> PyInt n)"

text \<open>\<open>dataclasses.asdict\<close> of a layer and of a group.\<close>

definition layer_dict :: "layer_geometry \<Rightarrow> pyval" where
  "layer_dict l = PyDict
     [(''name'', PyStr (lg_name l)), (''spec_name'', PyStr (lg_spec_name l)),
      (''page_size_bytes'', PyInt (lg_page_size_bytes l))]"

definition group_dict :: "group_geometry \<Rightarrow> pyval" where
  "group_dict g = PyDict
     [(''group_index'', PyInt (group_index g)), (''spec_name'', PyStr (gg_spec_name g)),
      (''block_size'', PyInt (block_size g)), (''storage_block_size'', PyInt (storage_block_size g)),
      (''manager_page_size_bytes'', PyInt (manager_page_size_bytes g)),
      (''dcp_replicated'', PyBool (dcp_replicated g)), (''dcp_shard_count'', PyInt (dcp_shard_count g)),
      (''logical_tokens_per_page'', PyInt (logical_tokens_per_page g)),
      (''reuse_policy'', PyStr (reuse_policy g)),
      (''reuse_window_tokens'', window_value (reuse_window_tokens g)),
      (''running_state_tail_pages'', PyInt (running_state_tail_pages g)),
      (''is_eagle_group'', PyBool (is_eagle_group g)),
      (''layers'', PyList (map layer_dict (gg_layers g)))]"

definition coordination_fields :: "group_geometry \<Rightarrow> (string \<times> pyval) list" where
  "coordination_fields g =
     [(''group_index'', PyInt (group_index g)), (''block_size'', PyInt (block_size g)),
      (''dcp_replicated'', PyBool (dcp_replicated g)), (''dcp_shard_count'', PyInt (dcp_shard_count g)),
      (''logical_tokens_per_page'', PyInt (logical_tokens_per_page g)),
      (''reuse_policy'', PyStr (reuse_policy g)),
      (''reuse_window_tokens'', window_value (reuse_window_tokens g)),
      (''running_state_tail_pages'', PyInt (running_state_tail_pages g))]"

definition logical_fields :: "group_geometry \<Rightarrow> (string \<times> pyval) list" where
  "logical_fields g =
     coordination_fields g
     @ [(''is_eagle_group'', PyBool (is_eagle_group g)),
        (''layers'', PyList (map (\<lambda>l. PyStr (lg_name l)) (gg_layers g)))]"

text \<open>The three identities hash the same envelope around different views of a group.\<close>

definition layout_payload :: "(group_geometry \<Rightarrow> pyval) \<Rightarrow> hma_layout \<Rightarrow> pyval" where
  "layout_payload view L = PyDict
     [(''schema'', PyStr (layout_schema L)), (''profile'', PyStr (layout_profile L)),
      (''dcp_degree'', PyInt (dcp_degree L)), (''groups'', PyList (map view (groups L)))]"

definition layout_digest :: "(string \<Rightarrow> string) \<Rightarrow> json_encoder \<Rightarrow> hma_layout \<Rightarrow> string result" where
  "layout_digest sha enc L = sha256_json sha enc (layout_payload group_dict L)"

definition logical_digest :: "(string \<Rightarrow> string) \<Rightarrow> json_encoder \<Rightarrow> hma_layout \<Rightarrow> string result" where
  "logical_digest sha enc L = sha256_json sha enc (layout_payload (\<lambda>g. PyDict (logical_fields g)) L)"

definition coordination_digest :: "(string \<Rightarrow> string) \<Rightarrow> json_encoder \<Rightarrow> hma_layout \<Rightarrow> string result" where
  "coordination_digest sha enc L =
     sha256_json sha enc (layout_payload (\<lambda>g. PyDict (coordination_fields g)) L)"

definition alignment_tokens :: "hma_layout \<Rightarrow> int" where
  "alignment_tokens L =
     fold lcm (map logical_tokens_per_page (filter (\<lambda>g. reuse_policy g \<noteq> ''circular_one'') (groups L))) 1"

definition selected_page_counts :: "hma_layout \<Rightarrow> int \<Rightarrow> int list result" where
  "selected_page_counts L span_tokens = map_result (\<lambda>g. selected_page_count g span_tokens) (groups L)"

definition select_physical_pages :: "hma_layout \<Rightarrow> pyval list list \<Rightarrow> int \<Rightarrow> int list list result" where
  "select_physical_pages L block_tables span_tokens =
     (if length block_tables \<noteq> length (groups L) then Inl LayoutError
      else map_result (\<lambda>(g, table). group_select_physical_pages g table span_tokens) (zip (groups L) block_tables))"

section \<open>Page slices\<close>

record page_slice =
  ps_group_index :: int
  ps_layer_name :: string
  ps_page_start :: int
  ps_page_count :: int
  ps_byte_length :: int

definition PageSlice :: "page_slice \<Rightarrow> page_slice result" where
  "PageSlice s =
     (if ps_group_index s < 0 \<or> ps_page_start s < 0 \<or> ps_page_count s \<le> 0 \<or> ps_byte_length s \<le> 0
      then Inl ManifestError
      else if \<not> (ps_layer_name s \<noteq> [] \<and> code_points (ps_layer_name s) \<le> 512)
      then Inl ManifestError
      else Inr s)"

definition ps_sort_key :: "page_slice \<Rightarrow> int \<times> string \<times> int" where
  "ps_sort_key s = (ps_group_index s, ps_layer_name s, ps_page_start s)"

definition page_slice_fields :: "string list" where
  "page_slice_fields = [''group_index'', ''layer_name'', ''page_start'', ''page_count'', ''byte_length'']"

text \<open>
  \<open>from_dict\<close> passes raw values to the constructor, whose first and last checks reject an integer
  field that is no \<open>int\<close> and a layer name that is no \<open>str\<close>.
\<close>

definition page_slice_from_dict :: "(string, pyval) dict \<Rightarrow> page_slice result" where
  "page_slice_from_dict raw =
     (if set (dict_keys raw) \<noteq> set page_slice_fields then Inl ManifestError
      else case map (\<lambda>f. case dict_get raw f of None \<Rightarrow> None | Some v \<Rightarrow> as_int v)
                  [''group_index'', ''page_start'', ''page_count'', ''byte_length''] of
        [Some gi, Some start, Some count, Some len] \<Rightarrow>
          (if gi < 0 \<or> start < 0 \<or> count \<le> 0 \<or> len \<le> 0 then Inl ManifestError
           else case (case dict_get raw ''layer_name'' of None \<Rightarrow> None | Some v \<Rightarrow> as_str v) of
             None \<Rightarrow> Inl ManifestError
           | Some name \<Rightarrow>
               PageSlice \<lparr>ps_group_index = gi, ps_layer_name = name, ps_page_start = start,
                          ps_page_count = count, ps_byte_length = len\<rparr>)
      | _ \<Rightarrow> Inl ManifestError)"

definition page_slice_dict :: "page_slice \<Rightarrow> (string, pyval) dict" where
  "page_slice_dict s =
     [(''group_index'', PyInt (ps_group_index s)), (''layer_name'', PyStr (ps_layer_name s)),
      (''page_start'', PyInt (ps_page_start s)), (''page_count'', PyInt (ps_page_count s)),
      (''byte_length'', PyInt (ps_byte_length s))]"

record token_segments =
  ts_layout :: hma_layout
  ts_span_tokens :: int
  ts_chunk_tokens :: int
  ts_kind :: string

definition ts_owns :: "token_segments \<Rightarrow> group_geometry \<Rightarrow> bool" where
  "ts_owns t g \<longleftrightarrow> (reuse_policy g = ''full'') = (ts_kind t = ''data'')"

definition ts_group :: "token_segments \<Rightarrow> group_geometry \<Rightarrow> page_slice generator" where
  "ts_group t g =
     (case (if ts_kind t = ''data''
            then Inr ((ts_span_tokens t - ts_chunk_tokens t) div logical_tokens_per_page g,
                      ts_chunk_tokens t div logical_tokens_per_page g)
            else and_then (selected_page_count g (ts_span_tokens t)) (\<lambda>count. Inr (0, count))) of
        Inl e \<Rightarrow> ([], Some e)
      | Inr (start, count) \<Rightarrow>
          gen_map (\<lambda>layer. PageSlice
            \<lparr>ps_group_index = group_index g, ps_layer_name = lg_name layer, ps_page_start = start,
             ps_page_count = count, ps_byte_length = count * lg_page_size_bytes layer\<rparr>) (gg_layers g))"

definition ts_iter :: "token_segments \<Rightarrow> page_slice generator" where
  "ts_iter t = gen_concat (ts_group t) (filter (ts_owns t) (groups (ts_layout t)))"

definition ts_len :: "token_segments \<Rightarrow> int" where
  "ts_len t = sum_list (map (\<lambda>g. int (length (gg_layers g))) (filter (ts_owns t) (groups (ts_layout t))))"

text \<open>An index is an integer or a slice; the value is one element or a tuple of elements.\<close>

datatype sequence_index = At int | Slice "int option" "int option" "int option"
datatype 'a indexed = Item 'a | Items "'a list"

definition ts_getitem :: "token_segments \<Rightarrow> sequence_index \<Rightarrow> page_slice indexed result" where
  "ts_getitem t index =
     (case index of
        Slice start stop step \<Rightarrow>
          (case ts_iter t of
             (ss, Some e) \<Rightarrow> Inl e
           | (ss, None) \<Rightarrow> and_then (py_slice start stop step ss) (\<lambda>xs. Inr (Items xs)))
      | At i \<Rightarrow>
          (let i = (if i < 0 then i + ts_len t else i)
           in if \<not> (0 \<le> i \<and> i < ts_len t) then Inl IndexError
              else and_then (gen_nth (ts_iter t) (nat i)) (\<lambda>s. Inr (Item s))))"

text \<open>\<open>Sequence[PageSlice]\<close>: a tuple of slices or the shared view.\<close>

datatype segment_sequence = Slices "page_slice list" | Derived token_segments

fun iter_segments :: "segment_sequence \<Rightarrow> page_slice generator" where
  "iter_segments (Slices ss) = (ss, None)"
| "iter_segments (Derived t) = ts_iter t"

record token_file_descriptor =
  td_key :: string
  td_parent :: "string option"
  td_span_tokens :: int
  td_segments :: segment_sequence
  td_byte_length :: int
  td_sha256 :: string
  td_payload_offset :: int
  td_metadata_digest :: string
  td_kind :: string
  td_block_sha256 :: "string list"

definition stored_length :: "token_file_descriptor \<Rightarrow> int" where
  "stored_length d = td_payload_offset d + td_byte_length d"

record token_snapshot =
  sn_entry_id :: string
  sn_span_tokens :: int
  sn_profile :: string
  sn_layout_digest :: string
  sn_objects :: "token_file_descriptor list"

section \<open>Manifest coverage\<close>

type_synonym layer_key = "int \<times> string"

definition expected_coverage :: "hma_layout \<Rightarrow> int list \<Rightarrow> (layer_key, int \<times> int) dict" where
  "expected_coverage L counts = dict_of (concat (map
     (\<lambda>(g, count). map (\<lambda>l. ((group_index g, lg_name l), (count, lg_page_size_bytes l))) (gg_layers g))
     (zip (groups L) counts)))"

definition advance_cursor ::
  "(layer_key, int \<times> int) dict \<Rightarrow> (layer_key, int) dict \<Rightarrow> page_slice \<Rightarrow> (layer_key, int) dict result" where
  "advance_cursor expected cursors s =
     (let key = (ps_group_index s, ps_layer_name s) in
      case dict_get expected key of
        None \<Rightarrow> Inl LayoutError
      | Some (count, page_bytes) \<Rightarrow>
          if ps_page_start s \<noteq> (case dict_get cursors key of None \<Rightarrow> 0 | Some c \<Rightarrow> c) then Inl LayoutError
          else if ps_byte_length s \<noteq> ps_page_count s * page_bytes then Inl LayoutError
          else Inr (dict_set key (ps_page_start s + ps_page_count s) cursors))"

definition advance_object ::
  "(layer_key, int \<times> int) dict \<Rightarrow> (layer_key, int) dict \<Rightarrow> token_file_descriptor \<Rightarrow>
   (layer_key, int) dict result" where
  "advance_object expected cursors d =
     gen_fold (advance_cursor expected) cursors (iter_segments (td_segments d))"

definition validate_manifest_coverage ::
  "(string \<Rightarrow> string) \<Rightarrow> json_encoder \<Rightarrow> hma_layout \<Rightarrow> token_snapshot \<Rightarrow> unit result" where
  "validate_manifest_coverage sha enc L m =
     and_then (layout_digest sha enc L) (\<lambda>digest.
       if sn_profile m \<noteq> layout_profile L \<or> sn_layout_digest m \<noteq> digest then Inl LayoutError
       else and_then (selected_page_counts L (sn_span_tokens m)) (\<lambda>counts.
         let expected = expected_coverage L counts in
         and_then (fold_result (advance_object expected) [] (sn_objects m)) (\<lambda>cursors.
           if set (dict_keys cursors) \<noteq> set (dict_keys expected) then Inl LayoutError
           else if \<exists>(key, count, _) \<in> set expected. dict_get cursors key \<noteq> Some count
           then Inl LayoutError
           else Inr ())))"

section \<open>Valid groups and layouts\<close>

text \<open>
  What the constructors establish.  The page width and the window of a group are far below
  \<open>2 ^ 53\<close>, where the floating-point division of \<open>selected_page_count\<close> is exact; \<open>in_double_range\<close>
  names that bound.
\<close>

definition in_double_range :: "group_geometry \<Rightarrow> bool" where
  "in_double_range g \<longleftrightarrow>
     logical_tokens_per_page g < 2 ^ 53 \<and> (case reuse_window_tokens g of None \<Rightarrow> True | Some w \<Rightarrow> w \<le> 2 ^ 53)"

definition valid_group :: "group_geometry \<Rightarrow> bool" where
  "valid_group g \<longleftrightarrow> GroupGeometry g = Inr g \<and> in_double_range g \<and> list_all (\<lambda>l. LayerGeometry l = Inr l) (gg_layers g)"

definition valid_layout :: "hma_layout \<Rightarrow> bool" where
  "valid_layout L \<longleftrightarrow> HMALayout L = Inr L \<and> list_all valid_group (groups L)"

lemma GroupGeometry_Inr:
  assumes "GroupGeometry g = Inr g'"
  shows "g' = g" "0 \<le> group_index g" "0 < block_size g" "0 < dcp_shard_count g" "0 < logical_tokens_per_page g"
    "logical_tokens_per_page g = block_size g * dcp_shard_count g"
    "reuse_policy g \<in> set reuse_policies"
    "reuse_policy g = ''sliding'' \<Longrightarrow> \<exists>w. reuse_window_tokens g = Some w \<and> 1 < w"
    "reuse_policy g \<noteq> ''sliding'' \<Longrightarrow> reuse_window_tokens g = None"
    "0 \<le> running_state_tail_pages g"
    "sorted (map lg_name (gg_layers g))" "distinct (map lg_name (gg_layers g))"
proof -
  show "g' = g" using assms by (simp add: GroupGeometry_def Let_def split: if_splits)
  show "0 \<le> group_index g" "0 < block_size g" "0 < dcp_shard_count g" "0 < logical_tokens_per_page g"
    "logical_tokens_per_page g = block_size g * dcp_shard_count g"
    "reuse_policy g \<in> set reuse_policies" "0 \<le> running_state_tail_pages g"
    "distinct (map lg_name (gg_layers g))"
    using assms by (simp_all add: GroupGeometry_def Let_def split: if_splits)
  have "map lg_name (gg_layers g) = sort (map lg_name (gg_layers g))"
    using assms by (simp add: GroupGeometry_def Let_def split: if_splits)
  then show "sorted (map lg_name (gg_layers g))" by (metis sorted_sort)
  show "reuse_policy g = ''sliding'' \<Longrightarrow> \<exists>w. reuse_window_tokens g = Some w \<and> 1 < w"
    using assms by (cases "reuse_window_tokens g") (simp_all add: GroupGeometry_def split: if_splits)
  show "reuse_policy g \<noteq> ''sliding'' \<Longrightarrow> reuse_window_tokens g = None"
    using assms by (simp add: GroupGeometry_def split: if_splits)
qed

lemma valid_groupD:
  assumes "valid_group g"
  shows "0 < logical_tokens_per_page g" "logical_tokens_per_page g < 2 ^ 53" "0 \<le> running_state_tail_pages g"
    "0 \<le> group_index g" "reuse_policy g \<in> set reuse_policies" "distinct (map lg_name (gg_layers g))"
    "l \<in> set (gg_layers g) \<Longrightarrow> LayerGeometry l = Inr l"
  using assms GroupGeometry_Inr [of g g] by (auto simp: valid_group_def in_double_range_def list_all_iff)

text \<open>The window of a sliding group in pages, by exact arithmetic.\<close>

definition exact_window_pages :: "group_geometry \<Rightarrow> int" where
  "exact_window_pages g =
     (case reuse_window_tokens g of None \<Rightarrow> 0
      | Some w \<Rightarrow> (w - 1 + logical_tokens_per_page g - 1) div logical_tokens_per_page g)"

lemma sliding_window:
  assumes "valid_group g" "reuse_policy g = ''sliding''"
  obtains w where "reuse_window_tokens g = Some w" "1 < w"
    "window_pages w (logical_tokens_per_page g) = Inr (exact_window_pages g)" "1 \<le> exact_window_pages g"
    "w - 1 \<le> exact_window_pages g * logical_tokens_per_page g"
    "(exact_window_pages g - 1) * logical_tokens_per_page g < w - 1"
proof -
  let ?n = "logical_tokens_per_page g"
  obtain w where w: "reuse_window_tokens g = Some w" "1 < w"
    using GroupGeometry_Inr(8) [of g g] assms by (auto simp: valid_group_def)
  have n: "0 < ?n" "?n < 2 ^ 53" "w - 1 < 2 ^ 53"
    using valid_groupD [OF assms(1)] assms(1) w by (auto simp: valid_group_def in_double_range_def)
  obtain q where "true_div (w - 1) ?n = Inr q" "\<lceil>q\<rceil> = (w - 1 + ?n - 1) div ?n"
    using ceil_true_div [of "w - 1" ?n] w n by auto
  then have pages: "window_pages w ?n = Inr (exact_window_pages g)"
    by (simp add: window_pages_def exact_window_pages_def w)
  define k where "k = exact_window_pages g"
  have k: "k = (w - 1 + ?n - 1) div ?n" by (simp add: k_def exact_window_pages_def w)
  define r where "r = (w - 1 + ?n - 1) mod ?n"
  have split: "w - 1 + ?n - 1 = k * ?n + r" by (simp add: k r_def)
  have r: "0 \<le> r" "r < ?n" using n by (simp_all add: r_def)
  have upper: "w - 1 \<le> k * ?n" using split r by linarith
  have lower: "(k - 1) * ?n < w - 1" using split r by (simp add: left_diff_distrib)
  have "0 < k * ?n" using upper w by linarith
  then have "1 \<le> k" using n by (simp add: zero_less_mult_iff)
  then show ?thesis using that w pages upper lower by (simp add: k_def)
qed

text \<open>The number of pages a valid group selects, on every policy.\<close>

definition page_count_spec :: "group_geometry \<Rightarrow> int \<Rightarrow> int" where
  "page_count_spec g span_tokens =
     (if reuse_policy g \<in> {''circular_one'', ''recurrent_align''} then 1
      else if reuse_policy g = ''full'' then span_tokens div logical_tokens_per_page g
      else min (span_tokens div logical_tokens_per_page g) (exact_window_pages g))"

lemma selected_page_count_spec:
  assumes "valid_group g"
  shows "selected_page_count g span_tokens =
    (if 0 < span_tokens \<and> (reuse_policy g = ''circular_one'' \<or> logical_tokens_per_page g dvd span_tokens)
     then Inr (page_count_spec g span_tokens) else Inl LayoutError)"
proof (cases "reuse_policy g = ''sliding''")
  case True
  then obtain w where "reuse_window_tokens g = Some w"
    "window_pages w (logical_tokens_per_page g) = Inr (exact_window_pages g)"
    using sliding_window [OF assms] by blast
  then show ?thesis
    using True by (auto simp: selected_page_count_def page_count_spec_def Let_def dvd_eq_mod_eq_0)
next
  case False
  then consider "reuse_policy g = ''full''" | "reuse_policy g = ''recurrent_align''" | "reuse_policy g = ''circular_one''"
    using valid_groupD(5) [OF assms] by (auto simp: reuse_policies_def)
  then show ?thesis
    by cases (auto simp: selected_page_count_def page_count_spec_def Let_def dvd_eq_mod_eq_0)
qed

lemma page_count_pos:
  assumes "valid_group g" "0 < span_tokens" "reuse_policy g = ''circular_one'' \<or> logical_tokens_per_page g dvd span_tokens"
  shows "1 \<le> page_count_spec g span_tokens"
    "reuse_policy g \<noteq> ''circular_one'' \<Longrightarrow> page_count_spec g span_tokens \<le> span_tokens div logical_tokens_per_page g"
proof -
  have pages: "1 \<le> span_tokens div logical_tokens_per_page g" if "reuse_policy g \<noteq> ''circular_one''"
    using that assms valid_groupD(1) [OF assms(1)] by (auto elim!: dvdE simp: zero_less_mult_iff)
  have window: "1 \<le> exact_window_pages g" if "reuse_policy g = ''sliding''"
    using sliding_window [OF assms(1) that] by blast
  show "1 \<le> page_count_spec g span_tokens"
    using valid_groupD(5) [OF assms(1)] pages window by (auto simp: page_count_spec_def reuse_policies_def)
  show "page_count_spec g span_tokens \<le> span_tokens div logical_tokens_per_page g"
    if "reuse_policy g \<noteq> ''circular_one''"
    using pages that by (auto simp: page_count_spec_def)
qed

lemma checked_pages_Inr:
  assumes "checked_pages vs = Inr ps"
  shows "vs = map PyInt ps" "distinct ps" "\<forall>p \<in> set ps. 0 < p"
proof -
  let ?f = "\<lambda>v. case as_int v of None \<Rightarrow> Inl LayoutError | Some p \<Rightarrow> if p \<le> 0 then Inl LayoutError else Inr p"
  have "map_result ?f vs = Inr ps" and dist: "distinct ps"
    using assms by (auto simp: checked_pages_def and_then_Inr_iff split: if_splits)
  then have all: "list_all2 (\<lambda>v p. ?f v = Inr p) vs ps" by (simp add: map_result_Inr_iff)
  have elem: "v = PyInt p \<and> 0 < p" if "?f v = Inr p" for v p
    using that by (cases v) (auto split: if_splits)
  have "list_all2 (\<lambda>v p. v = PyInt p \<and> 0 < p) vs ps" using all elem by (rule list_all2_mono)
  then show "vs = map PyInt ps" "\<forall>p \<in> set ps. 0 < p"
    by (induction rule: list_all2_induct) auto
  show "distinct ps" by (rule dist)
qed

lemma checked_pages_ok:
  assumes "distinct ps" "\<forall>p \<in> set ps. 0 < p"
  shows "checked_pages (map PyInt ps) = Inr ps"
proof -
  let ?f = "\<lambda>v. case as_int v of None \<Rightarrow> Inl LayoutError | Some p \<Rightarrow> if p \<le> 0 then Inl LayoutError else Inr p"
  have "list_all2 (\<lambda>v p. ?f v = Inr p) (map PyInt ps) ps"
    using assms(2) by (induction ps) auto
  then have "map_result ?f (map PyInt ps) = Inr ps" by (simp add: map_result_Inr_iff)
  then show ?thesis using assms(1) by (simp add: checked_pages_def)
qed

lemma lcm_fold_dvd_iff: "fold lcm ns (k :: int) dvd m \<longleftrightarrow> k dvd m \<and> (\<forall>n \<in> set ns. n dvd m)"
  by (induction ns arbitrary: k) auto

lemma alignment_dvd_iff:
  "alignment_tokens L dvd m \<longleftrightarrow>
     (\<forall>g \<in> set (groups L). reuse_policy g \<noteq> ''circular_one'' \<longrightarrow> logical_tokens_per_page g dvd m)"
  by (auto simp: alignment_tokens_def lcm_fold_dvd_iff)

lemma fold_lcm_pos: "0 < (k :: int) \<Longrightarrow> \<forall>n \<in> set ns. 0 < n \<Longrightarrow> 0 < fold lcm ns k"
  by (induction ns arbitrary: k) (auto simp: lcm_pos_int)

lemma alignment_pos: "valid_layout L \<Longrightarrow> 0 < alignment_tokens L"
  unfolding alignment_tokens_def
  by (rule fold_lcm_pos) (auto simp: valid_layout_def list_all_iff dest: valid_groupD(1))

lemma selected_page_counts_spec:
  assumes "list_all valid_group (groups L)" "groups L \<noteq> []"
  shows "selected_page_counts L span_tokens =
    (if 0 < span_tokens \<and> alignment_tokens L dvd span_tokens
     then Inr (map (\<lambda>g. page_count_spec g span_tokens) (groups L)) else Inl LayoutError)"
proof (cases "0 < span_tokens \<and> alignment_tokens L dvd span_tokens")
  case True
  then have "selected_page_count g span_tokens = Inr (page_count_spec g span_tokens)" if "g \<in> set (groups L)" for g
    using that assms(1) by (auto simp: selected_page_count_spec list_all_iff alignment_dvd_iff)
  then show ?thesis using True by (simp add: selected_page_counts_def map_result_total)
next
  case False
  define P where "P g \<longleftrightarrow> 0 < span_tokens \<and> (reuse_policy g = ''circular_one'' \<or> logical_tokens_per_page g dvd span_tokens)" for g :: group_geometry
  have "\<exists>g \<in> set (groups L). \<not> P g"
    using False assms(2) by (cases "groups L") (auto simp: P_def alignment_dvd_iff)
  moreover have "map_result (\<lambda>g. selected_page_count g span_tokens) gs = Inl LayoutError"
    if "list_all valid_group gs" "\<exists>g \<in> set gs. \<not> P g" for gs
    using that by (induction gs) (auto simp: selected_page_count_spec P_def and_then_Inl_iff)
  ultimately show ?thesis
    unfolding if_not_P [OF False] selected_page_counts_def using assms(1) by blast
qed

section \<open>Page selection\<close>

text \<open>
  What a selection must return: the pages of the table that hold the state a restore at the
  boundary needs, by policy.
\<close>

definition selection_spec :: "group_geometry \<Rightarrow> pyval list \<Rightarrow> int \<Rightarrow> int list \<Rightarrow> bool" where
  "selection_spec g block_table span_tokens pages \<longleftrightarrow>
     (let width = logical_tokens_per_page g; n = span_tokens div width in
      if reuse_policy g = ''circular_one'' then block_table = map PyInt pages
      else if reuse_policy g = ''recurrent_align''
      then (\<exists>before after. block_table = before @ map PyInt pages @ after \<and> n \<le> int (length before)
              \<and> int (length after) = running_state_tail_pages g)
      else (\<exists>before after. block_table = before @ map PyInt pages @ after
              \<and> int (length before) + int (length pages) = n
              \<and> (reuse_policy g = ''full'' \<longrightarrow> before = [])
              \<and> (\<forall>w. reuse_window_tokens g = Some w \<longrightarrow>
                   min span_tokens (w - 1) \<le> int (length pages) * width
                   \<and> (int (length pages) - 1) * width < w - 1)))"

lemma nth_split: "n < length xs \<Longrightarrow> xs = take n xs @ [xs ! n] @ drop (Suc n) xs"
  by (simp add: id_take_nth_drop)

lemma select_window_lemma:
  assumes v: "valid_group g" and pos: "0 < span_tokens" and al: "logical_tokens_per_page g dvd span_tokens"
    and window: "reuse_policy g \<in> {''full'', ''sliding''}"
    and pages: "drop (nat (span_tokens div logical_tokens_per_page g - page_count_spec g span_tokens))
                  (take (nat (span_tokens div logical_tokens_per_page g)) block_table) = map PyInt ps"
    and len: "span_tokens div logical_tokens_per_page g \<le> int (length block_table)"
  shows "selection_spec g block_table span_tokens ps" and "int (length ps) = page_count_spec g span_tokens"
proof -
  let ?n = "span_tokens div logical_tokens_per_page g" and ?c = "page_count_spec g span_tokens"
  have c: "1 \<le> ?c" "?c \<le> ?n" using page_count_pos [OF v pos] al window by auto
  have "int (length (map PyInt ps)) = ?c" using c len by (simp flip: pages)
  then show plen: "int (length ps) = ?c" by simp
  let ?before = "take (nat (?n - ?c)) block_table"
  have "take (nat ?n) block_table = ?before @ map PyInt ps"
    using append_take_drop_id [of "nat (?n - ?c)" "take (nat ?n) block_table"] pages c
    by (simp add: min_def nat_diff_distrib del: append_take_drop_id)
  then have table: "block_table = ?before @ map PyInt ps @ drop (nat ?n) block_table"
    by (metis append.assoc append_take_drop_id)
  have before: "int (length ?before) + int (length ps) = ?n" using plen c len by simp
  have full: "?before = []" if "reuse_policy g = ''full''" using that by (simp add: page_count_spec_def)
  have win: "min span_tokens (w - 1) \<le> int (length ps) * logical_tokens_per_page g
      \<and> (int (length ps) - 1) * logical_tokens_per_page g < w - 1"
    if w: "reuse_window_tokens g = Some w" for w
  proof -
    have sliding: "reuse_policy g = ''sliding''"
      using w v GroupGeometry_Inr(9) [of g g] by (auto simp: valid_group_def)
    let ?k = "exact_window_pages g"
    have k: "w - 1 \<le> ?k * logical_tokens_per_page g" "(?k - 1) * logical_tokens_per_page g < w - 1"
      using sliding_window [OF v sliding] w by auto
    have count: "int (length ps) = min ?n ?k" using plen sliding by (simp add: page_count_spec_def)
    have span: "?n * logical_tokens_per_page g = span_tokens" using al by simp
    have "(min ?n ?k - 1) * logical_tokens_per_page g \<le> (?k - 1) * logical_tokens_per_page g"
      using valid_groupD(1) [OF v] by (intro mult_right_mono) auto
    then show ?thesis using k span by (auto simp: count min_def)
  qed
  show "selection_spec g block_table span_tokens ps"
    unfolding selection_spec_def Let_def using window table before full win by fastforce
qed

lemma group_selection:
  assumes v: "valid_group g" and sel: "group_select_physical_pages g block_table span_tokens = Inr ps"
  shows "selection_spec g block_table span_tokens ps \<and> int (length ps) = page_count_spec g span_tokens
    \<and> distinct ps \<and> (\<forall>p \<in> set ps. 0 < p)"
proof -
  let ?n = "span_tokens div logical_tokens_per_page g"
  let ?i = "int (length block_table) - 1 - running_state_tail_pages g"
  obtain sel' vs where cnt: "selected_page_count g span_tokens = Inr sel'"
    and vs: "(if reuse_policy g = ''circular_one''
             then (if length block_table \<noteq> 1 then Inl LayoutError else Inr [block_table ! 0])
             else if reuse_policy g = ''recurrent_align''
             then (if ?i < ?n then Inl LayoutError else Inr [block_table ! nat ?i])
             else if int (length block_table) < ?n then Inl LayoutError
             else Inr (drop (nat (?n - sel')) (take (nat ?n) block_table))) = Inr vs"
    and chk: "checked_pages vs = Inr ps"
    using sel by (auto simp: group_select_physical_pages_def Let_def and_then_Inr_iff)
  have pos: "0 < span_tokens" and al: "reuse_policy g = ''circular_one'' \<or> logical_tokens_per_page g dvd span_tokens"
    and sel': "sel' = page_count_spec g span_tokens"
    using cnt by (auto simp: selected_page_count_spec [OF v] split: if_splits)
  note ps = checked_pages_Inr [OF chk]
  consider (circular) "reuse_policy g = ''circular_one''" | (recurrent) "reuse_policy g = ''recurrent_align''"
    | (window) "reuse_policy g \<in> {''full'', ''sliding''}"
    using valid_groupD(5) [OF v] by (auto simp: reuse_policies_def)
  then have "selection_spec g block_table span_tokens ps \<and> int (length ps) = page_count_spec g span_tokens"
  proof cases
    case circular
    then have "block_table = vs" using vs by (cases block_table) (auto split: if_splits)
    moreover have "length vs = 1" using vs circular by (auto split: if_splits)
    ultimately show ?thesis using circular ps(1) by (simp add: selection_spec_def page_count_spec_def)
  next
    case recurrent
    then have i: "?n \<le> ?i" and one: "vs = [block_table ! nat ?i]" using vs by (auto split: if_splits)
    have n: "0 \<le> ?n" using pos valid_groupD(1) [OF v] by (simp add: pos_imp_zdiv_nonneg_iff)
    have lt: "nat ?i < length block_table" using i n valid_groupD(3) [OF v] by linarith
    have split: "block_table = take (nat ?i) block_table @ map PyInt ps @ drop (Suc (nat ?i)) block_table"
      using nth_split [OF lt] one ps(1) by simp
    have "?n \<le> int (length (take (nat ?i) block_table))"
      "int (length (drop (Suc (nat ?i)) block_table)) = running_state_tail_pages g"
      using i n lt valid_groupD(3) [OF v] by auto
    with split have "\<exists>before after. block_table = before @ map PyInt ps @ after \<and> ?n \<le> int (length before)
        \<and> int (length after) = running_state_tail_pages g" by blast
    then have "selection_spec g block_table span_tokens ps"
      unfolding selection_spec_def Let_def using recurrent by simp
    moreover have "length ps = 1" using one ps(1) by (cases ps) auto
    ultimately show ?thesis using recurrent by (simp add: page_count_spec_def)
  next
    case window
    then have "vs = drop (nat (?n - sel')) (take (nat ?n) block_table)" "?n \<le> int (length block_table)"
      using vs by (auto split: if_splits)
    then show ?thesis
      using select_window_lemma [OF v pos _ window, of block_table ps] al window ps(1) sel' by auto
  qed
  then show ?thesis using ps by simp
qed

section \<open>Coverage\<close>

definition object_slices :: "token_file_descriptor \<Rightarrow> page_slice list" where
  "object_slices d = fst (iter_segments (td_segments d))"

definition snapshot_slices :: "token_snapshot \<Rightarrow> page_slice list" where
  "snapshot_slices m = concat (map object_slices (sn_objects m))"

definition slice_key :: "page_slice \<Rightarrow> layer_key" where
  "slice_key s = (ps_group_index s, ps_layer_name s)"

text \<open>The pages of one layer that a list of slices holds, in order.\<close>

definition pages_of :: "layer_key \<Rightarrow> page_slice list \<Rightarrow> int list" where
  "pages_of k ss = concat (map (\<lambda>s. [ps_page_start s .. ps_page_start s + ps_page_count s - 1])
                                (filter (\<lambda>s. slice_key s = k) ss))"

lemma pages_of_append [simp]: "pages_of k (xs @ ys) = pages_of k xs @ pages_of k ys"
  by (simp add: pages_of_def)

lemma fold_objects:
  "fold_result (advance_object E) cs ds = Inr cs' \<longleftrightarrow>
     (\<forall>d \<in> set ds. snd (iter_segments (td_segments d)) = None)
     \<and> fold_result (advance_cursor E) cs (concat (map object_slices ds)) = Inr cs'"
proof (induction ds arbitrary: cs)
  case (Cons d ds)
  then show ?case
    by (auto simp: advance_object_def gen_fold_Inr and_then_Inr_iff fold_result_append object_slices_def)
qed simp

text \<open>
  The cursor invariant: after any prefix of the slices, a key has a cursor exactly when some slice
  named it, and its pages so far are the initial segment up to the cursor.
\<close>

definition cursor_inv ::
  "(layer_key, int \<times> int) dict \<Rightarrow> (layer_key, int) dict \<Rightarrow> page_slice list \<Rightarrow> bool" where
  "cursor_inv E cs ss \<longleftrightarrow>
     (\<forall>k. dict_get cs k = (if k \<in> slice_key ` set ss then Some (int (length (pages_of k ss))) else None)
        \<and> pages_of k ss = [0 .. int (length (pages_of k ss)) - 1])
     \<and> (\<forall>s \<in> set ss. \<exists>c b. dict_get E (slice_key s) = Some (c, b) \<and> ps_byte_length s = ps_page_count s * b)"

lemma cursor_invD:
  assumes "cursor_inv E cs ss"
  shows "dict_get cs k = (if k \<in> slice_key ` set ss then Some (int (length (pages_of k ss))) else None)"
    and "pages_of k ss = [0 .. int (length (pages_of k ss)) - 1]"
    and "s \<in> set ss \<Longrightarrow> \<exists>c b. dict_get E (slice_key s) = Some (c, b) \<and> ps_byte_length s = ps_page_count s * b"
  using assms unfolding cursor_inv_def by blast+

lemma upto_append: "i \<le> j \<Longrightarrow> j \<le> k + 1 \<Longrightarrow> [i .. j - 1] @ [j .. k] = [i .. k :: int]"
proof (induction "nat (j - i)" arbitrary: i)
  case (Suc n)
  then have "[i .. j - 1] = i # [i + 1 .. j - 1]" "[i .. k] = i # [i + 1 .. k]"
    by (auto intro: upto_rec1)
  then show ?case using Suc.hyps(1) [of "i + 1"] Suc.hyps(2) Suc.prems by simp
qed simp

lemma advance_cursor_inv:
  assumes inv: "cursor_inv E cs ss" and pos: "0 < ps_page_count s"
    and adv: "advance_cursor E cs s = Inr cs'"
  shows "cursor_inv E cs' (ss @ [s])"
proof -
  let ?k = "slice_key s" and ?n = "int (length (pages_of (slice_key s) ss))"
  obtain c b where E: "dict_get E ?k = Some (c, b)" and start: "ps_page_start s = (case dict_get cs ?k of None \<Rightarrow> 0 | Some c \<Rightarrow> c)"
    and bytes: "ps_byte_length s = ps_page_count s * b"
    and cs': "cs' = dict_set ?k (ps_page_start s + ps_page_count s) cs"
    using adv by (auto simp: advance_cursor_def slice_key_def Let_def split: option.splits prod.splits if_splits)
  note pages = cursor_invD(2) [OF inv]
  have none: "pages_of k ss = []" if "k \<notin> slice_key ` set ss" for k
    using that by (auto simp: pages_of_def filter_empty_conv)
  have "ps_page_start s = ?n"
    using start none [of ?k] by (simp add: cursor_invD(1) [OF inv, of ?k] split: if_splits)
  then have one: "pages_of ?k [s] = [?n .. ?n + ps_page_count s - 1]" by (simp add: pages_of_def)
  have other: "pages_of k [s] = []" if "k \<noteq> ?k" for k using that by (simp add: pages_of_def)
  have len: "int (length (pages_of ?k (ss @ [s]))) = ?n + ps_page_count s" using one pos by simp
  have "pages_of ?k (ss @ [s]) = [0 .. ?n - 1] @ [?n .. ?n + ps_page_count s - 1]"
    using one pages [of ?k] by simp
  also have "\<dots> = [0 .. ?n + ps_page_count s - 1]" using pos by (intro upto_append) auto
  finally have own: "pages_of ?k (ss @ [s]) = [0 .. int (length (pages_of ?k (ss @ [s]))) - 1]"
    unfolding len .
  have "dict_get cs' k = (if k \<in> slice_key ` set (ss @ [s]) then Some (int (length (pages_of k (ss @ [s])))) else None)
        \<and> pages_of k (ss @ [s]) = [0 .. int (length (pages_of k (ss @ [s]))) - 1]" for k
  proof (cases "k = ?k")
    case True
    then show ?thesis using own len \<open>ps_page_start s = ?n\<close> by (simp add: cs')
  next
    case False
    then show ?thesis using pages [of k] other [of k] by (simp add: cs' cursor_invD(1) [OF inv, of k])
  qed
  moreover have "\<forall>t \<in> set (ss @ [s]). \<exists>c b. dict_get E (slice_key t) = Some (c, b) \<and> ps_byte_length t = ps_page_count t * b"
    using cursor_invD(3) [OF inv] E bytes by auto
  ultimately show ?thesis unfolding cursor_inv_def by blast
qed

lemma fold_cursor_inv:
  assumes "fold_result (advance_cursor E) [] ss = Inr cs" "\<forall>s \<in> set ss. 0 < ps_page_count s"
  shows "cursor_inv E cs ss"
  using assms
proof (induction ss arbitrary: cs rule: rev_induct)
  case Nil
  then show ?case by (simp add: cursor_inv_def pages_of_def)
next
  case (snoc s ss)
  then obtain cs0 where "fold_result (advance_cursor E) [] ss = Inr cs0" "advance_cursor E cs0 s = Inr cs"
    by (auto simp: fold_result_append and_then_Inr_iff)
  then show ?case using snoc.IH snoc.prems(2) by (intro advance_cursor_inv) auto
qed

lemma dict_get_expected:
  assumes dist: "distinct (layout_layers L)" and len: "length counts = length (groups L)"
    and gi: "map group_index (groups L) = map int [0..<length (groups L)]"
    and i: "i < length (groups L)" and l: "l \<in> set (gg_layers (groups L ! i))"
  shows "dict_get (expected_coverage L counts) (int i, lg_name l) = Some (counts ! i, lg_page_size_bytes l)"
    and "distinct (dict_keys (concat (map
     (\<lambda>(g, count). map (\<lambda>l. ((group_index g, lg_name l), (count, lg_page_size_bytes l))) (gg_layers g))
     (zip (groups L) counts))))"
proof -
  let ?row = "\<lambda>(g :: group_geometry, count). map (\<lambda>l. ((group_index g, lg_name l), (count, lg_page_size_bytes l))) (gg_layers g)"
  let ?items = "concat (map ?row (zip (groups L) counts))"
  have "map snd (dict_keys ?items) = concat (map (\<lambda>g. map lg_name (gg_layers g)) (map fst (zip (groups L) counts)))"
    by (simp add: map_concat comp_def case_prod_unfold)
  also have "\<dots> = layout_layers L" by (simp add: len layout_layers_def)
  finally have "distinct (map snd (dict_keys ?items))" using dist by (simp only:)
  then show keys: "distinct (dict_keys ?items)" by (rule distinct_map [THEN iffD1, THEN conjunct1])
  have "group_index (groups L ! i) = int i" using arg_cong [OF gi, of "\<lambda>xs. xs ! i"] i by simp
  moreover have "(groups L ! i, counts ! i) \<in> set (zip (groups L) counts)" using i len by (auto simp: set_zip)
  ultimately have "((int i, lg_name l), (counts ! i, lg_page_size_bytes l)) \<in> set ?items"
    using l by (auto intro!: bexI [of _ "(groups L ! i, counts ! i)"])
  then show "dict_get (expected_coverage L counts) (int i, lg_name l) = Some (counts ! i, lg_page_size_bytes l)"
    using keys by (simp add: expected_coverage_def dict_of_distinct)
qed

lemma expected_keys:
  assumes "length counts = length (groups L)" "map group_index (groups L) = map int [0..<length (groups L)]"
  shows "k \<in> set (dict_keys (expected_coverage L counts)) \<longleftrightarrow>
    (\<exists>i l. i < length (groups L) \<and> l \<in> set (gg_layers (groups L ! i)) \<and> k = (int i, lg_name l))"
proof -
  have gi: "group_index (groups L ! i) = int i" if "i < length (groups L)" for i
    using arg_cong [OF assms(2), of "\<lambda>xs. xs ! i"] that by simp
  have "set (dict_keys (expected_coverage L counts)) =
     (\<Union>p \<in> set (zip (groups L) counts). (\<lambda>l. (group_index (fst p), lg_name l)) ` set (gg_layers (fst p)))"
    by (simp add: expected_coverage_def image_UN case_prod_unfold image_image)
  also have "\<dots> = (\<Union>g \<in> set (map fst (zip (groups L) counts)). (\<lambda>l. (group_index g, lg_name l)) ` set (gg_layers g))"
    by simp
  also have "\<dots> = (\<Union>g \<in> set (groups L). (\<lambda>l. (group_index g, lg_name l)) ` set (gg_layers g))"
    using assms(1) by (simp only: map_fst_zip)
  finally have "k \<in> set (dict_keys (expected_coverage L counts)) \<longleftrightarrow>
     (\<exists>g \<in> set (groups L). \<exists>l \<in> set (gg_layers g). k = (group_index g, lg_name l))"
    by blast
  also have "\<dots> \<longleftrightarrow> (\<exists>i l. i < length (groups L) \<and> l \<in> set (gg_layers (groups L ! i)) \<and> k = (int i, lg_name l))"
    using gi by (metis in_set_conv_nth)
  finally show ?thesis .
qed

text \<open>The slice a file holds for one layer.\<close>

definition layer_slice :: "group_geometry \<Rightarrow> layer_geometry \<Rightarrow> int \<Rightarrow> int \<Rightarrow> page_slice" where
  "layer_slice g l start count =
     \<lparr>ps_group_index = group_index g, ps_layer_name = lg_name l, ps_page_start = start,
      ps_page_count = count, ps_byte_length = count * lg_page_size_bytes l\<rparr>"

lemma layer_slice_simps [simp]:
  "slice_key (layer_slice g l a n) = (group_index g, lg_name l)" "ps_page_start (layer_slice g l a n) = a"
  "ps_page_count (layer_slice g l a n) = n" "ps_byte_length (layer_slice g l a n) = n * lg_page_size_bytes l"
  "ps_group_index (layer_slice g l a n) = group_index g" "ps_layer_name (layer_slice g l a n) = lg_name l"
  by (simp_all add: layer_slice_def slice_key_def)

lemma PageSlice_layer:
  assumes "valid_group g" "l \<in> set (gg_layers g)" "0 \<le> a" "0 < n"
  shows "PageSlice (layer_slice g l a n) = Inr (layer_slice g l a n)"
proof -
  have l: "lg_name l \<noteq> []" "code_points (lg_name l) \<le> 512" "0 < lg_page_size_bytes l"
    using valid_groupD(7) [OF assms(1,2)] by (auto simp: LayerGeometry_def split: if_splits)
  moreover have "0 < n * lg_page_size_bytes l" using l(3) assms(4) by simp
  ultimately show ?thesis using valid_groupD(4) [OF assms(1)] assms(3,4) by (simp add: PageSlice_def not_le)
qed

definition group_slices :: "group_geometry list \<Rightarrow> (group_geometry \<Rightarrow> int) \<Rightarrow> (group_geometry \<Rightarrow> int) \<Rightarrow> page_slice list" where
  "group_slices gs start count = concat (map (\<lambda>g. map (\<lambda>l. layer_slice g l (start g) (count g)) (gg_layers g)) gs)"

lemma ts_iter_data:
  assumes "list_all valid_group (groups L)" "0 < chunk" "chunk \<le> span_tokens"
    and al: "\<forall>g \<in> set (groups L). reuse_policy g = ''full'' \<longrightarrow> logical_tokens_per_page g dvd chunk"
  shows "ts_iter \<lparr>ts_layout = L, ts_span_tokens = span_tokens, ts_chunk_tokens = chunk, ts_kind = ''data''\<rparr>
    = (group_slices (filter (\<lambda>g. reuse_policy g = ''full'') (groups L))
        (\<lambda>g. (span_tokens - chunk) div logical_tokens_per_page g) (\<lambda>g. chunk div logical_tokens_per_page g), None)"
    (is "ts_iter ?t = _")
proof -
  have owns: "ts_owns ?t = (\<lambda>g. reuse_policy g = ''full'')" by (simp add: ts_owns_def fun_eq_iff)
  have "ts_group ?t g = (map (\<lambda>l. layer_slice g l ((span_tokens - chunk) div logical_tokens_per_page g)
      (chunk div logical_tokens_per_page g)) (gg_layers g), None)"
    if g: "g \<in> set (groups L)" "reuse_policy g = ''full''" for g
  proof -
    have v: "valid_group g" using g assms(1) by (simp add: list_all_iff)
    have w: "0 < logical_tokens_per_page g" by (rule valid_groupD [OF v])
    have "0 < chunk div logical_tokens_per_page g"
      using al g assms(2) w by (auto elim!: dvdE simp: zero_less_mult_iff)
    moreover have "0 \<le> (span_tokens - chunk) div logical_tokens_per_page g"
      using w assms(3) by (simp add: pos_imp_zdiv_nonneg_iff)
    ultimately show ?thesis
      by (simp add: ts_group_def) (rule gen_map_total, simp add: PageSlice_layer [OF v] flip: layer_slice_def)
  qed
  then show ?thesis by (simp add: ts_iter_def owns group_slices_def) (rule gen_concat_total, simp)
qed

lemma ts_iter_state:
  assumes "list_all valid_group (groups L)" "0 < span_tokens"
    and al: "alignment_tokens L dvd span_tokens"
  shows "ts_iter \<lparr>ts_layout = L, ts_span_tokens = span_tokens, ts_chunk_tokens = chunk, ts_kind = ''state''\<rparr>
    = (group_slices (filter (\<lambda>g. reuse_policy g \<noteq> ''full'') (groups L)) (\<lambda>_. 0) (\<lambda>g. page_count_spec g span_tokens), None)"
    (is "ts_iter ?t = _")
proof -
  have owns: "ts_owns ?t = (\<lambda>g. reuse_policy g \<noteq> ''full'')" by (simp add: ts_owns_def fun_eq_iff)
  have "ts_group ?t g = (map (\<lambda>l. layer_slice g l 0 (page_count_spec g span_tokens)) (gg_layers g), None)"
    if g: "g \<in> set (groups L)" for g
  proof -
    have v: "valid_group g" using g assms(1) by (simp add: list_all_iff)
    have dvd: "reuse_policy g = ''circular_one'' \<or> logical_tokens_per_page g dvd span_tokens"
      using al g by (auto simp: alignment_dvd_iff)
    have cnt: "selected_page_count g span_tokens = Inr (page_count_spec g span_tokens)"
      using selected_page_count_spec [OF v, of span_tokens] assms(2) dvd by simp
    have pos: "0 < page_count_spec g span_tokens" using page_count_pos(1) [OF v assms(2) dvd] by simp
    show ?thesis
      by (simp add: ts_group_def cnt) (rule gen_map_total, simp add: PageSlice_layer [OF v] pos flip: layer_slice_def)
  qed
  then show ?thesis by (simp add: ts_iter_def owns group_slices_def) (rule gen_concat_total, simp)
qed

abbreviation group_keys :: "group_geometry list \<Rightarrow> layer_key list" where
  "group_keys gs \<equiv> concat (map (\<lambda>g. map (\<lambda>l. (group_index g, lg_name l)) (gg_layers g)) gs)"

lemma distinct_group_keys: "distinct (layout_layers L) \<Longrightarrow> distinct (group_keys (filter P (groups L)))"
proof -
  assume dist: "distinct (layout_layers L)"
  have "distinct (concat (map (\<lambda>g. map lg_name (gg_layers g)) (filter P gs)))"
    if "distinct (concat (map (\<lambda>g. map lg_name (gg_layers g)) gs))" for gs
    using that by (induction gs) auto
  then have "distinct (map snd (group_keys (filter P (groups L))))"
    using dist by (simp add: layout_layers_def map_concat comp_def)
  then show ?thesis by (rule distinct_map [THEN iffD1, THEN conjunct1])
qed

lemma fold_slices:
  assumes "distinct (map slice_key ss)"
    and "\<And>s. s \<in> set ss \<Longrightarrow> (\<exists>c b. dict_get E (slice_key s) = Some (c, b) \<and> ps_byte_length s = ps_page_count s * b)
           \<and> ps_page_start s = (case dict_get cs (slice_key s) of None \<Rightarrow> 0 | Some c \<Rightarrow> c)"
  shows "\<exists>cs'. fold_result (advance_cursor E) cs ss = Inr cs'
    \<and> (\<forall>k. k \<notin> slice_key ` set ss \<longrightarrow> dict_get cs' k = dict_get cs k)
    \<and> (\<forall>s \<in> set ss. dict_get cs' (slice_key s) = Some (ps_page_start s + ps_page_count s))"
  using assms
proof (induction ss arbitrary: cs)
  case (Cons s ss)
  let ?cs = "dict_set (slice_key s) (ps_page_start s + ps_page_count s) cs"
  obtain c b where "dict_get E (slice_key s) = Some (c, b)" "ps_byte_length s = ps_page_count s * b"
    "ps_page_start s = (case dict_get cs (slice_key s) of None \<Rightarrow> 0 | Some c \<Rightarrow> c)"
    using Cons.prems(2) [of s] by auto
  then have step: "advance_cursor E cs s = Inr ?cs" by (simp add: advance_cursor_def slice_key_def Let_def)
  have "slice_key t \<noteq> slice_key s" if "t \<in> set ss" for t using Cons.prems(1) that by (auto simp: image_iff)
  then have "\<exists>cs'. fold_result (advance_cursor E) ?cs ss = Inr cs'
    \<and> (\<forall>k. k \<notin> slice_key ` set ss \<longrightarrow> dict_get cs' k = dict_get ?cs k)
    \<and> (\<forall>s \<in> set ss. dict_get cs' (slice_key s) = Some (ps_page_start s + ps_page_count s))"
    using Cons.prems by (intro Cons.IH) auto
  then show ?case using Cons.prems(1) by (auto simp: step simp del: split_paired_All)
qed simp

lemma fold_group_slices:
  assumes dist: "distinct (group_keys gs)"
    and exp: "\<And>g l. g \<in> set gs \<Longrightarrow> l \<in> set (gg_layers g) \<Longrightarrow>
               \<exists>c. dict_get E (group_index g, lg_name l) = Some (c, lg_page_size_bytes l)"
    and at: "\<And>g l. g \<in> set gs \<Longrightarrow> l \<in> set (gg_layers g) \<Longrightarrow>
               start g = (case dict_get cs (group_index g, lg_name l) of None \<Rightarrow> 0 | Some c \<Rightarrow> c)"
  shows "\<exists>cs'. fold_result (advance_cursor E) cs (group_slices gs start count) = Inr cs'
    \<and> (\<forall>k. k \<notin> set (group_keys gs) \<longrightarrow> dict_get cs' k = dict_get cs k)
    \<and> (\<forall>g \<in> set gs. \<forall>l \<in> set (gg_layers g). dict_get cs' (group_index g, lg_name l) = Some (start g + count g))"
proof -
  let ?ss = "group_slices gs start count"
  have keys: "map slice_key ?ss = group_keys gs" by (simp add: group_slices_def map_concat comp_def)
  have mem: "s \<in> set ?ss \<longleftrightarrow> (\<exists>g \<in> set gs. \<exists>l \<in> set (gg_layers g). s = layer_slice g l (start g) (count g))" for s
    by (auto simp: group_slices_def)
  have "\<exists>cs'. fold_result (advance_cursor E) cs ?ss = Inr cs'
    \<and> (\<forall>k. k \<notin> slice_key ` set ?ss \<longrightarrow> dict_get cs' k = dict_get cs k)
    \<and> (\<forall>s \<in> set ?ss. dict_get cs' (slice_key s) = Some (ps_page_start s + ps_page_count s))"
    using dist exp at by (intro fold_slices) (auto simp only: keys mem layer_slice_simps, fastforce+)
  moreover have "slice_key ` set ?ss = set (group_keys gs)" using arg_cong [OF keys, of set] by simp
  ultimately obtain cs' where cs': "fold_result (advance_cursor E) cs ?ss = Inr cs'"
    "\<forall>k. k \<notin> set (group_keys gs) \<longrightarrow> dict_get cs' k = dict_get cs k"
    "\<forall>s \<in> set ?ss. dict_get cs' (slice_key s) = Some (ps_page_start s + ps_page_count s)" by (simp only:) blast
  have "dict_get cs' (group_index g, lg_name l) = Some (start g + count g)"
    if "g \<in> set gs" "l \<in> set (gg_layers g)" for g l
    using bspec [OF cs'(3), of "layer_slice g l (start g) (count g)"] that by (simp only: mem layer_slice_simps) blast
  then show ?thesis using cs'(1,2) by blast
qed

text \<open>The files of a chain: one data file per chunk, then the boundary state when the layout has one.\<close>

definition has_boundary_state :: "hma_layout \<Rightarrow> bool" where
  "has_boundary_state L = list_ex (\<lambda>g. reuse_policy g \<noteq> ''full'') (groups L)"

definition chain_segments :: "hma_layout \<Rightarrow> int \<Rightarrow> nat \<Rightarrow> segment_sequence list" where
  "chain_segments L chunk n =
     map (\<lambda>i. Derived \<lparr>ts_layout = L, ts_span_tokens = int (Suc i) * chunk, ts_chunk_tokens = chunk, ts_kind = ''data''\<rparr>) [0..<n]
     @ (if has_boundary_state L
        then [Derived \<lparr>ts_layout = L, ts_span_tokens = int n * chunk, ts_chunk_tokens = chunk, ts_kind = ''state''\<rparr>]
        else [])"

abbreviation full_groups :: "hma_layout \<Rightarrow> group_geometry list" where
  "full_groups L \<equiv> filter (\<lambda>g. reuse_policy g = ''full'') (groups L)"

lemma fold_data_chain:
  assumes v: "list_all valid_group (groups L)" and dist: "distinct (layout_layers L)" and chunk: "0 < chunk"
    and al: "\<forall>g \<in> set (groups L). reuse_policy g = ''full'' \<longrightarrow> logical_tokens_per_page g dvd chunk"
    and exp: "\<And>g l. g \<in> set (groups L) \<Longrightarrow> l \<in> set (gg_layers g) \<Longrightarrow>
               \<exists>c. dict_get E (group_index g, lg_name l) = Some (c, lg_page_size_bytes l)"
  shows "\<exists>cs. fold_result (\<lambda>cs q. gen_fold (advance_cursor E) cs (iter_segments q)) []
      (map (\<lambda>i. Derived \<lparr>ts_layout = L, ts_span_tokens = int (Suc i) * chunk, ts_chunk_tokens = chunk, ts_kind = ''data''\<rparr>) [0..<n]) = Inr cs
    \<and> (\<forall>k. k \<notin> set (group_keys (full_groups L)) \<longrightarrow> dict_get cs k = None)
    \<and> (\<forall>g \<in> set (full_groups L). \<forall>l \<in> set (gg_layers g).
         dict_get cs (group_index g, lg_name l) =
           (if n = 0 then None else Some (int n * chunk div logical_tokens_per_page g)))"
proof (induction n)
  case (Suc n)
  then obtain cs where cs: "fold_result (\<lambda>cs q. gen_fold (advance_cursor E) cs (iter_segments q)) []
      (map (\<lambda>i. Derived \<lparr>ts_layout = L, ts_span_tokens = int (Suc i) * chunk, ts_chunk_tokens = chunk, ts_kind = ''data''\<rparr>) [0..<n]) = Inr cs"
    and out: "\<forall>k. k \<notin> set (group_keys (full_groups L)) \<longrightarrow> dict_get cs k = None"
    and at: "\<forall>g \<in> set (full_groups L). \<forall>l \<in> set (gg_layers g). dict_get cs (group_index g, lg_name l) =
           (if n = 0 then None else Some (int n * chunk div logical_tokens_per_page g))" by blast
  let ?st = "\<lambda>g :: group_geometry. (int (Suc n) * chunk - chunk) div logical_tokens_per_page g"
  let ?cn = "\<lambda>g :: group_geometry. chunk div logical_tokens_per_page g"
  have "\<exists>cs'. fold_result (advance_cursor E) cs (group_slices (full_groups L) ?st ?cn) = Inr cs'
    \<and> (\<forall>k. k \<notin> set (group_keys (full_groups L)) \<longrightarrow> dict_get cs' k = dict_get cs k)
    \<and> (\<forall>g \<in> set (full_groups L). \<forall>l \<in> set (gg_layers g). dict_get cs' (group_index g, lg_name l) = Some (?st g + ?cn g))"
    using at exp by (intro fold_group_slices distinct_group_keys dist) (auto simp: algebra_simps)
  then obtain cs' where cs': "fold_result (advance_cursor E) cs (group_slices (full_groups L) ?st ?cn) = Inr cs'"
    and out': "\<forall>k. k \<notin> set (group_keys (full_groups L)) \<longrightarrow> dict_get cs' k = dict_get cs k"
    and at': "\<forall>g \<in> set (full_groups L). \<forall>l \<in> set (gg_layers g). dict_get cs' (group_index g, lg_name l) = Some (?st g + ?cn g)"
    by blast
  have sum: "?st g + ?cn g = int (Suc n) * chunk div logical_tokens_per_page g" if "g \<in> set (full_groups L)" for g
  proof -
    have dvd: "logical_tokens_per_page g dvd chunk" using al that by auto
    then show ?thesis by (subst div_plus_div_distrib_dvd_right [symmetric]) (simp_all add: algebra_simps)
  qed
  have "iter_segments (Derived \<lparr>ts_layout = L, ts_span_tokens = int (Suc n) * chunk, ts_chunk_tokens = chunk, ts_kind = ''data''\<rparr>)
      = (group_slices (full_groups L) ?st ?cn, None)"
    unfolding iter_segments.simps by (rule ts_iter_data [OF v chunk _ al]) (use chunk in \<open>simp add: algebra_simps\<close>)
  then have "fold_result (\<lambda>cs q. gen_fold (advance_cursor E) cs (iter_segments q)) []
      (map (\<lambda>i. Derived \<lparr>ts_layout = L, ts_span_tokens = int (Suc i) * chunk, ts_chunk_tokens = chunk, ts_kind = ''data''\<rparr>) [0..<Suc n]) = Inr cs'"
    using cs cs' by (simp only: upt_Suc_append [OF le0] map_append fold_result_append and_then_simps) simp
  then show ?case using out out' at' sum by auto
qed simp

lemma fold_objects_segments:
  "fold_result (advance_object E) cs ds
   = fold_result (\<lambda>cs q. gen_fold (advance_cursor E) cs (iter_segments q)) cs (map td_segments ds)"
proof (induction ds arbitrary: cs)
  case (Cons d ds)
  then show ?case by (cases "advance_object E cs d") (auto simp: advance_object_def)
qed simp

lemma valid_layoutD:
  assumes "valid_layout L"
  shows "list_all valid_group (groups L)" "groups L \<noteq> []" "distinct (layout_layers L)"
    "map group_index (groups L) = map int [0..<length (groups L)]"
    "i < length (groups L) \<Longrightarrow> group_index (groups L ! i) = int i"
proof -
  have ok: "HMALayout L = Inr L" and v: "list_all valid_group (groups L)" using assms by (auto simp: valid_layout_def)
  show "list_all valid_group (groups L)" by (rule v)
  have layers: "layout_layers L \<noteq> []" using ok by (simp add: HMALayout_def split: if_splits)
  then show "groups L \<noteq> []" by (auto simp: layout_layers_def)
  show "distinct (layout_layers L)" using ok by (simp add: HMALayout_def split: if_splits)
  show gi: "map group_index (groups L) = map int [0..<length (groups L)]"
    using ok by (simp add: HMALayout_def split: if_splits)
  show "i < length (groups L) \<Longrightarrow> group_index (groups L ! i) = int i"
    using arg_cong [OF gi, of "\<lambda>xs. xs ! i"] by simp
qed

lemma coverage_expected:
  assumes "valid_layout L" "i < length (groups L)" "l \<in> set (gg_layers (groups L ! i))"
  shows "dict_get (expected_coverage L (map f (groups L))) (int i, lg_name l) = Some (f (groups L ! i), lg_page_size_bytes l)"
  using dict_get_expected(1) [OF valid_layoutD(3) [OF assms(1)] _ valid_layoutD(4) [OF assms(1)] assms(2,3), of "map f (groups L)"]
    assms(2) by simp

lemma coverage_expected_group:
  assumes "valid_layout L" "g \<in> set (groups L)" "l \<in> set (gg_layers g)"
  shows "dict_get (expected_coverage L (map f (groups L))) (group_index g, lg_name l) = Some (f g, lg_page_size_bytes l)"
proof -
  obtain i where i: "i < length (groups L)" "g = groups L ! i" using assms(2) by (auto simp: in_set_conv_nth)
  then show ?thesis using coverage_expected [OF assms(1) i(1)] assms(3) valid_layoutD(5) [OF assms(1) i(1)] by simp
qed

lemma expected_distinct: "distinct (dict_keys (expected_coverage L counts))"
  by (simp add: expected_coverage_def)

lemma coverage_sound:
  assumes v: "valid_layout L" and ok: "validate_manifest_coverage sha enc L m = Inr ()"
    and pos: "\<forall>s \<in> set (snapshot_slices m). 0 < ps_page_count s"
  shows "0 < sn_span_tokens m" "alignment_tokens L dvd sn_span_tokens m"
    "layout_digest sha enc L = Inr (sn_layout_digest m)"
    "i < length (groups L) \<Longrightarrow> l \<in> set (gg_layers (groups L ! i)) \<Longrightarrow>
       pages_of (int i, lg_name l) (snapshot_slices m) = [0 .. page_count_spec (groups L ! i) (sn_span_tokens m) - 1]"
    "s \<in> set (snapshot_slices m) \<Longrightarrow>
       \<exists>i l. i < length (groups L) \<and> l \<in> set (gg_layers (groups L ! i)) \<and> slice_key s = (int i, lg_name l)
             \<and> ps_byte_length s = ps_page_count s * lg_page_size_bytes l"
proof -
  obtain counts cs where counts: "selected_page_counts L (sn_span_tokens m) = Inr counts"
    and dig: "layout_digest sha enc L = Inr (sn_layout_digest m)"
    and cs: "fold_result (advance_object (expected_coverage L counts)) [] (sn_objects m) = Inr cs"
    and all: "\<not> (\<exists>(key, count, _) \<in> set (expected_coverage L counts). dict_get cs key \<noteq> Some count)"
    using ok by (auto simp: validate_manifest_coverage_def and_then_Inr_iff Let_def split: if_splits)
  let ?n = "sn_span_tokens m"
  let ?counts = "map (\<lambda>g. page_count_spec g ?n) (groups L)"
  let ?E = "expected_coverage L ?counts"
  have spec: "0 < ?n \<and> alignment_tokens L dvd ?n" and eq: "counts = ?counts"
    using counts selected_page_counts_spec [OF valid_layoutD(1,2) [OF v], of ?n] by (auto split: if_splits)
  then show "0 < ?n" "alignment_tokens L dvd ?n" by auto
  show "layout_digest sha enc L = Inr (sn_layout_digest m)" by (rule dig)
  have "fold_result (advance_cursor ?E) [] (snapshot_slices m) = Inr cs"
    using cs by (simp add: fold_objects snapshot_slices_def eq)
  then have inv: "cursor_inv ?E cs (snapshot_slices m)" using pos by (rule fold_cursor_inv)
  show "pages_of (int i, lg_name l) (snapshot_slices m) = [0 .. page_count_spec (groups L ! i) ?n - 1]"
    if i: "i < length (groups L)" "l \<in> set (gg_layers (groups L ! i))"
  proof -
    have "((int i, lg_name l), (page_count_spec (groups L ! i) ?n, lg_page_size_bytes l)) \<in> set ?E"
      by (rule map_of_SomeD [OF coverage_expected [OF v i]])
    then have "dict_get cs (int i, lg_name l) = Some (page_count_spec (groups L ! i) ?n)" using all eq by blast
    then have "int (length (pages_of (int i, lg_name l) (snapshot_slices m))) = page_count_spec (groups L ! i) ?n"
      by (simp add: cursor_invD(1) [OF inv] split: if_splits)
    then show ?thesis using cursor_invD(2) [OF inv, of "(int i, lg_name l)"] by simp
  qed
  show "\<exists>i l. i < length (groups L) \<and> l \<in> set (gg_layers (groups L ! i)) \<and> slice_key s = (int i, lg_name l)
             \<and> ps_byte_length s = ps_page_count s * lg_page_size_bytes l"
    if s: "s \<in> set (snapshot_slices m)"
  proof -
    obtain c b where b: "dict_get ?E (slice_key s) = Some (c, b)" "ps_byte_length s = ps_page_count s * b"
      using cursor_invD(3) [OF inv s] by blast
    have "slice_key s \<in> set (dict_keys ?E)" using map_of_SomeD [OF b(1)] by force
    then obtain i l where il: "i < length (groups L)" "l \<in> set (gg_layers (groups L ! i))" "slice_key s = (int i, lg_name l)"
      using expected_keys [OF _ valid_layoutD(4) [OF v], of ?counts] by auto
    then show ?thesis using b coverage_expected [OF v il(1,2), of "\<lambda>g. page_count_spec g ?n"] by auto
  qed
qed

lemma group_index_inj:
  "valid_layout L \<Longrightarrow> g \<in> set (groups L) \<Longrightarrow> h \<in> set (groups L) \<Longrightarrow> group_index g = group_index h \<Longrightarrow> g = h"
  by (metis in_set_conv_nth valid_layoutD(5) of_nat_eq_iff)

lemma group_keys_apart:
  assumes "valid_layout L" and rest: "k \<in> set (group_keys (filter (\<lambda>g. \<not> P g) (groups L)))"
  shows "k \<notin> set (group_keys (filter P (groups L)))"
proof
  assume "k \<in> set (group_keys (filter P (groups L)))"
  then obtain g where g: "g \<in> set (groups L)" "P g" "fst k = group_index g" by auto
  obtain h where h: "h \<in> set (groups L)" "\<not> P h" "fst k = group_index h" using rest by auto
  show False using group_index_inj [OF assms(1) g(1) h(1)] g h by simp
qed

lemma expected_keys_groups:
  assumes "valid_layout L"
  shows "k \<in> set (dict_keys (expected_coverage L (map f (groups L)))) \<longleftrightarrow> k \<in> set (group_keys (groups L))"
proof -
  have "k \<in> set (dict_keys (expected_coverage L (map f (groups L)))) \<longleftrightarrow>
      (\<exists>i l. i < length (groups L) \<and> l \<in> set (gg_layers (groups L ! i)) \<and> k = (int i, lg_name l))"
    by (rule expected_keys [OF _ valid_layoutD(4) [OF assms]]) simp
  also have "\<dots> \<longleftrightarrow> (\<exists>g \<in> set (groups L). \<exists>l \<in> set (gg_layers g). k = (group_index g, lg_name l))"
    using valid_layoutD(5) [OF assms] by (metis in_set_conv_nth)
  finally show ?thesis by auto
qed

text \<open>Following a whole chain, boundary state included, leaves every cursor at its expected count.\<close>

lemma chain_cursors:
  fixes span_tokens E step
  assumes v: "valid_layout L" and n: "0 < n" and chunk: "0 < chunk" and al: "alignment_tokens L dvd chunk"
  defines "span_tokens \<equiv> int n * chunk"
  defines "E \<equiv> expected_coverage L (map (\<lambda>g. page_count_spec g span_tokens) (groups L))"
  defines "step \<equiv> \<lambda>cs q. gen_fold (advance_cursor E) cs (iter_segments q)"
  shows "\<exists>cs. fold_result step [] (chain_segments L chunk n) = Inr cs
    \<and> (\<forall>k. k \<notin> set (group_keys (groups L)) \<longrightarrow> dict_get cs k = None)
    \<and> (\<forall>g \<in> set (groups L). \<forall>l \<in> set (gg_layers g).
         dict_get cs (group_index g, lg_name l) = Some (page_count_spec g span_tokens))"
proof -
  let ?F = "\<lambda>g. reuse_policy g = ''full''" and ?rest = "filter (\<lambda>g. reuse_policy g \<noteq> ''full'') (groups L)"
  let ?boundary = "group_slices ?rest (\<lambda>_. 0) (\<lambda>g. page_count_spec g span_tokens)"
  note vg = valid_layoutD(1) [OF v] and dist = valid_layoutD(3) [OF v]
  have span: "0 < span_tokens" "alignment_tokens L dvd span_tokens" using n chunk al by (auto simp: span_tokens_def)
  have exp: "\<exists>c. dict_get E (group_index g, lg_name l) = Some (c, lg_page_size_bytes l)"
    if "g \<in> set (groups L)" "l \<in> set (gg_layers g)" for g l
    using coverage_expected_group [OF v that] by (auto simp: E_def)
  have "\<forall>g \<in> set (groups L). ?F g \<longrightarrow> logical_tokens_per_page g dvd chunk"
    using al by (auto simp: alignment_dvd_iff)
  from fold_data_chain [OF vg dist chunk this exp, of n]
  obtain cs where cs: "fold_result step [] (map (\<lambda>i. Derived \<lparr>ts_layout = L, ts_span_tokens = int (Suc i) * chunk,
        ts_chunk_tokens = chunk, ts_kind = ''data''\<rparr>) [0..<n]) = Inr cs"
    and out: "\<forall>k. k \<notin> set (group_keys (full_groups L)) \<longrightarrow> dict_get cs k = None"
    and at: "\<forall>g \<in> set (full_groups L). \<forall>l \<in> set (gg_layers g).
       dict_get cs (group_index g, lg_name l) = Some (span_tokens div logical_tokens_per_page g)"
    using n by (auto simp: step_def span_tokens_def)
  have start: "0 = (case dict_get cs (group_index g, lg_name l) of None \<Rightarrow> 0 | Some c \<Rightarrow> c)"
    if "g \<in> set ?rest" "l \<in> set (gg_layers g)" for g l
  proof -
    have "(group_index g, lg_name l) \<in> set (group_keys ?rest)" using that by auto
    then show ?thesis using group_keys_apart [OF v] out by simp
  qed
  have "\<exists>cs'. fold_result (advance_cursor E) cs ?boundary = Inr cs'
    \<and> (\<forall>k. k \<notin> set (group_keys ?rest) \<longrightarrow> dict_get cs' k = dict_get cs k)
    \<and> (\<forall>g \<in> set ?rest. \<forall>l \<in> set (gg_layers g). dict_get cs' (group_index g, lg_name l) = Some (0 + page_count_spec g span_tokens))"
    by (rule fold_group_slices) (use exp start distinct_group_keys [OF dist] in auto)
  then obtain cs' where cs': "fold_result (advance_cursor E) cs ?boundary = Inr cs'"
    and out': "\<forall>k. k \<notin> set (group_keys ?rest) \<longrightarrow> dict_get cs' k = dict_get cs k"
    and at': "\<forall>g \<in> set ?rest. \<forall>l \<in> set (gg_layers g). dict_get cs' (group_index g, lg_name l) = Some (page_count_spec g span_tokens)"
    by auto
  show ?thesis
  proof (intro exI conjI allI impI ballI)
    show "fold_result step [] (chain_segments L chunk n) = Inr cs'"
    proof (cases "has_boundary_state L")
      case True
      have "step cs (Derived \<lparr>ts_layout = L, ts_span_tokens = span_tokens, ts_chunk_tokens = chunk, ts_kind = ''state''\<rparr>) = Inr cs'"
        using ts_iter_state [OF vg span] cs' by (simp add: step_def)
      then show ?thesis unfolding chain_segments_def fold_result_append cs using True by (simp add: span_tokens_def)
    next
      case False
      then have "?rest = []" by (auto simp: has_boundary_state_def list_ex_iff filter_empty_conv)
      then have "cs' = cs" using cs' by (simp add: group_slices_def)
      then show ?thesis unfolding chain_segments_def fold_result_append cs using False by simp
    qed
    show "dict_get cs' k = None" if k: "k \<notin> set (group_keys (groups L))" for k
    proof -
      have "k \<notin> set (group_keys (filter P (groups L)))" for P using k by auto
      then show ?thesis using out [rule_format, of k] out' [rule_format, of k] by simp
    qed
    show "dict_get cs' (group_index g, lg_name l) = Some (page_count_spec g span_tokens)"
      if g: "g \<in> set (groups L)" "l \<in> set (gg_layers g)" for g l
    proof (cases "?F g")
      case True
      then have "(group_index g, lg_name l) \<in> set (group_keys (full_groups L))" using g by auto
      then have "(group_index g, lg_name l) \<notin> set (group_keys ?rest)" using group_keys_apart [OF v, of "(group_index g, lg_name l)" ?F] by blast
      then show ?thesis using out' at True g by (simp add: page_count_spec_def)
    qed (use at' g in auto)
  qed
qed

lemma chain_accepted:
  assumes v: "valid_layout L" and n: "0 < n" and chunk: "0 < chunk" and al: "alignment_tokens L dvd chunk"
    and m: "sn_profile m = layout_profile L" "layout_digest sha enc L = Inr (sn_layout_digest m)"
      "sn_span_tokens m = int n * chunk" "map td_segments (sn_objects m) = chain_segments L chunk n"
  shows "validate_manifest_coverage sha enc L m = Inr ()"
proof -
  let ?span = "int n * chunk"
  let ?E = "expected_coverage L (map (\<lambda>g. page_count_spec g ?span) (groups L))"
  obtain cs where
    cs: "fold_result (\<lambda>cs q. gen_fold (advance_cursor ?E) cs (iter_segments q)) [] (chain_segments L chunk n) = Inr cs"
    and out: "\<And>k. k \<notin> set (group_keys (groups L)) \<Longrightarrow> dict_get cs k = None"
    and got: "\<And>g l. g \<in> set (groups L) \<Longrightarrow> l \<in> set (gg_layers g) \<Longrightarrow>
           dict_get cs (group_index g, lg_name l) = Some (page_count_spec g ?span)"
    using chain_cursors [OF v n chunk al] by blast
  have fold: "fold_result (advance_object ?E) [] (sn_objects m) = Inr cs"
    unfolding fold_objects_segments m(4) by (rule cs)
  have "k \<in> set (dict_keys cs) \<longleftrightarrow> k \<in> set (group_keys (groups L))" for k
  proof -
    have "k \<in> set (dict_keys cs) \<longleftrightarrow> dict_get cs k \<noteq> None" by (simp add: map_of_eq_None_iff)
    also have "\<dots> \<longleftrightarrow> k \<in> set (group_keys (groups L))"
    proof
      assume "dict_get cs k \<noteq> None"
      then show "k \<in> set (group_keys (groups L))" by (rule contrapos_np) (rule out)
    qed (use got in auto)
    finally show ?thesis .
  qed
  then have same: "set (dict_keys cs) = set (dict_keys ?E)" using expected_keys_groups [OF v] by blast
  have counts: "dict_get cs k = Some c" if e: "(k, c, b) \<in> set ?E" for k c b
  proof -
    have "k \<in> set (dict_keys ?E)" using e by force
    then obtain g l where g: "g \<in> set (groups L)" "l \<in> set (gg_layers g)" "k = (group_index g, lg_name l)"
      using expected_keys_groups [OF v] by auto
    moreover have "dict_get ?E k = Some (c, b)" using e by (simp add: expected_distinct)
    ultimately show ?thesis
      using got [OF g(1,2)] coverage_expected_group [OF v g(1,2), of "\<lambda>g. page_count_spec g ?span"] by simp
  qed
  have "0 < ?span \<and> alignment_tokens L dvd ?span" using n chunk al by auto
  then have "selected_page_counts L ?span = Inr (map (\<lambda>g. page_count_spec g ?span) (groups L))"
    using selected_page_counts_spec [OF valid_layoutD(1,2) [OF v], of ?span] by simp
  then show ?thesis
    using m(1-3) fold same counts by (auto simp: validate_manifest_coverage_def Let_def)
qed

section \<open>Digests\<close>

lemma plain_window [simp]: "plain (window_value w)"
  by (cases w) (simp_all add: window_value_def)

lemma key_sorted_window [simp]: "key_sorted (window_value w) = window_value w"
  by (cases w) (simp_all add: window_value_def)

lemma window_value_inj [simp]: "window_value a = window_value b \<longleftrightarrow> a = b"
  by (cases a; cases b) (simp_all add: window_value_def)

lemma plain_layer [simp]: "plain (layer_dict l)"
  by (simp add: layer_dict_def)

lemma plain_group [simp]: "plain (group_dict g)"
  by (simp add: group_dict_def list_all_iff)

lemma plain_layout_payload: "(\<And>g. plain (view g)) \<Longrightarrow> plain (layout_payload view L)"
  by (simp add: layout_payload_def list_all_iff)

lemma layer_dict_inj:
  assumes "key_sorted (layer_dict a) = key_sorted (layer_dict b)"
  shows "a = (b :: layer_geometry)"
proof -
  note get = key_sorted_dict_eqD [OF assms [unfolded layer_dict_def]]
  show ?thesis
    using get [of "''name''"] get [of "''spec_name''"] get [of "''page_size_bytes''"]
    by (intro layer_geometry.equality) simp_all
qed

lemma map_inj_eq: "(\<And>x y. f x = f y \<Longrightarrow> x = y) \<Longrightarrow> map f xs = map f ys \<Longrightarrow> xs = ys"
  by (metis injI inj_map_eq_map)

lemma group_dict_inj:
  assumes "key_sorted (group_dict a) = key_sorted (group_dict b)"
  shows "a = (b :: group_geometry)"
proof -
  note get = key_sorted_dict_eqD [OF assms [unfolded group_dict_def]]
  have "map (\<lambda>l. key_sorted (layer_dict l)) (gg_layers a) = map (\<lambda>l. key_sorted (layer_dict l)) (gg_layers b)"
    using get [of "''layers''"] by (simp add: comp_def)
  then have layers: "gg_layers a = gg_layers b" by (rule map_inj_eq [rotated]) (rule layer_dict_inj)
  note layers
  moreover have "group_index a = group_index b" using get [of "''group_index''"] by simp
  moreover have "gg_spec_name a = gg_spec_name b" using get [of "''spec_name''"] by simp
  moreover have "block_size a = block_size b" using get [of "''block_size''"] by simp
  moreover have "storage_block_size a = storage_block_size b" using get [of "''storage_block_size''"] by simp
  moreover have "manager_page_size_bytes a = manager_page_size_bytes b" using get [of "''manager_page_size_bytes''"] by simp
  moreover have "dcp_replicated a = dcp_replicated b" using get [of "''dcp_replicated''"] by simp
  moreover have "dcp_shard_count a = dcp_shard_count b" using get [of "''dcp_shard_count''"] by simp
  moreover have "logical_tokens_per_page a = logical_tokens_per_page b" using get [of "''logical_tokens_per_page''"] by simp
  moreover have "reuse_policy a = reuse_policy b" using get [of "''reuse_policy''"] by simp
  moreover have "reuse_window_tokens a = reuse_window_tokens b" using get [of "''reuse_window_tokens''"] by simp
  moreover have "running_state_tail_pages a = running_state_tail_pages b" using get [of "''running_state_tail_pages''"] by simp
  moreover have "is_eagle_group a = is_eagle_group b" using get [of "''is_eagle_group''"] by simp
  ultimately show ?thesis by (intro group_geometry.equality) simp_all
qed

lemma layout_payload_eqD:
  assumes "key_sorted (layout_payload view L) = key_sorted (layout_payload view M)"
  shows "layout_schema L = layout_schema M" "dcp_degree L = dcp_degree M"
    "map (key_sorted \<circ> view) (groups L) = map (key_sorted \<circ> view) (groups M)"
proof -
  note get = key_sorted_dict_eqD [OF assms [unfolded layout_payload_def]]
  show "layout_schema L = layout_schema M" using get [of "''schema''"] by simp
  show "dcp_degree L = dcp_degree M" using get [of "''dcp_degree''"] by simp
  show "map (key_sorted \<circ> view) (groups L) = map (key_sorted \<circ> view) (groups M)"
    using get [of "''groups''"] by (simp add: comp_def)
qed

lemma plain_fields: "plain (PyDict (coordination_fields g))" "plain (PyDict (logical_fields g))"
  by (simp_all add: coordination_fields_def logical_fields_def list_all_iff)

text \<open>The page selection of a group depends only on what the coordination digest hashes.\<close>

lemma coordination_fields_eqD:
  assumes "key_sorted (PyDict (coordination_fields a)) = key_sorted (PyDict (coordination_fields b))"
  shows "selected_page_count a = selected_page_count b"
    "group_select_physical_pages a = group_select_physical_pages b"
    "reuse_policy a = reuse_policy b" "logical_tokens_per_page a = logical_tokens_per_page b"
proof -
  note get = key_sorted_dict_eqD [OF assms [unfolded coordination_fields_def]]
  show same: "reuse_policy a = reuse_policy b" "logical_tokens_per_page a = logical_tokens_per_page b"
    using get [of "''reuse_policy''"] get [of "''logical_tokens_per_page''"] by simp_all
  have other: "reuse_window_tokens a = reuse_window_tokens b" "running_state_tail_pages a = running_state_tail_pages b"
    using get [of "''reuse_window_tokens''"] get [of "''running_state_tail_pages''"] by simp_all
  show count: "selected_page_count a = selected_page_count b"
    by (rule ext) (simp only: selected_page_count_def same other)
  show "group_select_physical_pages a = group_select_physical_pages b"
    by (intro ext) (simp only: group_select_physical_pages_def count same other)
qed

lemma coordination_selection:
  assumes "key_sorted (layout_payload (\<lambda>g. PyDict (coordination_fields g)) L)
         = key_sorted (layout_payload (\<lambda>g. PyDict (coordination_fields g)) M)"
  shows "select_physical_pages L tables span_tokens = select_physical_pages M tables span_tokens"
    "alignment_tokens L = alignment_tokens M"
proof -
  have "list_all2 (\<lambda>a b. key_sorted (PyDict (coordination_fields a)) = key_sorted (PyDict (coordination_fields b)))
      (groups L) (groups M)"
    using layout_payload_eqD(3) [OF assms] by (simp add: comp_def list_all2_map1 list_all2_map2 list.rel_eq [symmetric] del: key_sorted.simps)
  then have all: "list_all2 (\<lambda>a b. group_select_physical_pages a = group_select_physical_pages b
      \<and> reuse_policy a = reuse_policy b \<and> logical_tokens_per_page a = logical_tokens_per_page b) (groups L) (groups M)"
    by (rule list_all2_mono) (intro conjI coordination_fields_eqD)
  have sel: "map_result (\<lambda>(g, table). group_select_physical_pages g table span_tokens) (zip gs ts)
      = map_result (\<lambda>(g, table). group_select_physical_pages g table span_tokens) (zip hs ts)"
    if "list_all2 (\<lambda>a b. group_select_physical_pages a = group_select_physical_pages b
      \<and> reuse_policy a = reuse_policy b \<and> logical_tokens_per_page a = logical_tokens_per_page b) gs hs" for gs hs ts
    using that
  proof (induction arbitrary: ts rule: list_all2_induct)
    case (Cons x xs y ys)
    then show ?case by (cases ts) auto
  qed simp
  have align: "map logical_tokens_per_page (filter (\<lambda>g. reuse_policy g \<noteq> ''circular_one'') gs)
      = map logical_tokens_per_page (filter (\<lambda>g. reuse_policy g \<noteq> ''circular_one'') hs)"
    if "list_all2 (\<lambda>a b. group_select_physical_pages a = group_select_physical_pages b
      \<and> reuse_policy a = reuse_policy b \<and> logical_tokens_per_page a = logical_tokens_per_page b) gs hs" for gs hs
    using that by (induction rule: list_all2_induct) auto
  show "select_physical_pages L tables span_tokens = select_physical_pages M tables span_tokens"
    using sel [OF all] list_all2_lengthD [OF all] by (simp add: select_physical_pages_def)
  show "alignment_tokens L = alignment_tokens M" using align [OF all] by (simp add: alignment_tokens_def)
qed

section \<open>Slices and their views\<close>

lemma PageSlice_from_dict: "PageSlice s = Inr s \<Longrightarrow> page_slice_from_dict (page_slice_dict s) = Inr s"
  by (auto simp: page_slice_from_dict_def page_slice_dict_def page_slice_fields_def PageSlice_def split: if_splits)

lemma gen_map_length: "gen_map f xs = (ys, None) \<Longrightarrow> length ys = length xs"
  by (induction xs arbitrary: ys) (auto split: sum.splits prod.splits)

lemma gen_concat_length:
  "gen_concat f xs = (ys, None) \<Longrightarrow> int (length ys) = sum_list (map (\<lambda>x. int (length (fst (f x)))) xs)
     \<and> (\<forall>x \<in> set xs. snd (f x) = None)"
  by (induction xs arbitrary: ys) (auto split: prod.splits option.splits)

lemma ts_group_length: "snd (ts_group t g) = None \<Longrightarrow> length (fst (ts_group t g)) = length (gg_layers g)"
  by (auto simp: ts_group_def split: sum.splits prod.splits intro: gen_map_length simp: prod_eq_iff)

lemma ts_iter_length:
  assumes "ts_iter t = (ss, None)"
  shows "int (length ss) = ts_len t"
proof -
  let ?gs = "filter (ts_owns t) (groups (ts_layout t))"
  have "int (length ss) = sum_list (map (\<lambda>g. int (length (fst (ts_group t g)))) ?gs)"
    and "\<forall>g \<in> set ?gs. snd (ts_group t g) = None"
    using gen_concat_length [OF assms [unfolded ts_iter_def]] by auto
  moreover from this have "map (\<lambda>g. int (length (fst (ts_group t g)))) ?gs = map (\<lambda>g. int (length (gg_layers g))) ?gs"
    by (intro map_cong refl) (simp add: ts_group_length)
  ultimately show ?thesis by (simp only: ts_len_def)
qed

text \<open>Every slice a view yields passed the constructor, so its page count is positive.\<close>

lemma gen_map_mem: "y \<in> set (fst (gen_map f xs)) \<Longrightarrow> \<exists>x \<in> set xs. f x = Inr y"
  by (induction xs) (auto split: sum.splits prod.splits)

lemma gen_concat_mem: "y \<in> set (fst (gen_concat f xs)) \<Longrightarrow> \<exists>x \<in> set xs. y \<in> set (fst (f x))"
  by (induction xs) (auto split: prod.splits option.splits)

lemma PageSlice_Inr: "PageSlice s = Inr s' \<Longrightarrow> s' = s \<and> 0 < ps_page_count s \<and> 0 < ps_byte_length s \<and> 0 \<le> ps_page_start s"
  by (auto simp: PageSlice_def split: if_splits)

lemma ts_iter_valid:
  assumes "s \<in> set (fst (ts_iter t))"
  shows "PageSlice s = Inr s"
proof -
  obtain x where "PageSlice x = Inr s"
    using assms by (auto simp: ts_iter_def ts_group_def split: sum.splits dest!: gen_concat_mem gen_map_mem)
  then show ?thesis using PageSlice_Inr by metis
qed

lemma derived_slices_pos:
  assumes "\<forall>d \<in> set (sn_objects m). \<exists>t. td_segments d = Derived t"
  shows "\<forall>s \<in> set (snapshot_slices m). 0 < ps_page_count s"
proof
  fix s
  assume "s \<in> set (snapshot_slices m)"
  then obtain d where "d \<in> set (sn_objects m)" "s \<in> set (fst (iter_segments (td_segments d)))"
    by (auto simp: snapshot_slices_def object_slices_def)
  then obtain t where "s \<in> set (fst (ts_iter t))" using assms by (metis iter_segments.simps(2))
  then show "0 < ps_page_count s" using ts_iter_valid PageSlice_Inr by blast
qed

section \<open>Properties\<close>

text \<open>
  C7: A snapshot that passes the coverage check is complete and unambiguous: its span is a positive
  multiple of the alignment, its layout digest is this worker's, the pages its files hold for each
  layer of each group are, in order, exactly \<open>0, 1, \<dots>\<close> up to the number of pages the reuse policy
  of the group requires at that span (no gap, no overlap, nothing missing, nothing extra), and every
  slice belongs to a layer of the layout and has that layer's bytes per page.
\<close>

theorem accepted_manifest_covers:
  assumes "valid_layout L" and "validate_manifest_coverage sha enc L m = Inr ()"
    and "\<forall>s \<in> set (snapshot_slices m). 0 < ps_page_count s"
  shows "0 < sn_span_tokens m \<and> alignment_tokens L dvd sn_span_tokens m
    \<and> layout_digest sha enc L = Inr (sn_layout_digest m)
    \<and> (\<forall>i < length (groups L). \<forall>l \<in> set (gg_layers (groups L ! i)).
         pages_of (int i, lg_name l) (snapshot_slices m) = [0 .. page_count_spec (groups L ! i) (sn_span_tokens m) - 1])
    \<and> (\<forall>s \<in> set (snapshot_slices m). \<exists>i l. i < length (groups L) \<and> l \<in> set (gg_layers (groups L ! i))
         \<and> slice_key s = (int i, lg_name l) \<and> ps_byte_length s = ps_page_count s * lg_page_size_bytes l)"
  using coverage_sound [OF assms] by blast

definition sample_group :: "int \<Rightarrow> string \<Rightarrow> int option \<Rightarrow> group_geometry" where
  "sample_group i policy window =
     \<lparr>group_index = i, gg_spec_name = ''S'', block_size = 16, storage_block_size = 16,
      manager_page_size_bytes = 64, dcp_replicated = False, dcp_shard_count = 1,
      logical_tokens_per_page = 16, reuse_policy = policy, reuse_window_tokens = window,
      running_state_tail_pages = 0, is_eagle_group = False,
      gg_layers = [\<lparr>lg_name = (if i = 0 then ''a'' else ''b''), lg_spec_name = ''S'', lg_page_size_bytes = 64\<rparr>]\<rparr>"

definition sample_layout :: hma_layout where
  "sample_layout = \<lparr>num_manager_blocks = 8, dcp_degree = 1,
     groups = [sample_group 0 ''full'' None, sample_group 1 ''sliding'' (Some 18)], layout_schema = LAYOUT_SCHEMA\<rparr>"

definition sample_snapshot :: token_snapshot where
  "sample_snapshot =
     (let file = \<lambda>q. \<lparr>td_key = [], td_parent = None, td_span_tokens = 0, td_segments = q, td_byte_length = 1,
            td_sha256 = [], td_payload_offset = 0, td_metadata_digest = [], td_kind = [], td_block_sha256 = []\<rparr>
      in \<lparr>sn_entry_id = [], sn_span_tokens = 64, sn_profile = VLLM_RUNTIME_KV_PROFILE,
          sn_layout_digest = hex_of (json_text (key_sorted (layout_payload group_dict sample_layout))),
          sn_objects = map file (chain_segments sample_layout 32 2)\<rparr>)"

lemma sample_layout_valid: "valid_layout sample_layout" "alignment_tokens sample_layout = 16"
  by code_simp+

lemma sample_digest: "layout_digest sha sample_encoder sample_layout = Inr (hex_of (sha (json_text (key_sorted (layout_payload group_dict sample_layout)))))"
proof -
  have "encodable sample_encoder (layout_payload group_dict sample_layout)" by code_simp
  then show ?thesis unfolding layout_digest_def by (intro sha256_json_plain plain_layout_payload) simp_all
qed

lemma sample_snapshot_accepted: "validate_manifest_coverage (\<lambda>x. x) sample_encoder sample_layout sample_snapshot = Inr ()"
  by (rule chain_accepted [of _ 2 32])
    (simp_all add: sample_layout_valid sample_digest sample_snapshot_def Let_def comp_def layout_profile_def)

lemma sample_page_count: "selected_page_count (sample_group 1 ''sliding'' (Some 18)) 64 = Inr 2"
proof -
  have "valid_group (groups sample_layout ! 1)"
    using valid_layoutD(1) [OF sample_layout_valid(1)] by (simp add: list_all_iff sample_layout_def)
  then have "valid_group (sample_group 1 ''sliding'' (Some 18))" by (simp add: sample_layout_def)
  moreover have "page_count_spec (sample_group 1 ''sliding'' (Some 18)) 64 = 2" by code_simp
  ultimately show ?thesis by (simp add: selected_page_count_spec) (simp add: sample_group_def)
qed

theorem accepted_manifest_covers_witness:
  "pages_of (0, ''a'') (snapshot_slices sample_snapshot) = [0, 1, 2, 3]
   \<and> pages_of (1, ''b'') (snapshot_slices sample_snapshot) = [0, 1]"
proof -
  have "\<forall>s \<in> set (snapshot_slices sample_snapshot). 0 < ps_page_count s"
    by (rule derived_slices_pos) (auto simp: sample_snapshot_def chain_segments_def)
  note cover = accepted_manifest_covers [OF sample_layout_valid(1) sample_snapshot_accepted this]
  have "sn_span_tokens sample_snapshot = 64" by (simp add: sample_snapshot_def Let_def)
  moreover have "page_count_spec (groups sample_layout ! 0) 64 = 4" "page_count_spec (groups sample_layout ! 1) 64 = 2"
    by code_simp+
  moreover have "[0 .. 4 - 1 :: int] = [0, 1, 2, 3]" "[0 .. 2 - 1 :: int] = [0, 1]" by code_simp+
  ultimately show ?thesis
    using conjunct1 [OF conjunct2 [OF conjunct2 [OF conjunct2 [OF cover]]]]
    by (simp add: sample_layout_def sample_group_def less_Suc_eq numeral_2_eq_2 all_conj_distrib)
qed

text \<open>
  C8: A complete chain is always accepted: for a valid layout and a positive chunk size that is a
  multiple of its alignment, the snapshot made of one data file per chunk and, when the layout has a
  group that is not fully retained, one boundary-state file passes the coverage check, so a
  published prefix is never lost to its own manifest check.
\<close>

theorem complete_chain_accepted:
  assumes "valid_layout L" and "0 < n" and "0 < chunk" and "alignment_tokens L dvd chunk"
    and "sn_profile m = layout_profile L" and "layout_digest sha enc L = Inr (sn_layout_digest m)"
    and "sn_span_tokens m = int n * chunk" and "map td_segments (sn_objects m) = chain_segments L chunk n"
  shows "validate_manifest_coverage sha enc L m = Inr ()"
  using assms by (rule chain_accepted)

theorem complete_chain_accepted_witness:
  "validate_manifest_coverage (\<lambda>x. x) sample_encoder sample_layout sample_snapshot = Inr ()"
  by (rule complete_chain_accepted [of _ 2 32])
    (simp_all add: sample_layout_valid sample_digest sample_snapshot_def Let_def comp_def layout_profile_def)

text \<open>
  C9: Page selection returns exactly the state a restore at the boundary needs.  A successful
  selection of a valid layout gives, for each group, distinct positive pages, as many as the policy
  requires: a fully retained group every page of the prefix; a sliding group the last pages before
  the boundary, covering the window less one token (or the whole span) with no page too many; an
  aligned recurrent group the running-state page that precedes its speculative tail; a circular
  group its only page.
\<close>

theorem select_physical_pages_correct:
  assumes "valid_layout L" and "select_physical_pages L tables span_tokens = Inr selected"
  shows "length selected = length (groups L) \<and> length tables = length (groups L)
    \<and> (\<forall>i < length (groups L).
         selection_spec (groups L ! i) (tables ! i) span_tokens (selected ! i)
         \<and> int (length (selected ! i)) = page_count_spec (groups L ! i) span_tokens
         \<and> distinct (selected ! i) \<and> (\<forall>p \<in> set (selected ! i). 0 < p))"
proof -
  have len: "length tables = length (groups L)"
    and all: "list_all2 (\<lambda>(g, table) ps. group_select_physical_pages g table span_tokens = Inr ps)
                (zip (groups L) tables) selected"
    using assms(2) by (auto simp: select_physical_pages_def map_result_Inr_iff case_prod_unfold split: if_splits)
  have at: "group_select_physical_pages (groups L ! i) (tables ! i) span_tokens = Inr (selected ! i)"
    if "i < length (groups L)" for i
    using list_all2_nthD [OF all, of i] that len by simp
  have "valid_group (groups L ! i)" if "i < length (groups L)" for i
    using valid_layoutD(1) [OF assms(1)] that by (simp add: list_all_iff)
  note group_selection [OF this at]
  then show ?thesis using list_all2_lengthD [OF all] len by auto
qed

theorem select_physical_pages_correct_witness:
  "selection_spec (groups sample_layout ! 1) (map PyInt [0, 0, 7, 9, 0]) 64 [7, 9]"
proof -
  have "select_physical_pages sample_layout [map PyInt [4, 5, 6, 8], map PyInt [0, 0, 7, 9, 0]] 64
      = Inr [[4, 5, 6, 8], [7, 9]]"
    by (simp add: select_physical_pages_def sample_layout_def group_select_physical_pages_def sample_page_count)
      (simp add: sample_group_def selected_page_count_def checked_pages_def)
  from conjunct2 [OF conjunct2 [OF select_physical_pages_correct [OF sample_layout_valid(1) this]], rule_format, of 1]
  show ?thesis by (simp add: sample_layout_def)
qed

text \<open>
  C14: The alignment of a layout is exact: the page counts of every group are defined at a span
  precisely when the span is a positive multiple of \<open>alignment_tokens\<close>, and are then positive.
\<close>

theorem alignment_exact:
  assumes "valid_layout L"
  shows "((\<exists>counts. selected_page_counts L span_tokens = Inr counts \<and> list_all (\<lambda>c. 0 < c) counts)
           \<longleftrightarrow> 0 < span_tokens \<and> alignment_tokens L dvd span_tokens)
    \<and> (\<not> (0 < span_tokens \<and> alignment_tokens L dvd span_tokens) \<longrightarrow>
           selected_page_counts L span_tokens = Inl LayoutError)"
proof -
  note spec = selected_page_counts_spec [OF valid_layoutD(1,2) [OF assms], of span_tokens]
  have "0 < page_count_spec g span_tokens"
    if "g \<in> set (groups L)" "0 < span_tokens" "alignment_tokens L dvd span_tokens" for g
  proof -
    have "valid_group g" using that valid_layoutD(1) [OF assms] by (simp add: list_all_iff)
    moreover have "reuse_policy g = ''circular_one'' \<or> logical_tokens_per_page g dvd span_tokens"
      using that by (auto simp: alignment_dvd_iff)
    ultimately show ?thesis using page_count_pos(1) [of g span_tokens] that by force
  qed
  then show ?thesis by (auto simp: spec list_all_iff)
qed

theorem alignment_exact_witness: "selected_page_counts sample_layout 40 = Inl LayoutError"
  using alignment_exact [OF sample_layout_valid(1), of 40] by (simp add: sample_layout_valid)

text \<open>
  C13: The layout digests bind what they must and nothing more.  Unless the hash collides on the two
  encodings, two layouts with the same physical digest have the same groups, layers and page bytes
  and the same context-parallel degree; two layouts with the same coordination digest select the
  same physical pages from every block table and share their alignment.  The manager's block
  capacity, which vLLM derives from free memory at boot, never changes a digest.
\<close>

theorem layout_digests_bind:
  assumes "inj_on sha {json_text (key_sorted (layout_payload group_dict L)), json_text (key_sorted (layout_payload group_dict M)),
             json_text (key_sorted (layout_payload (\<lambda>g. PyDict (coordination_fields g)) L)),
             json_text (key_sorted (layout_payload (\<lambda>g. PyDict (coordination_fields g)) M))}"
  shows "(layout_digest sha enc L = Inr h \<and> layout_digest sha enc M = Inr h \<longrightarrow>
           groups L = groups M \<and> dcp_degree L = dcp_degree M \<and> layout_schema L = layout_schema M)
    \<and> (coordination_digest sha enc L = Inr h \<and> coordination_digest sha enc M = Inr h \<longrightarrow>
           select_physical_pages L tables span_tokens = select_physical_pages M tables span_tokens
           \<and> alignment_tokens L = alignment_tokens M)
    \<and> layout_digest sha enc (L\<lparr>num_manager_blocks := n\<rparr>) = layout_digest sha enc L
    \<and> logical_digest sha enc (L\<lparr>num_manager_blocks := n\<rparr>) = logical_digest sha enc L
    \<and> coordination_digest sha enc (L\<lparr>num_manager_blocks := n\<rparr>) = coordination_digest sha enc L"
proof (intro conjI impI)
  let ?c = "\<lambda>g :: group_geometry. PyDict (coordination_fields g)"
  have eq: "key_sorted (layout_payload group_dict L) = key_sorted (layout_payload group_dict M)"
    if "layout_digest sha enc L = Inr h \<and> layout_digest sha enc M = Inr h"
    by (rule sha256_json_inj [OF _ _ that [unfolded layout_digest_def, THEN conjunct1] that [unfolded layout_digest_def, THEN conjunct2] inj_on_subset [OF assms]])
      (auto intro: plain_layout_payload)
  show "dcp_degree L = dcp_degree M" "layout_schema L = layout_schema M" "groups L = groups M"
    if "layout_digest sha enc L = Inr h \<and> layout_digest sha enc M = Inr h"
  proof -
    show "dcp_degree L = dcp_degree M" "layout_schema L = layout_schema M"
      using layout_payload_eqD(1,2) [OF eq [OF that]] by auto
    have "map (\<lambda>g. key_sorted (group_dict g)) (groups L) = map (\<lambda>g. key_sorted (group_dict g)) (groups M)"
      using layout_payload_eqD(3) [OF eq [OF that]] by (simp add: comp_def)
    then show "groups L = groups M" by (rule map_inj_eq [rotated]) (rule group_dict_inj)
  qed
  have "key_sorted (layout_payload ?c L) = key_sorted (layout_payload ?c M)"
    if "coordination_digest sha enc L = Inr h \<and> coordination_digest sha enc M = Inr h"
    by (rule sha256_json_inj [OF _ _ that [unfolded coordination_digest_def, THEN conjunct1] that [unfolded coordination_digest_def, THEN conjunct2] inj_on_subset [OF assms]])
      (auto intro!: plain_layout_payload simp: plain_fields simp del: plain.simps)
  note sel = coordination_selection [OF this]
  show "select_physical_pages L tables span_tokens = select_physical_pages M tables span_tokens"
    "alignment_tokens L = alignment_tokens M"
    if "coordination_digest sha enc L = Inr h \<and> coordination_digest sha enc M = Inr h"
    by (rule sel [OF that])+
qed (simp_all add: layout_digest_def logical_digest_def coordination_digest_def layout_payload_def layout_profile_def)

theorem layout_digests_bind_witness:
  "groups (sample_layout\<lparr>num_manager_blocks := 9\<rparr>) = groups sample_layout
   \<and> layout_digest (\<lambda>x. x) sample_encoder (sample_layout\<lparr>num_manager_blocks := 9\<rparr>) = layout_digest (\<lambda>x. x) sample_encoder sample_layout"
proof -
  let ?M = "sample_layout\<lparr>num_manager_blocks := 9\<rparr>"
  note digest = sample_digest [of "\<lambda>x. x"]
  have same: "layout_digest (\<lambda>x. x) sample_encoder ?M = layout_digest (\<lambda>x. x) sample_encoder sample_layout"
    using layout_digests_bind [of "\<lambda>x. x" sample_layout sample_layout sample_encoder] by simp
  then show ?thesis
    using layout_digests_bind [of "\<lambda>x. x" ?M sample_layout sample_encoder] digest by simp
qed

text \<open>
  C17: Page slices survive their dictionary form, and the shared view of a file's slices is a faithful
  sequence: when iteration completes it yields as many slices as \<open>__len__\<close> says, and \<open>__getitem__\<close>
  returns the slice at that position, from the end for a negative index, and \<open>IndexError\<close> outside.
  A slice index gives the elements of that range in order, the whole sequence reversed for the step
  minus one, and \<open>ValueError\<close> for the step zero.
\<close>

theorem slice_views_roundtrip:
  assumes "PageSlice s = Inr s" and "ts_iter t = (ss, None)"
  shows "page_slice_from_dict (page_slice_dict s) = Inr s \<and> int (length ss) = ts_len t
    \<and> ts_getitem t (At i) = (if 0 \<le> i \<and> i < ts_len t then Inr (Item (ss ! nat i))
                        else if - ts_len t \<le> i \<and> i < 0 then Inr (Item (ss ! nat (i + ts_len t))) else Inl IndexError)
    \<and> (0 \<le> a \<and> a \<le> b \<longrightarrow> ts_getitem t (Slice (Some a) (Some b) None) = Inr (Items (take (nat (b - a)) (drop (nat a) ss))))
    \<and> ts_getitem t (Slice None None (Some (-1))) = Inr (Items (rev ss))
    \<and> ts_getitem t (Slice start stop (Some 0)) = Inl ValueError"
proof -
  have len: "int (length ss) = ts_len t" by (rule ts_iter_length [OF assms(2)])
  have nth: "gen_nth (ts_iter t) (nat j) = Inr (ss ! nat j)" if "0 \<le> j" "j < ts_len t" for j
    using that len by (simp add: gen_nth_def assms(2) nat_less_iff)
  have zero: "py_slice start stop (Some 0) ss = Inl ValueError" by (simp add: py_slice_def)
  show ?thesis
    using PageSlice_from_dict [OF assms(1)] len nth
    by (auto simp: ts_getitem_def Let_def assms(2) and_then_def py_slice_range py_slice_reversed zero)
qed

definition sample_view :: token_segments where
  "sample_view = \<lparr>ts_layout = sample_layout, ts_span_tokens = 64, ts_chunk_tokens = 32, ts_kind = ''state''\<rparr>"

theorem slice_views_roundtrip_witness:
  "ts_getitem sample_view (At (-1)) = Inr (Item (layer_slice (sample_group 1 ''sliding'' (Some 18))
     \<lparr>lg_name = ''b'', lg_spec_name = ''S'', lg_page_size_bytes = 64\<rparr> 0 2))"
proof -
  let ?s = "layer_slice (sample_group 1 ''sliding'' (Some 18)) \<lparr>lg_name = ''b'', lg_spec_name = ''S'', lg_page_size_bytes = 64\<rparr> 0 2"
  have ok: "PageSlice ?s = Inr ?s" "ts_len sample_view = 1" by code_simp+
  have "ts_iter sample_view = ([?s], None)"
    using ts_iter_state [OF valid_layoutD(1) [OF sample_layout_valid(1)], of 64 32] sample_page_count ok(1)
    by (simp add: sample_view_def sample_layout_valid)
      (simp add: sample_layout_def group_slices_def sample_group_def page_count_spec_def exact_window_pages_def)
  then show ?thesis using slice_views_roundtrip [of ?s sample_view "[?s]" "-1" 0 0] ok by simp
qed


end
