(* ===== verification/Hma_Discovery.thy ===== *)
theory Hma_Discovery
  imports Hma
begin

text \<open>
  Runtime layout discovery of \<open>hma.py\<close>: \<open>_optional_bool_capability\<close> to \<open>build_hma_layout\<close>.  The
  objects vLLM passes in are not part of the repository; they are arguments.  Reading an attribute
  with \<open>getattr(object, name, default)\<close> finds nothing, raises, or gives a value (\<open>attr\<close>); a public
  method contract of a cache specification is absent, unreadable, not callable, or a function from
  its arguments to a result (\<open>contract\<close>).  The semantic-kind resolver is a function argument; its
  result is described by its \<open>value\<close> attribute and by itself.
\<close>

section \<open>vLLM objects\<close>

datatype 'a attr = Absent | Raising error | Attr 'a

definition get_attr :: "'a attr \<Rightarrow> 'a \<Rightarrow> 'a result" where
  "get_attr a d = (case a of Absent \<Rightarrow> Inr d | Raising e \<Rightarrow> Inl e | Attr v \<Rightarrow> Inr v)"

datatype 'f contract = NoContract | UnreadableContract error | NotCallable | Contract 'f

text \<open>\<open>max_model_len\<close> is read through \<open>vllm_config.model_config\<close>.\<close>

record vllm_config =
  vc_max_model_len :: "pyval attr"
  vc_max_in_flight_tokens :: "pyval attr"

datatype 's layer_specs = NoSpecs | SpecsRaise error | NotMapping | Specs "(string \<times> 's) list"

datatype kv_spec = KVSpec
  (spec_class: string)
  (spec_attr: "string \<Rightarrow> pyval attr")
  (max_admission_blocks_per_request: "(int \<Rightarrow> int \<Rightarrow> pyval result) contract")
  (max_num_blocks_per_req: "(vllm_config \<Rightarrow> int \<Rightarrow> pyval result) contract")
  (max_memory_usage_bytes: "(vllm_config \<Rightarrow> pyval result) contract")
  (kv_cache_specs: "kv_spec layer_specs")

record runtime_group =
  rg_layer_names :: "string list attr"
  rg_kv_cache_spec :: "kv_spec attr"
  rg_is_eagle_group :: "pyval attr"

record kv_cache_config =
  kc_num_blocks :: "pyval attr"
  kc_groups :: "runtime_group list attr"

text \<open>The resolver: the \<open>value\<close> attribute of what it returns, and the returned object itself.\<close>

type_synonym resolver = "(kv_spec \<Rightarrow> (pyval attr \<times> pyval) result) option"

section \<open>Capabilities\<close>

definition optional_bool_capability :: "kv_spec \<Rightarrow> string \<Rightarrow> bool option result" where
  "optional_bool_capability spec name =
     (case spec_attr spec name of
        Raising e \<Rightarrow> Inl LayoutError
      | Absent \<Rightarrow> Inr None
      | Attr (PyBool b) \<Rightarrow> Inr (Some b)
      | Attr _ \<Rightarrow> Inl LayoutError)"

definition optional_contract :: "'f contract \<Rightarrow> 'f contract result" where
  "optional_contract c = (case c of UnreadableContract e \<Rightarrow> Inl LayoutError | _ \<Rightarrow> Inr c)"

definition prefix_participation_state :: "kv_spec \<Rightarrow> bool option result" where
  "prefix_participation_state spec =
     and_then (optional_bool_capability spec ''participates_in_prefix_caching'') (\<lambda>a.
     and_then (optional_bool_capability spec ''prefix_cacheable'') (\<lambda>b.
       let markers = List.map_filter (\<lambda>x. x) [a, b] in
       if True \<in> set markers \<and> False \<in> set markers then Inl LayoutError
       else if markers = [] then Inr None
       else Inr (Some (hd markers))))"

definition is_non_prefix_state :: "kv_spec \<Rightarrow> bool result" where
  "is_non_prefix_state spec = and_then (prefix_participation_state spec) (\<lambda>s. Inr (s = Some False))"

definition positive_int :: "pyval \<Rightarrow> int result" where
  "positive_int v = (case as_int v of None \<Rightarrow> Inl LayoutError | Some n \<Rightarrow> if n \<le> 0 then Inl LayoutError else Inr n)"

definition nonnegative_int :: "pyval \<Rightarrow> int result" where
  "nonnegative_int v = (case as_int v of None \<Rightarrow> Inl LayoutError | Some n \<Rightarrow> if n < 0 then Inl LayoutError else Inr n)"

text \<open>\<open>except LayoutError: raise; except Exception: raise LayoutError\<close>.\<close>

definition as_layout_error :: "'a result \<Rightarrow> 'a result" where
  "as_layout_error r = (case r of Inl e \<Rightarrow> Inl LayoutError | Inr x \<Rightarrow> Inr x)"

definition check_admission :: "kv_spec \<Rightarrow> vllm_config \<Rightarrow> int \<Rightarrow> unit result" where
  "check_admission spec vllm max_model_len =
     and_then (optional_contract (max_admission_blocks_per_request spec)) (\<lambda>admission.
       case admission of
         NoContract \<Rightarrow> Inr ()
       | Contract f \<Rightarrow>
           and_then (get_attr (vc_max_in_flight_tokens vllm) PyNone) (\<lambda>v.
           and_then (positive_int v) (\<lambda>max_in_flight_tokens.
           and_then (as_layout_error (and_then (f max_in_flight_tokens max_model_len) positive_int)) (\<lambda>admission_blocks.
             if admission_blocks \<noteq> 1 then Inl LayoutError else Inr ())))
       | _ \<Rightarrow> Inl LayoutError)"

definition callable_contract :: "'f contract \<Rightarrow> 'f result" where
  "callable_contract c =
     and_then (optional_contract c) (\<lambda>c. case c of Contract f \<Rightarrow> Inr f | _ \<Rightarrow> Inl LayoutError)"

definition single_page_non_prefix_policy :: "kv_spec \<Rightarrow> vllm_config option \<Rightarrow> (string \<times> int option) result" where
  "single_page_non_prefix_policy spec config =
     (case config of
        None \<Rightarrow> Inl LayoutError
      | Some vllm \<Rightarrow>
          and_then (get_attr (vc_max_model_len vllm) PyNone) (\<lambda>v.
          and_then (positive_int v) (\<lambda>max_model_len.
          and_then (check_admission spec vllm max_model_len) (\<lambda>_.
          and_then (callable_contract (max_num_blocks_per_req spec)) (\<lambda>block_table.
          and_then (callable_contract (max_memory_usage_bytes spec)) (\<lambda>memory_usage.
          and_then (as_layout_error (and_then (block_table vllm max_model_len) positive_int)) (\<lambda>block_table_blocks.
          and_then (as_layout_error (and_then (memory_usage vllm) positive_int)) (\<lambda>memory_bytes.
            if block_table_blocks \<noteq> 1 then Inl LayoutError
            else and_then (get_attr (spec_attr spec ''page_size_bytes'') PyNone) (\<lambda>p.
                 and_then (positive_int p) (\<lambda>page_size_bytes.
                   if memory_bytes \<noteq> page_size_bytes then Inl LayoutError
                   else Inr (''circular_one'', None)))))))))))"

definition public_semantic_kind :: "kv_spec \<Rightarrow> resolver \<Rightarrow> string result" where
  "public_semantic_kind spec res =
     (case res of
        None \<Rightarrow> Inl LayoutError
      | Some f \<Rightarrow>
          and_then (as_layout_error (f spec)) (\<lambda>(value_attr, object).
          and_then (as_layout_error (get_attr value_attr object)) (\<lambda>v.
            case as_str v of None \<Rightarrow> Inl LayoutError
            | Some s \<Rightarrow> if s = [] then Inl LayoutError else Inr s)))"

definition kind_policy :: "kv_spec \<Rightarrow> string \<Rightarrow> (string \<times> int option) result" where
  "kind_policy spec kind =
     (if kind \<in> {''sliding_window'', ''sliding_window_mla''}
      then and_then (get_attr (spec_attr spec ''sliding_window'') PyNone) (\<lambda>v.
           and_then (positive_int v) (\<lambda>window.
             if window \<le> 1 then Inl LayoutError else Inr (''sliding'', Some window)))
      else if kind \<in> {''full_attention'', ''mla_attention''} then Inr (''full'', None)
      else if kind = ''mamba''
      then and_then (get_attr (spec_attr spec ''mamba_cache_mode'') PyNone) (\<lambda>v.
             if v \<noteq> PyStr ''align'' then Inl LayoutError else Inr (''recurrent_align'', None))
      else Inl LayoutError)"

definition reuse_policy_of :: "kv_spec \<Rightarrow> vllm_config option \<Rightarrow> resolver \<Rightarrow> string option \<Rightarrow> (string \<times> int option) result" where
  "reuse_policy_of spec config res declared_kind =
     and_then (is_non_prefix_state spec) (\<lambda>non_prefix.
       if non_prefix then single_page_non_prefix_policy spec config
       else
         and_then (case declared_kind of Some k \<Rightarrow> Inr k | None \<Rightarrow> public_semantic_kind spec res) (kind_policy spec))"

section \<open>Building the layout\<close>

text \<open>The sets \<open>policies\<close> and \<open>recurrent_tail_pages\<close> of the source, as duplicate-free lists.\<close>

record member_scan =
  ms_policies :: "(string \<times> int option) list"
  ms_tails :: "int list"
  ms_layers :: "layer_geometry list"

definition scan_policy ::
  "vllm_config option \<Rightarrow> resolver \<Rightarrow> string option \<Rightarrow> kv_spec \<Rightarrow> member_scan \<Rightarrow> member_scan result" where
  "scan_policy config res declared spec scan =
     and_then (reuse_policy_of spec config res declared) (\<lambda>policy.
       let scan = scan\<lparr>ms_policies := List.insert policy (ms_policies scan)\<rparr> in
       if fst policy = ''recurrent_align''
       then and_then (get_attr (spec_attr spec ''num_speculative_blocks'') (PyInt 0)) (\<lambda>v.
            and_then (nonnegative_int v) (\<lambda>tail.
              Inr (scan\<lparr>ms_tails := List.insert tail (ms_tails scan)\<rparr>)))
       else Inr scan)"

definition scan_layer ::
  "vllm_config option \<Rightarrow> resolver \<Rightarrow> string option \<Rightarrow> int \<Rightarrow> member_scan \<Rightarrow> string \<times> kv_spec \<Rightarrow> member_scan result" where
  "scan_layer config res declared block scan layer =
     (case layer of (name, spec) \<Rightarrow>
       and_then (get_attr (spec_attr spec ''block_size'') (PyInt block)) (\<lambda>b.
       and_then (positive_int b) (\<lambda>layer_block.
         if layer_block \<noteq> block then Inl LayoutError
         else
           and_then (get_attr (spec_attr spec ''page_size_bytes'') PyNone) (\<lambda>p.
           and_then (positive_int p) (\<lambda>page_size.
           and_then (scan_policy config res declared spec scan) (\<lambda>scan.
           and_then (LayerGeometry \<lparr>lg_name = name, lg_spec_name = spec_class spec, lg_page_size_bytes = page_size\<rparr>) (\<lambda>l.
             Inr (scan\<lparr>ms_layers := ms_layers scan @ [l]\<rparr>))))))))"

text \<open>\<open>per_layer[name] if isinstance(per_layer, Mapping) else group_spec\<close>.\<close>

definition member_spec :: "kv_spec \<Rightarrow> (string \<times> kv_spec) list option \<Rightarrow> string \<Rightarrow> kv_spec result" where
  "member_spec group_spec per_layer name =
     (case per_layer of
        None \<Rightarrow> Inr group_spec
      | Some specs \<Rightarrow> (case dict_get specs name of None \<Rightarrow> Inl KeyError | Some spec \<Rightarrow> Inr spec))"

definition scan_members ::
  "vllm_config option \<Rightarrow> resolver \<Rightarrow> string option \<Rightarrow> int \<Rightarrow> string list \<Rightarrow> kv_spec \<Rightarrow>
   (string \<times> kv_spec) list option \<Rightarrow> member_scan result" where
  "scan_members config res declared block names group_spec per_layer =
     (let start = \<lparr>ms_policies = [], ms_tails = [], ms_layers = []\<rparr> in
      if names \<noteq> []
      then fold_result (\<lambda>scan name.
             and_then (member_spec group_spec per_layer name) (\<lambda>spec.
               scan_layer config res declared block scan (name, spec))) start names
      else fold_result (\<lambda>scan spec. scan_policy config res declared spec scan) start
             (case per_layer of
                Some specs \<Rightarrow> if specs = [] then [group_spec] else map snd specs
              | None \<Rightarrow> [group_spec]))"

definition check_group_pages ::
  "vllm_config option \<Rightarrow> kv_spec \<Rightarrow> (string \<times> kv_spec) list option \<Rightarrow> bool option \<Rightarrow> string option \<Rightarrow>
   string \<Rightarrow> string list \<Rightarrow> int \<Rightarrow> layer_geometry list \<Rightarrow> unit result" where
  "check_group_pages config group_spec per_layer prefix_state declared policy names manager_page layers =
     (case per_layer of
        Some specs \<Rightarrow>
          if (prefix_state = Some False \<and> policy \<noteq> ''circular_one'')
             \<or> (prefix_state = Some True \<and> policy = ''circular_one'')
             \<or> (declared \<noteq> None \<and> policy = ''circular_one'')
          then Inl LayoutError
          else
            and_then (if policy = ''circular_one''
                      then and_then (single_page_non_prefix_policy group_spec config) (\<lambda>_. Inr ())
                      else Inr ()) (\<lambda>_.
              if names \<noteq> [] \<and> manager_page \<noteq> sum_list (map lg_page_size_bytes layers)
              then Inl LayoutError else Inr ())
      | None \<Rightarrow>
          if names \<noteq> [] \<and> list_ex (\<lambda>l. lg_page_size_bytes l \<noteq> manager_page) layers
          then Inl LayoutError else Inr ())"

definition read_specs :: "kv_spec \<Rightarrow> (string \<times> kv_spec) list option result" where
  "read_specs spec =
     (case kv_cache_specs spec of
        NoSpecs \<Rightarrow> Inr None
      | SpecsRaise e \<Rightarrow> Inl e
      | NotMapping \<Rightarrow> Inl LayoutError
      | Specs specs \<Rightarrow> Inr (Some specs))"

definition bool_flag :: "pyval attr \<Rightarrow> pyval result" where
  "bool_flag a = get_attr a (PyBool False)"

definition finish_group ::
  "int \<Rightarrow> runtime_group \<Rightarrow> kv_spec \<Rightarrow> int \<Rightarrow> int \<Rightarrow> int \<Rightarrow> int \<Rightarrow> string \<times> int option \<Rightarrow> int \<Rightarrow>
   layer_geometry list \<Rightarrow> group_geometry result" where
  "finish_group dcp rg spec index block storage manager_page policy tail layers =
     and_then (bool_flag (spec_attr spec ''dcp_replicated'')) (\<lambda>replicated_raw.
     and_then (bool_flag (rg_is_eagle_group rg)) (\<lambda>eagle_raw.
       case (replicated_raw, eagle_raw) of
         (PyBool replicated, PyBool eagle) \<Rightarrow>
           let shards = (if replicated then 1 else dcp) in
           GroupGeometry
             \<lparr>group_index = index, gg_spec_name = spec_class spec, block_size = block,
              storage_block_size = storage, manager_page_size_bytes = manager_page,
              dcp_replicated = replicated, dcp_shard_count = shards,
              logical_tokens_per_page = block * shards, reuse_policy = fst policy,
              reuse_window_tokens = snd policy, running_state_tail_pages = tail,
              is_eagle_group = eagle, gg_layers = layers\<rparr>
       | _ \<Rightarrow> Inl LayoutError))"

definition build_group_with ::
  "int \<Rightarrow> vllm_config option \<Rightarrow> resolver \<Rightarrow> int \<Rightarrow> runtime_group \<Rightarrow> string list \<Rightarrow> kv_spec \<Rightarrow> group_geometry result" where
  "build_group_with dcp config res index rg names spec =
     and_then (and_then (get_attr (spec_attr spec ''block_size'') PyNone) positive_int) (\<lambda>block.
     and_then (and_then (get_attr (spec_attr spec ''storage_block_size'') (PyInt block)) positive_int) (\<lambda>storage.
     and_then (and_then (get_attr (spec_attr spec ''page_size_bytes'') PyNone) positive_int) (\<lambda>manager_page.
     and_then (read_specs spec) (\<lambda>per_layer.
       if (case per_layer of None \<Rightarrow> False
           | Some specs \<Rightarrow> names \<noteq> [] \<and> set (map fst specs) \<noteq> set names)
       then Inl LayoutError
       else
         and_then (prefix_participation_state spec) (\<lambda>prefix_state.
         and_then (if per_layer \<noteq> None \<and> prefix_state \<noteq> Some False
                   then and_then (public_semantic_kind spec res) (\<lambda>kind.
                          Inr (if kind \<noteq> ''unknown'' then Some kind else None))
                   else Inr None) (\<lambda>declared.
         and_then (scan_members config res declared block names spec per_layer) (\<lambda>scan.
           case ms_policies scan of
             [policy] \<Rightarrow>
               and_then (if fst policy = ''recurrent_align''
                         then (case ms_tails scan of [tail] \<Rightarrow> Inr tail | _ \<Rightarrow> Inl LayoutError)
                         else Inr 0) (\<lambda>tail.
               and_then (check_group_pages config spec per_layer prefix_state declared (fst policy) names
                           manager_page (ms_layers scan)) (\<lambda>_.
                 finish_group dcp rg spec index block storage manager_page policy tail (ms_layers scan)))
           | _ \<Rightarrow> Inl LayoutError)))))))"

definition build_group ::
  "int \<Rightarrow> vllm_config option \<Rightarrow> resolver \<Rightarrow> group_geometry list \<times> string set \<Rightarrow> int \<times> runtime_group \<Rightarrow>
   (group_geometry list \<times> string set) result" where
  "build_group dcp config res state item =
     (case (state, item) of ((built, assigned), (index, rg)) \<Rightarrow>
       and_then (get_attr (rg_layer_names rg) []) (\<lambda>raw_names.
         let names = sort raw_names in
         if \<not> distinct names then Inl LayoutError
         else if assigned \<inter> set names \<noteq> {} then Inl LayoutError
         else
           case rg_kv_cache_spec rg of
             Raising e \<Rightarrow> Inl e
           | Absent \<Rightarrow> Inl LayoutError
           | Attr spec \<Rightarrow>
               and_then (build_group_with dcp config res index rg names spec) (\<lambda>g.
                 Inr (built @ [g], assigned \<union> set names))))"

definition build_hma_layout ::
  "kv_cache_config \<Rightarrow> pyval \<Rightarrow> vllm_config option \<Rightarrow> resolver \<Rightarrow> hma_layout result" where
  "build_hma_layout kv dcp_degree_raw config res =
     and_then (positive_int dcp_degree_raw) (\<lambda>dcp.
     and_then (and_then (get_attr (kc_num_blocks kv) PyNone) positive_int) (\<lambda>num_blocks.
     and_then (get_attr (kc_groups kv) []) (\<lambda>runtime_groups.
       if runtime_groups = [] then Inl LayoutError
       else
         and_then (fold_result (build_group dcp config res) ([], {})
                     (zip (map int [0..<length runtime_groups]) runtime_groups)) (\<lambda>(built, _).
           HMALayout \<lparr>num_manager_blocks = num_blocks, dcp_degree = dcp, groups = built, layout_schema = LAYOUT_SCHEMA\<rparr>))))"

section \<open>What a policy proves\<close>

lemma get_attr_Inr: "get_attr a d = Inr v \<longleftrightarrow> a = Attr v \<or> a = Absent \<and> v = d"
  by (cases a) (auto simp: get_attr_def)

lemma positive_int_Inr [simp]: "positive_int v = Inr n \<longleftrightarrow> v = PyInt n \<and> 0 < n"
  by (cases v) (auto simp: positive_int_def)

lemma nonnegative_int_Inr [simp]: "nonnegative_int v = Inr n \<longleftrightarrow> v = PyInt n \<and> 0 \<le> n"
  by (cases v) (auto simp: nonnegative_int_def)

lemma as_layout_error_Inr [simp]: "as_layout_error r = Inr x \<longleftrightarrow> r = Inr x"
  by (cases r) (auto simp: as_layout_error_def)

lemma callable_contract_Inr [simp]: "callable_contract c = Inr f \<longleftrightarrow> c = Contract f"
  by (cases c) (auto simp: callable_contract_def optional_contract_def)

text \<open>
  The evidence behind each policy: the contracts of a scratch group put one page in its block table
  and that page's bytes in its memory bound; the others rest on the public kind and its parameters.
\<close>

definition single_page_evidence :: "kv_spec \<Rightarrow> vllm_config option \<Rightarrow> bool" where
  "single_page_evidence spec config \<longleftrightarrow>
     (\<exists>vllm max_model_len block_table memory page.
        config = Some vllm \<and> vc_max_model_len vllm = Attr (PyInt max_model_len) \<and> 0 < max_model_len
        \<and> max_num_blocks_per_req spec = Contract block_table \<and> block_table vllm max_model_len = Inr (PyInt 1)
        \<and> max_memory_usage_bytes spec = Contract memory \<and> memory vllm = Inr (PyInt page)
        \<and> spec_attr spec ''page_size_bytes'' = Attr (PyInt page) \<and> 0 < page
        \<and> (\<forall>f. max_admission_blocks_per_request spec = Contract f \<longrightarrow>
             (\<exists>tokens. vc_max_in_flight_tokens vllm = Attr (PyInt tokens) \<and> f tokens max_model_len = Inr (PyInt 1))))"

definition policy_evidence :: "kv_spec \<Rightarrow> vllm_config option \<Rightarrow> string \<Rightarrow> string \<times> int option \<Rightarrow> bool" where
  "policy_evidence spec config kind policy \<longleftrightarrow>
     policy = (''circular_one'', None) \<and> prefix_participation_state spec = Inr (Some False)
       \<and> single_page_evidence spec config
     \<or> prefix_participation_state spec \<noteq> Inr (Some False)
       \<and> (kind \<in> {''full_attention'', ''mla_attention''} \<and> policy = (''full'', None)
          \<or> kind = ''mamba'' \<and> policy = (''recurrent_align'', None)
            \<and> spec_attr spec ''mamba_cache_mode'' = Attr (PyStr ''align'')
          \<or> kind \<in> {''sliding_window'', ''sliding_window_mla''}
            \<and> (\<exists>w. policy = (''sliding'', Some w) \<and> 1 < w \<and> spec_attr spec ''sliding_window'' = Attr (PyInt w)))"

lemma single_page_Inr:
  assumes "single_page_non_prefix_policy spec config = Inr policy"
  shows "policy = (''circular_one'', None)" "single_page_evidence spec config"
proof -
  obtain vllm where config: "config = Some vllm"
    using assms by (auto simp: single_page_non_prefix_policy_def split: option.splits)
  obtain n bt mem page where n: "vc_max_model_len vllm = Attr (PyInt n)" "0 < n"
    and adm: "check_admission spec vllm n = Inr ()"
    and bt: "max_num_blocks_per_req spec = Contract bt" "bt vllm n = Inr (PyInt 1)"
    and mem: "max_memory_usage_bytes spec = Contract mem" "mem vllm = Inr (PyInt page)" "0 < page"
    and page: "spec_attr spec ''page_size_bytes'' = Attr (PyInt page)"
    and pol: "policy = (''circular_one'', None)"
    using assms
    by (auto simp: single_page_non_prefix_policy_def config and_then_Inr_iff get_attr_Inr split: if_splits)
  have "\<exists>tokens. vc_max_in_flight_tokens vllm = Attr (PyInt tokens) \<and> f tokens n = Inr (PyInt 1)"
    if "max_admission_blocks_per_request spec = Contract f" for f
    using adm that by (auto simp: check_admission_def optional_contract_def and_then_Inr_iff get_attr_Inr split: if_splits)
  then show "single_page_evidence spec config"
    unfolding single_page_evidence_def using config n bt mem page by blast
  show "policy = (''circular_one'', None)" by (rule pol)
qed

lemma kind_policy_evidence:
  assumes "kind_policy spec kind = Inr policy" "prefix_participation_state spec \<noteq> Inr (Some False)"
  shows "policy_evidence spec config kind policy"
proof -
  consider (sliding) "kind \<in> {''sliding_window'', ''sliding_window_mla''}"
    | (full) "kind \<in> {''full_attention'', ''mla_attention''}" "kind \<notin> {''sliding_window'', ''sliding_window_mla''}"
    | (mamba) "kind = ''mamba''"
    using assms(1) by (auto simp: kind_policy_def split: if_splits)
  then show ?thesis
  proof cases
    case sliding
    have "\<exists>w. policy = (''sliding'', Some w) \<and> 1 < w \<and> spec_attr spec ''sliding_window'' = Attr (PyInt w)"
      using assms(1) unfolding kind_policy_def if_P [OF sliding] and_then_Inr_iff get_attr_Inr positive_int_Inr if_Inl_Inr_iff
      by (elim exE conjE) simp
    then show ?thesis unfolding policy_evidence_def by (intro disjI2 conjI assms(2) sliding)
  next
    case full
    have "policy = (''full'', None)"
      using assms(1) unfolding kind_policy_def if_P [OF full(1)] if_not_P [OF full(2)] by simp
    then show ?thesis unfolding policy_evidence_def by (intro disjI2 [OF conjI [OF assms(2) disjI1]] conjI full(1))
  next
    case mamba
    then have "spec_attr spec ''mamba_cache_mode'' = Attr (PyStr ''align'')" "policy = (''recurrent_align'', None)"
      using assms(1) by (auto simp: kind_policy_def and_then_Inr_iff get_attr_Inr split: if_splits)
    then show ?thesis
      unfolding policy_evidence_def by (intro disjI2 [OF conjI [OF assms(2) disjI2 [OF disjI1]]] conjI mamba)
  qed
qed

lemma reuse_policy_evidence:
  assumes "reuse_policy_of spec config res declared = Inr policy"
  obtains kind where "declared = Some kind \<or> declared = None \<and> public_semantic_kind spec res = Inr kind
      \<or> fst policy = ''circular_one''" "policy_evidence spec config kind policy"
proof -
  obtain st where st: "prefix_participation_state spec = Inr st"
    using assms by (auto simp: reuse_policy_of_def is_non_prefix_state_def and_then_Inr_iff)
  show thesis
  proof (cases "st = Some False")
    case True
    then have "single_page_non_prefix_policy spec config = Inr policy"
      using assms st by (simp add: reuse_policy_of_def is_non_prefix_state_def)
    note ev = single_page_Inr [OF this]
    show thesis
    proof (rule that)
      show "policy_evidence spec config [] policy" using ev st True by (simp add: policy_evidence_def)
    qed (use ev in simp)
  next
    case False
    then obtain kind where kind: "(case declared of Some k \<Rightarrow> Inr k | None \<Rightarrow> public_semantic_kind spec res) = Inr kind"
      and body: "kind_policy spec kind = Inr policy"
      using assms st by (auto simp: reuse_policy_of_def is_non_prefix_state_def and_then_Inr_iff)
    have "policy_evidence spec config kind policy"
      using st False by (intro kind_policy_evidence [OF body]) simp
    moreover have "declared = Some kind \<or> declared = None \<and> public_semantic_kind spec res = Inr kind"
      using kind by (cases declared) auto
    ultimately show thesis using that by blast
  qed
qed

section \<open>What a built group is\<close>

lemma scan_policy_Inr:
  assumes "scan_policy config res declared spec scan = Inr scan'"
  obtains policy where "reuse_policy_of spec config res declared = Inr policy"
    "ms_policies scan' = List.insert policy (ms_policies scan)" "ms_layers scan' = ms_layers scan"
    "\<forall>t \<in> set (ms_tails scan). 0 \<le> t \<Longrightarrow> \<forall>t \<in> set (ms_tails scan'). 0 \<le> t"
  using assms by (auto simp: scan_policy_def and_then_Inr_iff Let_def split: if_splits)

lemma scan_layer_Inr:
  assumes "scan_layer config res declared block scan (name, spec) = Inr scan'"
  obtains policy l where "reuse_policy_of spec config res declared = Inr policy"
    "ms_policies scan' = List.insert policy (ms_policies scan)" "ms_layers scan' = ms_layers scan @ [l]"
    "LayerGeometry l = Inr l" "lg_name l = name"
    "\<forall>t \<in> set (ms_tails scan). 0 \<le> t \<Longrightarrow> \<forall>t \<in> set (ms_tails scan'). 0 \<le> t"
proof -
  obtain scan1 l0 l where s: "scan_policy config res declared spec scan = Inr scan1"
    and l: "LayerGeometry l0 = Inr l" "lg_name l0 = name" and s': "scan' = scan1\<lparr>ms_layers := ms_layers scan1 @ [l]\<rparr>"
    using assms by (auto simp: scan_layer_def and_then_Inr_iff split: if_splits)
  have "l = l0" using l(1) by (auto simp: LayerGeometry_def split: if_splits)
  show thesis
  proof (rule scan_policy_Inr [OF s])
    fix policy
    assume a: "reuse_policy_of spec config res declared = Inr policy"
      "ms_policies scan1 = List.insert policy (ms_policies scan)" "ms_layers scan1 = ms_layers scan"
      "\<forall>t \<in> set (ms_tails scan). 0 \<le> t \<Longrightarrow> \<forall>t \<in> set (ms_tails scan1). 0 \<le> t"
    show thesis by (rule that [of policy l]) (use a l \<open>l = l0\<close> in \<open>simp_all add: s'\<close>)
  qed
qed

definition scan_inv :: "member_scan \<Rightarrow> bool" where
  "scan_inv scan \<longleftrightarrow> (\<forall>t \<in> set (ms_tails scan). 0 \<le> t) \<and> list_all (\<lambda>l. LayerGeometry l = Inr l) (ms_layers scan)"

lemma scan_names:
  assumes "fold_result (\<lambda>scan name. and_then (member_spec spec per_layer name) (\<lambda>m.
             scan_layer config res declared block scan (name, m))) scan names = Inr scan'" "scan_inv scan"
  shows "scan_inv scan' \<and> map lg_name (ms_layers scan') = map lg_name (ms_layers scan) @ names
    \<and> set (ms_policies scan) \<subseteq> set (ms_policies scan')
    \<and> (\<forall>name \<in> set names. \<exists>m policy. member_spec spec per_layer name = Inr m
         \<and> reuse_policy_of m config res declared = Inr policy \<and> policy \<in> set (ms_policies scan'))"
  using assms
proof (induction names arbitrary: scan)
  case (Cons name names)
  then obtain m scan1 where m: "member_spec spec per_layer name = Inr m"
    and s: "scan_layer config res declared block scan (name, m) = Inr scan1"
    and rest: "fold_result (\<lambda>scan name. and_then (member_spec spec per_layer name) (\<lambda>m.
             scan_layer config res declared block scan (name, m))) scan1 names = Inr scan'"
    by (auto simp: and_then_Inr_iff)
  show ?case
  proof (rule scan_layer_Inr [OF s])
    fix policy l
    assume a: "reuse_policy_of m config res declared = Inr policy"
      "ms_policies scan1 = List.insert policy (ms_policies scan)" "ms_layers scan1 = ms_layers scan @ [l]"
      "LayerGeometry l = Inr l" "lg_name l = name"
      "\<forall>t \<in> set (ms_tails scan). 0 \<le> t \<Longrightarrow> \<forall>t \<in> set (ms_tails scan1). 0 \<le> t"
    have "scan_inv scan1" using Cons.prems(2) a by (simp add: scan_inv_def)
    from Cons.IH [OF rest this] show ?thesis using m a by (auto simp del: split_paired_Ex)
  qed
qed simp

lemma scan_specs:
  assumes "fold_result (\<lambda>scan m. scan_policy config res declared m scan) scan specs = Inr scan'" "scan_inv scan"
  shows "scan_inv scan' \<and> ms_layers scan' = ms_layers scan"
  using assms
proof (induction specs arbitrary: scan)
  case (Cons m specs)
  then obtain scan1 where s: "scan_policy config res declared m scan = Inr scan1"
    and rest: "fold_result (\<lambda>scan m. scan_policy config res declared m scan) scan1 specs = Inr scan'"
    by (auto simp: and_then_Inr_iff)
  show ?case
  proof (rule scan_policy_Inr [OF s])
    assume a: "ms_layers scan1 = ms_layers scan"
      "\<forall>t \<in> set (ms_tails scan). 0 \<le> t \<Longrightarrow> \<forall>t \<in> set (ms_tails scan1). 0 \<le> t"
    have "scan_inv scan1" using Cons.prems(2) a by (simp add: scan_inv_def)
    from Cons.IH [OF rest this] show ?thesis using a by simp
  qed
qed simp

lemma scan_members_Inr:
  assumes "scan_members config res declared block names spec per_layer = Inr scan"
  shows "scan_inv scan" "map lg_name (ms_layers scan) = names"
    "name \<in> set names \<Longrightarrow> \<exists>m policy. member_spec spec per_layer name = Inr m
         \<and> reuse_policy_of m config res declared = Inr policy \<and> policy \<in> set (ms_policies scan)"
proof -
  have start: "scan_inv \<lparr>ms_policies = [], ms_tails = [], ms_layers = []\<rparr>" by (simp add: scan_inv_def)
  have "scan_inv scan \<and> map lg_name (ms_layers scan) = names \<and> (\<forall>name \<in> set names. \<exists>m policy. member_spec spec per_layer name = Inr m
         \<and> reuse_policy_of m config res declared = Inr policy \<and> policy \<in> set (ms_policies scan))"
  proof (cases "names = []")
    case True
    then show ?thesis using assms scan_specs [OF _ start] by (fastforce simp: scan_members_def Let_def)
  next
    case False
    then show ?thesis
      using assms scan_names [OF _ start, of spec per_layer config res declared block names scan]
      by (simp add: scan_members_def Let_def)
  qed
  then show "scan_inv scan" "map lg_name (ms_layers scan) = names"
    "name \<in> set names \<Longrightarrow> \<exists>m policy. member_spec spec per_layer name = Inr m
         \<and> reuse_policy_of m config res declared = Inr policy \<and> policy \<in> set (ms_policies scan)" by auto
qed

lemma finish_group_Inr:
  assumes "finish_group dcp rg spec index block storage manager_page policy tail layers = Inr g"
  shows "GroupGeometry g = Inr g" "group_index g = index" "gg_layers g = layers"
    "(reuse_policy g, reuse_window_tokens g) = policy" "dcp_shard_count g = (if dcp_replicated g then 1 else dcp)"
proof -
  obtain a b where flags: "bool_flag (spec_attr spec ''dcp_replicated'') = Inr a" "bool_flag (rg_is_eagle_group rg) = Inr b"
    using assms by (auto simp: finish_group_def and_then_Inr_iff)
  then obtain r e where "a = PyBool r" "b = PyBool e"
    using assms by (cases a; cases b) (auto simp: finish_group_def)
  then obtain g' where "GroupGeometry g' = Inr g" and g': "group_index g' = index" "gg_layers g' = layers"
    "(reuse_policy g', reuse_window_tokens g') = policy" "dcp_shard_count g' = (if dcp_replicated g' then 1 else dcp)"
    using assms flags by (auto simp: finish_group_def Let_def)
  moreover have "g = g'" using \<open>GroupGeometry g' = Inr g\<close> by (rule GroupGeometry_Inr(1))
  ultimately show "GroupGeometry g = Inr g" "group_index g = index" "gg_layers g = layers"
    "(reuse_policy g, reuse_window_tokens g) = policy" "dcp_shard_count g = (if dcp_replicated g then 1 else dcp)" by simp_all
qed

text \<open>
  A layer's semantic kind is the one its group declares, when vLLM can classify the group, and
  otherwise its own.
\<close>

definition kind_source :: "kv_spec \<Rightarrow> kv_spec \<Rightarrow> resolver \<Rightarrow> string \<Rightarrow> bool" where
  "kind_source group_spec member res kind \<longleftrightarrow>
     public_semantic_kind group_spec res = Inr kind \<or> public_semantic_kind member res = Inr kind"

definition group_evidence :: "vllm_config option \<Rightarrow> resolver \<Rightarrow> kv_spec \<Rightarrow> group_geometry \<Rightarrow> bool" where
  "group_evidence config res spec g \<longleftrightarrow>
     (\<exists>per_layer. read_specs spec = Inr per_layer
        \<and> (\<forall>l \<in> set (gg_layers g). \<exists>m kind. member_spec spec per_layer (lg_name l) = Inr m
             \<and> policy_evidence m config kind (reuse_policy g, reuse_window_tokens g)
             \<and> (reuse_policy g \<noteq> ''circular_one'' \<longrightarrow> kind_source spec m res kind))
        \<and> (per_layer \<noteq> None \<and> reuse_policy g = ''circular_one'' \<longrightarrow> single_page_evidence spec config))"

lemma build_group_with_Inr:
  assumes "build_group_with dcp config res index rg names spec = Inr g"
  shows "GroupGeometry g = Inr g" "group_index g = index" "map lg_name (gg_layers g) = names"
    "list_all (\<lambda>l. LayerGeometry l = Inr l) (gg_layers g)" "group_evidence config res spec g"
    "dcp_shard_count g = (if dcp_replicated g then 1 else dcp)"
proof -
  obtain block storage manager_page per_layer prefix_state declared scan
    where per: "read_specs spec = Inr per_layer"
      and decl: "(if per_layer \<noteq> None \<and> prefix_state \<noteq> Some False
                   then and_then (public_semantic_kind spec res) (\<lambda>kind.
                          Inr (if kind \<noteq> ''unknown'' then Some kind else None))
                   else Inr None) = Inr declared"
      and scan: "scan_members config res declared block names spec per_layer = Inr scan"
      and rest: "(case ms_policies scan of
             [policy] \<Rightarrow>
               and_then (if fst policy = ''recurrent_align''
                         then (case ms_tails scan of [tail] \<Rightarrow> Inr tail | _ \<Rightarrow> Inl LayoutError)
                         else Inr 0) (\<lambda>tail.
               and_then (check_group_pages config spec per_layer prefix_state declared (fst policy) names
                           manager_page (ms_layers scan)) (\<lambda>_.
                 finish_group dcp rg spec index block storage manager_page policy tail (ms_layers scan)))
           | _ \<Rightarrow> Inl LayoutError) = Inr g"
    using assms unfolding build_group_with_def and_then_Inr_iff if_Inl_Inr_iff by blast
  obtain policy where one: "ms_policies scan = [policy]"
    using rest by (auto split: list.splits)
  obtain tail where check: "check_group_pages config spec per_layer prefix_state declared (fst policy) names manager_page (ms_layers scan) = Inr ()"
    and fin: "finish_group dcp rg spec index block storage manager_page policy tail (ms_layers scan) = Inr g"
    using rest by (auto simp: one and_then_Inr_iff)
  note g = finish_group_Inr [OF fin] and scanned = scan_members_Inr [OF scan]
  show "GroupGeometry g = Inr g" "group_index g = index" "map lg_name (gg_layers g) = names"
    "dcp_shard_count g = (if dcp_replicated g then 1 else dcp)" using g scanned by auto
  show "list_all (\<lambda>l. LayerGeometry l = Inr l) (gg_layers g)" using scanned(1) g(3) by (simp add: scan_inv_def)
  have kind: "kind_source spec m res k" if "declared = Some k \<or> declared = None \<and> public_semantic_kind m res = Inr k" for m k
    using that decl by (auto simp: kind_source_def and_then_Inr_iff split: if_splits)
  have member: "\<exists>m kind. member_spec spec per_layer (lg_name l) = Inr m
             \<and> policy_evidence m config kind (reuse_policy g, reuse_window_tokens g)
             \<and> (reuse_policy g \<noteq> ''circular_one'' \<longrightarrow> kind_source spec m res kind)" if l: "l \<in> set (gg_layers g)" for l
  proof -
    have "lg_name l \<in> set names" using l g(3) scanned(2) by auto
    then obtain m where m: "member_spec spec per_layer (lg_name l) = Inr m" "reuse_policy_of m config res declared = Inr policy"
      using scanned(3) one by fastforce
    show ?thesis
    proof (rule reuse_policy_evidence [OF m(2)])
      fix k
      assume k: "declared = Some k \<or> declared = None \<and> public_semantic_kind m res = Inr k \<or> fst policy = ''circular_one''"
        "policy_evidence m config k policy"
      have "reuse_policy g = fst policy" using g(4) by auto
      then show ?thesis using m(1) k g(4) kind by auto
    qed
  qed
  have "single_page_evidence spec config" if "per_layer \<noteq> None \<and> reuse_policy g = ''circular_one''"
  proof -
    have "fst policy = ''circular_one''" using that g(4) by auto
    then show ?thesis
      using check that single_page_Inr(2) by (auto simp: check_group_pages_def and_then_Inr_iff split: option.splits if_splits)
  qed
  with member per show "group_evidence config res spec g" unfolding group_evidence_def by blast
qed

section \<open>Where the sizes come from\<close>

text \<open>
  The geometry of a layer is read from the specification vLLM gives for it: its own in a group of
  per-layer specifications, the group's otherwise.  The speculative tail belongs to the policy.
\<close>

definition layer_source :: "int \<Rightarrow> kv_spec \<Rightarrow> layer_geometry \<Rightarrow> bool" where
  "layer_source block m l \<longleftrightarrow>
     get_attr (spec_attr m ''block_size'') (PyInt block) = Inr (PyInt block)
     \<and> spec_attr m ''page_size_bytes'' = Attr (PyInt (lg_page_size_bytes l)) \<and> lg_spec_name l = spec_class m"

definition tail_source :: "kv_spec \<Rightarrow> int list \<Rightarrow> bool" where
  "tail_source m tails \<longleftrightarrow> (\<exists>tail \<in> set tails. get_attr (spec_attr m ''num_speculative_blocks'') (PyInt 0) = Inr (PyInt tail))"

lemma scan_policy_tail:
  assumes "scan_policy config res declared spec scan = Inr scan'"
  obtains policy where "ms_policies scan' = List.insert policy (ms_policies scan)" "set (ms_tails scan) \<subseteq> set (ms_tails scan')"
    "fst policy = ''recurrent_align'' \<Longrightarrow> tail_source spec (ms_tails scan')" "ms_layers scan' = ms_layers scan"
proof -
  obtain policy where "reuse_policy_of spec config res declared = Inr policy"
    using assms by (auto simp: scan_policy_def and_then_Inr_iff)
  then show thesis
    using assms that [of policy] by (auto simp: scan_policy_def and_then_Inr_iff Let_def tail_source_def subset_insertI split: if_splits)
qed

lemma scan_layer_source:
  assumes "scan_layer config res declared block scan (name, spec) = Inr scan'"
  obtains policy l where "ms_policies scan' = List.insert policy (ms_policies scan)" "set (ms_tails scan) \<subseteq> set (ms_tails scan')"
    "fst policy = ''recurrent_align'' \<Longrightarrow> tail_source spec (ms_tails scan')" "ms_layers scan' = ms_layers scan @ [l]"
    "lg_name l = name" "layer_source block spec l"
proof -
  obtain scan1 page l where s: "scan_policy config res declared spec scan = Inr scan1"
    and page: "get_attr (spec_attr spec ''block_size'') (PyInt block) = Inr (PyInt block)" "spec_attr spec ''page_size_bytes'' = Attr (PyInt page)"
    and geometry: "LayerGeometry \<lparr>lg_name = name, lg_spec_name = spec_class spec, lg_page_size_bytes = page\<rparr> = Inr l"
    and s': "scan' = scan1\<lparr>ms_layers := ms_layers scan1 @ [l]\<rparr>"
    using assms by (auto simp: scan_layer_def and_then_Inr_iff get_attr_Inr split: if_splits)
  have "l = \<lparr>lg_name = name, lg_spec_name = spec_class spec, lg_page_size_bytes = page\<rparr>"
    using geometry by (simp add: LayerGeometry_def split: if_splits)
  then have l: "lg_name l = name" "layer_source block spec l" using page by (simp_all add: layer_source_def)
  show thesis
    by (rule scan_policy_tail [OF s]) (rule that, use l in \<open>simp_all add: s'\<close>)
qed

definition scanned_from ::
  "int \<Rightarrow> kv_spec \<Rightarrow> (string \<times> kv_spec) list option \<Rightarrow> member_scan \<Rightarrow> bool" where
  "scanned_from block spec per_layer scan \<longleftrightarrow>
     (\<forall>l \<in> set (ms_layers scan). \<exists>m policy. member_spec spec per_layer (lg_name l) = Inr m \<and> layer_source block m l
        \<and> policy \<in> set (ms_policies scan) \<and> (fst policy = ''recurrent_align'' \<longrightarrow> tail_source m (ms_tails scan)))"

lemma scanned_from_start: "scanned_from block spec per_layer \<lparr>ms_policies = [], ms_tails = [], ms_layers = []\<rparr>"
  by (simp add: scanned_from_def)

lemma scan_names_source:
  assumes "fold_result (\<lambda>scan name. and_then (member_spec spec per_layer name) (\<lambda>m.
             scan_layer config res declared block scan (name, m))) scan names = Inr scan'" "scanned_from block spec per_layer scan"
  shows "scanned_from block spec per_layer scan'"
  using assms
proof (induction names arbitrary: scan)
  case (Cons name names)
  then obtain m scan1 where m: "member_spec spec per_layer name = Inr m"
    and s: "scan_layer config res declared block scan (name, m) = Inr scan1"
    and rest: "fold_result (\<lambda>scan name. and_then (member_spec spec per_layer name) (\<lambda>m.
             scan_layer config res declared block scan (name, m))) scan1 names = Inr scan'"
    by (auto simp: and_then_Inr_iff)
  show ?case
  proof (rule scan_layer_source [OF s])
    fix policy l
    assume a: "ms_policies scan1 = List.insert policy (ms_policies scan)" "set (ms_tails scan) \<subseteq> set (ms_tails scan1)"
      "fst policy = ''recurrent_align'' \<Longrightarrow> tail_source m (ms_tails scan1)" "ms_layers scan1 = ms_layers scan @ [l]"
      "lg_name l = name" "layer_source block m l"
    have mono: "tail_source x (ms_tails scan) \<Longrightarrow> tail_source x (ms_tails scan1)" for x using a(2) by (auto simp: tail_source_def)
    have "scanned_from block spec per_layer scan1"
      unfolding scanned_from_def
    proof
      fix k
      assume "k \<in> set (ms_layers scan1)"
      then consider "k = l" | "k \<in> set (ms_layers scan)" using a(4) by auto
      then show "\<exists>m policy. member_spec spec per_layer (lg_name k) = Inr m \<and> layer_source block m k
        \<and> policy \<in> set (ms_policies scan1) \<and> (fst policy = ''recurrent_align'' \<longrightarrow> tail_source m (ms_tails scan1))"
      proof cases
        case 1
        then show ?thesis using m a by (intro exI [of _ m] exI [of _ policy]) auto
      next
        case 2
        then obtain x p where "member_spec spec per_layer (lg_name k) = Inr x" "layer_source block x k"
            "p \<in> set (ms_policies scan)" "fst p = ''recurrent_align'' \<longrightarrow> tail_source x (ms_tails scan)"
          using Cons.prems(2) unfolding scanned_from_def by blast
        then show ?thesis using mono a(1) by (intro exI [of _ x] exI [of _ p]) auto
      qed
    qed
    from Cons.IH [OF rest this] show ?case .
  qed
qed simp

lemma scan_members_source:
  assumes "scan_members config res declared block names spec per_layer = Inr scan"
  shows "scanned_from block spec per_layer scan"
proof (cases "names = []")
  case True
  then have "ms_layers scan = []" using scan_members_Inr(2) [OF assms] by simp
  then show ?thesis by (simp add: scanned_from_def)
next
  case False
  then show ?thesis
    using assms scan_names_source [OF _ scanned_from_start, of spec per_layer config res declared block names scan]
    by (simp add: scan_members_def Let_def)
qed

definition group_source :: "int \<Rightarrow> runtime_group \<Rightarrow> kv_spec \<Rightarrow> group_geometry \<Rightarrow> bool" where
  "group_source dcp rg spec g \<longleftrightarrow>
     gg_spec_name g = spec_class spec
     \<and> spec_attr spec ''block_size'' = Attr (PyInt (block_size g))
     \<and> get_attr (spec_attr spec ''storage_block_size'') (PyInt (block_size g)) = Inr (PyInt (storage_block_size g))
     \<and> spec_attr spec ''page_size_bytes'' = Attr (PyInt (manager_page_size_bytes g))
     \<and> get_attr (spec_attr spec ''dcp_replicated'') (PyBool False) = Inr (PyBool (dcp_replicated g))
     \<and> get_attr (rg_is_eagle_group rg) (PyBool False) = Inr (PyBool (is_eagle_group g))
     \<and> logical_tokens_per_page g = block_size g * (if dcp_replicated g then 1 else dcp)
     \<and> (\<exists>per_layer. read_specs spec = Inr per_layer
          \<and> (\<forall>l \<in> set (gg_layers g). \<exists>m. member_spec spec per_layer (lg_name l) = Inr m \<and> layer_source (block_size g) m l
               \<and> (reuse_policy g = ''recurrent_align'' \<longrightarrow> tail_source m [running_state_tail_pages g]))
          \<and> (gg_layers g \<noteq> [] \<longrightarrow>
               (if per_layer = None then \<forall>l \<in> set (gg_layers g). lg_page_size_bytes l = manager_page_size_bytes g
                else manager_page_size_bytes g = sum_list (map lg_page_size_bytes (gg_layers g)))))
     \<and> (reuse_policy g \<noteq> ''recurrent_align'' \<longrightarrow> running_state_tail_pages g = 0)"

lemma finish_group_source:
  assumes "finish_group dcp rg spec index block storage manager_page policy tail layers = Inr g"
  shows "gg_spec_name g = spec_class spec" "block_size g = block" "storage_block_size g = storage"
    "manager_page_size_bytes g = manager_page" "running_state_tail_pages g = tail" "reuse_policy g = fst policy" "gg_layers g = layers"
    "get_attr (spec_attr spec ''dcp_replicated'') (PyBool False) = Inr (PyBool (dcp_replicated g))"
    "get_attr (rg_is_eagle_group rg) (PyBool False) = Inr (PyBool (is_eagle_group g))"
    "logical_tokens_per_page g = block * (if dcp_replicated g then 1 else dcp)"
proof -
  obtain a b where ab: "bool_flag (spec_attr spec ''dcp_replicated'') = Inr a" "bool_flag (rg_is_eagle_group rg) = Inr b"
    using assms by (auto simp: finish_group_def and_then_Inr_iff)
  then obtain r e where "a = PyBool r" "b = PyBool e"
    using assms by (cases a; cases b) (auto simp: finish_group_def)
  note flags = ab [unfolded this]
  let ?g = "\<lparr>group_index = index, gg_spec_name = spec_class spec, block_size = block,
              storage_block_size = storage, manager_page_size_bytes = manager_page,
              dcp_replicated = r, dcp_shard_count = if r then 1 else dcp,
              logical_tokens_per_page = block * (if r then 1 else dcp), reuse_policy = fst policy,
              reuse_window_tokens = snd policy, running_state_tail_pages = tail,
              is_eagle_group = e, gg_layers = layers\<rparr>"
  have "GroupGeometry ?g = Inr g" using assms flags by (simp add: finish_group_def Let_def)
  then have "g = ?g" by (rule GroupGeometry_Inr(1))
  then show "gg_spec_name g = spec_class spec" "block_size g = block" "storage_block_size g = storage"
    "manager_page_size_bytes g = manager_page" "running_state_tail_pages g = tail" "reuse_policy g = fst policy" "gg_layers g = layers"
    "get_attr (spec_attr spec ''dcp_replicated'') (PyBool False) = Inr (PyBool (dcp_replicated g))"
    "get_attr (rg_is_eagle_group rg) (PyBool False) = Inr (PyBool (is_eagle_group g))"
    "logical_tokens_per_page g = block * (if dcp_replicated g then 1 else dcp)"
    using flags by (simp_all add: bool_flag_def)
qed

lemma check_group_pages_sizes:
  assumes "check_group_pages config spec per_layer prefix_state declared policy names manager_page layers = Inr ()" "names \<noteq> []"
  shows "if per_layer = None then \<forall>l \<in> set layers. lg_page_size_bytes l = manager_page
     else manager_page = sum_list (map lg_page_size_bytes layers)"
  using assms by (cases per_layer) (auto simp: check_group_pages_def and_then_Inr_iff list_ex_iff split: if_splits)

lemma build_group_with_source:
  assumes "build_group_with dcp config res index rg names spec = Inr g"
  shows "group_source dcp rg spec g"
proof -
  obtain block storage manager_page per_layer prefix_state declared scan
    where block: "get_attr (spec_attr spec ''block_size'') PyNone = Inr (PyInt block)"
      and storage: "get_attr (spec_attr spec ''storage_block_size'') (PyInt block) = Inr (PyInt storage)"
      and page: "get_attr (spec_attr spec ''page_size_bytes'') PyNone = Inr (PyInt manager_page)"
      and per: "read_specs spec = Inr per_layer"
      and scan: "scan_members config res declared block names spec per_layer = Inr scan"
      and rest: "(case ms_policies scan of
             [policy] \<Rightarrow>
               and_then (if fst policy = ''recurrent_align''
                         then (case ms_tails scan of [tail] \<Rightarrow> Inr tail | _ \<Rightarrow> Inl LayoutError)
                         else Inr 0) (\<lambda>tail.
               and_then (check_group_pages config spec per_layer prefix_state declared (fst policy) names
                           manager_page (ms_layers scan)) (\<lambda>_.
                 finish_group dcp rg spec index block storage manager_page policy tail (ms_layers scan)))
           | _ \<Rightarrow> Inl LayoutError) = Inr g"
    using assms unfolding build_group_with_def and_then_Inr_iff if_Inl_Inr_iff positive_int_Inr by blast
  obtain policy where one: "ms_policies scan = [policy]"
    using rest by (auto split: list.splits)
  obtain tail where tail: "(if fst policy = ''recurrent_align'' then (case ms_tails scan of [tail] \<Rightarrow> Inr tail | _ \<Rightarrow> Inl LayoutError) else Inr 0) = Inr tail"
    and check: "check_group_pages config spec per_layer prefix_state declared (fst policy) names manager_page (ms_layers scan) = Inr ()"
    and fin: "finish_group dcp rg spec index block storage manager_page policy tail (ms_layers scan) = Inr g"
    using rest by (auto simp: one and_then_Inr_iff)
  note g = finish_group_source [OF fin] and names = scan_members_Inr(2) [OF scan]
  have tails: "ms_tails scan = [tail]" if "fst policy = ''recurrent_align''"
    using tail that by (auto split: list.splits)
  have "\<exists>m. member_spec spec per_layer (lg_name l) = Inr m \<and> layer_source block m l \<and> (fst policy = ''recurrent_align'' \<longrightarrow> tail_source m [tail])"
    if "l \<in> set (ms_layers scan)" for l
    using scan_members_source [OF scan] that tails unfolding scanned_from_def one by fastforce
  moreover have "names \<noteq> []" if "ms_layers scan \<noteq> []" using names that by auto
  moreover have "tail = 0" if "fst policy \<noteq> ''recurrent_align''" using tail that by simp
  ultimately show ?thesis
    using block storage page per check_group_pages_sizes [OF check]
    unfolding group_source_def g by (auto simp: get_attr_Inr)
qed

definition built_from ::
  "int \<Rightarrow> vllm_config option \<Rightarrow> resolver \<Rightarrow> int \<times> runtime_group \<Rightarrow> group_geometry \<Rightarrow> bool" where
  "built_from dcp config res item g \<longleftrightarrow>
     (\<exists>names spec. get_attr (rg_layer_names (snd item)) [] = Inr names \<and> rg_kv_cache_spec (snd item) = Attr spec
        \<and> GroupGeometry g = Inr g \<and> list_all (\<lambda>l. LayerGeometry l = Inr l) (gg_layers g)
        \<and> group_index g = fst item \<and> map lg_name (gg_layers g) = sort names
        \<and> group_evidence config res spec g \<and> dcp_shard_count g = (if dcp_replicated g then 1 else dcp)
        \<and> group_source dcp (snd item) spec g)"

lemma build_group_Inr:
  assumes "build_group dcp config res (built, assigned) item = Inr state"
  shows "\<exists>g. fst state = built @ [g] \<and> built_from dcp config res item g"
proof -
  obtain index rg where item: "item = (index, rg)" by force
  obtain names spec g where "get_attr (rg_layer_names rg) [] = Inr names" "rg_kv_cache_spec rg = Attr spec"
    "build_group_with dcp config res index rg (sort names) spec = Inr g" "fst state = built @ [g]"
    using assms by (auto simp: build_group_def item and_then_Inr_iff Let_def split: if_splits attr.splits)
  note g = this
  have "built_from dcp config res item g"
    unfolding built_from_def item fst_conv snd_conv using g(1,2) build_group_with_Inr [OF g(3)] build_group_with_source [OF g(3)] by (intro exI conjI)
  then show ?thesis using g(4) by blast
qed

lemma fold_build_groups:
  assumes "fold_result (build_group dcp config res) state items = Inr state'"
  shows "\<exists>gs. fst state' = fst state @ gs \<and> list_all2 (built_from dcp config res) items gs"
  using assms
proof (induction items arbitrary: state)
  case (Cons item items)
  then obtain state1 where s: "build_group dcp config res state item = Inr state1"
    and rest: "fold_result (build_group dcp config res) state1 items = Inr state'"
    by (auto simp: and_then_Inr_iff)
  obtain g where "fst state1 = fst state @ [g]" "built_from dcp config res item g"
    using build_group_Inr [of dcp config res "fst state" "snd state" item state1] s by auto
  with Cons.IH [OF rest] show ?case by auto
qed simp

lemma build_hma_layout_Inr:
  assumes "build_hma_layout kv dcp_raw config res = Inr L"
  obtains dcp rgs where "dcp_raw = PyInt dcp" "0 < dcp" "dcp_degree L = dcp" "kc_groups kv = Attr rgs"
    "get_attr (kc_num_blocks kv) PyNone = Inr (PyInt (num_manager_blocks L))" "HMALayout L = Inr L" "list_all2 (built_from dcp config res) (zip (map int [0..<length rgs]) rgs) (groups L)"
proof -
  obtain dcp n rgs state where dcp: "dcp_raw = PyInt dcp" "0 < dcp" and n: "get_attr (kc_num_blocks kv) PyNone = Inr (PyInt n)" and rgs: "get_attr (kc_groups kv) [] = Inr rgs" "rgs \<noteq> []"
    and fold: "fold_result (build_group dcp config res) ([], {}) (zip (map int [0..<length rgs]) rgs) = Inr state"
    and L: "HMALayout \<lparr>num_manager_blocks = n, dcp_degree = dcp, groups = fst state, layout_schema = LAYOUT_SCHEMA\<rparr> = Inr L"
    using assms by (auto simp: build_hma_layout_def and_then_Inr_iff split: if_splits)
  have eq: "L = \<lparr>num_manager_blocks = n, dcp_degree = dcp, groups = fst state, layout_schema = LAYOUT_SCHEMA\<rparr>"
    using L by (auto simp: HMALayout_def split: if_splits)
  have "kc_groups kv = Attr rgs" using rgs by (auto simp: get_attr_Inr)
  moreover have "list_all2 (built_from dcp config res) (zip (map int [0..<length rgs]) rgs) (groups L)"
    using fold_build_groups [OF fold] eq by simp
  ultimately show thesis using that dcp n L eq by simp
qed

section \<open>Properties\<close>


text \<open>
  C10: Discovery fails closed.  When it succeeds, every group of the layout comes from the runtime
  group at the same position, holds exactly its layers in sorted order, shards its tokens over the
  context-parallel degree unless it is replicated, and its reuse policy is backed for every layer by
  public evidence: a scratch group by contracts that prove one request-owned page, a sliding group by
  its window, a recurrent group by the align cache mode, a full group by its kind; the kind is the
  one vLLM resolved for the group or for the layer.  Any other kind or contract makes discovery fail.
\<close>

theorem discovery_fails_closed:
  assumes "build_hma_layout kv dcp_raw config res = Inr L"
  shows "\<exists>dcp rgs. dcp_raw = PyInt dcp \<and> dcp_degree L = dcp \<and> kc_groups kv = Attr rgs \<and> length rgs = length (groups L)
    \<and> (\<forall>i < length rgs. \<exists>names spec. get_attr (rg_layer_names (rgs ! i)) [] = Inr names
         \<and> rg_kv_cache_spec (rgs ! i) = Attr spec
         \<and> map lg_name (gg_layers (groups L ! i)) = sort names
         \<and> dcp_shard_count (groups L ! i) = (if dcp_replicated (groups L ! i) then 1 else dcp)
         \<and> group_evidence config res spec (groups L ! i))"
proof (rule build_hma_layout_Inr [OF assms])
  fix dcp rgs
  assume L: "dcp_raw = PyInt dcp" "dcp_degree L = dcp" "kc_groups kv = Attr rgs"
    and all: "list_all2 (built_from dcp config res) (zip (map int [0..<length rgs]) rgs) (groups L)"
  have len: "length rgs = length (groups L)" using list_all2_lengthD [OF all] by simp
  have "\<exists>names spec. get_attr (rg_layer_names (rgs ! i)) [] = Inr names
         \<and> rg_kv_cache_spec (rgs ! i) = Attr spec
         \<and> map lg_name (gg_layers (groups L ! i)) = sort names
         \<and> dcp_shard_count (groups L ! i) = (if dcp_replicated (groups L ! i) then 1 else dcp)
         \<and> group_evidence config res spec (groups L ! i)" if "i < length rgs" for i
  proof -
    have "built_from dcp config res (int i, rgs ! i) (groups L ! i)"
      using list_all2_nthD [OF all, of i] that by simp
    then show ?thesis unfolding built_from_def snd_conv by blast
  qed
  then show ?thesis using L len by blast
qed

definition sample_spec :: kv_spec where
  "sample_spec = KVSpec ''FullAttentionSpec''
     (\<lambda>name. if name = ''block_size'' then Attr (PyInt 16)
             else if name = ''page_size_bytes'' then Attr (PyInt 64) else Absent)
     NoContract NoContract NoContract NoSpecs"

definition sample_kv_config :: kv_cache_config where
  "sample_kv_config =
     \<lparr>kc_num_blocks = Attr (PyInt 8),
      kc_groups = Attr [\<lparr>rg_layer_names = Attr [''b'', ''a''], rg_kv_cache_spec = Attr sample_spec, rg_is_eagle_group = Absent\<rparr>]\<rparr>"

definition sample_resolver :: resolver where
  "sample_resolver = Some (\<lambda>_. Inr (Attr (PyStr ''full_attention''), PyNone))"

definition sample_discovered :: hma_layout where
  "sample_discovered = \<lparr>num_manager_blocks = 8, dcp_degree = 2,
     groups = [(sample_group 0 ''full'' None)\<lparr>gg_spec_name := ''FullAttentionSpec'', dcp_shard_count := 2, logical_tokens_per_page := 32,
       gg_layers := [\<lparr>lg_name = ''a'', lg_spec_name = ''FullAttentionSpec'', lg_page_size_bytes = 64\<rparr>,
                     \<lparr>lg_name = ''b'', lg_spec_name = ''FullAttentionSpec'', lg_page_size_bytes = 64\<rparr>]\<rparr>],
     layout_schema = LAYOUT_SCHEMA\<rparr>"

lemma sample_discovery: "build_hma_layout sample_kv_config (PyInt 2) None sample_resolver = Inr sample_discovered"
  by code_simp


theorem discovery_fails_closed_witness:
  "group_evidence None sample_resolver sample_spec (groups sample_discovered ! 0)"
proof -
  obtain names spec where "rg_kv_cache_spec (hd (case kc_groups sample_kv_config of Attr rgs \<Rightarrow> rgs)) = Attr spec"
    "group_evidence None sample_resolver spec (groups sample_discovered ! 0)"
    using discovery_fails_closed [OF sample_discovery] by (auto simp: sample_kv_config_def)
  then show ?thesis by (simp add: sample_kv_config_def)
qed


end
