(* ===== verification/Buffers.thy ===== *)
theory Buffers
  imports Prelude
begin

text \<open>
  \<open>buffers.py\<close>: zero-filling one mapped buffer and the fixed pool of staging buffers.  The critical
  sections of \<open>acquire\<close> and \<open>close\<close> are separate operations on the pool state, and the threads that
  run them interleave in the step relation \<open>pool_step\<close>, one step per critical section or queue
  operation.  The abstract pool knows only which thread uses which slot; the lemmas show the
  invariant of every reachable state and that the threads refine the abstract pool.
\<close>

section \<open>Buffers\<close>

record aligned_buffer =
  ab_index :: nat
  ab_size :: nat
  ab_mapping :: string

definition allocate :: "nat \<Rightarrow> nat \<Rightarrow> aligned_buffer" where
  "allocate index n = \<lparr>ab_index = index, ab_size = n, ab_mapping = replicate n (CHR 0x00)\<rparr>"

text \<open>\<open>mapping[cursor : cursor + n] = bytes\<close> on a mapping at least that long.\<close>

definition write_slice :: "nat \<Rightarrow> string \<Rightarrow> string \<Rightarrow> string" where
  "write_slice cursor bytes m = take cursor m @ bytes @ drop (cursor + length bytes) m"

function zero_loop :: "string \<Rightarrow> nat \<Rightarrow> nat \<Rightarrow> string \<Rightarrow> string" where
  "zero_loop zeros cursor stop m =
     (if cursor < stop \<and> zeros \<noteq> []
      then let count = min (length zeros) (stop - cursor)
           in zero_loop zeros (cursor + count) stop (write_slice cursor (take count zeros) m)
      else m)"
  by pat_completeness auto
termination
  by (relation "measure (\<lambda>(zeros, cursor, stop, m). stop - cursor)") (auto simp: min_def length_greater_0_conv [symmetric] simp del: length_greater_0_conv)

declare zero_loop.simps [simp del]

definition zero :: "int \<Rightarrow> int option \<Rightarrow> aligned_buffer \<Rightarrow> aligned_buffer result" where
  "zero start end_opt b =
     (let stop = (case end_opt of None \<Rightarrow> int (ab_size b) | Some e \<Rightarrow> e) in
      if \<not> (0 \<le> start \<and> start \<le> stop \<and> stop \<le> int (ab_size b)) then Inl ValueError
      else
        let zeros = replicate (nat (min (1024 * 1024) (stop - start))) (CHR 0x00)
        in Inr (b\<lparr>ab_mapping := zero_loop zeros (nat start) (nat stop) (ab_mapping b)\<rparr>))"

section \<open>The pool\<close>

text \<open>
  \<open>unmapped\<close> says whether the slots' mappings have been closed.  The available slots are a stack,
  its top first; \<open>put_nowait\<close> raises when the queue is full.
\<close>

record pool =
  slot_bytes :: int
  slot_count :: int
  available :: "nat list"
  borrowed :: int
  closed :: bool
  unmapped :: bool

definition AlignedBufferPool :: "int \<Rightarrow> int \<Rightarrow> int \<Rightarrow> pool result" where
  "AlignedBufferPool pagesize bytes count =
     (if bytes \<le> 0 \<or> bytes mod pagesize \<noteq> 0 then Inl ValueError
      else if count \<le> 0 then Inl ValueError
      else Inr \<lparr>slot_bytes = bytes, slot_count = count, available = rev [0..<nat count],
                borrowed = 0, closed = False, unmapped = False\<rparr>)"

definition budget_bytes :: "pool \<Rightarrow> int" where
  "budget_bytes p = slot_bytes p * slot_count p"

definition put_nowait :: "nat \<Rightarrow> pool \<Rightarrow> pool result" where
  "put_nowait s p =
     (if slot_count p \<le> int (length (available p)) then Inl QueueFull
      else Inr (p\<lparr>available := s # available p\<rparr>))"

definition acquire_check :: "pool \<Rightarrow> unit result" where
  "acquire_check p = (if closed p then Inl RuntimeError else Inr ())"

definition acquire_get :: "pool \<Rightarrow> (nat \<times> pool) result" where
  "acquire_get p = (case available p of [] \<Rightarrow> Inl StoreBusyError | s # rest \<Rightarrow> Inr (s, p\<lparr>available := rest\<rparr>))"

text \<open>Entering: the pool closed in between puts the slot back and raises.\<close>

definition acquire_enter :: "nat \<Rightarrow> pool \<Rightarrow> (pool + pool) result" where
  "acquire_enter s p =
     (if closed p then and_then (put_nowait s p) (\<lambda>p'. Inr (Inl p'))
      else Inr (Inr (p\<lparr>borrowed := borrowed p + 1\<rparr>)))"

definition release_exit :: "pool \<Rightarrow> pool" where
  "release_exit p = p\<lparr>borrowed := borrowed p - 1\<rparr>"

definition close_pool :: "pool \<Rightarrow> pool result" where
  "close_pool p =
     (if borrowed p \<noteq> 0 then Inl RuntimeError
      else if closed p then Inr p
      else Inr (p\<lparr>closed := True\<rparr>))"

definition unmap_slots :: "pool \<Rightarrow> pool" where
  "unmap_slots p = p\<lparr>unmapped := True\<rparr>"

text \<open>Where a thread is inside \<open>acquire\<close>.\<close>

datatype phase = Outside | Checked | Got nat | Using nat | Returning nat

inductive pool_step :: "pool \<times> ('t \<Rightarrow> phase) \<Rightarrow> pool \<times> ('t \<Rightarrow> phase) \<Rightarrow> bool" where
  check: "ph t = Outside \<Longrightarrow> acquire_check p = Inr () \<Longrightarrow> pool_step (p, ph) (p, ph(t := Checked))"
| get: "ph t = Checked \<Longrightarrow> acquire_get p = Inr (s, p') \<Longrightarrow> pool_step (p, ph) (p', ph(t := Got s))"
| busy: "ph t = Checked \<Longrightarrow> acquire_get p = Inl StoreBusyError \<Longrightarrow> pool_step (p, ph) (p, ph(t := Outside))"
| enter: "ph t = Got s \<Longrightarrow> acquire_enter s p = Inr (Inr p') \<Longrightarrow> pool_step (p, ph) (p', ph(t := Using s))"
| refused: "ph t = Got s \<Longrightarrow> acquire_enter s p = Inr (Inl p') \<Longrightarrow> pool_step (p, ph) (p', ph(t := Outside))"
| exit: "ph t = Using s \<Longrightarrow> pool_step (p, ph) (release_exit p, ph(t := Returning s))"
| put: "ph t = Returning s \<Longrightarrow> put_nowait s p = Inr p' \<Longrightarrow> pool_step (p, ph) (p', ph(t := Outside))"
| close: "close_pool p = Inr p' \<Longrightarrow> pool_step (p, ph) (p', ph)"
| unmap: "closed p \<Longrightarrow> pool_step (p, ph) (unmap_slots p, ph)"

definition pool_reachable :: "pool \<Rightarrow> pool \<times> ('t \<Rightarrow> phase) \<Rightarrow> bool" where
  "pool_reachable p0 c \<longleftrightarrow> pool_step\<^sup>*\<^sup>* (p0, \<lambda>_. Outside) c"

section \<open>Zeroing\<close>

lemma write_slice_zero:
  "cursor + n \<le> length m \<Longrightarrow> write_slice cursor (replicate n z) m = take cursor m @ replicate n z @ drop (cursor + n) m"
  by (simp add: write_slice_def)

lemma zero_loop_spec:
  assumes "zeros = replicate k (CHR 0x00)" "cursor < stop \<Longrightarrow> 0 < k" "cursor \<le> stop" "stop \<le> length m"
  shows "zero_loop zeros cursor stop m = take cursor m @ replicate (stop - cursor) (CHR 0x00) @ drop stop m"
  using assms
proof (induction zeros cursor stop m rule: zero_loop.induct)
  case (1 zeros cursor stop m)
  show ?case
  proof (cases "cursor < stop")
    case True
    define c where "c = min k (stop - cursor)"
    have c: "0 < c" "cursor + c \<le> stop" "zeros \<noteq> []" using True 1 by (auto simp: c_def)
    let ?m = "take cursor m @ replicate c (CHR 0x00) @ drop (cursor + c) m"
    have m: "write_slice cursor (take c zeros) m = ?m"
      using 1(2,5) c by (simp add: write_slice_def c_def min_def)
    have "zero_loop zeros cursor stop m = zero_loop zeros (cursor + c) stop ?m"
      using True c(3) 1(2) m by (subst zero_loop.simps) (simp add: c_def Let_def)
    also have "\<dots> = take (cursor + c) ?m @ replicate (stop - (cursor + c)) (CHR 0x00) @ drop stop ?m"
    proof -
      have "min (length zeros) (stop - cursor) = c" using 1(2) by (simp add: c_def)
      then show ?thesis using 1(1) [OF conjI [OF True c(3)] refl] 1(2-) c m True by simp
    qed
    also have "\<dots> = take cursor m @ replicate c (CHR 0x00) @ replicate (stop - (cursor + c)) (CHR 0x00) @ drop stop m"
      using c 1(5) by simp
    also have "replicate c (CHR 0x00) @ replicate (stop - (cursor + c)) (CHR 0x00) @ drop stop m
        = replicate (stop - cursor) (CHR 0x00) @ drop stop m"
      using c by (simp add: append_assoc [symmetric] replicate_add [symmetric] del: append_assoc)
    finally show ?thesis .
  next
    case False
    then show ?thesis using 1(4) by (subst zero_loop.simps) simp
  qed
qed

section \<open>The invariant of the pool\<close>

text \<open>The slot a thread has taken from the stack, and the threads inside the \<open>with\<close> block.\<close>

fun taken :: "phase \<Rightarrow> nat option" where
  "taken (Got s) = Some s"
| "taken (Using s) = Some s"
| "taken (Returning s) = Some s"
| "taken _ = None"

definition users :: "('t \<Rightarrow> phase) \<Rightarrow> 't set" where
  "users ph = {t. \<exists>s. ph t = Using s}"

text \<open>Every slot is either on the stack, once, or taken by exactly one thread.\<close>

definition slots_ok :: "int \<Rightarrow> nat list \<Rightarrow> ('t \<rightharpoonup> nat) \<Rightarrow> bool" where
  "slots_ok n av held \<longleftrightarrow>
     finite (dom held) \<and> inj_on held (dom held) \<and> distinct av
     \<and> set av \<inter> ran held = {} \<and> set av \<union> ran held = {..<nat n}"

definition pool_inv :: "pool \<times> ('t \<Rightarrow> phase) \<Rightarrow> bool" where
  "pool_inv c \<longleftrightarrow> (case c of (p, ph) \<Rightarrow>
     slots_ok (slot_count p) (available p) (taken \<circ> ph) \<and> 0 < slot_count p \<and> borrowed p = int (card (users ph))
     \<and> (closed p \<longrightarrow> users ph = {}) \<and> (unmapped p \<longrightarrow> closed p))"

lemma slots_get:
  assumes "slots_ok n (s # rest) held" "held t = None"
  shows "slots_ok n rest (held(t \<mapsto> s))"
proof -
  have "inj_on (held(t \<mapsto> s)) (insert t (dom held))"
    using assms by (auto simp: slots_ok_def inj_on_def ran_def)
  then show ?thesis using assms by (auto simp: slots_ok_def)
qed

lemma slots_put:
  assumes "slots_ok n av held" "held t = Some s"
  shows "slots_ok n (s # av) (held(t := None))"
proof -
  have inj: "inj_on held (dom held)" using assms(1) by (simp add: slots_ok_def)
  have "ran (held(t := None)) = ran held - {s}"
  proof (intro set_eqI iffI)
    fix r
    assume "r \<in> ran held - {s}"
    then obtain u where "held u = Some r" by (auto simp: ran_def)
    moreover from this have "u \<noteq> t" using assms(2) \<open>r \<in> ran held - {s}\<close> by auto
    ultimately show "r \<in> ran (held(t := None))" by (auto simp: ran_def)
  next
    fix r
    assume "r \<in> ran (held(t := None))"
    then obtain u where u: "u \<noteq> t" "held u = Some r" by (auto simp: ran_def split: if_splits)
    then have "r \<noteq> s" using inj_onD [OF inj, of u t] assms(2) by auto
    then show "r \<in> ran held - {s}" using u by (auto simp: ran_def)
  qed
  moreover have "s \<in> ran held" using assms(2) by (auto simp: ran_def)
  moreover have "inj_on (held(t := None)) (dom held - {t})" using inj by (auto simp: inj_on_def)
  ultimately show ?thesis using assms(1) by (auto simp: slots_ok_def)
qed

text \<open>The slots on the stack and the slots taken add up to all slots.\<close>

lemma slots_conservation:
  assumes "slots_ok n av held"
  shows "int (length av) + int (card (dom held)) = max 0 n"
proof -
  have ok: "finite (dom held)" "inj_on held (dom held)" "distinct av" "set av \<inter> ran held = {}" "set av \<union> ran held = {..<nat n}"
    using assms by (auto simp: slots_ok_def)
  have "inj_on (the \<circ> held) (dom held)" using ok(2) by (auto simp: inj_on_def dom_def)
  moreover have "(the \<circ> held) ` dom held = ran held" by (force simp: dom_def ran_def image_iff)
  ultimately have "card (ran held) = card (dom held)" using card_image by metis
  moreover have "card (set av \<union> ran held) = card (set av) + card (ran held)"
    using ok finite_subset [of "ran held" "{..<nat n}"] by (intro card_Un_disjoint) auto
  ultimately have "nat n = length av + card (dom held)" using ok by (simp add: distinct_card)
  then show ?thesis by linarith
qed

lemma put_succeeds:
  assumes "slots_ok (slot_count p) (available p) (taken \<circ> ph)" "taken (ph t) = Some s"
  shows "put_nowait s p = Inr (p\<lparr>available := s # available p\<rparr>)"
proof -
  have "t \<in> dom (taken \<circ> ph)" using assms(2) by auto
  then have "0 < card (dom (taken \<circ> ph))" using assms(1) by (auto simp: slots_ok_def card_gt_0_iff)
  then show ?thesis using slots_conservation [OF assms(1)] by (simp add: put_nowait_def)
qed

lemma pool_inv_init: "AlignedBufferPool pagesize bytes count = Inr p \<Longrightarrow> pool_inv (p, \<lambda>_. Outside)"
  by (auto simp: AlignedBufferPool_def pool_inv_def slots_ok_def users_def dom_def ran_def split: if_splits)

lemma taken_upd: "taken \<circ> ph(t := x) = (taken \<circ> ph)(t := taken x)"
  by (rule fun_upd_comp)

lemma users_upd: "users (ph(t := x)) = (if \<exists>s. x = Using s then insert t (users ph) else users ph - {t})"
  by (auto simp: users_def)

lemma finite_users: "slots_ok n av (taken \<circ> ph) \<Longrightarrow> finite (users ph)"
  by (rule finite_subset [of _ "dom (taken \<circ> ph)"]) (auto simp: users_def slots_ok_def)

lemma pool_step_inv:
  assumes "pool_step (p, ph) (p', ph')" "pool_inv (p, ph)"
  shows "pool_inv (p', ph')"
proof -
  have ok: "slots_ok (slot_count p) (available p) (taken \<circ> ph)" and b: "borrowed p = int (card (users ph))"
    and cl: "closed p \<Longrightarrow> users ph = {}" and un: "unmapped p \<Longrightarrow> closed p" and pos: "0 < slot_count p"
    using assms(2) by (auto simp: pool_inv_def)
  have same: "(taken \<circ> ph)(t := taken (ph t)) = taken \<circ> ph" for t by auto
  have out: "users ph - {t} = users ph" if "\<nexists>s. ph t = Using s" for t using that by (auto simp: users_def)
  note fin = finite_users [OF ok]
  from assms(1) show ?thesis
  proof cases
    case (check t)
    then show ?thesis
      using ok pos b cl un same [of t] out [of t] by (auto simp: pool_inv_def taken_upd users_upd)
  next
    case (get t s)
    then obtain rest where "available p = s # rest" "p' = p\<lparr>available := rest\<rparr>"
      by (auto simp: acquire_get_def split: list.splits)
    then show ?thesis
      using get ok pos b cl un out [of t] slots_get [of "slot_count p" s rest "taken \<circ> ph" t]
      by (auto simp: pool_inv_def taken_upd users_upd)
  next
    case (busy t)
    then show ?thesis
      using ok pos b cl un same [of t] out [of t] by (auto simp: pool_inv_def taken_upd users_upd)
  next
    case (enter t s)
    then have p': "\<not> closed p" "p' = p\<lparr>borrowed := borrowed p + 1\<rparr>"
      by (auto simp: acquire_enter_def and_then_Inr_iff split: if_splits)
    have "t \<notin> users ph" using enter by (auto simp: users_def)
    then show ?thesis using enter p' ok pos b un fin same [of t] by (auto simp: pool_inv_def taken_upd users_upd)
  next
    case (refused t s)
    then have "p' = p\<lparr>available := s # available p\<rparr>"
      using put_succeeds [OF ok, of t s] by (auto simp: acquire_enter_def and_then_Inr_iff split: if_splits)
    then show ?thesis
      using refused ok pos b cl un out [of t] slots_put [OF ok, of t s] by (auto simp: pool_inv_def taken_upd users_upd)
  next
    case (exit t s)
    then have "t \<in> users ph" by (auto simp: users_def)
    moreover from this have "int (card (users ph - {t})) = int (card (users ph)) - 1"
      using fin card_gt_0_iff [of "users ph"] by (simp add: of_nat_diff Suc_le_eq) (auto simp: of_nat_diff Suc_le_eq)
    ultimately show ?thesis
      using exit ok pos b cl un same [of t] by (auto simp: pool_inv_def taken_upd users_upd release_exit_def)
  next
    case (put t s)
    then have "p' = p\<lparr>available := s # available p\<rparr>" using put_succeeds [OF ok, of t s] by auto
    then show ?thesis
      using put ok pos b cl un out [of t] slots_put [OF ok, of t s] by (auto simp: pool_inv_def taken_upd users_upd)
  next
    case close
    then show ?thesis using ok pos b cl un fin by (auto simp: close_pool_def pool_inv_def split: if_splits)
  next
    case unmap
    then show ?thesis using ok pos b cl by (auto simp: unmap_slots_def pool_inv_def)
  qed
qed

lemma pool_reachable_inv:
  assumes "AlignedBufferPool pagesize bytes count = Inr p0" "pool_reachable p0 c"
  shows "pool_inv c"
  using assms(2) unfolding pool_reachable_def
proof (induction rule: rtranclp_induct)
  case base
  show ?case by (rule pool_inv_init [OF assms(1)])
next
  case (step c d)
  then show ?case by (cases c; cases d) (auto intro: pool_step_inv)
qed

section \<open>The abstract pool\<close>

text \<open>
  What the pool promises: each slot has at most one owner, an owner is a thread that entered while
  the pool was open, and the pool closes only when nothing is owned.
\<close>

record 't abstract_pool =
  owner :: "nat \<rightharpoonup> 't"
  a_closed :: bool

inductive abstract_step :: "int \<Rightarrow> 't abstract_pool \<Rightarrow> 't abstract_pool \<Rightarrow> bool" for n where
  a_acquire: "\<not> a_closed a \<Longrightarrow> owner a s = None \<Longrightarrow> int s < n \<Longrightarrow> t \<notin> ran (owner a) \<Longrightarrow>
    abstract_step n a (a\<lparr>owner := (owner a)(s \<mapsto> t)\<rparr>)"
| a_release: "owner a s = Some t \<Longrightarrow> abstract_step n a (a\<lparr>owner := (owner a)(s := None)\<rparr>)"
| a_close: "owner a = Map.empty \<Longrightarrow> abstract_step n a (a\<lparr>a_closed := True\<rparr>)"

definition refines :: "pool \<times> ('t \<Rightarrow> phase) \<Rightarrow> 't abstract_pool \<Rightarrow> bool" where
  "refines c a \<longleftrightarrow> (case c of (p, ph) \<Rightarrow>
     a_closed a = closed p \<and> (\<forall>s t. owner a s = Some t \<longleftrightarrow> ph t = Using s))"

lemma refines_stutter:
  assumes "refines (p, ph) a" "closed p' = closed p" "\<And>t s. ph' t = Using s \<longleftrightarrow> ph t = Using s"
  shows "\<exists>a'. (a' = a \<or> abstract_step n a a') \<and> refines (p', ph') a'"
  using assms by (auto simp: refines_def)

lemma pool_step_refines:
  assumes "pool_step (p, ph) (p', ph')" "pool_inv (p, ph)" "refines (p, ph) a"
  shows "\<exists>a'. (a' = a \<or> abstract_step (slot_count p) a a') \<and> refines (p', ph') a'"
  using assms(1)
proof cases
  case (check t)
  show ?thesis by (rule refines_stutter [OF assms(3)]) (use check in simp_all)
next
  case (get t s)
  show ?thesis
    by (rule refines_stutter [OF assms(3)]) (use get in \<open>auto simp: acquire_get_def split: list.splits\<close>)
next
  case (busy t)
  show ?thesis by (rule refines_stutter [OF assms(3)]) (use busy in simp_all)
next
  case (enter t s)
  then have p': "\<not> closed p" "p' = p\<lparr>borrowed := borrowed p + 1\<rparr>"
    by (auto simp: acquire_enter_def and_then_Inr_iff split: if_splits)
  have own: "owner a r = Some u \<longleftrightarrow> ph u = Using r" for r u using assms(3) by (simp add: refines_def)
  have ok: "inj_on (taken \<circ> ph) (dom (taken \<circ> ph))" "ran (taken \<circ> ph) \<subseteq> {..<nat (slot_count p)}"
    using assms(2) by (auto simp: pool_inv_def slots_ok_def)
  have alone: "u = t" if "taken (ph u) = Some s" for u
    using inj_onD [OF ok(1), of u t] that enter by (simp add: domIff)
  have "owner a s = None"
  proof (rule ccontr)
    assume "owner a s \<noteq> None"
    then obtain u where "ph u = Using s" using own by auto
    then show False using alone [of u] enter by auto
  qed
  moreover have "s \<in> ran (taken \<circ> ph)" using enter by (auto simp: ran_def intro!: exI [of _ t])
  moreover have "t \<notin> ran (owner a)" using own enter by (auto simp: ran_def)
  moreover have "\<not> a_closed a" using p'(1) assms(3) by (simp add: refines_def)
  ultimately have "abstract_step (slot_count p) a (a\<lparr>owner := (owner a)(s \<mapsto> t)\<rparr>)"
    using ok(2) by (intro a_acquire) auto
  moreover have "refines (p', ph') (a\<lparr>owner := (owner a)(s \<mapsto> t)\<rparr>)"
    using enter p' assms(3) alone own by (auto simp: refines_def)
  ultimately show ?thesis by blast
next
  case (refused t s)
  show ?thesis
    by (rule refines_stutter [OF assms(3)])
      (use refused in \<open>auto simp: acquire_enter_def put_nowait_def and_then_Inr_iff split: if_splits\<close>)
next
  case (exit t s)
  have own: "owner a r = Some u \<longleftrightarrow> ph u = Using r" for r u using assms(3) by (simp add: refines_def)
  then have "abstract_step (slot_count p) a (a\<lparr>owner := (owner a)(s := None)\<rparr>)" using exit by (intro a_release) simp
  moreover have "refines (p', ph') (a\<lparr>owner := (owner a)(s := None)\<rparr>)"
    using exit assms(3) own by (auto simp: refines_def release_exit_def) (metis option.inject phase.inject(2))+
  ultimately show ?thesis by blast
next
  case (put t s)
  show ?thesis
    by (rule refines_stutter [OF assms(3)]) (use put in \<open>auto simp: put_nowait_def split: if_splits\<close>)
next
  case close
  show ?thesis
  proof (cases "closed p")
    case True
    then show ?thesis using close assms(3) by (auto simp: close_pool_def split: if_splits)
  next
    case False
    then have p': "p' = p\<lparr>closed := True\<rparr>" "borrowed p = 0" using close by (auto simp: close_pool_def split: if_splits)
    then have "users ph = {}"
      using assms(2) finite_users [of "slot_count p" "available p" ph] by (auto simp: pool_inv_def)
    then have "owner a = Map.empty" using assms(3) by (auto simp: refines_def users_def)
    then have "abstract_step (slot_count p) a (a\<lparr>a_closed := True\<rparr>)" by (rule a_close)
    moreover have "refines (p', ph') (a\<lparr>a_closed := True\<rparr>)" using close p' assms(3) by (auto simp: refines_def)
    ultimately show ?thesis by blast
  qed
next
  case unmap
  show ?thesis by (rule refines_stutter [OF assms(3)]) (use unmap in \<open>simp_all add: unmap_slots_def\<close>)
qed

section \<open>Properties\<close>

text \<open>
  C23: Staging memory is never shared or lost.  In every interleaving of threads acquiring, releasing
  and closing a pool: no two threads inside their blocks use the same slot, a thread in its block
  never sees its mapping closed, the slots on the stack and those taken add up to the fixed count (no
  credit is lost or invented), \<open>borrowed\<close> is exactly the number of threads in their blocks, and
  returning a slot never finds the queue full.
\<close>

theorem pool_slots_exclusive:
  assumes "AlignedBufferPool pagesize bytes count = Inr p0" and "pool_reachable p0 (p, ph)"
  shows "(\<forall>t t' s. ph t = Using s \<and> ph t' = Using s \<longrightarrow> t = t')
    \<and> (\<forall>t s. ph t = Using s \<longrightarrow> \<not> closed p \<and> \<not> unmapped p \<and> int s < slot_count p)
    \<and> int (length (available p)) + int (card (dom (taken \<circ> ph))) = slot_count p
    \<and> borrowed p = int (card (users ph))
    \<and> (\<forall>t s. taken (ph t) = Some s \<longrightarrow> put_nowait s p \<noteq> Inl QueueFull)"
proof -
  have ok: "slots_ok (slot_count p) (available p) (taken \<circ> ph)" and b: "borrowed p = int (card (users ph))"
    and cl: "closed p \<Longrightarrow> users ph = {}" and un: "unmapped p \<Longrightarrow> closed p" and pos: "0 < slot_count p"
    using pool_reachable_inv [OF assms] by (auto simp: pool_inv_def)
  have inj: "inj_on (taken \<circ> ph) (dom (taken \<circ> ph))" and ran: "ran (taken \<circ> ph) \<subseteq> {..<nat (slot_count p)}"
    using ok by (auto simp: slots_ok_def)
  have "int s < slot_count p" if "ph t = Using s" for t s
  proof -
    have "s \<in> ran (taken \<circ> ph)" using that by (auto simp: ran_def intro!: exI [of _ t])
    then show ?thesis using ran by auto
  qed
  moreover have "t = t'" if "ph t = Using s" "ph t' = Using s" for t t' s
    using inj_onD [OF inj, of t t'] that by (simp add: domIff)
  moreover have "\<not> closed p" if "ph t = Using s" for t s using that cl by (auto simp: users_def)
  moreover have "int (length (available p)) + int (card (dom (taken \<circ> ph))) = slot_count p"
    using slots_conservation [OF ok] pos by simp
  moreover have "put_nowait s p \<noteq> Inl QueueFull" if "taken (ph t) = Some s" for t s
    using put_succeeds [OF ok that] by simp
  ultimately show ?thesis using b un by blast
qed

lemma pool_reach_step: "pool_reachable p0 c \<Longrightarrow> pool_step c d \<Longrightarrow> pool_reachable p0 d"
  unfolding pool_reachable_def by (rule rtranclp.rtrancl_into_rtrancl)

lemma sample_pool_run:
  assumes "AlignedBufferPool 4096 8192 2 = Inr p0"
  shows "pool_reachable p0 (p0\<lparr>available := [0], borrowed := 1\<rparr>, (\<lambda>_ :: bool. Outside)(True := Using 1))"
proof -
  have p0: "p0 = \<lparr>slot_bytes = 8192, slot_count = 2, available = [1, 0], borrowed = 0, closed = False, unmapped = False\<rparr>"
    using assms by (simp add: AlignedBufferPool_def upt_rec)
  have r0: "pool_reachable p0 (p0, \<lambda>_ :: bool. Outside)" by (simp add: pool_reachable_def)
  have r1: "pool_reachable p0 (p0, (\<lambda>_. Outside)(True := Checked))"
    by (rule pool_reach_step [OF r0 pool_step.check]) (simp_all add: acquire_check_def p0)
  have r2: "pool_reachable p0 (p0\<lparr>available := [0]\<rparr>, ((\<lambda>_. Outside)(True := Checked))(True := Got 1))"
    by (rule pool_reach_step [OF r1 pool_step.get]) (simp_all add: acquire_get_def p0)
  have "pool_reachable p0 (p0\<lparr>available := [0], borrowed := 1\<rparr>, (((\<lambda>_. Outside)(True := Checked))(True := Got 1))(True := Using 1))"
    by (rule pool_reach_step [OF r2 pool_step.enter]) (simp_all add: acquire_enter_def p0)
  then show ?thesis by simp
qed

theorem pool_slots_exclusive_witness:
  "\<exists>p0 :: pool. AlignedBufferPool 4096 8192 2 = Inr p0 \<and> put_nowait 1 (p0\<lparr>available := [0], borrowed := 1\<rparr>) \<noteq> Inl QueueFull"
proof -
  obtain p0 where p0: "AlignedBufferPool 4096 8192 2 = Inr p0" by (simp add: AlignedBufferPool_def)
  from pool_slots_exclusive [OF p0 sample_pool_run [OF p0]] p0 show ?thesis by auto
qed

text \<open>
  C24: The pool refines its abstract contract: every step of the interleaved threads either leaves the
  ownership of slots unchanged or is one abstract step, in which an open pool gives a free slot to a
  thread that has none, an owner returns its slot, or a pool with no owner closes.
\<close>

theorem pool_refines_ownership:
  fixes ph :: "'t \<Rightarrow> phase"
  assumes "AlignedBufferPool pagesize bytes count = Inr p0" and "pool_reachable p0 (p, ph)"
    and "refines (p, ph) a" and "pool_step (p, ph) (p', ph')"
  shows "\<exists>a'. (a' = a \<or> abstract_step (slot_count p) a a') \<and> refines (p', ph') a'"
  by (rule pool_step_refines [OF assms(4) pool_reachable_inv [OF assms(1,2)] assms(3)])

theorem pool_refines_ownership_witness:
  "\<exists>p0 a'. AlignedBufferPool 4096 8192 2 = Inr p0
     \<and> refines (release_exit (p0\<lparr>available := [0], borrowed := 1\<rparr>), (\<lambda>_ :: bool. Outside)(True := Returning 1)) a'"
proof -
  obtain p0 where p0: "AlignedBufferPool 4096 8192 2 = Inr p0" by (simp add: AlignedBufferPool_def)
  let ?p = "p0\<lparr>available := [0], borrowed := 1\<rparr>" and ?ph = "(\<lambda>_ :: bool. Outside)(True := Using 1)"
  have "\<not> closed p0" using p0 by (auto simp: AlignedBufferPool_def)
  then have r: "refines (?p, ?ph) \<lparr>owner = [1 \<mapsto> True], a_closed = False\<rparr>" by (auto simp: refines_def)
  have "pool_step (?p, ?ph) (release_exit ?p, ?ph(True := Returning 1))" by (rule pool_step.exit) simp
  from pool_refines_ownership [OF p0 sample_pool_run [OF p0] r this] p0 show ?thesis by auto
qed

text \<open>
  C25: Zeroing terminates and writes exactly the requested range: outside \<open>0 \<le> start \<le> end \<le> size\<close> it
  raises, otherwise the bytes of the range become zero and all others keep their value, whatever the
  size of the bounded zero block it copies from.
\<close>

theorem zero_exact:
  assumes "length (ab_mapping b) = ab_size b"
  shows "zero start end_opt b =
    (let stop = (case end_opt of None \<Rightarrow> int (ab_size b) | Some e \<Rightarrow> e) in
     if 0 \<le> start \<and> start \<le> stop \<and> stop \<le> int (ab_size b)
     then Inr (b\<lparr>ab_mapping := take (nat start) (ab_mapping b) @ replicate (nat (stop - start)) (CHR 0x00)
                               @ drop (nat stop) (ab_mapping b)\<rparr>)
     else Inl ValueError)"
proof -
  define stop where "stop = (case end_opt of None \<Rightarrow> int (ab_size b) | Some e \<Rightarrow> e)"
  let ?k = "nat (min (1024 * 1024) (stop - start))"
  have "zero_loop (replicate ?k (CHR 0x00)) (nat start) (nat stop) (ab_mapping b)
      = take (nat start) (ab_mapping b) @ replicate (nat (stop - start)) (CHR 0x00) @ drop (nat stop) (ab_mapping b)"
    if "0 \<le> start" "start \<le> stop" "stop \<le> int (ab_size b)"
    using zero_loop_spec [of "replicate ?k (CHR 0x00)" ?k "nat start" "nat stop" "ab_mapping b"] that assms
    by (simp add: nat_diff_distrib)
  then show ?thesis by (simp add: zero_def Let_def flip: stop_def)
qed

theorem zero_exact_witness:
  "zero 1 (Some 3) \<lparr>ab_index = 0, ab_size = 4, ab_mapping = ''abcd''\<rparr>
   = Inr \<lparr>ab_index = 0, ab_size = 4, ab_mapping = [CHR ''a'', CHR 0x00, CHR 0x00, CHR ''d'']\<rparr>"
  using zero_exact [of "\<lparr>ab_index = 0, ab_size = 4, ab_mapping = ''abcd''\<rparr>" 1 "Some 3"]
  by (simp add: numeral_2_eq_2)


end
