(* ===== verification/Filesystem.thy ===== *)
theory Filesystem
  imports Prelude
begin

text \<open>
  The operating-system interface of the storage components: a directory tree with hard links,
  \<open>fsync\<close> on files and directories, faults and power loss.  A state holds the live namespace, the
  namespace that is known to be on disk, and the inodes with the flag that says whether their data
  has been synced.  The environment is part of the state: \<open>schedule\<close> decides for each system call
  whether it completes, transfers only some bytes, fails, or is interrupted by power loss, after
  which no call has an effect.  Theorems quantify over all schedules, and so over every fault and
  every crash point.  Paths are relative to the root of the store; directories on a path are never
  symbolic links (the store refuses such a root).
\<close>

section \<open>Actions\<close>

text \<open>A Python statement: it returns or raises, and changes the state in both cases.\<close>

type_synonym ('s, 'a) action = "'s \<Rightarrow> 'a result \<times> 's"

definition give :: "'a \<Rightarrow> ('s, 'a) action" where
  "give x = (\<lambda>s. (Inr x, s))"

definition throw :: "error \<Rightarrow> ('s, 'a) action" where
  "throw e = (\<lambda>s. (Inl e, s))"

definition lift :: "'a result \<Rightarrow> ('s, 'a) action" where
  "lift r = (\<lambda>s. (r, s))"

definition seq :: "('s, 'a) action \<Rightarrow> ('a \<Rightarrow> ('s, 'b) action) \<Rightarrow> ('s, 'b) action" where
  "seq m f = (\<lambda>s. case m s of (Inl e, s') \<Rightarrow> (Inl e, s') | (Inr x, s') \<Rightarrow> f x s')"

text \<open>\<open>try: m except P as e: h(e)\<close> and \<open>try: m finally: c\<close>.\<close>

definition except :: "(error \<Rightarrow> bool) \<Rightarrow> ('s, 'a) action \<Rightarrow> (error \<Rightarrow> ('s, 'a) action) \<Rightarrow> ('s, 'a) action" where
  "except P m h = (\<lambda>s. case m s of (Inl e, s') \<Rightarrow> if P e then h e s' else (Inl e, s') | (Inr x, s') \<Rightarrow> (Inr x, s'))"

definition ensure :: "('s, 'a) action \<Rightarrow> ('s, unit) action \<Rightarrow> ('s, 'a) action" where
  "ensure m c = (\<lambda>s. case m s of (r, s') \<Rightarrow> (case c s' of (Inl e, s'') \<Rightarrow> (Inl e, s'') | (Inr _, s'') \<Rightarrow> (r, s'')))"

fun for_each :: "('b \<Rightarrow> ('s, unit) action) \<Rightarrow> 'b list \<Rightarrow> ('s, unit) action" where
  "for_each f [] = give ()"
| "for_each f (x # xs) = seq (f x) (\<lambda>_. for_each f xs)"

text \<open>A loop that carries a local value.\<close>

fun fold_action :: "('b \<Rightarrow> 'a \<Rightarrow> ('s, 'b) action) \<Rightarrow> 'b \<Rightarrow> 'a list \<Rightarrow> ('s, 'b) action" where
  "fold_action f b [] = give b"
| "fold_action f b (x # xs) = seq (f b x) (\<lambda>b'. fold_action f b' xs)"

definition check :: "bool \<Rightarrow> error \<Rightarrow> ('s, unit) action" where
  "check b e = (if b then give () else throw e)"

definition any_error :: "error \<Rightarrow> bool" where
  "any_error e = True"

definition not_found :: "error \<Rightarrow> bool" where
  "not_found e \<longleftrightarrow> e = FileNotFoundError"

text \<open>\<open>OSError\<close> and its subclasses.\<close>

definition os_error :: "error \<Rightarrow> bool" where
  "os_error e \<longleftrightarrow> e \<in> {OSError, FileNotFoundError, FileExistsError}"

section \<open>The file system\<close>

type_synonym path = "string list"

datatype node = Regular nat | Directory | Symlink bool | Special

record inode =
  in_data :: string
  in_synced :: bool
  in_mtime :: int

datatype outcome = Done | Short nat | Fail error | PowerLoss

record fs =
  live :: "(path, node) dict"
  durable :: "(path, node) dict"
  inodes :: "inode list"
  schedule :: "outcome list"
  power_off :: bool
  uuids :: "string list"
  clock :: "int list"

abbreviation live_at :: "'z fs_scheme \<Rightarrow> path \<Rightarrow> node option" where
  "live_at s \<equiv> dict_get (live s)"

abbreviation durable_at :: "'z fs_scheme \<Rightarrow> path \<Rightarrow> node option" where
  "durable_at s \<equiv> dict_get (durable s)"

definition is_dir :: "'z fs_scheme \<Rightarrow> path \<Rightarrow> bool" where
  "is_dir s p \<longleftrightarrow> p = [] \<or> live_at s p = Some Directory"

definition has_parent :: "'z fs_scheme \<Rightarrow> path \<Rightarrow> bool" where
  "has_parent s p \<longleftrightarrow> p \<noteq> [] \<and> is_dir s (butlast p)"

text \<open>A call into the environment; a completed call learns how many bytes it may transfer.\<close>

definition environment ::
  "(error \<Rightarrow> error) \<Rightarrow> (nat option \<Rightarrow> ('z fs_scheme, 'a) action) \<Rightarrow> ('z fs_scheme, 'a) action" where
  "environment raised f s =
     (if power_off s then (Inl OSError, s)
      else case schedule s of
          [] \<Rightarrow> f None s
        | Done # os \<Rightarrow> f None (s\<lparr>schedule := os\<rparr>)
        | Short n # os \<Rightarrow> f (Some n) (s\<lparr>schedule := os\<rparr>)
        | Fail e # os \<Rightarrow> (Inl (raised e), s\<lparr>schedule := os\<rparr>)
        | PowerLoss # os \<Rightarrow> (Inl OSError, s\<lparr>schedule := os, power_off := True\<rparr>))"

text \<open>A failing system call raises \<open>OSError\<close>; a failing callback raises what it likes.\<close>

definition syscall :: "(nat option \<Rightarrow> ('z fs_scheme, 'a) action) \<Rightarrow> ('z fs_scheme, 'a) action" where
  "syscall = environment (\<lambda>_. OSError)"

definition callback :: "('z fs_scheme, 'a) action \<Rightarrow> ('z fs_scheme, 'a) action" where
  "callback f = environment (\<lambda>e. e) (\<lambda>_. f)"

definition missing :: "'z fs_scheme \<Rightarrow> path \<Rightarrow> error" where
  "missing s p =
     (if butlast p = [] then FileNotFoundError
      else case live_at s (butlast p) of
          None \<Rightarrow> FileNotFoundError
        | Some Directory \<Rightarrow> FileNotFoundError
        | Some _ \<Rightarrow> OSError)"

definition lstat :: "path \<Rightarrow> ('z fs_scheme, node) action" where
  "lstat p = syscall (\<lambda>_ s. case live_at s p of None \<Rightarrow> (Inl (missing s p), s) | Some n \<Rightarrow> (Inr n, s))"

text \<open>\<open>Path.exists\<close> follows a symbolic link, \<open>Path.is_symlink\<close> does not.\<close>

definition path_exists :: "path \<Rightarrow> ('z fs_scheme, bool) action" where
  "path_exists p =
     syscall (\<lambda>_ s. (Inr (case live_at s p of None \<Rightarrow> False | Some (Symlink b) \<Rightarrow> b | Some _ \<Rightarrow> True), s))"

definition is_symlink :: "path \<Rightarrow> ('z fs_scheme, bool) action" where
  "is_symlink p = syscall (\<lambda>_ s. (Inr (\<exists>b. live_at s p = Some (Symlink b)), s))"

definition path_is_dir :: "path \<Rightarrow> ('z fs_scheme, bool) action" where
  "path_is_dir p = syscall (\<lambda>_ s. (Inr (is_dir s p), s))"

text \<open>\<open>os.open\<close> without following links: for reading, and with \<open>O_CREAT | O_EXCL\<close> for writing.\<close>

definition open_read :: "path \<Rightarrow> ('z fs_scheme, node) action" where
  "open_read p =
     syscall (\<lambda>_ s. case live_at s p of
         None \<Rightarrow> (Inl (missing s p), s)
       | Some (Symlink _) \<Rightarrow> (Inl OSError, s)
       | Some n \<Rightarrow> (Inr n, s))"

definition open_create :: "path \<Rightarrow> ('z fs_scheme, nat) action" where
  "open_create p =
     syscall (\<lambda>_ s.
       if live_at s p \<noteq> None then (Inl FileExistsError, s)
       else if \<not> has_parent s p then (Inl (missing s p), s)
       else (Inr (length (inodes s)),
             s\<lparr>live := dict_set p (Regular (length (inodes s))) (live s),
               inodes := inodes s @ [\<lparr>in_data = [], in_synced = False, in_mtime = 0\<rparr>]\<rparr>))"

definition overwrite :: "nat \<Rightarrow> string \<Rightarrow> string \<Rightarrow> string" where
  "overwrite pos bytes old =
     take pos (old @ replicate (pos - length old) (CHR 0x00)) @ bytes @ drop (pos + length bytes) old"

definition write_at :: "nat \<Rightarrow> nat \<Rightarrow> string \<Rightarrow> ('z fs_scheme, nat) action" where
  "write_at i pos bytes =
     syscall (\<lambda>quota s.
       let n = (case quota of None \<Rightarrow> length bytes | Some q \<Rightarrow> min q (length bytes)) in
       (Inr n,
        s\<lparr>inodes := (inodes s)[i := (inodes s ! i)\<lparr>in_data := overwrite pos (take n bytes) (in_data (inodes s ! i)),
                                                in_synced := False\<rparr>]\<rparr>))"

definition read_at :: "nat \<Rightarrow> nat \<Rightarrow> nat \<Rightarrow> ('z fs_scheme, string) action" where
  "read_at i pos n =
     syscall (\<lambda>quota s.
       (Inr (take (case quota of None \<Rightarrow> n | Some q \<Rightarrow> min q n) (drop pos (in_data (inodes s ! i)))), s))"

definition fstat :: "nat \<Rightarrow> ('z fs_scheme, inode) action" where
  "fstat i = syscall (\<lambda>_ s. (Inr (inodes s ! i), s))"

definition fsync_file :: "nat \<Rightarrow> ('z fs_scheme, unit) action" where
  "fsync_file i = syscall (\<lambda>_ s. (Inr (), s\<lparr>inodes := (inodes s)[i := (inodes s ! i)\<lparr>in_synced := True\<rparr>]\<rparr>))"

definition child_of :: "path \<Rightarrow> path \<Rightarrow> bool" where
  "child_of d p \<longleftrightarrow> p \<noteq> [] \<and> butlast p = d"

definition fsync_directory :: "path \<Rightarrow> ('z fs_scheme, unit) action" where
  "fsync_directory d =
     syscall (\<lambda>_ s.
       if \<not> is_dir s d then (Inl (if live_at s d = None then missing s d else OSError), s)
       else (Inr (), s\<lparr>durable := filter (\<lambda>(p, _). \<not> child_of d p) (durable s)
                                @ filter (\<lambda>(p, _). child_of d p) (live s)\<rparr>))"

text \<open>Renaming moves a directory with what is below it.\<close>

definition moved :: "path \<Rightarrow> path \<Rightarrow> path \<Rightarrow> path" where
  "moved a b p = (if take (length a) p = a then b @ drop (length a) p else p)"

definition os_replace :: "path \<Rightarrow> path \<Rightarrow> ('z fs_scheme, unit) action" where
  "os_replace a b =
     syscall (\<lambda>_ s.
       case live_at s a of
         None \<Rightarrow> (Inl (missing s a), s)
       | Some n \<Rightarrow>
           if \<not> has_parent s b then (Inl (missing s b), s)
           else if a = b then (Inr (), s)
           else if take (length a) b = a then (Inl OSError, s)
           else if live_at s b = Some Directory \<or> (n = Directory \<and> live_at s b \<noteq> None) then (Inl OSError, s)
           else (Inr (), s\<lparr>live := map (\<lambda>(p, m). (moved a b p, m)) (dict_pop b (live s))\<rparr>))"

definition os_link :: "path \<Rightarrow> path \<Rightarrow> ('z fs_scheme, unit) action" where
  "os_link a b =
     syscall (\<lambda>_ s.
       case live_at s a of
         None \<Rightarrow> (Inl (missing s a), s)
       | Some n \<Rightarrow>
           if n = Directory then (Inl OSError, s)
           else if live_at s b \<noteq> None then (Inl FileExistsError, s)
           else if \<not> has_parent s b then (Inl (missing s b), s)
           else (Inr (), s\<lparr>live := dict_set b n (live s)\<rparr>))"

definition os_unlink :: "path \<Rightarrow> ('z fs_scheme, unit) action" where
  "os_unlink p =
     syscall (\<lambda>_ s.
       case live_at s p of
         None \<Rightarrow> (Inl (missing s p), s)
       | Some Directory \<Rightarrow> (Inl OSError, s)
       | Some _ \<Rightarrow> (Inr (), s\<lparr>live := dict_pop p (live s)\<rparr>))"

definition os_mkdir :: "path \<Rightarrow> ('z fs_scheme, unit) action" where
  "os_mkdir p =
     syscall (\<lambda>_ s.
       if is_dir s p \<or> live_at s p \<noteq> None then (Inl FileExistsError, s)
       else if \<not> has_parent s p then (Inl (missing s p), s)
       else (Inr (), s\<lparr>live := dict_set p Directory (live s)\<rparr>))"

definition names_in :: "'z fs_scheme \<Rightarrow> path \<Rightarrow> string list" where
  "names_in s d = map last (filter (child_of d) (dict_keys (live s)))"

definition os_rmdir :: "path \<Rightarrow> ('z fs_scheme, unit) action" where
  "os_rmdir p =
     syscall (\<lambda>_ s.
       case live_at s p of
         None \<Rightarrow> (Inl (missing s p), s)
       | Some Directory \<Rightarrow>
           if names_in s p \<noteq> [] then (Inl OSError, s) else (Inr (), s\<lparr>live := dict_pop p (live s)\<rparr>)
       | Some _ \<Rightarrow> (Inl OSError, s))"

text \<open>\<open>os.scandir\<close>, as the names present when the directory is opened.\<close>

definition scandir :: "path \<Rightarrow> ('z fs_scheme, string list) action" where
  "scandir d =
     syscall (\<lambda>_ s.
       if is_dir s d then (Inr (names_in s d), s)
       else (Inl (if live_at s d = None then missing s d else OSError), s))"

definition os_utime :: "path \<Rightarrow> int \<Rightarrow> ('z fs_scheme, unit) action" where
  "os_utime p t =
     syscall (\<lambda>_ s.
       case live_at s p of
         None \<Rightarrow> (Inl (missing s p), s)
       | Some (Regular i) \<Rightarrow> (Inr (), s\<lparr>inodes := (inodes s)[i := (inodes s ! i)\<lparr>in_mtime := t\<rparr>]\<rparr>)
       | Some _ \<Rightarrow> (Inr (), s))"

text \<open>\<open>uuid.uuid4().hex\<close> and \<open>time.time_ns()\<close> read the environment.\<close>

definition uuid4 :: "('z fs_scheme, string) action" where
  "uuid4 s = (case uuids s of [] \<Rightarrow> (Inr (replicate 32 (CHR ''0'')), s) | u # us \<Rightarrow> (Inr u, s\<lparr>uuids := us\<rparr>))"

definition time_ns :: "('z fs_scheme, int) action" where
  "time_ns s = (case clock s of [] \<Rightarrow> (Inr 0, s) | t # ts \<Rightarrow> (Inr t, s\<lparr>clock := ts\<rparr>))"

section \<open>Restart\<close>

text \<open>
  After power loss each name is bound as in the live or in the durable namespace, independently of
  the others, a name below a lost directory is lost, and unsynced data is arbitrary.  After the
  loss of the process alone the namespace and the data stay as they are.
\<close>

definition ancestors :: "path \<Rightarrow> path set" where
  "ancestors p = {take k p | k. 0 < k \<and> k < length p}"

definition power_cycled :: "'z fs_scheme \<Rightarrow> 'y fs_scheme \<Rightarrow> bool" where
  "power_cycled s s' \<longleftrightarrow>
     (\<exists>c. (\<forall>p. c p = live_at s p \<or> c p = durable_at s p)
          \<and> live_at s' = (\<lambda>p. if \<forall>q \<in> ancestors p. c q = Some Directory then c p else None))
     \<and> distinct (dict_keys (live s')) \<and> durable_at s' = live_at s'
     \<and> length (inodes s') = length (inodes s)
     \<and> (\<forall>i < length (inodes s). in_synced (inodes s ! i) \<longrightarrow> in_data (inodes s' ! i) = in_data (inodes s ! i))
     \<and> (\<forall>i < length (inodes s). in_synced (inodes s' ! i))"

definition process_restarted :: "'z fs_scheme \<Rightarrow> 'y fs_scheme \<Rightarrow> bool" where
  "process_restarted s s' \<longleftrightarrow> live s' = live s \<and> durable s' = durable s \<and> inodes s' = inodes s"

definition restarted :: "'z fs_scheme \<Rightarrow> 'y fs_scheme \<Rightarrow> bool" where
  "restarted s s' \<longleftrightarrow> process_restarted s s' \<or> power_cycled s s'"

section \<open>Running actions\<close>

named_theorems action_simps \<open>evaluating actions\<close>

lemma run_simps [simp, action_simps]:
  "give x s = (Inr x, s)" "throw e s = (Inl e, s)" "lift r s = (r, s)"
  "m s = (Inl e, s') \<Longrightarrow> seq m f s = (Inl e, s')"
  "m s = (Inr x, s') \<Longrightarrow> seq m f s = f x s'"
  "m s = (Inr x, s') \<Longrightarrow> except P m h s = (Inr x, s')"
  "m s = (Inl e, s') \<Longrightarrow> except P m h s = (if P e then h e s' else (Inl e, s'))"
  by (simp_all add: give_def throw_def lift_def seq_def except_def)

lemma check_simps [simp, action_simps]: "check b e s = (if b then Inr () else Inl e, s)"
  by (simp add: check_def)

lemma seq_cases:
  assumes "seq m f s = (r, s')"
  obtains (fail) e where "m s = (Inl e, s')" "r = Inl e"
    | (cont) x s1 where "m s = (Inr x, s1)" "f x s1 = (r, s')"
  using assms by (cases "m s") (auto simp: seq_def split: sum.splits)

lemma seq_Inr [action_simps]: "seq m f s = (Inr x, s') \<longleftrightarrow> (\<exists>y s1. m s = (Inr y, s1) \<and> f y s1 = (Inr x, s'))"
  by (auto simp: seq_def split: prod.splits sum.splits)

lemma except_cases:
  assumes "except P m h s = (r, s')"
  obtains (pass) "m s = (r, s')" "\<And>e. r = Inl e \<Longrightarrow> \<not> P e"
    | (handle) e s1 where "m s = (Inl e, s1)" "P e" "h e s1 = (r, s')"
  using assms by (cases "m s") (auto simp: except_def split: sum.splits if_splits)

lemma ensure_cases:
  assumes "ensure m c s = (r, s')"
  obtains (pass) s1 where "m s = (r, s1)" "c s1 = (Inr (), s')"
    | (fail) r1 s1 e where "m s = (r1, s1)" "c s1 = (Inl e, s')" "r = Inl e"
  using assms by (cases "m s"; cases "c (snd (m s))") (auto simp: ensure_def split: sum.splits)

text \<open>The same disk, whatever the environment has consumed.\<close>

definition same_disk :: "'z fs_scheme \<Rightarrow> 'z fs_scheme \<Rightarrow> bool" where
  "same_disk s s' \<longleftrightarrow>
     live s' = live s \<and> durable s' = durable s \<and> inodes s' = inodes s \<and> fs.more s' = fs.more s"

lemma same_disk_refl [simp]: "same_disk s s"
  by (simp add: same_disk_def)

lemma same_disk_trans [trans]: "same_disk s s' \<Longrightarrow> same_disk s' s'' \<Longrightarrow> same_disk s s''"
  by (simp add: same_disk_def)

lemma same_disk_environment [simp]:
  "same_disk s (s\<lparr>schedule := os\<rparr>)" "same_disk s (s\<lparr>schedule := os, power_off := b\<rparr>)"
  "same_disk s (s\<lparr>uuids := us\<rparr>)" "same_disk s (s\<lparr>clock := ts\<rparr>)"
  by (simp_all add: same_disk_def)

lemma environment_cases:
  assumes "environment raised f s = (r, s')"
  obtains (fail) e where "r = Inl e" "e = OSError \<or> (\<exists>e'. e = raised e')" "same_disk s s'"
    | (run) q s0 where "same_disk s s0" "f q s0 = (r, s')"
proof (cases "power_off s")
  case True
  then show ?thesis using assms fail by (auto simp: environment_def)
next
  case False
  show ?thesis
  proof (cases "schedule s")
    case Nil
    then show ?thesis using assms False run [of s None] by (simp add: environment_def)
  next
    case (Cons w os)
    show ?thesis
    proof (cases w)
      case Done
      then show ?thesis using assms False Cons run [OF same_disk_environment(1)] by (simp add: environment_def)
    next
      case (Short n)
      then show ?thesis using assms False Cons run [OF same_disk_environment(1)] by (simp add: environment_def)
    next
      case (Fail e)
      then have "r = Inl (raised e)" "same_disk s s'" using assms False Cons by (auto simp: environment_def)
      then show ?thesis using fail by blast
    qed (use assms False Cons fail in \<open>auto simp: environment_def\<close>)
  qed
qed

lemma syscall_cases:
  assumes "syscall f s = (r, s')"
  obtains (fail) "r = Inl OSError" "same_disk s s'"
    | (run) q s0 where "same_disk s s0" "f q s0 = (r, s')"
  using assms unfolding syscall_def by (cases rule: environment_cases) blast+

lemma callback_cases:
  assumes "callback f s = (r, s')"
  obtains (fail) e where "r = Inl e" "same_disk s s'"
    | (run) s0 where "same_disk s s0" "f s0 = (r, s')"
  using assms unfolding callback_def by (cases rule: environment_cases) blast+

section \<open>Well-formed trees\<close>

definition tree :: "(path \<rightharpoonup> node) \<Rightarrow> bool" where
  "tree m \<longleftrightarrow> m [] = None \<and> (\<forall>p. m p \<noteq> None \<longrightarrow> butlast p = [] \<or> m (butlast p) = Some Directory)"

definition wf_fs :: "'z fs_scheme \<Rightarrow> bool" where
  "wf_fs s \<longleftrightarrow>
     distinct (dict_keys (live s)) \<and> tree (live_at s) \<and> durable_at s [] = None
     \<and> (\<forall>p i. live_at s p = Some (Regular i) \<or> durable_at s p = Some (Regular i) \<longrightarrow> i < length (inodes s))"

definition below :: "path \<Rightarrow> path set" where
  "below a = {p. take (length a) p = a}"

text \<open>
  What an action that only binds names of \<open>N\<close> and only writes inodes from \<open>k\<close> on leaves in place:
  other names keep their binding, which may have become durable, and older inodes their data.
\<close>

definition frame_of :: "path set \<Rightarrow> nat \<Rightarrow> 'z fs_scheme \<Rightarrow> 'z fs_scheme \<Rightarrow> bool" where
  "frame_of N k s s' \<longleftrightarrow>
     (\<forall>p. p \<notin> N \<longrightarrow> live_at s' p = live_at s p
        \<and> (durable_at s' p = durable_at s p \<or> durable_at s' p = live_at s p))
     \<and> (\<forall>i < k. in_data (inodes s' ! i) = in_data (inodes s ! i) \<and> in_synced (inodes s' ! i) = in_synced (inodes s ! i))
     \<and> length (inodes s) \<le> length (inodes s')"

definition keeps :: "path set \<Rightarrow> nat \<Rightarrow> ('z fs_scheme, 'a) action \<Rightarrow> bool" where
  "keeps N k m \<longleftrightarrow>
     (\<forall>s. wf_fs s \<and> k \<le> length (inodes s) \<longrightarrow> wf_fs (snd (m s)) \<and> frame_of N k s (snd (m s)))"

lemma frame_of_refl [simp]: "frame_of N k s s"
  by (simp add: frame_of_def)

lemma frame_of_trans: "frame_of N k s s' \<Longrightarrow> frame_of N k s' s'' \<Longrightarrow> frame_of N k s s''"
  unfolding frame_of_def by (intro conjI allI impI) (metis le_trans)+

lemma frame_of_mono: "frame_of N k s s' \<Longrightarrow> N \<subseteq> M \<Longrightarrow> j \<le> k \<Longrightarrow> frame_of M j s s'"
  unfolding frame_of_def by (meson less_le_trans subsetD)

lemma same_disk_frame: "same_disk s s' \<Longrightarrow> frame_of N k s s' \<and> (wf_fs s' \<longleftrightarrow> wf_fs s)"
  by (simp add: same_disk_def frame_of_def wf_fs_def)

lemma keepsI:
  assumes "\<And>s r s'. m s = (r, s') \<Longrightarrow> wf_fs s \<Longrightarrow> k \<le> length (inodes s) \<Longrightarrow> wf_fs s' \<and> frame_of N k s s'"
  shows "keeps N k m"
  unfolding keeps_def using assms by (metis prod.collapse)

lemma keepsD:
  assumes "keeps N k m" and "m s = (r, s')" and "wf_fs s" and "k \<le> length (inodes s)"
  shows "wf_fs s'" "frame_of N k s s'" "k \<le> length (inodes s')"
proof -
  show "wf_fs s'" "frame_of N k s s'" using assms by (auto simp: keeps_def)
  then show "k \<le> length (inodes s')" using assms(4) by (simp add: frame_of_def)
qed

named_theorems keeps_rules \<open>which names and inodes an action leaves alone\<close>

lemma keeps_mono: "keeps N k m \<Longrightarrow> N \<subseteq> M \<Longrightarrow> k' = k \<Longrightarrow> keeps M k' m"
  unfolding keeps_def using frame_of_mono by blast

lemma keeps_give [keeps_rules]: "keeps N k (give x)" "keeps N k (throw e)" "keeps N k (lift r)" "keeps N k (check b e)"
  by (simp_all add: keeps_def)

lemma keeps_seq [keeps_rules]:
  assumes "keeps N k m" and "\<And>x. keeps N k (f x)"
  shows "keeps N k (seq m f)"
proof (rule keepsI)
  fix s r s'
  assume run: "seq m f s = (r, s')" and s: "wf_fs s" "k \<le> length (inodes s)"
  show "wf_fs s' \<and> frame_of N k s s'"
    using run
  proof (cases rule: seq_cases)
    case (cont x s1)
    note s1 = keepsD [OF assms(1) cont(1) s]
    show ?thesis
      using keepsD [OF assms(2) cont(2) s1(1,3)] frame_of_trans [OF s1(2)] by blast
  qed (use keepsD [OF assms(1) _ s] in blast)
qed

lemma keeps_except [keeps_rules]:
  assumes "keeps N k m" and "\<And>e. keeps N k (h e)"
  shows "keeps N k (except P m h)"
proof (rule keepsI)
  fix s r s'
  assume run: "except P m h s = (r, s')" and s: "wf_fs s" "k \<le> length (inodes s)"
  show "wf_fs s' \<and> frame_of N k s s'"
    using run
  proof (cases rule: except_cases)
    case (handle e s1)
    note s1 = keepsD [OF assms(1) handle(1) s]
    show ?thesis
      using keepsD [OF assms(2) handle(3) s1(1,3)] frame_of_trans [OF s1(2)] by blast
  qed (use keepsD [OF assms(1) _ s] in blast)
qed

lemma keeps_ensure [keeps_rules]:
  assumes "keeps N k m" and "keeps N k c"
  shows "keeps N k (ensure m c)"
proof (rule keepsI)
  fix s r s'
  assume run: "ensure m c s = (r, s')" and s: "wf_fs s" "k \<le> length (inodes s)"
  obtain r1 s1 r2 where m: "m s = (r1, s1)" and c: "c s1 = (r2, s')"
    using run by (cases rule: ensure_cases) auto
  note s1 = keepsD [OF assms(1) m s]
  show "wf_fs s' \<and> frame_of N k s s'"
    using keepsD [OF assms(2) c s1(1,3)] frame_of_trans [OF s1(2)] by blast
qed

text \<open>One step of a longer run that started in \<open>s0\<close>.\<close>

lemma keeps_stage:
  assumes run: "seq m f s = (r, s')" and keeps: "keeps N k m" and wf: "wf_fs s" "frame_of N k s0 s" "k \<le> length (inodes s)"
  obtains (fail) e where "r = Inl e" "wf_fs s'" "frame_of N k s0 s'"
    | (cont) x s1 where "m s = (Inr x, s1)" "f x s1 = (r, s')" "wf_fs s1" "frame_of N k s0 s1" "k \<le> length (inodes s1)"
  using run
proof (cases rule: seq_cases)
  case (fail e)
  note m = keepsD [OF keeps fail(1) wf(1,3)]
  show ?thesis using that(1) [OF fail(2) m(1) frame_of_trans [OF wf(2) m(2)]] .
next
  case (cont x s1)
  note m = keepsD [OF keeps cont(1) wf(1,3)]
  show ?thesis using that(2) [OF cont m(1) frame_of_trans [OF wf(2) m(2)] m(3)] .
qed

lemma keeps_for_each [keeps_rules]: "(\<And>x. x \<in> set xs \<Longrightarrow> keeps N k (f x)) \<Longrightarrow> keeps N k (for_each f xs)"
  by (induction xs) (simp_all add: keeps_give keeps_seq)

lemma keeps_fold_action [keeps_rules]:
  "(\<And>b x. x \<in> set xs \<Longrightarrow> keeps N k (f b x)) \<Longrightarrow> keeps N k (fold_action f b xs)"
  by (induction xs arbitrary: b) (simp_all add: keeps_give keeps_seq)

lemma keeps_if [keeps_rules]: "(c \<Longrightarrow> keeps N k a) \<Longrightarrow> (\<not> c \<Longrightarrow> keeps N k b) \<Longrightarrow> keeps N k (if c then a else b)"
  by simp

lemma keeps_syscall:
  assumes "\<And>q s r s'. f q s = (r, s') \<Longrightarrow> wf_fs s \<Longrightarrow> k \<le> length (inodes s) \<Longrightarrow> wf_fs s' \<and> frame_of N k s s'"
  shows "keeps N k (syscall f)"
proof (rule keepsI)
  fix s r s'
  assume run: "syscall f s = (r, s')" and s: "wf_fs s" "k \<le> length (inodes s)"
  show "wf_fs s' \<and> frame_of N k s s'"
    using run
  proof (cases rule: syscall_cases)
    case fail
    then show ?thesis using s same_disk_frame by blast
  next
    case (run q s0)
    have s0: "wf_fs s0" "k \<le> length (inodes s0)" "frame_of N k s s0"
      using run(1) s same_disk_frame [OF run(1)] by (auto simp: same_disk_def)
    show ?thesis using assms [OF run(2) s0(1,2)] frame_of_trans [OF s0(3)] by blast
  qed
qed

section \<open>What each call leaves alone\<close>

declare map_of_eq_Some_iff [simp del]

lemma treeD:
  assumes "tree m"
  shows "m [] = None" "m p = Some n \<Longrightarrow> butlast p = [] \<or> m (butlast p) = Some Directory"
  using assms by (auto simp: tree_def)

lemma butlast_neq: "p \<noteq> [] \<Longrightarrow> butlast p \<noteq> p"
  by (metis append_butlast_last_id not_Cons_self2 self_append_conv)

lemma tree_set:
  assumes "tree m" and "p \<noteq> []" and "butlast p = [] \<or> m (butlast p) = Some Directory" and "m p = None"
  shows "tree (m(p \<mapsto> n))"
  using assms butlast_neq [OF assms(2)] unfolding tree_def by (fastforce split: if_splits)

lemma tree_leaf:
  assumes "tree m" and "m p \<noteq> Some Directory" and "p \<noteq> []" and "m q \<noteq> None"
  shows "butlast q \<noteq> p"
  using assms treeD(2) [OF assms(1)] by fastforce

lemma tree_pop:
  assumes "tree m" and "\<And>q. m q \<noteq> None \<Longrightarrow> butlast q \<noteq> p"
  shows "tree (m(p := None))"
  using assms unfolding tree_def by (metis fun_upd_other fun_upd_same)

lemma tree_ancestor:
  assumes "tree m"
  shows "m p \<noteq> None \<Longrightarrow> 0 < k \<Longrightarrow> k < length p \<Longrightarrow> m (take k p) = Some Directory"
proof (induction p rule: rev_induct)
  case (snoc x p)
  have p: "p = [] \<or> m p = Some Directory" using snoc.prems(1) treeD(2) [OF assms] by fastforce
  show ?case
  proof (cases "k = length p")
    case True
    then show ?thesis using p snoc.prems(2) by simp
  next
    case False
    then have "k < length p" using snoc.prems(3) by simp
    then show ?thesis using snoc.IH p snoc.prems(2) by auto
  qed
qed simp

lemma rename_hit:
  "inj_on f (fst ` set d) \<Longrightarrow> p \<in> fst ` set d \<Longrightarrow> dict_get (map (\<lambda>(p, m). (f p, m)) d) (f p) = dict_get d p"
  by (induction d) (auto simp: inj_on_def)

lemma rename_miss: "q \<notin> f ` fst ` set d \<Longrightarrow> dict_get (map (\<lambda>(p, m). (f p, m)) d) q = None"
  by (induction d) auto

lemma moved_below: "p \<in> below a \<Longrightarrow> moved a b p = b @ drop (length a) p" "p \<notin> below a \<Longrightarrow> moved a b p = p"
  by (simp_all add: moved_def below_def)

lemma below_append [simp]: "a @ p \<in> below a"
  by (simp add: below_def)

lemma below_split: "p \<in> below a \<Longrightarrow> p = a @ drop (length a) p"
  using append_take_drop_id [of "length a" p] by (simp add: below_def)

lemma below_butlast: "butlast p \<in> below c \<Longrightarrow> p \<in> below c"
proof (cases p rule: rev_cases)
  case (snoc ys y)
  assume "butlast p \<in> below c"
  then obtain u where "ys = c @ u" using below_split snoc by force
  then show ?thesis using snoc by simp
qed simp

text \<open>The namespace after a rename onto a name that is not a directory.\<close>

lemma rename_lookup:
  assumes t: "tree (dict_get d)" and dist: "distinct (dict_keys d)" and a: "dict_get d a \<noteq> None" and b: "dict_get d b \<noteq> Some Directory" "b \<noteq> []"
    and ab: "b \<notin> below a"
  defines "d' \<equiv> map (\<lambda>(p, m). (moved a b p, m)) (dict_pop b d)"
  shows "dict_get d' q =
      (if q \<in> below b then dict_get d (a @ drop (length b) q) else if q \<in> below a then None else dict_get d q)"
    "distinct (dict_keys d')"
proof -
  define K where "K = fst ` set (dict_pop b d)"
  have K: "p \<in> K \<longleftrightarrow> dict_get d p \<noteq> None \<and> p \<noteq> b" for p
    unfolding K_def by (simp only: set_keys_dict_pop) (auto simp: set_keys_eq_dom)
  have Kb: "p \<notin> below b" if p: "p \<in> K" for p
  proof
    assume "p \<in> below b"
    then obtain r where r: "p = b @ r" using below_split by blast
    then have "r \<noteq> []" "dict_get d p \<noteq> None" using p K by auto
    then show False
      using tree_ancestor [OF t, of p "length b"] b r by simp
  qed
  have apart: "moved a b x \<noteq> y" if "x \<in> below a" "y \<in> K" for x y
    using Kb [OF that(2)] that(1) below_append [of b] by (metis moved_below(1))
  have inj: "inj_on (moved a b) K"
  proof (rule inj_onI)
    fix x y assume xy: "x \<in> K" "y \<in> K" "moved a b x = moved a b y"
    show "x = y"
    proof (cases "x \<in> below a"; cases "y \<in> below a")
      assume "x \<in> below a" "y \<in> below a"
      then show ?thesis using xy(3) below_split [of x a] below_split [of y a] by (simp add: moved_below)
    next
      assume "x \<in> below a" "y \<notin> below a"
      then show ?thesis using xy apart [of x y] by (simp add: moved_below(2))
    next
      assume "x \<notin> below a" "y \<in> below a"
      then show ?thesis using xy apart [of y x] by (simp add: moved_below(2))
    next
      assume "x \<notin> below a" "y \<notin> below a"
      then show ?thesis using xy by (simp add: moved_below)
    qed
  qed
  have hit: "dict_get d' (moved a b p) = dict_get d p" if "p \<in> K" for p
    using rename_hit [of "moved a b" "dict_pop b d" p, folded K_def d'_def, OF inj that] K [of p] that by simp
  have miss: "dict_get d' q = None" if "\<And>p. p \<in> K \<Longrightarrow> moved a b p \<noteq> q" for q
    using rename_miss [of q "moved a b" "dict_pop b d", folded K_def d'_def] that by blast
  show "dict_get d' q =
      (if q \<in> below b then dict_get d (a @ drop (length b) q) else if q \<in> below a then None else dict_get d q)"
  proof (cases "q \<in> below b")
    case True
    define p where "p = a @ drop (length b) q"
    have q: "moved a b p = q" using below_split [OF True] by (simp add: p_def moved_below)
    show ?thesis
    proof (cases "p \<in> K")
      case p: True
      then show ?thesis using hit [OF p] q True by (simp add: p_def)
    next
      case p: False
      have "p \<noteq> b" using ab by (metis p_def below_append)
      then have "dict_get d p = None" using p K by blast
      moreover have "moved a b x \<noteq> q" if "x \<in> K" for x
      proof (cases "x \<in> below a")
        case xa: True
        then have "moved a b x = q \<Longrightarrow> x = p"
          using below_split [OF xa] by (simp add: p_def moved_below) (metis append_eq_conv_conj)
        then show ?thesis using p that by blast
      next
        case False
        then show ?thesis using Kb [OF that] True by (auto simp: moved_below)
      qed
      ultimately show ?thesis using miss True by (simp add: p_def)
    qed
  next
    case nb: False
    then have out: "moved a b x \<noteq> q" if "x \<in> below a" for x
      using that below_append [of b] by (metis moved_below(1))
    show ?thesis
    proof (cases "q \<in> below a")
      case True
      then have "dict_get d' q = None" using out by (intro miss) (metis moved_below(2))
      then show ?thesis using True nb by simp
    next
      case na: False
      show ?thesis
      proof (cases "q \<in> K")
        case True
        then show ?thesis using hit [OF True] na nb by (simp add: moved_below)
      next
        case False
        have "q \<noteq> b" using nb by (auto simp: below_def)
        then have "dict_get d q = None" using False K by blast
        moreover have "dict_get d' q = None" using out False by (intro miss) (metis moved_below(2))
        ultimately show ?thesis using na nb by simp
      qed
    qed
  qed
  have "dict_keys d' = map (moved a b) (dict_keys (dict_pop b d))"
    by (simp add: d'_def comp_def case_prod_unfold)
  moreover have "distinct (dict_keys (dict_pop b d))" using dist by simp
  ultimately show "distinct (dict_keys d')" using inj
    by (simp only: distinct_map [of "moved a b"] K_def set_map)
qed

lemma keeps_query [keeps_rules]:
  "keeps N k (lstat p)" "keeps N k (path_exists p)" "keeps N k (path_is_dir p)" "keeps N k (is_symlink p)" "keeps N k (open_read p)"
  "keeps N k (read_at i pos n)" "keeps N k (fstat i)" "keeps N k (scandir d)" "keeps N k uuid4" "keeps N k time_ns"
  unfolding lstat_def path_exists_def path_is_dir_def is_symlink_def open_read_def read_at_def fstat_def scandir_def
  by (intro keeps_syscall; auto split: option.splits node.splits if_splits)+
    (auto simp: keeps_def uuid4_def time_ns_def split: list.splits intro: same_disk_frame [THEN conjunct1]
      simp: same_disk_frame [OF same_disk_environment(3)] same_disk_frame [OF same_disk_environment(4)])

lemma wf_fsD:
  assumes "wf_fs s"
  shows "distinct (dict_keys (live s))" "tree (live_at s)" "durable_at s [] = None"
    "live_at s p = Some (Regular i) \<Longrightarrow> i < length (inodes s)"
    "durable_at s p = Some (Regular i) \<Longrightarrow> i < length (inodes s)"
  using assms by (auto simp: wf_fs_def)

lemma keeps_inode_update:
  "k \<le> i \<Longrightarrow> keeps N k (syscall (\<lambda>q s. (Inr (g q s), s\<lparr>inodes := (inodes s)[i := x q s]\<rparr>)))"
  by (intro keeps_syscall) (auto simp: wf_fs_def frame_of_def)

lemma keeps_write_at [keeps_rules]:
  "k \<le> i \<Longrightarrow> keeps N k (write_at i pos bytes)" "k \<le> i \<Longrightarrow> keeps N k (fsync_file i)"
  unfolding write_at_def fsync_file_def Let_def by (erule keeps_inode_update)+

lemma dict_get_filter: "dict_get (filter (\<lambda>(p, _). P p) xs) q = (if P q then dict_get xs q else None)"
  by (induction xs) auto

lemma durable_after_fsync:
  "dict_get (filter (\<lambda>(p, _). \<not> child_of d p) a @ filter (\<lambda>(p, _). child_of d p) b) q
     = (if child_of d q then dict_get b q else dict_get a q)"
  using dict_get_filter [of "\<lambda>p. \<not> child_of d p" a q] dict_get_filter [of "child_of d" b q]
  by (auto simp: map_add_def split: option.splits)

lemma keeps_durable_update:
  assumes "wf_fs s" and "\<And>p. dict_get l p = live_at s p \<or> dict_get l p = durable_at s p"
  shows "wf_fs (s\<lparr>durable := l\<rparr>) \<and> frame_of N k s (s\<lparr>durable := l\<rparr>)"
proof -
  have "dict_get l [] = None" using assms(2) [of "[]"] wf_fsD(3) [OF assms(1)] treeD(1) [OF wf_fsD(2) [OF assms(1)]] by auto
  moreover have "i < length (inodes s)" if "dict_get l p = Some (Regular i)" for p i
    using assms(2) [of p] wf_fsD(4,5) [OF assms(1), of p i] that by auto
  ultimately show ?thesis using assms by (auto simp: wf_fs_def frame_of_def)
qed

lemma keeps_fsync_directory [keeps_rules]: "keeps N k (fsync_directory d)"
  unfolding fsync_directory_def
  by (rule keeps_syscall)
    (auto simp del: map_of_append intro!: keeps_durable_update simp: durable_after_fsync split: if_splits)

lemma keeps_live_update:
  assumes "wf_fs s" and "distinct (dict_keys l)" and "tree (dict_get l)"
    and "\<And>p i. dict_get l p = Some (Regular i) \<Longrightarrow> i < length (inodes s)"
    and "\<And>p. p \<notin> N \<Longrightarrow> dict_get l p = live_at s p"
  shows "wf_fs (s\<lparr>live := l\<rparr>) \<and> frame_of N k s (s\<lparr>live := l\<rparr>)"
  using assms by (auto simp: wf_fs_def frame_of_def)

lemma has_parentD: "has_parent s p \<Longrightarrow> p \<noteq> [] \<and> (butlast p = [] \<or> live_at s (butlast p) = Some Directory)"
  by (auto simp: has_parent_def is_dir_def)

lemma keeps_bind:
  assumes "wf_fs s" and "has_parent s p" and "live_at s p = None" and "\<And>i. n = Regular i \<Longrightarrow> i < length (inodes s)"
  shows "wf_fs (s\<lparr>live := dict_set p n (live s)\<rparr>) \<and> frame_of {p} k s (s\<lparr>live := dict_set p n (live s)\<rparr>)"
proof (rule keeps_live_update [OF assms(1)])
  show "tree (dict_get (dict_set p n (live s)))"
    using tree_set [OF wf_fsD(2) [OF assms(1)]] has_parentD [OF assms(2)] assms(3) by simp
qed (use wf_fsD [OF assms(1)] assms(4) in \<open>auto split: if_splits\<close>)

lemma keeps_unbind:
  assumes "wf_fs s" and "\<And>q. live_at s q \<noteq> None \<Longrightarrow> butlast q \<noteq> p"
  shows "wf_fs (s\<lparr>live := dict_pop p (live s)\<rparr>) \<and> frame_of {p} k s (s\<lparr>live := dict_pop p (live s)\<rparr>)"
proof (rule keeps_live_update [OF assms(1)])
  show "tree (dict_get (dict_pop p (live s)))"
    using tree_pop [OF wf_fsD(2) [OF assms(1)] assms(2)] by simp
qed (use wf_fsD [OF assms(1)] in \<open>auto split: if_splits\<close>)

lemma keeps_os_mkdir [keeps_rules]: "keeps {p} k (os_mkdir p)"
  unfolding os_mkdir_def by (rule keeps_syscall) (auto split: if_splits dest: keeps_bind)

lemma keeps_os_link [keeps_rules]: "keeps {b} k (os_link a b)"
  unfolding os_link_def
proof (rule keeps_syscall)
  fix s r s' and q :: "nat option"
  assume run: "(case live_at s a of None \<Rightarrow> (Inl (missing s a), s)
      | Some n \<Rightarrow> if n = Directory then (Inl OSError, s) else if live_at s b \<noteq> None then (Inl FileExistsError, s)
           else if \<not> has_parent s b then (Inl (missing s b), s)
           else (Inr (), s\<lparr>live := dict_set b n (live s)\<rparr>)) = (r, s')" and s: "wf_fs s"
  show "wf_fs s' \<and> frame_of {b} k s s'"
  proof (cases "live_at s a")
    case (Some n)
    have "i < length (inodes s)" if "n = Regular i" for i using wf_fsD(4) [OF s] Some that by blast
    then have "wf_fs (s\<lparr>live := dict_set b n (live s)\<rparr>) \<and> frame_of {b} k s (s\<lparr>live := dict_set b n (live s)\<rparr>)"
      if "has_parent s b" "live_at s b = None"
      using keeps_bind [OF s that] by blast
    then show ?thesis using run Some s by (auto split: if_splits)
  qed (use run s in simp)
qed

lemma keeps_os_unlink [keeps_rules]: "keeps {p} k (os_unlink p)"
  unfolding os_unlink_def
proof (rule keeps_syscall)
  fix s r s' and q :: "nat option"
  assume run: "(case live_at s p of None \<Rightarrow> (Inl (missing s p), s) | Some Directory \<Rightarrow> (Inl OSError, s)
      | Some _ \<Rightarrow> (Inr (), s\<lparr>live := dict_pop p (live s)\<rparr>)) = (r, s')" and s: "wf_fs s"
  have "wf_fs (s\<lparr>live := dict_pop p (live s)\<rparr>) \<and> frame_of {p} k s (s\<lparr>live := dict_pop p (live s)\<rparr>)"
    if "live_at s p \<noteq> None" "live_at s p \<noteq> Some Directory"
  proof (rule keeps_unbind [OF s])
    have "p \<noteq> []" using that treeD(1) [OF wf_fsD(2) [OF s]] by metis
    then show "butlast q \<noteq> p" if "live_at s q \<noteq> None" for q
      using tree_leaf [OF wf_fsD(2) [OF s]] \<open>live_at s p \<noteq> Some Directory\<close> that by blast
  qed
  then show "wf_fs s' \<and> frame_of {p} k s s'"
    using run s by (auto split: option.splits node.splits)
qed

lemma names_in_Nil: "names_in s d = [] \<longleftrightarrow> (\<forall>p. live_at s p \<noteq> None \<longrightarrow> \<not> child_of d p)"
  by (simp add: names_in_def filter_empty_conv map_of_eq_None_iff) blast

lemma keeps_os_rmdir [keeps_rules]: "keeps {p} k (os_rmdir p)"
  unfolding os_rmdir_def
proof (rule keeps_syscall)
  fix s r s' and q :: "nat option"
  assume run: "(case live_at s p of None \<Rightarrow> (Inl (missing s p), s)
      | Some Directory \<Rightarrow> if names_in s p \<noteq> [] then (Inl OSError, s) else (Inr (), s\<lparr>live := dict_pop p (live s)\<rparr>)
      | Some _ \<Rightarrow> (Inl OSError, s)) = (r, s')" and s: "wf_fs s"
  have "wf_fs (s\<lparr>live := dict_pop p (live s)\<rparr>) \<and> frame_of {p} k s (s\<lparr>live := dict_pop p (live s)\<rparr>)"
    if "names_in s p = []"
    using that treeD(1) [OF wf_fsD(2) [OF s]]
    by (intro keeps_unbind [OF s]) (metis child_of_def names_in_Nil)
  then show "wf_fs s' \<and> frame_of {p} k s s'"
    using run s by (auto split: option.splits node.splits if_splits)
qed

lemma keeps_open_create [keeps_rules]: "keeps {p} k (open_create p)"
  unfolding open_create_def
proof (rule keeps_syscall)
  fix s r s' and q :: "nat option"
  let ?s = "s\<lparr>live := dict_set p (Regular (length (inodes s))) (live s),
               inodes := inodes s @ [\<lparr>in_data = [], in_synced = False, in_mtime = 0\<rparr>]\<rparr>"
  assume run: "(if live_at s p \<noteq> None then (Inl FileExistsError, s)
      else if \<not> has_parent s p then (Inl (missing s p), s) else (Inr (length (inodes s)), ?s)) = (r, s')"
    and s: "wf_fs s" and k: "k \<le> length (inodes s)"
  have "wf_fs ?s \<and> frame_of {p} k s ?s" if "live_at s p = None" "has_parent s p"
    using s that k tree_set [OF wf_fsD(2) [OF s]] has_parentD [OF that(2)]
    by (auto simp: wf_fs_def frame_of_def nth_append less_SucI)
  then show "wf_fs s' \<and> frame_of {p} k s s'" using run s by (auto split: if_splits)
qed

lemma keeps_os_replace [keeps_rules]: "keeps (below a \<union> below b) k (os_replace a b)"
  unfolding os_replace_def
proof (rule keeps_syscall)
  fix s r s' and q :: "nat option"
  let ?l = "map (\<lambda>(p, m). (moved a b p, m)) (dict_pop b (live s))"
  assume run: "(case live_at s a of None \<Rightarrow> (Inl (missing s a), s)
      | Some n \<Rightarrow>
          if \<not> has_parent s b then (Inl (missing s b), s)
          else if a = b then (Inr (), s)
          else if take (length a) b = a then (Inl OSError, s)
          else if live_at s b = Some Directory \<or> (n = Directory \<and> live_at s b \<noteq> None) then (Inl OSError, s)
          else (Inr (), s\<lparr>live := ?l\<rparr>)) = (r, s')" and s: "wf_fs s"
  have "wf_fs (s\<lparr>live := ?l\<rparr>) \<and> frame_of (below a \<union> below b) k s (s\<lparr>live := ?l\<rparr>)"
    if a: "live_at s a \<noteq> None" and b: "has_parent s b" "b \<notin> below a" "live_at s b \<noteq> Some Directory"
  proof -
    note t = wf_fsD(2) [OF s]
    have b0: "b \<noteq> []" using has_parentD [OF b(1)] by blast
    have a0: "a \<noteq> []" using a treeD(1) [OF t] by metis
    note l = rename_lookup [OF t wf_fsD(1) [OF s] a b(3) b0 b(2)]
    have pb: "butlast b = [] \<or> live_at s (butlast b) = Some Directory" using has_parentD [OF b(1)] by blast
    have nb: "butlast b \<notin> below b" using b0 butlast_neq by (auto simp: below_def)
    have na: "butlast b \<notin> below a" using b(2) below_butlast by blast
    have "tree (dict_get ?l)"
      unfolding tree_def
    proof (intro conjI allI impI)
      have "([] :: path) \<notin> below a" "([] :: path) \<notin> below b" using a0 b0 by (auto simp: below_def)
      then show "dict_get ?l [] = None" using l(1) treeD(1) [OF t] by simp
      fix p assume p: "dict_get ?l p \<noteq> None"
      show "butlast p = [] \<or> dict_get ?l (butlast p) = Some Directory"
      proof (cases "p \<in> below b")
        case True
        then obtain u where u: "p = b @ u" using below_split by blast
        show ?thesis
        proof (cases "u = []")
          case True
          then show ?thesis using pb nb na l(1) [of "butlast b"] by (auto simp: u)
        next
          case False
          then have "live_at s (a @ u) \<noteq> None" using p l(1) [of p] by (auto simp: u split: if_splits)
          then have "live_at s (butlast (a @ u)) = Some Directory"
            using treeD(2) [OF t, of "a @ u"] False a0 by (auto simp: butlast_append)
          then show ?thesis using False l(1) [of "butlast p"] by (simp add: u butlast_append)
        qed
      next
        case False
        then have pa: "p \<notin> below a" "live_at s p \<noteq> None" using p l(1) [of p] by (auto split: if_splits)
        have up: "butlast p \<notin> below c" if "p \<notin> below c" for c using that below_butlast by blast
        show ?thesis using up [OF False] up [OF pa(1)] treeD(2) [OF t] pa(2) l(1) [of "butlast p"] by fastforce
      qed
    qed
    then show ?thesis
      using l s by (intro keeps_live_update) (auto dest: wf_fsD(4) split: if_splits)
  qed
  then show "wf_fs s' \<and> frame_of (below a \<union> below b) k s s'"
    using run s by (auto simp: below_def split: option.splits if_splits)
qed

section \<open>What a restart may find\<close>

text \<open>
  Every value a name may have after a restart lies in \<open>V\<close> (\<open>None\<close> for an absent file): both its live
  and its durable binding are absent or a synced regular file with data in \<open>V\<close>.
\<close>

definition binding_in :: "'z fs_scheme \<Rightarrow> string option set \<Rightarrow> node option \<Rightarrow> bool" where
  "binding_in s V b \<longleftrightarrow>
     (case b of
        None \<Rightarrow> None \<in> V
      | Some (Regular i) \<Rightarrow> in_synced (inodes s ! i) \<and> Some (in_data (inodes s ! i)) \<in> V
      | _ \<Rightarrow> False)"

definition on_disk :: "'z fs_scheme \<Rightarrow> path \<Rightarrow> string option set \<Rightarrow> bool" where
  "on_disk s p V \<longleftrightarrow> binding_in s V (live_at s p) \<and> binding_in s V (durable_at s p)"

text \<open>A directory whose link from the root is durable.\<close>

definition anchored :: "'z fs_scheme \<Rightarrow> path \<Rightarrow> bool" where
  "anchored s d \<longleftrightarrow> (\<forall>k. 0 < k \<and> k \<le> length d \<longrightarrow>
     live_at s (take k d) = Some Directory \<and> durable_at s (take k d) = Some Directory)"

lemma on_disk_mono: "on_disk s p V \<Longrightarrow> V \<subseteq> W \<Longrightarrow> on_disk s p W"
  by (auto simp: on_disk_def binding_in_def split: option.splits node.splits)

lemma binding_in_frame:
  assumes "frame_of N k s s'" and "length (inodes s) \<le> k" and "binding_in s V b"
    and "\<And>i. b = Some (Regular i) \<Longrightarrow> i < length (inodes s)"
  shows "binding_in s' V b"
  using assms by (auto simp: binding_in_def frame_of_def split: option.splits node.splits)

lemma on_disk_frame:
  assumes f: "frame_of N k s s'" and k: "length (inodes s) \<le> k" and d: "on_disk s p V" and wf: "wf_fs s" and p: "p \<notin> N"
  shows "on_disk s' p V"
proof -
  have old: "binding_in s' V (live_at s p)" "binding_in s' V (durable_at s p)"
    using d wf_fsD(4,5) [OF wf] binding_in_frame [OF f k] by (auto simp: on_disk_def)
  have "live_at s' p = live_at s p" "durable_at s' p = durable_at s p \<or> durable_at s' p = live_at s p"
    using f p by (auto simp: frame_of_def)
  then show ?thesis using old by (auto simp: on_disk_def)
qed

lemma anchored_frame:
  assumes "frame_of N k s s'" and "anchored s d" and "\<And>j. 0 < j \<Longrightarrow> j \<le> length d \<Longrightarrow> take j d \<notin> N"
  shows "anchored s' d"
  using assms unfolding anchored_def frame_of_def by (metis (no_types, lifting))

lemma anchored_is_dir: "anchored s d \<Longrightarrow> is_dir s d"
  by (cases "d = []") (auto simp: anchored_def is_dir_def dest: spec [of _ "length d"])

lemma power_cycled_at:
  assumes "power_cycled s s'" and "anchored s (butlast p)"
  shows "live_at s' p = live_at s p \<or> live_at s' p = durable_at s p" "durable_at s' p = live_at s' p"
proof -
  obtain c where c: "\<And>p. c p = live_at s p \<or> c p = durable_at s p"
      "live_at s' = (\<lambda>p. if \<forall>q \<in> ancestors p. c q = Some Directory then c p else None)"
    using assms(1) unfolding power_cycled_def by blast
  have "c q = Some Directory" if q: "q \<in> ancestors p" for q
  proof -
    obtain k where k: "q = take k p" "0 < k" "k < length p" using q unfolding ancestors_def by blast
    then have "take k (butlast p) = q" by (simp add: take_butlast)
    moreover have "0 < k \<and> k \<le> length (butlast p)" using k by simp
    ultimately have "live_at s q = Some Directory" "durable_at s q = Some Directory"
      using assms(2) unfolding anchored_def by blast+
    then show ?thesis using c(1) [of q] by auto
  qed
  then show "live_at s' p = live_at s p \<or> live_at s' p = durable_at s p" using c(1) [of p] by (auto simp: c(2))
  show "durable_at s' p = live_at s' p" using assms(1) by (simp add: power_cycled_def)
qed

lemma on_disk_restarted:
  assumes "restarted s s'" and "anchored s (butlast p)" and "on_disk s p V" and "wf_fs s"
  shows "on_disk s' p V"
proof (cases "process_restarted s s'")
  case True
  then show ?thesis using assms(3) by (auto simp: process_restarted_def on_disk_def binding_in_def split: option.splits node.splits)
next
  case False
  then have cycle: "power_cycled s s'" using assms(1) by (simp add: restarted_def)
  have b: "binding_in s' V b" if "binding_in s V b" "\<And>i. b = Some (Regular i) \<Longrightarrow> i < length (inodes s)" for b
    using that cycle by (auto simp: binding_in_def power_cycled_def split: option.splits node.splits)
  have "binding_in s' V (live_at s p)" "binding_in s' V (durable_at s p)"
    using assms(3) wf_fsD(4,5) [OF assms(4)] b by (auto simp: on_disk_def)
  then show ?thesis using power_cycled_at [OF cycle assms(2)] by (auto simp: on_disk_def)
qed

lemma anchored_restarted:
  assumes "restarted s s'" and "anchored s d"
  shows "anchored s' d"
proof (cases "process_restarted s s'")
  case False
  then have cycle: "power_cycled s s'" using assms(1) by (simp add: restarted_def)
  show ?thesis unfolding anchored_def
  proof (intro allI impI)
    fix k assume k: "0 < k \<and> k \<le> length d"
    have "anchored s (butlast (take k d))"
      using assms(2) k unfolding anchored_def by (auto simp: take_butlast butlast_take min_def)
    then show "live_at s' (take k d) = Some Directory \<and> durable_at s' (take k d) = Some Directory"
      using power_cycled_at [OF cycle, of "take k d"] assms(2) k by (auto simp: anchored_def)
  qed
qed (use assms(2) in \<open>simp add: anchored_def process_restarted_def\<close>)

lemma wf_restarted:
  assumes "restarted s s'" and "wf_fs s"
  shows "wf_fs s'"
proof (cases "process_restarted s s'")
  case True
  then show ?thesis using assms(2) by (simp add: process_restarted_def wf_fs_def)
next
  case False
  then have cycle: "power_cycled s s'" using assms(1) by (simp add: restarted_def)
  obtain c where c: "\<And>p. c p = live_at s p \<or> c p = durable_at s p"
      "live_at s' = (\<lambda>p. if \<forall>q \<in> ancestors p. c q = Some Directory then c p else None)"
    using cycle unfolding power_cycled_def by blast
  have root: "c [] = None" using c(1) [of "[]"] wf_fsD(3) [OF assms(2)] treeD(1) [OF wf_fsD(2) [OF assms(2)]] by auto
  have "tree (live_at s')"
    unfolding tree_def
  proof (intro conjI allI impI)
    show "live_at s' [] = None" using root by (simp add: c(2))
    fix p assume p: "live_at s' p \<noteq> None"
    then have anc: "c q = Some Directory" if "q \<in> ancestors p" for q using that by (auto simp: c(2) split: if_splits)
    show "butlast p = [] \<or> live_at s' (butlast p) = Some Directory"
    proof (cases "butlast p = []")
      case False
      then have len: "1 < length p" by (cases p rule: rev_cases) (auto simp: neq_Nil_conv)
      have "butlast p \<in> ancestors p" using len by (auto simp: ancestors_def butlast_conv_take intro!: exI [of _ "length p - 1"])
      moreover have "ancestors (butlast p) \<subseteq> ancestors p"
        by (auto simp: ancestors_def take_butlast)
      ultimately show ?thesis using anc by (auto simp: c(2))
    qed simp
  qed
  moreover have "i < length (inodes s)" if "live_at s' p = Some (Regular i)" for p i
    using that c(1) [of p] wf_fsD(4,5) [OF assms(2), of p i] by (auto simp: c(2) split: if_splits)
  ultimately show ?thesis using cycle treeD(1) by (auto simp: wf_fs_def power_cycled_def)
qed

section \<open>What a completed call has done\<close>

lemma same_diskD:
  assumes "same_disk s s'"
  shows "live s' = live s" "durable s' = durable s" "inodes s' = inodes s" "fs.more s' = fs.more s"
  using assms by (simp_all add: same_disk_def)

lemma is_dir_same: "live s' = live s \<Longrightarrow> is_dir s' p = is_dir s p" "live s' = live s \<Longrightarrow> has_parent s' p = has_parent s p"
  by (simp_all add: is_dir_def has_parent_def)

lemma lstat_Inr:
  assumes "lstat p s = (r, s')"
  shows "same_disk s s'" "r = Inr n \<Longrightarrow> live_at s p = Some n" "r = Inl FileNotFoundError \<Longrightarrow> live_at s p = None"
    "r = Inl e \<Longrightarrow> os_error e"
  using assms unfolding lstat_def
  by (cases rule: syscall_cases; auto simp: same_disk_def missing_def os_error_def split: option.splits node.splits if_splits)+

lemma open_read_Inr:
  assumes "open_read p s = (r, s')"
  shows "same_disk s s'" "r = Inr n \<Longrightarrow> live_at s p = Some n" "r = Inl e \<Longrightarrow> os_error e"
    "r = Inl FileNotFoundError \<Longrightarrow> live_at s p = None"
  using assms unfolding open_read_def
  by (cases rule: syscall_cases; auto simp: same_disk_def missing_def os_error_def split: option.splits node.splits if_splits)+

lemma open_create_Inr:
  assumes "open_create p s = (Inr i, s')"
  shows "i = length (inodes s)" "live_at s p = None" "live s' = dict_set p (Regular i) (live s)"
    "durable s' = durable s" "inodes s' = inodes s @ [\<lparr>in_data = [], in_synced = False, in_mtime = 0\<rparr>]"
    "fs.more s' = fs.more s"
  using assms unfolding open_create_def
  by (cases rule: syscall_cases; auto simp: same_disk_def split: if_splits)+

lemma write_at_Inr:
  assumes "write_at i pos bytes s = (Inr n, s')"
  shows "n \<le> length bytes" "live s' = live s" "durable s' = durable s" "fs.more s' = fs.more s"
    "inodes s' = (inodes s)[i := (inodes s ! i)\<lparr>in_data := overwrite pos (take n bytes) (in_data (inodes s ! i)), in_synced := False\<rparr>]"
  using assms unfolding write_at_def Let_def
  by (cases rule: syscall_cases; auto simp: same_disk_def split: option.splits)+

lemma fsync_file_Inr:
  assumes "fsync_file i s = (Inr u, s')"
  shows "live s' = live s" "durable s' = durable s" "fs.more s' = fs.more s"
    "inodes s' = (inodes s)[i := (inodes s ! i)\<lparr>in_synced := True\<rparr>]"
  using assms unfolding fsync_file_def
  by (cases rule: syscall_cases; auto simp: same_disk_def)+

lemma fsync_directory_Inr:
  assumes "fsync_directory d s = (Inr u, s')"
  shows "live s' = live s" "inodes s' = inodes s" "fs.more s' = fs.more s" "is_dir s d"
    "durable_at s' p = (if child_of d p then live_at s p else durable_at s p)"
  using assms unfolding fsync_directory_def
  by (cases rule: syscall_cases;
      auto simp: same_disk_def is_dir_def durable_after_fsync simp del: map_of_append split: if_splits)+

lemma os_link_Inr:
  assumes "os_link a b s = (Inr u, s')"
  obtains n where "live_at s a = Some n" "n \<noteq> Directory" "live_at s b = None" "live s' = dict_set b n (live s)"
    "durable s' = durable s" "inodes s' = inodes s" "fs.more s' = fs.more s"
  using assms unfolding os_link_def
  by (cases rule: syscall_cases) (auto simp: same_disk_def split: option.splits if_splits)

lemma os_unlink_Inr:
  assumes "os_unlink p s = (Inr u, s')"
  shows "live_at s p \<noteq> None" "live_at s p \<noteq> Some Directory" "live s' = dict_pop p (live s)"
    "durable s' = durable s" "inodes s' = inodes s" "fs.more s' = fs.more s"
  using assms unfolding os_unlink_def
  by (cases rule: syscall_cases; auto simp: same_disk_def split: option.splits node.splits)+

lemma os_error_simps [simp]: "os_error OSError" "os_error FileNotFoundError" "os_error FileExistsError"
  by (simp_all add: os_error_def)

lemma missing_os_error: "os_error (missing s p)"
  by (auto simp: missing_def os_error_def split: option.splits node.splits)

lemma os_mkdir_result:
  assumes "os_mkdir p s = (r, s')"
  shows "durable s' = durable s" "inodes s' = inodes s" "fs.more s' = fs.more s"
    "r = Inr u \<Longrightarrow> live_at s p = None \<and> live s' = dict_set p Directory (live s)"
    "r = Inl e \<Longrightarrow> live s' = live s \<and> os_error e"
    "is_dir s p \<Longrightarrow> same_disk s s' \<and> (r = Inl FileExistsError \<or> r = Inl OSError)"
proof -
  consider "r = Inl OSError" "same_disk s s'"
    | s0 where "same_disk s s0" "(if is_dir s0 p \<or> live_at s0 p \<noteq> None then (Inl FileExistsError, s0)
       else if \<not> has_parent s0 p then (Inl (missing s0 p), s0)
       else (Inr (), s0\<lparr>live := dict_set p Directory (live s0)\<rparr>)) = (r, s')"
    using assms unfolding os_mkdir_def by (cases rule: syscall_cases) blast+
  note effect = this
  show "durable s' = durable s" "inodes s' = inodes s" "fs.more s' = fs.more s"
    "r = Inr u \<Longrightarrow> live_at s p = None \<and> live s' = dict_set p Directory (live s)"
    by (rule effect; auto simp: same_disk_def split: if_splits)+
  show "r = Inl e \<Longrightarrow> live s' = live s \<and> os_error e"
    by (rule effect) (auto simp: same_disk_def missing_os_error split: if_splits)
  show "is_dir s p \<Longrightarrow> same_disk s s' \<and> (r = Inl FileExistsError \<or> r = Inl OSError)"
    by (rule effect) (auto simp: is_dir_same [OF same_diskD(1)] split: if_splits)
qed

lemma os_rmdir_Inr:
  assumes "os_rmdir p s = (Inr u, s')"
  shows "live_at s p = Some Directory" "live s' = dict_pop p (live s)" "durable s' = durable s" "inodes s' = inodes s"
    "fs.more s' = fs.more s"
  using assms unfolding os_rmdir_def
  by (cases rule: syscall_cases; auto simp: same_disk_def split: option.splits node.splits if_splits)+

text \<open>A completed rename of a regular file.\<close>

lemma os_replace_Inr:
  assumes "os_replace a b s = (Inr u, s')" and "wf_fs s" and "live_at s a = Some (Regular i)" and "a \<noteq> b"
  shows "live_at s' b = Some (Regular i)" "live_at s' a = None"
    "durable s' = durable s" "inodes s' = inodes s" "fs.more s' = fs.more s"
proof -
  note call = assms(1) [unfolded os_replace_def]
  obtain s0 where s0: "same_disk s s0" "s' = s0\<lparr>live := map (\<lambda>(p, m). (moved a b p, m)) (dict_pop b (live s0))\<rparr>"
      "has_parent s b" "b \<notin> below a" "live_at s b \<noteq> Some Directory"
    using call
  proof (cases rule: syscall_cases)
    case (run q s0)
    have l: "live s0 = live s" using same_diskD [OF run(1)] by simp
    show ?thesis
      using run(2) assms(3,4) that [OF run(1)] unfolding l is_dir_same [OF l]
      by (auto simp: below_def split: if_splits)
  qed simp
  have b: "b \<noteq> []" using has_parentD [OF s0(3)] by blast
  note l = rename_lookup [OF wf_fsD(2,1) [OF assms(2)] _ s0(5) b s0(4)]
  have live: "live s0 = live s" using same_diskD [OF s0(1)] by simp
  have "a \<notin> below b"
  proof
    assume "a \<in> below b"
    then obtain u where u: "a = b @ u" using below_split by blast
    then have "u \<noteq> []" using assms(4) by auto
    then show False using tree_ancestor [OF wf_fsD(2) [OF assms(2)], of a "length b"] assms(3) b u s0(5) by simp
  qed
  then show "live_at s' b = Some (Regular i)" "live_at s' a = None"
    using l(1) [of b] l(1) [of a] assms(3) by (simp_all add: s0(2) live below_def)
  show "durable s' = durable s" "inodes s' = inodes s" "fs.more s' = fs.more s"
    using same_diskD [OF s0(1)] by (simp_all add: s0(2))
qed

section \<open>What is not on disk\<close>

text \<open>File operations do not touch the fields a component adds to the file system.\<close>

definition keeps_more :: "('z fs_scheme, 'a) action \<Rightarrow> bool" where
  "keeps_more m \<longleftrightarrow> (\<forall>s. fs.more (snd (m s)) = fs.more s)"

named_theorems more_rules \<open>actions on the file system alone\<close>

lemma keeps_moreD: "keeps_more m \<Longrightarrow> m s = (r, s') \<Longrightarrow> fs.more s' = fs.more s"
  by (metis keeps_more_def snd_conv)

lemma more_give [more_rules]: "keeps_more (give x)" "keeps_more (throw e)" "keeps_more (lift r)" "keeps_more (check b e)"
  by (simp_all add: keeps_more_def)

lemma more_seq [more_rules]: "keeps_more m \<Longrightarrow> (\<And>x. keeps_more (f x)) \<Longrightarrow> keeps_more (seq m f)"
  unfolding keeps_more_def seq_def by (auto split: prod.splits sum.splits) (metis snd_conv)+

lemma more_except [more_rules]: "keeps_more m \<Longrightarrow> (\<And>e. keeps_more (h e)) \<Longrightarrow> keeps_more (except P m h)"
  unfolding keeps_more_def except_def by (auto split: prod.splits sum.splits) (metis snd_conv)+

lemma more_if [more_rules]: "(b \<Longrightarrow> keeps_more m) \<Longrightarrow> (\<not> b \<Longrightarrow> keeps_more m') \<Longrightarrow> keeps_more (if b then m else m')"
  by simp

lemma more_fold_action [more_rules]: "(\<And>b x. keeps_more (f b x)) \<Longrightarrow> keeps_more (fold_action f b xs)"
  by (induction xs arbitrary: b) (simp_all add: more_give more_seq)

lemma more_for_each [more_rules]: "(\<And>x. keeps_more (f x)) \<Longrightarrow> keeps_more (for_each f xs)"
  by (induction xs) (simp_all add: more_give more_seq)

lemma more_syscall:
  assumes "\<And>q s. fs.more (snd (f q s)) = fs.more s"
  shows "keeps_more (syscall f)"
  unfolding keeps_more_def
proof
  fix s
  obtain r s' where run: "syscall f s = (r, s')" by (rule prod.exhaust)
  then have "fs.more s' = fs.more s"
  proof (cases rule: syscall_cases)
    case (run q s0)
    then show ?thesis using assms [of q s0] by (simp add: same_disk_def)
  qed (simp add: same_disk_def)
  then show "fs.more (snd (syscall f s)) = fs.more s" using run by simp
qed

lemma more_calls [more_rules]:
  "keeps_more (lstat p)" "keeps_more (path_exists p)" "keeps_more (path_is_dir p)" "keeps_more (is_symlink p)"
  "keeps_more (open_read p)" "keeps_more (open_create p)" "keeps_more (write_at i pos bytes)" "keeps_more (read_at i pos n)"
  "keeps_more (fstat i)" "keeps_more (fsync_file i)" "keeps_more (fsync_directory d)" "keeps_more (os_replace a b)"
  "keeps_more (os_link a b)" "keeps_more (os_unlink p)" "keeps_more (os_mkdir p)" "keeps_more (os_rmdir p)"
  "keeps_more (scandir d)" "keeps_more (os_utime p t)"
  unfolding lstat_def path_exists_def path_is_dir_def is_symlink_def open_read_def open_create_def write_at_def read_at_def
    fstat_def fsync_file_def fsync_directory_def os_replace_def os_link_def os_unlink_def os_mkdir_def os_rmdir_def
    scandir_def os_utime_def
  by (rule more_syscall; simp add: Let_def split: option.splits node.splits)+

lemma more_readings [more_rules]: "keeps_more uuid4" "keeps_more time_ns"
  by (simp_all add: keeps_more_def uuid4_def time_ns_def split: list.splits)

section \<open>Without faults\<close>

definition fault_free :: "'z fs_scheme \<Rightarrow> bool" where
  "fault_free s \<longleftrightarrow> schedule s = [] \<and> \<not> power_off s"

lemma fault_free_syscall: "fault_free s \<Longrightarrow> syscall f s = f None s"
  by (simp add: fault_free_def syscall_def environment_def)

end
