(* ===== verification/Json.thy ===== *)
theory Json
  imports Identity Float_Division
begin

text \<open>
  \<open>json.loads\<close> on bytes, as the standard library defines it: the detection of the encoding, strict
  UTF-8, the token grammar (strings with escapes and surrogate pairs, numbers, the three non-finite
  literals) and the nesting of arrays and objects, where a repeated key keeps its last value.  The
  reader is a machine over tokens with an explicit stack of open containers, so it ends because
  every token consumes text.  Decoding of UTF-16 and UTF-32 texts, which the program never writes,
  is the argument \<open>codec\<close>, and the interpreter's nesting bound is the argument \<open>limit\<close>.  The main
  lemma reads back what \<open>canonical_json\<close> writes.
\<close>

section \<open>Text encoding\<close>

definition continuation :: "nat \<Rightarrow> bool" where
  "continuation b \<longleftrightarrow> 128 \<le> b \<and> b < 192"

text \<open>The number of continuation bytes a leading byte announces, and the range of the first.\<close>

definition follow :: "nat \<Rightarrow> nat option" where
  "follow b =
     (if b < 128 then Some 0
      else if 194 \<le> b \<and> b < 224 then Some 1
      else if 224 \<le> b \<and> b < 240 then Some 2
      else if 240 \<le> b \<and> b < 245 then Some 3 else None)"

definition second_ok :: "nat \<Rightarrow> nat list \<Rightarrow> bool" where
  "second_ok b bs \<longleftrightarrow>
     (b = 224 \<longrightarrow> 160 \<le> bs ! 0) \<and> (b = 240 \<longrightarrow> 144 \<le> bs ! 0) \<and> (b = 244 \<longrightarrow> bs ! 0 < 144)"

function utf8_bytes :: "nat list \<Rightarrow> bool" where
  "utf8_bytes [] = True"
| "utf8_bytes (b # bs) =
     (case follow b of
        None \<Rightarrow> False
      | Some n \<Rightarrow> n \<le> length bs \<and> list_all continuation (take n bs) \<and> second_ok b bs \<and> utf8_bytes (drop n bs))"
  by pat_completeness auto
termination by (relation "measure length") auto

definition utf8 :: "string \<Rightarrow> bool" where
  "utf8 s = utf8_bytes (map of_char s)"

text \<open>\<open>json.detect_encoding\<close>: whether the bytes are read as UTF-8.\<close>

definition reads_as_utf8 :: "string \<Rightarrow> bool" where
  "reads_as_utf8 b \<longleftrightarrow>
     take 2 b \<noteq> [CHR 0xFE, CHR 0xFF] \<and> take 2 b \<noteq> [CHR 0xFF, CHR 0xFE]
     \<and> (4 \<le> length b \<or> length b = 2 \<longrightarrow> b ! 0 \<noteq> CHR 0x00 \<and> b ! 1 \<noteq> CHR 0x00)"

definition json_decode :: "(string \<Rightarrow> string result) \<Rightarrow> string \<Rightarrow> string result" where
  "json_decode codec b =
     (if \<not> reads_as_utf8 b then codec b
      else let body = (if take 3 b = [CHR 0xEF, CHR 0xBB, CHR 0xBF] then drop 3 b else b)
           in if utf8 body then Inr body else Inl ValueError)"

section \<open>Tokens\<close>

text \<open>The UTF-8 bytes of one code point.\<close>

definition encode_utf8 :: "nat \<Rightarrow> string" where
  "encode_utf8 n =
     map char_of
       (if n < 128 then [n]
        else if n < 2048 then [192 + n div 64, 128 + n mod 64]
        else if n < 65536 then [224 + n div 4096, 128 + n div 64 mod 64, 128 + n mod 64]
        else [240 + n div 262144, 128 + n div 4096 mod 64, 128 + n div 64 mod 64, 128 + n mod 64])"

definition hex_digit_of :: "char \<Rightarrow> nat option" where
  "hex_digit_of c =
     (let n = of_char c in
      if 48 \<le> n \<and> n < 58 then Some (n - 48)
      else if 97 \<le> n \<and> n < 103 then Some (n - 87)
      else if 65 \<le> n \<and> n < 71 then Some (n - 55) else None)"

definition hex4 :: "char \<Rightarrow> char \<Rightarrow> char \<Rightarrow> char \<Rightarrow> nat option" where
  "hex4 a b c d =
     (case (hex_digit_of a, hex_digit_of b, hex_digit_of c, hex_digit_of d) of
        (Some w, Some x, Some y, Some z) \<Rightarrow> Some (4096 * w + 256 * x + 16 * y + z)
      | _ \<Rightarrow> None)"

text \<open>The code units after \<open>\u\<close>: a high surrogate joins a following low one.\<close>

definition lex_unicode :: "string \<Rightarrow> (string \<times> string) option" where
  "lex_unicode s =
     (case s of
        a # b # c # d # rest \<Rightarrow>
          (case hex4 a b c d of
             None \<Rightarrow> None
           | Some n \<Rightarrow>
               (if 55296 \<le> n \<and> n < 56320
                then (case rest of
                   x # u # e # f # g # h # rest' \<Rightarrow>
                     (case (if x = CHR 0x5C \<and> u = CHR ''u'' then hex4 e f g h else None) of
                        Some m \<Rightarrow>
                          if 56320 \<le> m \<and> m < 57344
                          then Some (encode_utf8 (65536 + (n - 55296) * 1024 + (m - 56320)), rest')
                          else Some (encode_utf8 n, rest)
                      | None \<Rightarrow> Some (encode_utf8 n, rest))
                 | _ \<Rightarrow> Some (encode_utf8 n, rest))
                else Some (encode_utf8 n, rest)))
      | _ \<Rightarrow> None)"

definition simple_escape :: "char \<Rightarrow> char option" where
  "simple_escape c =
     map_of [(CHR 0x22, CHR 0x22), (CHR 0x5C, CHR 0x5C), (CHR ''/'', CHR ''/''), (CHR ''b'', CHR 0x08),
             (CHR ''f'', CHR 0x0C), (CHR ''n'', CHR 0x0A), (CHR ''r'', CHR 0x0D), (CHR ''t'', CHR 0x09)] c"

text \<open>One character of a string body, as its bytes and the rest of the text.\<close>

definition lex_char :: "string \<Rightarrow> (string \<times> string) option" where
  "lex_char s =
     (case s of
        [] \<Rightarrow> None
      | c # rest \<Rightarrow>
          if c = CHR 0x5C
          then (case rest of
              [] \<Rightarrow> None
            | b # rest' \<Rightarrow>
                if b = CHR ''u'' then lex_unicode rest'
                else map_option (\<lambda>d. ([d], rest')) (simple_escape b))
          else if of_char c < (32 :: nat) then None else Some ([c], rest))"

lemma lex_unicode_shorter: "lex_unicode s = Some (t, r) \<Longrightarrow> length r < length s"
  by (auto simp: lex_unicode_def Let_def split: list.splits option.splits if_splits)

lemma lex_char_shorter: "lex_char s = Some (t, r) \<Longrightarrow> length r < length s"
  by (auto simp: lex_char_def dest: lex_unicode_shorter split: list.splits if_splits)

text \<open>The body of a string up to its closing quote.\<close>

function lex_string :: "string \<Rightarrow> (string \<times> string) option" where
  "lex_string s =
     (case s of
        [] \<Rightarrow> None
      | c # rest \<Rightarrow>
          if c = CHR 0x22 then Some ([], rest)
          else (case lex_char s of
                  None \<Rightarrow> None
                | Some (t, r) \<Rightarrow> map_option (\<lambda>(u, r'). (t @ u, r')) (lex_string r)))"
  by auto
termination by (relation "measure length") (auto dest: lex_char_shorter)

declare lex_string.simps [simp del]

text \<open>Numbers; \<open>int\<close> refuses more than 4300 digits.\<close>

definition lex_fraction :: "string \<Rightarrow> string \<times> string" where
  "lex_fraction s =
     (case s of
        c # rest \<Rightarrow> if c = CHR ''.'' then (takeWhile is_dec rest, if takeWhile is_dec rest = [] then s else dropWhile is_dec rest)
                    else ([], s)
      | [] \<Rightarrow> ([], s))"

definition lex_exponent :: "string \<Rightarrow> int option \<times> string" where
  "lex_exponent s =
     (case s of
        c # rest \<Rightarrow>
          if c = CHR ''e'' \<or> c = CHR ''E''
          then (let signed = (rest \<noteq> [] \<and> (hd rest = CHR ''-'' \<or> hd rest = CHR ''+''));
                    body = (if signed then tl rest else rest);
                    digits = takeWhile is_dec body
                in if digits = [] then (None, s)
                   else (Some ((if signed \<and> hd rest = CHR ''-'' then -1 else 1) * int (dec_value digits)),
                         dropWhile is_dec body))
          else (None, s)
      | [] \<Rightarrow> (None, s))"

definition decimal :: "bool \<Rightarrow> string \<Rightarrow> string \<Rightarrow> int \<Rightarrow> pyfloat" where
  "decimal neg whole fraction ex =
     (case round_double (of_nat (dec_value (whole @ fraction)) * 10 powi (ex - int (length fraction))) of
        Finite q \<Rightarrow> Finite (if neg then - q else q)
      | f \<Rightarrow> f)"

definition lex_number :: "string \<Rightarrow> (pyval \<times> string) option" where
  "lex_number s =
     (let neg = (s \<noteq> [] \<and> hd s = CHR ''-'');
          body = (if neg then tl s else s);
          digits = takeWhile is_dec body;
          whole = (if digits \<noteq> [] \<and> hd digits = CHR ''0'' then ''0'' else digits);
          rest = drop (length whole) body
      in if whole = [] then None
         else case lex_fraction rest of (fraction, rest1) \<Rightarrow>
           (case lex_exponent rest1 of (ex, rest2) \<Rightarrow>
              if fraction = [] \<and> ex = None
              then (if MAX_STR_DIGITS < int (length whole) then None
                    else Some (PyInt ((if neg then -1 else 1) * int (dec_value whole)), rest))
              else Some (PyFloat (decimal neg whole fraction (case ex of None \<Rightarrow> 0 | Some n \<Rightarrow> n)), rest2)))"

text \<open>For evaluation: digits and values computed on binary integers.\<close>

function dec_digits :: "int \<Rightarrow> string" where
  "dec_digits n = (if n < 10 then [digit_char (nat n)] else dec_digits (n div 10) @ [digit_char (nat (n mod 10))])"
  by pat_completeness auto
termination by (relation "measure nat") auto

declare dec_digits.simps [simp del]

lemma dec_digits_nat: "0 \<le> n \<Longrightarrow> dec_digits n = dec_nat (nat n)"
proof (induction n rule: dec_digits.induct)
  case (1 n)
  show ?case
  proof (cases "n < 10")
    case True
    then have "nat n < 10" using 1(2) by simp
    then show ?thesis using True by (simp add: dec_digits.simps [of n] dec_nat.simps [of "nat n"])
  next
    case False
    then have "dec_digits (n div 10) = dec_nat (nat (n div 10))" using 1 by simp
    moreover have "\<not> nat n < 10" using False by simp
    ultimately show ?thesis
      using False 1(2) by (simp add: dec_digits.simps [of n] dec_nat.simps [of "nat n"] nat_div_distrib nat_mod_distrib)
  qed
qed

lemma writable_int_code [code]: "writable_int n \<longleftrightarrow> int (length (dec_digits \<bar>n\<bar>)) \<le> MAX_STR_DIGITS"
  by (simp add: writable_int_def dec_digits_nat)

lemma dec_int_code [code]: "dec_int n = (if n < 0 then CHR ''-'' # dec_digits (- n) else dec_digits n)"
  by (simp add: dec_int_def dec_digits_nat)

definition digits_value :: "string \<Rightarrow> int" where
  "digits_value s = foldl (\<lambda>a c. 10 * a + (int (of_char c) - 48)) 0 s"

lemma digits_value_eq:
  assumes digits: "list_all is_dec s"
  shows "digits_value s = int (dec_value s)"
proof -
  have step: "foldl (\<lambda>a c. 10 * a + (int (of_char c) - 48)) (int n) s = int (foldl (\<lambda>a c. 10 * a + (of_char c - 48)) n s)"
    for n
    using digits
  proof (induction s arbitrary: n)
    case (Cons c s)
    then have "10 * int n + (int (of_char c) - 48) = int (10 * n + (of_char c - 48))"
      by (simp add: is_dec_def of_nat_diff)
    then show ?case using Cons.IH Cons.prems by (simp only: foldl.simps list.pred_inject)
  qed simp
  show ?thesis using step [of 0] by (simp add: digits_value_def dec_value_def)
qed

lemma lex_number_code [code]:
  "lex_number s =
     (let neg = (s \<noteq> [] \<and> hd s = CHR ''-'');
          body = (if neg then tl s else s);
          digits = takeWhile is_dec body;
          whole = (if digits \<noteq> [] \<and> hd digits = CHR ''0'' then ''0'' else digits);
          rest = drop (length whole) body
      in if whole = [] then None
         else case lex_fraction rest of (fraction, rest1) \<Rightarrow>
           (case lex_exponent rest1 of (ex, rest2) \<Rightarrow>
              if fraction = [] \<and> ex = None
              then (if MAX_STR_DIGITS < int (length whole) then None
                    else Some (PyInt ((if neg then -1 else 1) * digits_value whole), rest))
              else Some (PyFloat (decimal neg whole fraction (case ex of None \<Rightarrow> 0 | Some n \<Rightarrow> n)), rest2)))"
proof -
  have "list_all is_dec (takeWhile is_dec body)" for body by (auto simp: list_all_iff dest: set_takeWhileD)
  moreover have "list_all is_dec ''0''" by (simp add: is_dec_def)
  ultimately have "list_all is_dec (if b then ''0'' else takeWhile is_dec body)" for b body by simp
  then show ?thesis unfolding lex_number_def Let_def by (simp only: digits_value_eq)
qed

datatype token = Scalar pyval | OpenArray | CloseArray | OpenObject | CloseObject | Comma | Colon

definition literals :: "(string \<times> pyval) list" where
  "literals =
     [(''null'', PyNone), (''true'', PyBool True), (''false'', PyBool False),
      (''NaN'', PyFloat NotANumber), (''Infinity'', PyFloat Infinite), (''-Infinity'', PyFloat Infinite)]"

definition punctuation :: "char \<Rightarrow> token option" where
  "punctuation c =
     map_of [(CHR ''['', OpenArray), (CHR '']'', CloseArray), (CHR ''{'', OpenObject), (CHR ''}'', CloseObject),
             (CHR '','', Comma), (CHR '':'', Colon)] c"

definition is_space :: "char \<Rightarrow> bool" where
  "is_space c \<longleftrightarrow> c \<in> {CHR '' '', CHR 0x09, CHR 0x0A, CHR 0x0D}"

text \<open>One token of a text that does not start with white space; \<open>None\<close> where there is none.\<close>

definition lex_token :: "string \<Rightarrow> (token \<times> string) option" where
  "lex_token s =
     (case s of
        [] \<Rightarrow> None
      | c # rest \<Rightarrow>
          (case punctuation c of
             Some t \<Rightarrow> Some (t, rest)
           | None \<Rightarrow>
               if c = CHR 0x22 then map_option (\<lambda>(t, r). (Scalar (PyStr t), r)) (lex_string rest)
               else (case filter (\<lambda>(l, _). take (length l) s = l) literals of
                       (l, v) # _ \<Rightarrow> Some (Scalar v, drop (length l) s)
                     | [] \<Rightarrow> map_option (\<lambda>(v, r). (Scalar v, r)) (lex_number s))))"

section \<open>Containers\<close>

text \<open>
  The open containers, innermost first, and what may come next: a value (or the end of an empty
  array), a key (or the end of an empty object), the colon after a key, a comma or the end after an
  element, or nothing more.
\<close>

datatype frame = InArray "pyval list" | InObject "(string, pyval) dict" | InMember "(string, pyval) dict" string

datatype mode = Value | ValueOrEnd | Key | KeyOrEnd | AfterKey | AfterItem | Complete pyval

fun put_value :: "frame list \<Rightarrow> pyval \<Rightarrow> frame list \<times> mode" where
  "put_value (InArray vs # fs) v = (InArray (vs @ [v]) # fs, AfterItem)"
| "put_value (InMember d k # fs) v = (InObject (dict_set k v d) # fs, AfterItem)"
| "put_value fs v = (fs, Complete v)"

fun json_step :: "nat \<Rightarrow> frame list \<times> mode \<Rightarrow> token \<Rightarrow> (frame list \<times> mode) result" where
  "json_step limit (fs, m) t =
     (case t of
        Scalar v \<Rightarrow>
          (if m = Value \<or> m = ValueOrEnd then Inr (put_value fs v)
           else case (m, fs, v) of
               (Key, InObject d # fs', PyStr k) \<Rightarrow> Inr (InMember d k # fs', AfterKey)
             | (KeyOrEnd, InObject d # fs', PyStr k) \<Rightarrow> Inr (InMember d k # fs', AfterKey)
             | _ \<Rightarrow> Inl ValueError)
      | OpenArray \<Rightarrow>
          (if m = Value \<or> m = ValueOrEnd
           then if limit \<le> length fs then Inl RecursionError else Inr (InArray [] # fs, ValueOrEnd)
           else Inl ValueError)
      | OpenObject \<Rightarrow>
          (if m = Value \<or> m = ValueOrEnd
           then if limit \<le> length fs then Inl RecursionError else Inr (InObject [] # fs, KeyOrEnd)
           else Inl ValueError)
      | CloseArray \<Rightarrow>
          (case fs of
             InArray vs # fs' \<Rightarrow>
               if m = ValueOrEnd \<or> m = AfterItem then Inr (put_value fs' (PyList vs)) else Inl ValueError
           | _ \<Rightarrow> Inl ValueError)
      | CloseObject \<Rightarrow>
          (case fs of
             InObject d # fs' \<Rightarrow>
               if m = KeyOrEnd \<or> m = AfterItem then Inr (put_value fs' (PyDict d)) else Inl ValueError
           | _ \<Rightarrow> Inl ValueError)
      | Comma \<Rightarrow>
          (case fs of
             InArray vs # fs' \<Rightarrow> if m = AfterItem then Inr (fs, Value) else Inl ValueError
           | InObject d # fs' \<Rightarrow> if m = AfterItem then Inr (fs, Key) else Inl ValueError
           | _ \<Rightarrow> Inl ValueError)
      | Colon \<Rightarrow> if m = AfterKey then Inr (fs, Value) else Inl ValueError)"

lemma lex_string_end [simp]: "lex_string [] = None" "lex_string (CHR 0x22 # r) = Some ([], r)"
  by (simp_all add: lex_string.simps)

lemma lex_string_shorter: "lex_string s = Some (t, r) \<Longrightarrow> length r < length s"
proof (induction s arbitrary: t r rule: lex_string.induct)
  case (1 s)
  show ?case
  proof (cases s)
    case (Cons c rest)
    show ?thesis
    proof (cases "c = CHR 0x22")
      case False
      obtain t' r' u where char: "lex_char s = Some (t', r')" and body: "lex_string r' = Some (u, r)"
        using "1.prems" False unfolding lex_string.simps [of s] by (auto simp: Cons split: option.splits)
      show ?thesis
        using "1.IH" [OF Cons False char refl body] lex_char_shorter [OF char] by simp
    qed (use "1.prems" Cons in simp)
  qed (use "1.prems" in simp)
qed

lemma lex_rest_shorter:
  "length (snd (lex_fraction s)) \<le> length s" "length (snd (lex_exponent s)) \<le> length s"
  by (auto simp: lex_fraction_def lex_exponent_def Let_def length_dropWhile_le le_SucI
      split: list.splits intro: order_trans [OF length_dropWhile_le])

lemma lex_number_shorter:
  assumes "lex_number s = Some (v, r)"
  shows "length r < length s"
proof -
  define neg where "neg = (s \<noteq> [] \<and> hd s = CHR ''-'')"
  define body where "body = (if neg then tl s else s)"
  define digits where "digits = takeWhile is_dec body"
  define whole where "whole = (if digits \<noteq> [] \<and> hd digits = CHR ''0'' then ''0'' else digits)"
  define rest where "rest = drop (length whole) body"
  obtain fraction rest1 where f: "lex_fraction rest = (fraction, rest1)" by fastforce
  obtain ex rest2 where e: "lex_exponent rest1 = (ex, rest2)" by fastforce
  have whole: "whole \<noteq> []" and r: "r = rest \<or> r = rest2"
    using assms by (auto simp: lex_number_def Let_def neg_def body_def digits_def whole_def rest_def
        f [unfolded rest_def whole_def digits_def body_def neg_def] e split: if_splits)
  have "length rest2 \<le> length rest"
    using lex_rest_shorter(1) [of rest] lex_rest_shorter(2) [of rest1] f e by simp
  moreover have "body \<noteq> []" using whole by (auto simp: whole_def digits_def split: if_splits)
  then have "length rest < length body" using whole by (simp add: rest_def)
  moreover have "length body \<le> length s" by (simp add: body_def)
  ultimately show ?thesis using r by auto
qed

lemma literal_shorter:
  assumes "filter (\<lambda>(l, _). take (length l) s = l) literals = (l, v) # xs" and "s \<noteq> []"
  shows "length (drop (length l) s) < length s"
proof -
  have "set (filter (\<lambda>(l, _). take (length l) s = l) literals) \<subseteq> set literals" by simp
  then have "(l, v) \<in> set literals" unfolding assms(1) by simp
  then have "l \<noteq> []" by (auto simp: literals_def)
  then show ?thesis using assms(2) by simp
qed

lemma lex_token_shorter:
  assumes "lex_token s = Some (t, r)"
  shows "length r < length s"
proof (cases s)
  case (Cons c rest)
  show ?thesis
  proof (cases "punctuation c")
    case None
    show ?thesis
    proof (cases "c = CHR 0x22")
      case True
      then show ?thesis
        using assms Cons None by (auto simp: lex_token_def dest: lex_string_shorter)
    next
      case False
      show ?thesis
      proof (cases "filter (\<lambda>(l, _). take (length l) s = l) literals")
        case Nil
        then show ?thesis
          using assms None False by (auto simp: lex_token_def Cons simp del: filter.simps dest!: lex_number_shorter)
      next
        case (Cons p ps)
        obtain l v where p: "p = (l, v)" by (rule prod.exhaust)
        have "r = drop (length l) s"
          using assms None False Cons \<open>s = c # rest\<close> by (simp add: lex_token_def p)
        then show ?thesis using literal_shorter [OF Cons [unfolded p]] \<open>s = c # rest\<close> by simp
      qed
    qed
  qed (use assms Cons in \<open>simp add: lex_token_def\<close>)
qed (use assms in \<open>simp add: lex_token_def\<close>)

function json_run :: "nat \<Rightarrow> frame list \<times> mode \<Rightarrow> string \<Rightarrow> pyval result" where
  "json_run limit st s =
     (let body = dropWhile is_space s in
      if body = [] then (case st of ([], Complete v) \<Rightarrow> Inr v | _ \<Rightarrow> Inl ValueError)
      else (case lex_token body of
              None \<Rightarrow> Inl ValueError
            | Some (t, rest) \<Rightarrow> and_then (json_step limit st t) (\<lambda>st'. json_run limit st' rest)))"
  by pat_completeness auto
termination
proof (relation "measure (\<lambda>(limit, st, s). length s)")
  show "wf (measure (\<lambda>(limit :: nat, st :: frame list \<times> mode, s :: string). length s))" by simp
next
  fix limit :: nat and st s body x t rest x'
  assume "body = dropWhile is_space s" and "lex_token body = Some x" and "(t, rest) = x"
  then have "length rest < length (dropWhile is_space s)" using lex_token_shorter [of _ t rest] by simp
  then show "((limit, x', rest), limit, st, s) \<in> measure (\<lambda>(limit, st, s). length s)"
    using length_dropWhile_le [of is_space s] by simp
qed

declare json_run.simps [simp del]

definition json_loads :: "(string \<Rightarrow> string result) \<Rightarrow> nat \<Rightarrow> string \<Rightarrow> pyval result" where
  "json_loads codec limit b = and_then (json_decode codec b) (json_run limit ([], Value))"

section \<open>Reading back what was written\<close>

text \<open>
  A value \<open>json.dumps\<close> writes and \<open>json.loads\<close> accepts: no floats, distinct keys, UTF-8 strings,
  integers within the digit bound and at most \<open>d\<close> levels of containers.
\<close>

fun readable :: "nat \<Rightarrow> pyval \<Rightarrow> bool" where
  "readable d (PyFloat f) = False"
| "readable d (PyInt n) = (int (length (dec_nat (nat \<bar>n\<bar>))) \<le> MAX_STR_DIGITS)"
| "readable d (PyStr s) = utf8 s"
| "readable d (PyList vs) = (0 < d \<and> list_all (readable (d - 1)) vs)"
| "readable d (PyDict kvs) =
     (0 < d \<and> distinct (map fst kvs) \<and> list_all (\<lambda>(k, v). utf8 k \<and> readable (d - 1) v) kvs)"
| "readable d v = True"

lemma length_dec_nat_le: "n < 10 ^ k \<Longrightarrow> 0 < k \<Longrightarrow> length (dec_nat n) \<le> k"
proof (induction k arbitrary: n)
  case (Suc k)
  show ?case
  proof (cases "n < 10")
    case True
    then show ?thesis by (simp add: dec_nat.simps [of n])
  next
    case False
    then have "0 < k" using Suc.prems(1) by (cases k) auto
    moreover have "n div 10 < 10 ^ k" using Suc.prems(1) by (simp add: less_mult_imp_div_less mult.commute)
    ultimately show ?thesis using Suc.IH [of "n div 10"] False by (simp add: dec_nat.simps [of n])
  qed
qed simp

lemma readable_int63: "\<bar>n\<bar> < 2 ^ 64 \<Longrightarrow> readable d (PyInt n)"
proof -
  assume "\<bar>n\<bar> < 2 ^ 64"
  then have "nat \<bar>n\<bar> < 10 ^ 20" by simp
  then have "length (dec_nat (nat \<bar>n\<bar>)) \<le> 20" by (intro length_dec_nat_le) simp_all
  then show ?thesis by (simp add: MAX_STR_DIGITS_def)
qed

definition item_end :: "string \<Rightarrow> bool" where
  "item_end r \<longleftrightarrow> r = [] \<or> is_space (hd r) \<or> hd r \<in> {CHR '','', CHR '']'', CHR ''}''}"

lemma hex_digit_of_digit: "n < 16 \<Longrightarrow> hex_digit_of (hex_digit n) = Some n"
proof -
  have "\<forall>n \<in> set [0..<16]. hex_digit_of (hex_digit n) = Some n" by code_simp
  then show "n < 16 \<Longrightarrow> hex_digit_of (hex_digit n) = Some n" by simp
qed

lemma lex_char_escape: "lex_char (escape_char c @ r) = Some ([c], r)"
proof (cases "of_char c < (32 :: nat)")
  case True
  define n where "n = (of_char c :: nat)"
  have hex: "hex_digit_of (hex_digit (n div 16)) = Some (n div 16)" "hex_digit_of (hex_digit (n mod 16)) = Some (n mod 16)"
    using True hex_digit_of_digit by (simp_all add: n_def)
  have zero: "hex_digit_of CHR ''0'' = Some 0" by code_simp
  have "hex4 CHR ''0'' CHR ''0'' (hex_digit (n div 16)) (hex_digit (n mod 16)) = Some n"
    by (simp add: hex4_def hex zero)
  moreover have "encode_utf8 n = [c]" using True by (simp add: encode_utf8_def n_def)
  ultimately have "lex_unicode (CHR ''0'' # CHR ''0'' # hex_digit (n div 16) # hex_digit (n mod 16) # r) = Some ([c], r)"
    using True by (simp add: lex_unicode_def n_def)
  then show ?thesis by (simp add: escape_char_def lex_char_def simple_escape_def n_def)
next
  case False
  then show ?thesis by (simp add: escape_char_def lex_char_def simple_escape_def)
qed

lemma escape_char_first: "escape_char c = x # xs \<Longrightarrow> x \<noteq> CHR 0x22"
  by (auto simp: escape_char_def split: if_splits)

lemma lex_string_escaped: "lex_string (concat (map escape_char s) @ CHR 0x22 # r) = Some (s, r)"
proof (induction s)
  case (Cons c s)
  have "escape_char c \<noteq> []" by (simp add: escape_char_def)
  then obtain x xs where x: "escape_char c = x # xs" by (cases "escape_char c") auto
  have "lex_char (x # xs @ concat (map escape_char s) @ CHR 0x22 # r)
      = Some ([c], concat (map escape_char s) @ CHR 0x22 # r)"
    using lex_char_escape [of c "concat (map escape_char s) @ CHR 0x22 # r"] x by simp
  then show ?case using Cons.IH x escape_char_first [OF x] by (simp add: lex_string.simps [of "x # _"])
qed simp

lemma lex_token_string: "lex_token (json_string s @ r) = Some (Scalar (PyStr s), r)"
  by (simp add: lex_token_def json_string_def punctuation_def lex_string_escaped)

lemma dec_nat_leading: "hd (dec_nat n) = CHR ''0'' \<Longrightarrow> n = 0"
proof (induction n rule: dec_nat.induct)
  case (1 n)
  show ?case
  proof (cases "n < 10")
    case True
    then have "of_char (digit_char n) = (48 :: nat)" using 1(2) by (simp add: dec_nat.simps [of n])
    then show ?thesis using True by (simp add: digit_char_nat)
  next
    case False
    then have "hd (dec_nat (n div 10)) = CHR ''0''"
      using 1(2) dec_nat_digits [of "n div 10"] by (simp add: dec_nat.simps [of n])
    then show ?thesis using 1(1) False by simp
  qed
qed

lemma item_end_number:
  assumes "item_end r"
  shows "stops r" "lex_fraction r = ([], r)" "lex_exponent r = (None, r)"
proof -
  have chars: "\<not> is_dec c \<and> c \<noteq> CHR ''.'' \<and> c \<noteq> CHR ''e'' \<and> c \<noteq> CHR ''E''"
    if "is_space c \<or> c \<in> {CHR '','', CHR '']'', CHR ''}''}" for c
    using that by (auto simp: is_space_def is_dec_def)
  have r: "r = [] \<or> (\<not> is_dec (hd r) \<and> hd r \<noteq> CHR ''.'' \<and> hd r \<noteq> CHR ''e'' \<and> hd r \<noteq> CHR ''E'')"
    using assms chars [of "hd r"] by (auto simp: item_end_def)
  show "stops r" using r by (auto simp: stops_def)
  show "lex_fraction r = ([], r)" "lex_exponent r = (None, r)"
    using r by (auto simp: lex_fraction_def lex_exponent_def split: list.splits)
qed

lemma dec_int_abs: "dec_int n = (if n < 0 then CHR ''-'' # dec_nat (nat \<bar>n\<bar>) else dec_nat (nat \<bar>n\<bar>))"
  by (simp add: dec_int_def)

lemma lex_number_dec:
  assumes "item_end r" and "int (length (dec_nat (nat \<bar>n\<bar>))) \<le> MAX_STR_DIGITS"
  shows "lex_number (dec_int n @ r) = Some (PyInt n, r)"
proof -
  define ds where "ds = dec_nat (nat \<bar>n\<bar>)"
  have digits: "list_all is_dec ds" "ds \<noteq> []" unfolding ds_def using dec_nat_digits by blast+
  have minus: "hd ds \<noteq> CHR ''-''"
    using digits dec_nat_not_minus [of "nat \<bar>n\<bar>" "[]"] unfolding ds_def [symmetric] by (cases ds) auto
  have taken: "takeWhile is_dec (ds @ r) = ds"
    using takeWhile_dec [OF item_end_number(1) [OF assms(1)] digits(1)] .
  have zero: "dec_nat 0 = ''0''" by code_simp
  have whole: "(if ds \<noteq> [] \<and> hd ds = CHR ''0'' then ''0'' else ds) = ds"
    using dec_nat_leading [of "nat \<bar>n\<bar>"] zero by (auto simp: ds_def)
  have written: "dec_int n = (if n < 0 then CHR ''-'' # ds else ds)"
    unfolding ds_def by (rule dec_int_abs)
  have neg: "(dec_int n @ r \<noteq> [] \<and> hd (dec_int n @ r) = CHR ''-'') = (n < 0)"
    using digits(2) minus by (simp add: written)
  have body: "(if n < 0 then tl (dec_int n @ r) else dec_int n @ r) = ds @ r"
    by (simp add: written)
  have digits_value: "dec_value ds = nat \<bar>n\<bar>" by (simp add: ds_def dec_value_dec_nat)
  show ?thesis
    unfolding lex_number_def Let_def neg body taken whole
    using digits(2) assms(2) [folded ds_def]
    by (simp add: item_end_number [OF assms(1)] digits_value)
qed

lemma not_dec_chars:
  "\<not> is_dec CHR ''[''" "\<not> is_dec CHR '']''" "\<not> is_dec CHR ''{''" "\<not> is_dec CHR ''}''" "\<not> is_dec CHR '',''"
  "\<not> is_dec CHR '':''" "\<not> is_dec CHR 0x22" "\<not> is_dec CHR ''n''" "\<not> is_dec CHR ''t''" "\<not> is_dec CHR ''f''"
  "\<not> is_dec CHR ''N''" "\<not> is_dec CHR ''I''" "\<not> is_dec CHR ''-''" "\<not> is_dec CHR ''.''" "\<not> is_dec CHR ''e''"
  "\<not> is_dec CHR ''E''" "\<not> is_dec CHR '' ''" "\<not> is_dec CHR 0x09" "\<not> is_dec CHR 0x0A" "\<not> is_dec CHR 0x0D"
  by (simp_all add: is_dec_def)

lemma dec_char:
  assumes "is_dec d"
  shows "punctuation d = None" "d \<noteq> CHR 0x22" "d \<notin> set ''ntfNI-.eE''" "\<not> is_space d"
proof -
  have ne: "d \<noteq> c" if "\<not> is_dec c" for c using assms that by blast
  show "punctuation d = None" "d \<noteq> CHR 0x22" "d \<notin> set ''ntfNI-.eE''" "\<not> is_space d"
    by (simp_all add: punctuation_def is_space_def ne not_dec_chars)
qed

lemma lex_token_int:
  assumes "item_end r" and "int (length (dec_nat (nat \<bar>n\<bar>))) \<le> MAX_STR_DIGITS"
  shows "lex_token (dec_int n @ r) = Some (Scalar (PyInt n), r)"
proof -
  define digits where "digits = dec_nat (nat \<bar>n\<bar>)"
  obtain d ds where d: "digits = d # ds" "is_dec d"
    using dec_nat_digits [of "nat \<bar>n\<bar>"] unfolding digits_def [symmetric] by (cases digits) auto
  have written: "dec_int n @ r = (if n < 0 then CHR ''-'' # d # ds @ r else d # ds @ r)"
    unfolding dec_int_abs digits_def [symmetric] d(1) by simp
  have none: "filter (\<lambda>(l, _). take (length l) (dec_int n @ r) = l) literals = []"
    unfolding written using dec_char [OF d(2)] by (simp add: literals_def)
  have minus: "punctuation CHR ''-'' = None" by (simp add: punctuation_def)
  obtain c rest where c: "dec_int n @ r = c # rest" "c = CHR ''-'' \<or> c = d"
    unfolding written by (cases "n < 0") auto
  then have "punctuation c = None" "c \<noteq> CHR 0x22" using dec_char [OF d(2)] minus by auto
  then show ?thesis
    using none lex_number_dec [OF assms] c(1) by (simp add: lex_token_def)
qed

lemma lex_token_no_space:
  assumes "lex_token s = Some (t, r)"
  shows "dropWhile is_space s = s" "s \<noteq> []"
proof -
  have space: "lex_token (c # cs) = None" if "is_space c" for c cs
  proof -
    have c: "punctuation c = None" "c \<noteq> CHR 0x22" "c \<notin> set ''ntfNI-''" "\<not> is_dec c"
      using that not_dec_chars by (auto simp: is_space_def punctuation_def)
    have "filter (\<lambda>(l, _). take (length l) (c # cs) = l) literals = []"
      using c by (auto simp: literals_def)
    moreover have "lex_number (c # cs) = None" using c by (simp add: lex_number_def)
    ultimately show ?thesis using c by (simp add: lex_token_def)
  qed
  show "s \<noteq> []" using assms by (auto simp: lex_token_def)
  then show "dropWhile is_space s = s" using assms space by (cases s) auto
qed

lemma json_run_token:
  assumes "lex_token s = Some (t, r)"
  shows "json_run limit st s = and_then (json_step limit st t) (\<lambda>st'. json_run limit st' r)"
  using assms lex_token_no_space [OF assms] by (simp add: json_run.simps [of limit st s])

lemma lex_token_punctuation:
  "lex_token (CHR ''['' # r) = Some (OpenArray, r)" "lex_token (CHR '']'' # r) = Some (CloseArray, r)"
  "lex_token (CHR ''{'' # r) = Some (OpenObject, r)" "lex_token (CHR ''}'' # r) = Some (CloseObject, r)"
  "lex_token (CHR '','' # r) = Some (Comma, r)" "lex_token (CHR '':'' # r) = Some (Colon, r)"
  by (simp_all add: lex_token_def punctuation_def)

lemma lex_token_literals:
  "lex_token (''null'' @ r) = Some (Scalar PyNone, r)"
  "lex_token (''true'' @ r) = Some (Scalar (PyBool True), r)"
  "lex_token (''false'' @ r) = Some (Scalar (PyBool False), r)"
  by (simp_all add: lex_token_def punctuation_def literals_def)

lemmas json_run_tokens =
  json_run_token [OF lex_token_punctuation(1)] json_run_token [OF lex_token_punctuation(2)]
  json_run_token [OF lex_token_punctuation(3)] json_run_token [OF lex_token_punctuation(4)]
  json_run_token [OF lex_token_punctuation(5)] json_run_token [OF lex_token_punctuation(6)]

text \<open>The machine reads one written value as one value, whatever surrounds it.\<close>

definition reads :: "nat \<Rightarrow> nat \<Rightarrow> pyval \<Rightarrow> bool" where
  "reads limit d v \<longleftrightarrow>
     (\<forall>fs m r. length fs + d \<le> limit \<longrightarrow> m = Value \<or> m = ValueOrEnd \<longrightarrow> item_end r \<longrightarrow>
        json_run limit (fs, m) (json_text v @ r) = json_run limit (put_value fs v) r)"

lemma readsD:
  "reads limit d v \<Longrightarrow> length fs + d \<le> limit \<Longrightarrow> m = Value \<or> m = ValueOrEnd \<Longrightarrow> item_end r \<Longrightarrow>
     json_run limit (fs, m) (json_text v @ r) = json_run limit (put_value fs v) r"
  unfolding reads_def by blast

lemma item_end_simps [simp]: "item_end (CHR '','' # r)" "item_end (CHR '']'' # r)" "item_end (CHR ''}'' # r)" "item_end []"
  "item_end [CHR 0x0A]"
  by (simp_all add: item_end_def is_space_def)

lemma reads_items:
  assumes "\<forall>v \<in> set ws. reads limit d v" and "length fs + Suc d \<le> limit" and "ws \<noteq> []"
    and "m = Value \<or> m = ValueOrEnd"
  shows "json_run limit (InArray vs # fs, m) (commas (map json_text ws) @ CHR '']'' # r)
    = json_run limit (put_value fs (PyList (vs @ ws))) r"
  using assms
proof (induction ws arbitrary: vs m)
  case (Cons w ws)
  have head: "json_run limit (InArray vs # fs, m) (json_text w @ r')
      = json_run limit (InArray (vs @ [w]) # fs, AfterItem) r'" if "item_end r'" for r'
    using readsD [of limit d w "InArray vs # fs" m r'] Cons.prems that by simp
  show ?case
  proof (cases "ws = []")
    case False
    then have "json_run limit (InArray (vs @ [w]) # fs, AfterItem) (CHR '','' # commas (map json_text ws) @ CHR '']'' # r)
        = json_run limit (put_value fs (PyList ((vs @ [w]) @ ws))) r"
      using Cons.IH [of Value "vs @ [w]"] Cons.prems by (simp add: json_run_tokens)
    then show ?thesis using head False by (simp add: commas_Cons)
  qed (use head in \<open>simp add: json_run_tokens\<close>)
qed simp

lemma reads_members:
  assumes "\<forall>(k, v) \<in> set kvs. reads limit d v" and "length fs + Suc d \<le> limit" and "kvs \<noteq> []"
    and "m = Key \<or> m = KeyOrEnd" and "distinct (map fst (seen @ kvs))"
  shows "json_run limit (InObject seen # fs, m)
      (commas (map (\<lambda>(k, v). json_string k @ CHR '':'' # json_text v) kvs) @ CHR ''}'' # r)
    = json_run limit (put_value fs (PyDict (seen @ kvs))) r"
  using assms
proof (induction kvs arbitrary: seen m)
  case (Cons p kvs)
  obtain k v where p: "p = (k, v)" by (rule prod.exhaust)
  have set: "dict_set k v seen = seen @ [(k, v)]"
    using Cons.prems(5) by (intro update_absent) (auto simp: p)
  have head: "json_run limit (InObject seen # fs, m) (json_string k @ CHR '':'' # json_text v @ r')
      = json_run limit (InObject (seen @ [p]) # fs, AfterItem) r'" if "item_end r'" for r'
  proof -
    have "json_run limit (InMember seen k # fs, Value) (json_text v @ r')
        = json_run limit (InObject (seen @ [p]) # fs, AfterItem) r'"
      using readsD [of limit d v "InMember seen k # fs" Value r'] Cons.prems that set by (simp add: p)
    then show ?thesis
      using Cons.prems(4) by (auto simp: json_run_token [OF lex_token_string] json_run_tokens)
  qed
  show ?case
  proof (cases "kvs = []")
    case False
    then have "json_run limit (InObject (seen @ [p]) # fs, AfterItem)
        (CHR '','' # commas (map (\<lambda>(k, v). json_string k @ CHR '':'' # json_text v) kvs) @ CHR ''}'' # r)
      = json_run limit (put_value fs (PyDict ((seen @ [p]) @ kvs))) r"
      using Cons.IH [of Key "seen @ [p]"] Cons.prems by (simp add: json_run_tokens)
    then show ?thesis using head False by (simp add: commas_Cons p)
  qed (use head in \<open>simp add: json_run_tokens p\<close>)
qed simp

lemma readable_reads: "readable d v \<Longrightarrow> reads limit d v"
proof (induction v arbitrary: d)
  case (PyInt n)
  then show ?case by (simp add: reads_def json_run_token [OF lex_token_int])
next
  case (PyList vs)
  have items: "\<forall>v \<in> set vs. reads limit (d - 1) v" and d: "0 < d"
    using PyList by (auto simp: list_all_iff)
  show ?case unfolding reads_def
  proof (intro allI impI)
    fix fs :: "frame list" and m r
    assume a: "length fs + d \<le> limit" "m = Value \<or> m = ValueOrEnd" "item_end r"
    show "json_run limit (fs, m) (json_text (PyList vs) @ r) = json_run limit (put_value fs (PyList vs)) r"
    proof (cases "vs = []")
      case False
      then show ?thesis
        using a d reads_items [OF items, of fs ValueOrEnd "[]" r] by (auto simp: json_run_tokens)
    qed (use a d in \<open>auto simp: json_run_tokens\<close>)
  qed
next
  case (PyDict kvs)
  have items: "\<forall>(k, v) \<in> set kvs. reads limit (d - 1) v" and d: "0 < d" and dist: "distinct (map fst ([] @ kvs))"
    using PyDict by (fastforce simp: list_all_iff)+
  show ?case unfolding reads_def
  proof (intro allI impI)
    fix fs :: "frame list" and m r
    assume a: "length fs + d \<le> limit" "m = Value \<or> m = ValueOrEnd" "item_end r"
    show "json_run limit (fs, m) (json_text (PyDict kvs) @ r) = json_run limit (put_value fs (PyDict kvs)) r"
    proof (cases "kvs = []")
      case False
      then show ?thesis
        using a d reads_members [OF items _ _ _ dist, of fs KeyOrEnd r] by (auto simp: json_run_tokens)
    qed (use a d in \<open>auto simp: json_run_tokens\<close>)
  qed
qed (auto simp: reads_def json_run_token [OF lex_token_literals(1), simplified]
    json_run_token [OF lex_token_literals(2), simplified] json_run_token [OF lex_token_literals(3), simplified]
    json_run_token [OF lex_token_string])

subsection \<open>The written text is UTF-8\<close>

lemma second_ok_append: "follow b = Some n \<Longrightarrow> n \<le> length bs \<Longrightarrow> second_ok b (bs @ cs) = second_ok b bs"
  by (auto simp: second_ok_def follow_def nth_append split: if_splits)

lemma utf8_bytes_append: "utf8_bytes a \<Longrightarrow> utf8_bytes b \<Longrightarrow> utf8_bytes (a @ b)"
proof (induction a rule: utf8_bytes.induct)
  case (2 c cs)
  then obtain n where "follow c = Some n" "n \<le> length cs" "list_all continuation (take n cs)" "second_ok c cs"
      "utf8_bytes (drop n cs)"
    by (auto split: option.splits)
  then show ?case using 2 by (simp add: second_ok_append)
qed simp

lemma utf8_bytes_ascii: "list_all (\<lambda>b. b < 128) bs \<Longrightarrow> utf8_bytes bs"
  by (induction bs) (auto simp: follow_def second_ok_def)

lemma concat_singletons: "list_all (\<lambda>b. f b = [b]) bs \<Longrightarrow> concat (map f bs) = bs"
  by (induction bs) auto

lemma utf8_bytes_concat:
  assumes "utf8_bytes bs" and "\<And>b. b < 128 \<Longrightarrow> list_all (\<lambda>b. b < 128) (f b)" and "\<And>b. 128 \<le> b \<Longrightarrow> f b = [b]"
  shows "utf8_bytes (concat (map f bs))"
  using assms(1)
proof (induction bs rule: utf8_bytes.induct)
  case (2 b bs)
  then obtain n where n: "follow b = Some n" "n \<le> length bs" "list_all continuation (take n bs)" "second_ok b bs"
      "utf8_bytes (drop n bs)"
    by (auto split: option.splits)
  have rest: "utf8_bytes (concat (map f (drop n bs)))" using 2 n by simp
  have "list_all (\<lambda>c. f c = [c]) (take n bs)"
    using n(3) assms(3) by (simp add: list_all_iff continuation_def)
  then have "concat (map f (take n bs)) = take n bs" by (rule concat_singletons)
  then have bs: "concat (map f bs) = take n bs @ concat (map f (drop n bs))"
    by (metis append_take_drop_id concat_append map_append)
  show ?case
  proof (cases "b < 128")
    case True
    then have "n = 0" using n(1) by (simp add: follow_def)
    then show ?thesis
      using rest assms(2) [OF True] by (simp add: utf8_bytes_append utf8_bytes_ascii)
  next
    case False
    have "second_ok b (take n bs)"
      using n second_ok_append [OF n(1), of "take n bs" "drop n bs"] by simp
    then show ?thesis
      using False n rest by (simp add: assms(3) bs second_ok_append)
  qed
qed simp

lemma utf8_append: "utf8 a \<Longrightarrow> utf8 b \<Longrightarrow> utf8 (a @ b)"
  by (simp add: utf8_def utf8_bytes_append)

lemma utf8_ascii: "list_all (\<lambda>c. of_char c < (128 :: nat)) s \<Longrightarrow> utf8 s"
  unfolding utf8_def by (rule utf8_bytes_ascii) (simp add: list_all_iff)

lemma hex_digit_ascii: "n < 16 \<Longrightarrow> of_char (hex_digit n) < (128 :: nat) \<and> hex_digit n \<noteq> CHR 0x00"
proof -
  have "\<forall>n \<in> set [0..<16]. of_char (hex_digit n) < (128 :: nat) \<and> hex_digit n \<noteq> CHR 0x00" by code_simp
  then show "n < 16 \<Longrightarrow> of_char (hex_digit n) < (128 :: nat) \<and> hex_digit n \<noteq> CHR 0x00" by simp
qed

lemma escape_cases:
  "escape_char c = [c] \<and> 32 \<le> (of_char c :: nat)
   \<or> list_all (\<lambda>c. of_char c < (128 :: nat) \<and> c \<noteq> CHR 0x00) (escape_char c) \<and> of_char c < (128 :: nat)"
proof (cases "of_char c < (32 :: nat)")
  case True
  then have "of_char c div 16 < (16 :: nat)" by simp
  then show ?thesis
    using True hex_digit_ascii [of "of_char c div 16"] hex_digit_ascii [of "of_char c mod 16"] by (simp add: escape_char_def)
next
  case False
  then show ?thesis by (simp add: escape_char_def)
qed

lemma escape_ascii: "of_char c < (128 :: nat) \<Longrightarrow> list_all (\<lambda>c. of_char c < (128 :: nat)) (escape_char c)"
  using escape_cases [of c] by (auto simp: list_all_iff)

lemma escape_wide: "128 \<le> (of_char c :: nat) \<Longrightarrow> escape_char c = [c]"
  using escape_cases [of c] by auto

lemma escape_nonzero: "CHR 0x00 \<notin> set (escape_char c)"
  using escape_cases [of c] by (auto simp: list_all_iff)

lemma utf8_json_string:
  assumes "utf8 s"
  shows "utf8 (json_string s)"
proof -
  let ?f = "\<lambda>b. map of_char (escape_char (char_of b)) :: nat list"
  let ?g = "\<lambda>b. if b < 256 then ?f b else [b]"
  have "utf8_bytes (concat (map ?g (map of_char s)))"
  proof (rule utf8_bytes_concat)
    show "utf8_bytes (map of_char s)" using assms by (simp add: utf8_def)
    show "list_all (\<lambda>b. b < 128) (?g b)" if "b < 128" for b
    proof -
      have "of_char (char_of b) < (128 :: nat)" using that by (simp add: of_char_of)
      then show ?thesis using escape_ascii [of "char_of b"] that by (simp add: list_all_iff)
    qed
    show "?g b = [b]" if "128 \<le> b" for b
    proof (cases "b < 256")
      case True
      then have "of_char (char_of b) = b" by (simp add: of_char_of)
      then show ?thesis using escape_wide [of "char_of b"] that by simp
    qed simp
  qed
  moreover have "concat (map ?g (map of_char s)) = map of_char (concat (map escape_char s))"
    by (simp add: comp_def map_concat)
  ultimately have "utf8 (concat (map escape_char s))" by (simp add: utf8_def)
  moreover have "utf8 [CHR 0x22]" by (intro utf8_ascii) simp
  ultimately show ?thesis
    using utf8_append [of "[CHR 0x22]" "concat (map escape_char s) @ [CHR 0x22]"] utf8_append
    by (simp add: json_string_def)
qed

definition clean :: "string \<Rightarrow> bool" where
  "clean s \<longleftrightarrow> utf8 s \<and> CHR 0x00 \<notin> set s"

lemma clean_append: "clean a \<Longrightarrow> clean b \<Longrightarrow> clean (a @ b)"
  by (simp add: clean_def utf8_append)

lemma clean_cons: "of_char c < (128 :: nat) \<Longrightarrow> c \<noteq> CHR 0x00 \<Longrightarrow> clean s \<Longrightarrow> clean (c # s)"
  using clean_append [of "[c]" s] utf8_ascii [of "[c]"] by (simp add: clean_def)

lemma clean_Nil [simp]: "clean []"
  by (simp add: clean_def utf8_def)

lemma clean_dec: "list_all is_dec s \<Longrightarrow> clean s"
  by (induction s) (auto intro!: clean_cons simp: is_dec_def)

lemma clean_commas: "list_all clean xs \<Longrightarrow> clean (commas xs)"
  by (induction xs rule: commas.induct) (auto intro!: clean_append clean_cons)

lemma clean_json_string: "utf8 s \<Longrightarrow> clean (json_string s)"
  using utf8_json_string [of s] escape_nonzero by (auto simp: clean_def json_string_def)

lemma clean_json_text: "readable d v \<Longrightarrow> clean (json_text v)"
proof (induction v arbitrary: d)
  case (PyInt n)
  have "clean (dec_nat (nat \<bar>n\<bar>))" using clean_dec dec_nat_digits by blast
  then show ?case unfolding json_text.simps dec_int_abs by (auto intro!: clean_cons)
next
  case (PyList vs)
  then have "list_all clean (map json_text vs)" by (auto simp: list_all_iff)
  then have "clean (commas (map json_text vs))" by (rule clean_commas)
  then show ?case by (auto intro!: clean_cons clean_append)
next
  case (PyDict kvs)
  have "clean (json_string k @ CHR '':'' # json_text v)" if "(k, v) \<in> set kvs" for k v
    using PyDict.IH [OF that, of v] PyDict.prems that
    by (fastforce simp: list_all_iff intro!: clean_append clean_cons clean_json_string)
  then have "list_all clean (map (\<lambda>(k, v). json_string k @ CHR '':'' # json_text v) kvs)"
    by (auto simp: list_all_iff)
  then have "clean (commas (map (\<lambda>(k, v). json_string k @ CHR '':'' # json_text v) kvs))" by (rule clean_commas)
  then show ?case by (auto intro!: clean_cons clean_append)
qed (auto simp: clean_json_string intro!: clean_cons)

subsection \<open>The round trip\<close>

lemma readable_plain: "readable d v \<Longrightarrow> plain v"
proof (induction v arbitrary: d)
  case (PyList vs)
  then show ?case by (auto simp: list_all_iff)
next
  case (PyDict kvs)
  have "plain v" if "(k, v) \<in> set kvs" for k v
    using PyDict.IH [OF that, of v] PyDict.prems that by (fastforce simp: list_all_iff)
  then show ?case using PyDict.prems by (auto simp: list_all_iff)
qed auto

lemma readable_encodes: "readable d v \<Longrightarrow> d \<le> e \<Longrightarrow> nests_within e v \<and> writable_ints v"
proof (induction v arbitrary: d e)
  case (PyList vs)
  have "nests_within (e - 1) v \<and> writable_ints v" if "v \<in> set vs" for v
    using PyList.IH [OF that, of "d - 1" "e - 1"] PyList.prems that by (auto simp: list_all_iff)
  then show ?case using PyList.prems by (auto simp: list_all_iff)
next
  case (PyDict kvs)
  have "nests_within (e - 1) v \<and> writable_ints v" if "(k, v) \<in> set kvs" for k v
    using PyDict.IH [OF that, of v "d - 1" "e - 1"] PyDict.prems that by (auto simp: list_all_iff)
  then show ?case using PyDict.prems by (fastforce simp: list_all_iff)
qed (auto simp: writable_int_def)

lemma readable_encodable: "readable d v \<Longrightarrow> d \<le> nesting_limit enc \<Longrightarrow> encodable enc v"
  by (simp add: encodable_def readable_encodes)

lemma canonical_json_readable:
  "readable d v \<Longrightarrow> d \<le> nesting_limit enc \<Longrightarrow> canonical_json enc v = Inr (json_text (key_sorted v))"
  by (rule canonical_json_plain [OF readable_plain readable_encodable])

lemma readable_key_sorted: "readable d v \<Longrightarrow> readable d (key_sorted v)"
proof (induction v arbitrary: d)
  case (PyList vs)
  then show ?case by (auto simp: list_all_iff)
next
  case (PyDict kvs)
  have "utf8 k \<and> readable (d - 1) (key_sorted v)" if "(k, v) \<in> set kvs" for k v
    using PyDict.IH [OF that, of v] PyDict.prems that by (fastforce simp: list_all_iff)
  moreover have "distinct (map fst (map (\<lambda>(k, v). (k, key_sorted v)) (sort_key fst kvs)))"
    using PyDict.prems by (simp add: comp_def case_prod_unfold) (simp flip: sort_key_map [of id fst, simplified] add: distinct_map)
  ultimately show ?case using PyDict.prems by (auto simp: list_all_iff)
qed auto

lemma json_text_ascii_first:
  assumes "plain v"
  shows "of_char (hd (json_text v)) < (128 :: nat) \<and> json_text v \<noteq> []"
proof (cases v)
  case (PyInt n)
  have "of_char c < (128 :: nat)" if "is_dec c" for c using that by (simp add: is_dec_def)
  then have "of_char (hd (dec_nat (nat \<bar>n\<bar>))) < (128 :: nat)"
    using dec_nat_digits [of "nat \<bar>n\<bar>"] by (cases "dec_nat (nat \<bar>n\<bar>)") auto
  then show ?thesis unfolding PyInt json_text.simps dec_int_abs using dec_nat_digits by auto
qed (use assms in \<open>auto simp: json_string_def\<close>)

lemma loads_text:
  assumes "readable d v" and "d \<le> limit" and "r = [] \<or> r = [CHR 0x0A]"
  shows "json_loads codec limit (json_text v @ r) = Inr v"
proof -
  obtain c s where written: "json_text v = c # s" and c: "of_char c < (128 :: nat)"
    using json_text_ascii_first [OF readable_plain [OF assms(1)]] by (cases "json_text v") auto
  have "clean r" using assms(3) clean_cons [of "CHR 0x0A" "[]"] by auto
  then have clean: "clean (json_text v @ r)" using clean_json_text [OF assms(1)] clean_append by blast
  have nonzero: "x \<noteq> CHR 0x00" if "x \<in> set (c # s @ r)" for x
    using clean that unfolding clean_def written by auto
  have "(c # s @ r) ! 1 \<noteq> CHR 0x00" if "4 \<le> length (c # s @ r) \<or> length (c # s @ r) = 2"
    using nonzero [OF nth_mem, of 1] that by fastforce
  moreover have "c \<noteq> CHR 0xFE" "c \<noteq> CHR 0xFF" "c \<noteq> CHR 0xEF" using c by auto
  ultimately have "json_decode codec (json_text v @ r) = Inr (json_text v @ r)"
    using clean nonzero [of c] unfolding json_decode_def reads_as_utf8_def clean_def written by auto
  moreover have "json_run limit ([], Value) (json_text v @ r) = json_run limit ([], Complete v) r"
    using readsD [OF readable_reads [OF assms(1)], of "[]" limit Value r] assms(2,3) by auto
  moreover have "json_run limit ([], Complete v) r = Inr v"
    using assms(3) by (auto simp: json_run.simps [of limit _ r] is_space_def)
  ultimately show ?thesis by (simp add: json_loads_def)
qed

lemma loads_canonical:
  assumes "readable d v" and "d \<le> limit" and "d \<le> nesting_limit enc"
  shows "\<exists>t. canonical_json enc v = Inr t \<and> json_loads codec limit t = Inr (key_sorted v)
    \<and> json_loads codec limit (t @ [CHR 0x0A]) = Inr (key_sorted v)"
  using canonical_json_readable [OF assms(1,3)]
    loads_text [OF readable_key_sorted [OF assms(1)] assms(2)] loads_text [OF readable_key_sorted [OF assms(1)] assms(2), of "[]"]
  by auto

text \<open>
  C33: JSON state written by the program reads back.  For every float-free value with distinct keys,
  UTF-8 strings and bounded integers whose nesting the interpreter accepts, \<open>canonical_json\<close> succeeds
  and \<open>json.loads\<close> of its bytes, with or without the final newline the state files add, returns the
  value with its keys in sorted order, whatever the other text encodings would decode to.
\<close>

theorem canonical_json_roundtrip:
  assumes "readable d v" and "d \<le> limit" and "d \<le> nesting_limit enc"
  shows "\<exists>t. canonical_json enc v = Inr t \<and> json_loads codec limit t = Inr (key_sorted v)
    \<and> json_loads codec limit (t @ [CHR 0x0A]) = Inr (key_sorted v)"
  using assms by (rule loads_canonical)

theorem canonical_json_roundtrip_witness:
  "\<exists>t. canonical_json sample_encoder (PyDict [(''b'', PyInt (- 7)), (''a'', PyList [PyNone, PyStr ''x'', PyBool True])]) = Inr t
     \<and> json_loads (\<lambda>_. Inl ValueError) 2 t
         = Inr (PyDict [(''a'', PyList [PyNone, PyStr ''x'', PyBool True]), (''b'', PyInt (- 7))])"
proof -
  have "readable 2 (PyDict [(''b'', PyInt (- 7)), (''a'', PyList [PyNone, PyStr ''x'', PyBool True])])" by code_simp
  from canonical_json_roundtrip [OF this, of 2 sample_encoder "\<lambda>_. Inl ValueError"] show ?thesis
    by (auto simp: sample_encoder_def sort_key_def insort_key.simps)
qed

end
