(* ===== verification/State_Files.thy ===== *)
theory State_Files
  imports Filesystem Json
begin

text \<open>
  The file helpers at the end of \<open>rank_store.py\<close> and \<open>RankStore._atomic_small_write\<close>: complete reads
  and writes over partial system calls, bounded JSON state files, atomic replacement and the removal
  of abandoned temporaries.  The main lemma (\<open>atomic_small_write_spec\<close>) says what a restart may find
  of a state file, whatever call fails and wherever power is lost.
\<close>

section \<open>Platform\<close>

text \<open>The parameters of the standard library: SHA-256, \<open>float.__repr__\<close>, the other text encodings of
  \<open>json.loads\<close>, and the levels of containers the recursion limit allows \<open>json.loads\<close> and \<open>json.dumps\<close>.\<close>

record platform =
  pf_sha :: "string \<Rightarrow> string"
  pf_frepr :: "rat \<Rightarrow> string"
  pf_codec :: "string \<Rightarrow> string result"
  pf_limit :: nat

definition pf_encoder :: "platform \<Rightarrow> json_encoder" where
  "pf_encoder E = \<lparr>float_repr = pf_frepr E, nesting_limit = pf_limit E\<rparr>"

lemma pf_encoder_limit [simp]: "nesting_limit (pf_encoder E) = pf_limit E"
  by (simp add: pf_encoder_def)

section \<open>Reading and writing\<close>

function write_all :: "nat \<Rightarrow> nat \<Rightarrow> string \<Rightarrow> ('z fs_scheme, unit) action" where
  "write_all i pos view =
     (if view = [] then give ()
      else seq (write_at i pos view) (\<lambda>written.
        if written = 0 then throw OSError else write_all i (pos + written) (drop written view)))"
  by pat_completeness auto
termination by (relation "measure (\<lambda>(i, pos, view). length view)") auto

declare write_all.simps [simp del]

function read_exact_file :: "nat \<Rightarrow> nat \<Rightarrow> nat \<Rightarrow> ('z fs_scheme, string) action" where
  "read_exact_file i pos remaining =
     (if remaining = 0 then give []
      else seq (read_at i pos remaining) (\<lambda>chunk.
        if chunk = [] then throw ManifestError
        else seq (read_exact_file i (pos + length chunk) (remaining - length chunk)) (\<lambda>rest. give (chunk @ rest))))"
  by pat_completeness auto
termination by (relation "measure (\<lambda>(i, pos, remaining). remaining)") auto

declare read_exact_file.simps [simp del]

definition read_small_json :: "platform \<Rightarrow> path \<Rightarrow> int \<Rightarrow> ('z fs_scheme, pyval) action" where
  "read_small_json E p maximum =
     seq (open_read p) (\<lambda>n.
     case n of
       Regular i \<Rightarrow>
         seq (fstat i) (\<lambda>metadata.
         let st_size = length (in_data metadata) in
         if st_size = 0 \<or> maximum < int st_size then throw ValueError
         else seq (read_exact_file i 0 st_size) (\<lambda>encoded. lift (json_loads (pf_codec E) (pf_limit E) encoded)))
     | _ \<Rightarrow> throw ValueError)"

section \<open>Atomic replacement\<close>

text \<open>\<open>Path.mkdir(parents=True, exist_ok=True)\<close>.\<close>

definition mkdir_exist_ok :: "path \<Rightarrow> error \<Rightarrow> ('z fs_scheme, unit) action" where
  "mkdir_exist_ok d e = seq (path_is_dir d) (\<lambda>b. if b then give () else throw e)"

function mkdir_parents :: "path \<Rightarrow> ('z fs_scheme, unit) action" where
  "mkdir_parents d =
     except os_error (os_mkdir d) (\<lambda>e.
       if e = FileNotFoundError \<and> d \<noteq> []
       then seq (mkdir_parents (butlast d)) (\<lambda>_. except os_error (os_mkdir d) (mkdir_exist_ok d))
       else mkdir_exist_ok d e)"
  by pat_completeness auto
termination by (relation "measure length") auto

declare mkdir_parents.simps [simp del]

text \<open>\<open>try: p.unlink() except FileNotFoundError: pass\<close>.\<close>

definition unlink_missing_ok :: "path \<Rightarrow> ('z fs_scheme, unit) action" where
  "unlink_missing_ok p = except not_found (os_unlink p) (\<lambda>_. give ())"

definition temporary_name :: "string \<Rightarrow> string \<Rightarrow> string" where
  "temporary_name name nonce = ''.'' @ name @ ''.'' @ nonce @ ''.tmp''"

definition temporary_path :: "path \<Rightarrow> string \<Rightarrow> path" where
  "temporary_path target nonce = butlast target @ [temporary_name (last target) nonce]"

text \<open>Undo the temporary and raise the original error again.\<close>

definition discarding :: "path \<Rightarrow> ('z fs_scheme, unit) action \<Rightarrow> ('z fs_scheme, unit) action" where
  "discarding temporary m = except any_error m (\<lambda>e. seq (unlink_missing_ok temporary) (\<lambda>_. throw e))"

definition replace_with :: "path \<Rightarrow> string \<Rightarrow> ('z fs_scheme, unit) action" where
  "replace_with target payload =
     seq uuid4 (\<lambda>nonce.
     let temporary = temporary_path target nonce in
     seq (open_create temporary) (\<lambda>i.
     seq (discarding temporary (seq (write_all i 0 payload) (\<lambda>_. fsync_file i))) (\<lambda>_.
     seq (discarding temporary (os_replace temporary target)) (\<lambda>_.
     fsync_directory (butlast target)))))"

definition atomic_small_write :: "path \<Rightarrow> string \<Rightarrow> ('z fs_scheme, unit) action" where
  "atomic_small_write target payload =
     seq (mkdir_parents (butlast target)) (\<lambda>_. replace_with target payload)"

text \<open>Whether a name is an abandoned temporary of \<open>name\<close>.\<close>

definition is_temporary :: "string \<Rightarrow> string \<Rightarrow> bool" where
  "is_temporary name entry \<longleftrightarrow>
     (let prefix = ''.'' @ name @ ''.''; suffix = ''.tmp'';
          nonce = take (length entry - length suffix - length prefix) (drop (length prefix) entry)
      in take (length prefix) entry = prefix
         \<and> drop (length entry - length suffix) entry = suffix
         \<and> length nonce = 32 \<and> is_hex nonce)"

definition remove_temporary :: "path \<Rightarrow> nat \<Rightarrow> string \<Rightarrow> ('z fs_scheme, nat) action" where
  "remove_temporary target removed entry =
     (if \<not> is_temporary (last target) entry then give removed
      else
        let p = butlast target @ [entry] in
        seq (except not_found (seq (lstat p) (\<lambda>n. give (Some n))) (\<lambda>_. give None)) (\<lambda>metadata.
        case metadata of
          None \<Rightarrow> give removed
        | Some (Regular _) \<Rightarrow>
            except not_found (seq (os_unlink p) (\<lambda>_. give (removed + 1))) (\<lambda>_. give removed)
        | Some _ \<Rightarrow> throw ValueError))"

definition cleanup_atomic_write_temporaries :: "path \<Rightarrow> ('z fs_scheme, nat) action" where
  "cleanup_atomic_write_temporaries target =
     seq (scandir (butlast target)) (\<lambda>entries.
     seq (fold_action (remove_temporary target) 0 entries) (\<lambda>removed.
     seq (if removed \<noteq> 0 then fsync_directory (butlast target) else give ()) (\<lambda>_.
     give removed)))"

section \<open>What the helpers leave alone\<close>

lemma keeps_write_all [keeps_rules]: "k \<le> i \<Longrightarrow> keeps N k (write_all i pos view)"
proof (induction i pos view rule: write_all.induct)
  case (1 i pos view)
  show ?case
    by (subst write_all.simps) (intro keeps_rules 1; simp add: 1(2))
qed

lemma keeps_read_exact_file [keeps_rules]: "keeps N k (read_exact_file i pos remaining)"
proof (induction i pos remaining rule: read_exact_file.induct)
  case (1 i pos remaining)
  show ?case
    by (subst read_exact_file.simps) (intro keeps_rules 1; simp)
qed

lemma keeps_read_small_json [keeps_rules]: "keeps N k (read_small_json E p maximum)"
  unfolding read_small_json_def Let_def
  by (intro keeps_rules; auto intro!: keeps_rules split: node.splits)

lemma keeps_unlink_missing_ok [keeps_rules]: "keeps {p} k (unlink_missing_ok p)"
  unfolding unlink_missing_ok_def by (intro keeps_rules)

lemma keeps_subset: "keeps M k m \<Longrightarrow> M \<subseteq> N \<Longrightarrow> keeps N k m"
  by (rule keeps_mono) simp_all

definition temporaries :: "path \<Rightarrow> path set" where
  "temporaries target = (\<Union>nonce. below (temporary_path target nonce))"

definition replaced :: "path \<Rightarrow> path set" where
  "replaced target = below target \<union> temporaries target"

lemma below_self [simp]: "p \<in> below p"
  by (simp add: below_def)

lemma keeps_open_create_at [keeps_rules]:
  assumes "temporary \<in> N" and "\<And>i. k \<le> i \<Longrightarrow> keeps N k (f i)"
  shows "keeps N k (seq (open_create temporary) f)"
proof (rule keepsI)
  fix s r s'
  assume run: "seq (open_create temporary) f s = (r, s')" and s: "wf_fs s" "k \<le> length (inodes s)"
  have create: "keeps N k (open_create temporary)"
    using keeps_subset [OF keeps_open_create] assms(1) by blast
  show "wf_fs s' \<and> frame_of N k s s'"
    using run
  proof (cases rule: seq_cases)
    case (cont i s1)
    note s1 = keepsD [OF create cont(1) s]
    have "k \<le> i" using open_create_Inr(1) [OF cont(1)] s(2) by simp
    then show ?thesis
      using keepsD [OF assms(2) cont(2) s1(1,3)] frame_of_trans [OF s1(2)] by blast
  qed (use keepsD [OF create _ s] in blast)
qed

lemma keeps_replace_with [keeps_rules]: "keeps (replaced target) k (replace_with target payload)"
proof -
  have "keeps (replaced target) k (unlink_missing_ok (temporary_path target nonce))" for nonce
    by (rule keeps_subset [OF keeps_unlink_missing_ok]) (use below_self in \<open>auto simp only: replaced_def temporaries_def\<close>)
  moreover have "keeps (replaced target) k (os_replace (temporary_path target nonce) target)" for nonce
    by (rule keeps_subset [OF keeps_os_replace]) (auto simp: replaced_def temporaries_def)
  moreover have "temporary_path target nonce \<in> replaced target" for nonce
    unfolding replaced_def temporaries_def using below_self by blast
  ultimately show ?thesis
    unfolding replace_with_def discarding_def Let_def by (intro keeps_rules; simp)
qed

lemma mkdir_exist_ok_same: "mkdir_exist_ok d e s = (r, s') \<Longrightarrow> same_disk s s'"
  by (auto simp: mkdir_exist_ok_def path_is_dir_def same_disk_def elim!: seq_cases syscall_cases split: if_splits)

text \<open>Creating a directory that exists changes nothing.\<close>

lemma mkdir_parents_same:
  assumes "is_dir s d" and "mkdir_parents d s = (r, s')"
  shows "same_disk s s'"
  using assms(2) unfolding mkdir_parents.simps [of d]
proof (cases rule: except_cases)
  case pass
  then show ?thesis using os_mkdir_result(6) [OF pass(1) assms(1)] by blast
next
  case (handle e s1)
  note mk = os_mkdir_result(6) [OF handle(1) assms(1)]
  then have "mkdir_exist_ok d e s1 = (r, s')" using handle(3) by auto
  then show ?thesis using mkdir_exist_ok_same mk same_disk_trans by blast
qed

section \<open>Complete writes and reads\<close>

lemma overwrite_end: "pos = length old \<Longrightarrow> overwrite pos bytes old = old @ bytes"
  by (simp add: overwrite_def)

text \<open>A write that returns has appended every byte, whatever the partial transfers.\<close>

lemma write_all_Inr:
  assumes "write_all i pos view s = (Inr u, s')" and "i < length (inodes s)" and "pos = length (in_data (inodes s ! i))"
  shows "live s' = live s \<and> durable s' = durable s \<and> fs.more s' = fs.more s \<and> length (inodes s') = length (inodes s)
    \<and> in_data (inodes s' ! i) = in_data (inodes s ! i) @ view"
  using assms
proof (induction i pos view arbitrary: s rule: write_all.induct)
  case (1 i pos view)
  show ?case
  proof (cases "view = []")
    case True
    then show ?thesis using "1.prems"(1) by (simp add: write_all.simps [of i pos "[]"])
  next
    case False
    then obtain n s1 where w: "write_at i pos view s = (Inr n, s1)" and n: "n \<noteq> 0"
        and rest: "write_all i (pos + n) (drop n view) s1 = (Inr u, s')"
      using "1.prems"(1) unfolding write_all.simps [of i pos view]
      by (auto elim!: seq_cases split: if_splits)
    note s1 = write_at_Inr [OF w]
    have data: "in_data (inodes s1 ! i) = in_data (inodes s ! i) @ take n view"
      using "1.prems"(2,3) s1(5) by (simp add: overwrite_end)
    have "i < length (inodes s1)" "pos + n = length (in_data (inodes s1 ! i))"
      using "1.prems"(2,3) s1(1,5) data by simp_all
    from "1.IH" [OF False n rest this] show ?thesis using s1 data by simp
  qed
qed

lemma read_at_Inr:
  assumes "read_at i pos n s = (Inr chunk, s')"
  shows "same_disk s s'" "\<exists>m. chunk = take m (drop pos (in_data (inodes s ! i))) \<and> m \<le> n"
  using assms unfolding read_at_def
  by (cases rule: syscall_cases; force simp: same_disk_def split: option.splits)+

text \<open>A read that returns has every requested byte.\<close>

lemma read_exact_file_Inr:
  assumes "read_exact_file i pos n s = (Inr bytes, s')"
  shows "same_disk s s' \<and> bytes = take n (drop pos (in_data (inodes s ! i))) \<and> length bytes = n"
  using assms
proof (induction i pos n arbitrary: s bytes rule: read_exact_file.induct)
  case (1 i pos n)
  show ?case
  proof (cases "n = 0")
    case True
    then show ?thesis using "1.prems" by (simp add: read_exact_file.simps [of i pos 0])
  next
    case False
    then obtain chunk s1 rest where c: "read_at i pos n s = (Inr chunk, s1)" "chunk \<noteq> []"
        and rest: "read_exact_file i (pos + length chunk) (n - length chunk) s1 = (Inr rest, s')" "bytes = chunk @ rest"
      using "1.prems" unfolding read_exact_file.simps [of i pos n]
      by (auto elim!: seq_cases split: if_splits)
    obtain m where m: "chunk = take m (drop pos (in_data (inodes s ! i)))" "m \<le> n" using read_at_Inr(2) [OF c(1)] by blast
    note s1 = read_at_Inr(1) [OF c(1)]
    have ih: "same_disk s1 s'" "rest = take (n - length chunk) (drop (pos + length chunk) (in_data (inodes s1 ! i)))"
        "length rest = n - length chunk"
      using "1.IH" [OF False c(2) rest(1)] by auto
    have len: "length chunk \<le> n" using m by simp
    have "take (length chunk) (drop pos (in_data (inodes s ! i))) = chunk" unfolding m(1) by (simp add: min_def)
    then have "take n (drop pos (in_data (inodes s ! i))) = chunk @ take (n - length chunk) (drop (length chunk) (drop pos (in_data (inodes s ! i))))"
      using len by (metis append_take_drop_id le_add_diff_inverse take_add)
    then have "bytes = take n (drop pos (in_data (inodes s ! i)))"
      using rest(2) ih(2) same_diskD(3) [OF s1] by (simp add: add.commute)
    moreover have "length bytes = n" using rest(2) ih(3) len by simp
    ultimately show ?thesis using same_disk_trans [OF s1 ih(1)] by blast
  qed
qed

section \<open>Atomicity and durability of replacement\<close>

lemma length_temporary_name: "length (temporary_name name nonce) > length name"
  by (simp add: temporary_name_def)

lemma temporary_apart:
  assumes "target \<noteq> []"
  shows "target \<notin> below (temporary_path target nonce)" "temporary_path target nonce \<noteq> target"
    "butlast (temporary_path target nonce) = butlast target"
proof -
  have "temporary_name (last target) nonce \<noteq> last target"
    using length_temporary_name [of "last target" nonce] by auto
  then have "last (temporary_path target nonce) \<noteq> last target" by (simp add: temporary_path_def)
  then show ne: "temporary_path target nonce \<noteq> target" by auto
  have "length (temporary_path target nonce) = length target" using assms by (simp add: temporary_path_def)
  then show "target \<notin> below (temporary_path target nonce)" using ne by (auto simp: below_def)
  show "butlast (temporary_path target nonce) = butlast target" by (simp add: temporary_path_def)
qed

lemma discarding_Inr: "discarding temporary m s = (Inr u, s') \<longleftrightarrow> m s = (Inr u, s')"
  by (auto simp: discarding_def any_error_def except_def seq_def split: prod.splits sum.splits)

text \<open>Steps that leave the target's binding alone keep what a restart may find of it.\<close>

lemma on_disk_keeps:
  assumes "keeps N (length (inodes s)) m" and "m s = (r, s')" and "wf_fs s" and "on_disk s p V" and "p \<notin> N"
  shows "on_disk s' p V"
  using on_disk_frame [OF keepsD(2) [OF assms(1,2,3)] _ assms(4,3,5)] by simp

text \<open>The temporary is prepared: a synced file with the payload, invisible under the target's name.\<close>

lemma prepared_temporary:
  assumes create: "open_create temporary s = (Inr i, s1)" and wrote: "discarding temporary (seq (write_all i 0 payload) (\<lambda>_. fsync_file i)) s1 = (Inr u, s2)"
    and wf: "wf_fs s"
  shows "wf_fs s2" "frame_of {temporary} (length (inodes s)) s s2" "live_at s2 temporary = Some (Regular i)"
    "in_synced (inodes s2 ! i)" "in_data (inodes s2 ! i) = payload" "i = length (inodes s)" "durable s2 = durable s"
    "i < length (inodes s2)" "fs.more s2 = fs.more s"
proof -
  note c = open_create_Inr [OF create]
  obtain s1' where w: "write_all i 0 payload s1 = (Inr (), s1')" and f: "fsync_file i s1' = (Inr u, s2)"
    using wrote unfolding discarding_Inr by (auto elim: seq_cases)
  note a = write_all_Inr [OF w, simplified c(5)]
  have wr: "live s1' = live s1" "durable s1' = durable s1" "fs.more s1' = fs.more s1" "length (inodes s1') = Suc i"
      "in_data (inodes s1' ! i) = payload"
    using a c(1) by auto
  note fs = fsync_file_Inr [OF f]
  have k: "keeps {temporary} i (seq (open_create temporary) (\<lambda>i. seq (write_all i 0 payload) (\<lambda>_. fsync_file i)))"
    by (intro keeps_rules) simp_all
  have run: "seq (open_create temporary) (\<lambda>i. seq (write_all i 0 payload) (\<lambda>_. fsync_file i)) s = (Inr u, s2)"
    using create w f by simp
  show "wf_fs s2" "frame_of {temporary} (length (inodes s)) s s2" using keepsD [OF k run wf] c(1) by simp_all
  show "live_at s2 temporary = Some (Regular i)" using c(3) wr(1) fs(1) by simp
  show "in_synced (inodes s2 ! i)" "in_data (inodes s2 ! i) = payload" "i < length (inodes s2)"
    using fs(4) wr(4,5) by simp_all
  show "i = length (inodes s)" by (rule c(1))
  show "durable s2 = durable s" "fs.more s2 = fs.more s" using c(4,6) wr fs by simp_all
qed

lemma binding_in_mono: "binding_in s V b \<Longrightarrow> V \<subseteq> W \<Longrightarrow> binding_in s W b"
  by (auto simp: binding_in_def split: option.splits node.splits)

lemma binding_in_same: "inodes s' = inodes s \<Longrightarrow> binding_in s' V b = binding_in s V b"
  by (simp add: binding_in_def split: option.splits node.splits)

lemma os_replace_Inl:
  assumes "os_replace a b s = (Inl e, s')"
  shows "live s' = live s" "durable s' = durable s" "inodes s' = inodes s"
  using assms unfolding os_replace_def
  by (cases rule: syscall_cases; auto simp: same_disk_def split: option.splits if_splits)+

lemma fsync_directory_Inl:
  assumes "fsync_directory d s = (Inl e, s')"
  shows "same_disk s s'"
  using assms unfolding fsync_directory_def
  by (cases rule: syscall_cases) (auto split: if_splits)

text \<open>Renaming a prepared temporary and syncing its directory.\<close>

lemma publish_temporary:
  assumes run: "seq (discarding temporary (os_replace temporary target)) (\<lambda>_. fsync_directory (butlast target)) s = (r, s')"
    and wf: "wf_fs s" and target: "target \<noteq> []" "temporary \<noteq> target" and disk: "on_disk s target V"
    and temporary: "live_at s temporary = Some (Regular i)" "in_synced (inodes s ! i)" "in_data (inodes s ! i) = payload"
  shows "on_disk s' target (insert (Some payload) V) \<and> (r = Inr u \<longrightarrow> on_disk s' target {Some payload})"
  using run
proof (cases rule: seq_cases)
  case (fail e)
  then obtain e' s3 where h: "os_replace temporary target s = (Inl e', s3)"
      and undo: "seq (unlink_missing_ok temporary) (\<lambda>_. throw e') s3 = (Inl e :: unit result, s')"
    unfolding discarding_def by (cases rule: except_cases) (auto simp: any_error_def)
  note same = os_replace_Inl [OF h]
  have wf3: "wf_fs s3" and disk3: "on_disk s3 target V"
    using same wf disk by (simp_all add: wf_fs_def on_disk_def binding_in_same [OF same(3)])
  have "keeps {temporary} (length (inodes s3)) (seq (unlink_missing_ok temporary) (\<lambda>_. throw e'))"
    by (intro keeps_rules)
  from on_disk_keeps [OF this undo wf3 disk3] target(2) have "on_disk s' target V" by simp
  then show ?thesis using fail(2) on_disk_mono by blast
next
  case (cont u3 s3)
  have "os_replace temporary target s = (Inr u3, s3)" using cont(1) by (simp add: discarding_Inr)
  note q = os_replace_Inr [OF this wf temporary(1) target(2)]
  have live: "binding_in s3 {Some payload} (live_at s3 target)"
    using q(1) temporary(2,3) q(4) by (simp add: binding_in_def)
  have durable: "binding_in s3 V (durable_at s3 target)"
    using disk q(3) by (simp add: on_disk_def binding_in_same [OF q(4)])
  have child: "child_of (butlast target) target" using target(1) by (simp add: child_of_def)
  show ?thesis
  proof (cases r)
    case (Inl e)
    note same = same_diskD [OF fsync_directory_Inl [OF cont(2) [unfolded Inl]]]
    have "binding_in s' (insert (Some payload) V) (live_at s' target)"
        "binding_in s' (insert (Some payload) V) (durable_at s' target)"
      using binding_in_mono [OF live] binding_in_mono [OF durable subset_insertI] same
      by (simp_all add: binding_in_same [OF same(3)])
    then show ?thesis using Inl by (simp add: on_disk_def)
  next
    case (Inr v)
    note fs = fsync_directory_Inr [OF cont(2) [unfolded Inr]]
    have "on_disk s' target {Some payload}"
      using live fs(1) fs(5) [of target] child by (simp add: on_disk_def binding_in_same [OF fs(2)])
    then show ?thesis using on_disk_mono [of s' target "{Some payload}"] by blast
  qed
qed

lemma uuid4_result: obtains nonce s0 where "uuid4 s = (Inr nonce, s0)" "same_disk s s0"
proof (cases "uuids s")
  case Nil
  show ?thesis by (rule that [of "replicate 32 (CHR ''0'')" s]) (simp_all add: uuid4_def Nil)
next
  case (Cons u us)
  show ?thesis by (rule that [of u "s\<lparr>uuids := us\<rparr>"]) (simp_all add: uuid4_def Cons)
qed

lemma on_disk_same: "same_disk s s' \<Longrightarrow> on_disk s' p V = on_disk s p V"
  using binding_in_same [OF same_diskD(3), of s s'] by (simp add: on_disk_def same_disk_def)

lemma replace_with_spec:
  assumes run: "replace_with target payload s = (r, s')" and wf: "wf_fs s" and target: "target \<noteq> []"
    and disk: "on_disk s target V"
  shows "on_disk s' target (insert (Some payload) V) \<and> (r = Inr u \<longrightarrow> on_disk s' target {Some payload})"
proof -
  obtain nonce s0 where n: "uuid4 s = (Inr nonce, s0)" "same_disk s s0" by (rule uuid4_result)
  define temporary where "temporary = temporary_path target nonce"
  note apart = temporary_apart(2) [OF target, of nonce, folded temporary_def]
  have wf0: "wf_fs s0" and disk0: "on_disk s0 target V"
    using same_disk_frame [OF n(2)] wf disk by (simp_all add: on_disk_same [OF n(2)])
  have run0: "seq (open_create temporary) (\<lambda>i.
     seq (discarding temporary (seq (write_all i 0 payload) (\<lambda>_. fsync_file i))) (\<lambda>_.
     seq (discarding temporary (os_replace temporary target)) (\<lambda>_.
     fsync_directory (butlast target)))) s0 = (r, s')"
    using run n(1) by (simp add: replace_with_def Let_def temporary_def)
  show ?thesis
    using run0
  proof (cases rule: seq_cases)
    case (fail e)
    then have "on_disk s' target V" using on_disk_keeps [OF keeps_open_create fail(1) wf0 disk0] apart by blast
    then show ?thesis using fail(2) on_disk_mono by blast
  next
    case (cont i s1)
    note create = cont(1)
    show ?thesis
      using cont(2)
    proof (cases rule: seq_cases)
      case (fail e)
      have prepare: "keeps {temporary} (length (inodes s0))
          (seq (open_create temporary) (\<lambda>i. discarding temporary (seq (write_all i 0 payload) (\<lambda>_. fsync_file i))))"
        unfolding discarding_def by (intro keeps_rules) simp
      have "seq (open_create temporary) (\<lambda>i. discarding temporary (seq (write_all i 0 payload) (\<lambda>_. fsync_file i))) s0 = (Inl e, s')"
        using create fail(1) by simp
      from on_disk_keeps [OF prepare this wf0 disk0] apart have "on_disk s' target V" by blast
      then show ?thesis using fail(2) on_disk_mono by blast
    next
      case (cont u2 s2)
      note p = prepared_temporary [OF create cont(1) wf0]
      have "on_disk s2 target V" using on_disk_frame [OF p(2) order_refl disk0 wf0] apart by blast
      then show ?thesis using publish_temporary [OF cont(2) p(1) target apart _ p(3,4,5)] by blast
    qed
  qed
qed

lemma atomic_small_write_frame:
  assumes run: "atomic_small_write target payload s = (r, s')" and wf: "wf_fs s" and dir: "is_dir s (butlast target)"
  shows "wf_fs s' \<and> frame_of (replaced target) (length (inodes s)) s s'"
proof -
  obtain r1 s1 where mk: "mkdir_parents (butlast target) s = (r1, s1)" by (rule prod.exhaust)
  note same = mkdir_parents_same [OF dir mk]
  have s1: "wf_fs s1" "frame_of (replaced target) (length (inodes s)) s s1" "length (inodes s1) = length (inodes s)"
    using same_disk_frame [OF same] wf same_diskD [OF same] by simp_all
  show ?thesis
    using run unfolding atomic_small_write_def
  proof (cases rule: seq_cases)
    case (cont x s2)
    then have "replace_with target payload s1 = (r, s')" using mk by simp
    from keepsD [OF keeps_replace_with this s1(1) order_refl] show ?thesis
      using frame_of_trans [OF s1(2)] s1(3) by simp
  qed (use mk s1 in simp)
qed

text \<open>
  The contract of \<open>_atomic_small_write\<close> in an existing directory: whatever fails and wherever power is
  lost, a restart finds the old or the new contents, and after a normal return only the new ones.
\<close>

lemma atomic_small_write_spec:
  assumes run: "atomic_small_write target payload s = (r, s')" and wf: "wf_fs s" and target: "target \<noteq> []"
    and dir: "is_dir s (butlast target)" and disk: "on_disk s target V"
  shows "wf_fs s'" "frame_of (replaced target) (length (inodes s)) s s'"
    "on_disk s' target (insert (Some payload) V)" "r = Inr u \<Longrightarrow> on_disk s' target {Some payload}"
proof -
  obtain r1 s1 where mk: "mkdir_parents (butlast target) s = (r1, s1)" by (rule prod.exhaust)
  note same = mkdir_parents_same [OF dir mk]
  have s1: "wf_fs s1" "on_disk s1 target V" "frame_of (replaced target) (length (inodes s)) s s1" "length (inodes s1) = length (inodes s)"
    using same_disk_frame [OF same] wf disk same_diskD [OF same] by (simp_all add: on_disk_same [OF same])
  have "on_disk s' target (insert (Some payload) V) \<and> (r = Inr u \<longrightarrow> on_disk s' target {Some payload})"
    using run unfolding atomic_small_write_def
  proof (cases rule: seq_cases)
    case (fail e)
    then show ?thesis using mk s1 on_disk_mono [OF s1(2)] by auto
  next
    case (cont x s2)
    then have rep: "replace_with target payload s1 = (r, s')" using mk by simp
    show ?thesis using replace_with_spec [OF rep s1(1) target s1(2)] by auto
  qed
  then show "wf_fs s'" "frame_of (replaced target) (length (inodes s)) s s'"
    "on_disk s' target (insert (Some payload) V)" "r = Inr u \<Longrightarrow> on_disk s' target {Some payload}"
    using atomic_small_write_frame [OF run wf dir] by blast+
qed

lemma is_temporaryD:
  assumes "is_temporary name entry"
  shows "\<exists>nonce. entry = temporary_name name nonce"
proof -
  define prefix suffix where ps: "prefix = ''.'' @ name @ ''.''" "suffix = ''.tmp''"
  define n where "n = length entry - length suffix - length prefix"
  define nonce where "nonce = take n (drop (length prefix) entry)"
  have h: "take (length prefix) entry = prefix" "drop (length entry - length suffix) entry = suffix" "length nonce = 32"
    using assms unfolding is_temporary_def Let_def ps [symmetric] n_def [symmetric] nonce_def [symmetric] by simp_all
  have n: "32 \<le> n" using h(3) by (simp add: nonce_def)
  then have len: "length entry - length suffix = length prefix + n" by (simp add: n_def)
  have "entry = prefix @ drop (length prefix) entry" using h(1) by (metis append_take_drop_id)
  also have "drop (length prefix) entry = nonce @ drop n (drop (length prefix) entry)" unfolding nonce_def by (rule append_take_drop_id [symmetric])
  also have "drop n (drop (length prefix) entry) = suffix" using h(2) len by (simp add: add.commute)
  finally show ?thesis by (auto simp: ps temporary_name_def)
qed

lemma keeps_cleanup [keeps_rules]: "keeps (temporaries target) k (cleanup_atomic_write_temporaries target)"
proof -
  have "butlast target @ [entry] \<in> temporaries target" if temporary: "is_temporary (last target) entry" for entry
    using is_temporaryD [OF temporary] below_self unfolding temporaries_def temporary_path_def by blast
  then have unlink: "is_temporary (last target) entry \<Longrightarrow> keeps (temporaries target) k (os_unlink (butlast target @ [entry]))" for entry
    by (intro keeps_subset [OF keeps_os_unlink]) simp
  have "keeps (temporaries target) k (remove_temporary target removed entry)" for removed entry
    unfolding remove_temporary_def Let_def
    by (intro keeps_rules) (auto split: option.splits node.splits intro!: keeps_rules unlink)
  then show ?thesis unfolding cleanup_atomic_write_temporaries_def by (intro keeps_rules)
qed

text \<open>A visible name beside a state file is not touched by its replacement.\<close>

definition visible :: "path \<Rightarrow> bool" where
  "visible p \<longleftrightarrow> p \<noteq> [] \<and> last p \<noteq> [] \<and> hd (last p) \<noteq> CHR ''.''"

lemma not_replaced:
  assumes "visible p" and "length p \<le> length target" and "p \<noteq> target" and "target \<noteq> []"
  shows "p \<notin> replaced target"
proof
  assume "p \<in> replaced target"
  then obtain q where q: "p \<in> below q" "q = target \<or> (\<exists>nonce. q = temporary_path target nonce)"
    by (auto simp: replaced_def temporaries_def)
  have "length q = length target" using q(2) assms(4) by (auto simp: temporary_path_def)
  then have "p = q" using q(1) assms(2) by (simp add: below_def)
  then obtain nonce where "p = temporary_path target nonce" using q(2) assms(3) by auto
  then show False using assms(1) by (auto simp: visible_def temporary_path_def temporary_name_def)
qed

lemma target_not_temporary:
  assumes "visible target"
  shows "target \<notin> temporaries target"
  using temporary_apart(1) [of target] assms by (auto simp: visible_def temporaries_def)

lemma read_small_json_Inr:
  assumes "read_small_json E p maximum s = (Inr v, s')"
  obtains i where "live_at s p = Some (Regular i)" "json_loads (pf_codec E) (pf_limit E) (in_data (inodes s ! i)) = Inr v"
    "same_disk s s'"
proof -
  obtain n s1 where n: "open_read p s = (Inr n, s1)"
      and rest: "(case n of Regular i \<Rightarrow> seq (fstat i) (\<lambda>metadata. let st_size = length (in_data metadata) in
           if st_size = 0 \<or> maximum < int st_size then throw ValueError
           else seq (read_exact_file i 0 st_size) (\<lambda>encoded. lift (json_loads (pf_codec E) (pf_limit E) encoded)))
         | _ \<Rightarrow> throw ValueError) s1 = (Inr v, s')"
    using assms unfolding read_small_json_def seq_Inr by blast
  then obtain i where i: "n = Regular i" by (cases n) auto
  obtain m s2 where m: "fstat i s1 = (Inr m, s2)"
      and rest2: "(let st_size = length (in_data m) in
           if st_size = 0 \<or> maximum < int st_size then throw ValueError
           else seq (read_exact_file i 0 st_size) (\<lambda>encoded. lift (json_loads (pf_codec E) (pf_limit E) encoded))) s2 = (Inr v, s')"
    using rest unfolding i node.case seq_Inr by blast
  have st: "m = inodes s1 ! i" "same_disk s1 s2"
    using m unfolding fstat_def by (cases rule: syscall_cases; auto simp: same_disk_def)+
  obtain bytes s3 where b: "read_exact_file i 0 (length (in_data m)) s2 = (Inr bytes, s3)"
      and v: "json_loads (pf_codec E) (pf_limit E) bytes = Inr v" "s3 = s'"
    using rest2 by (auto simp: Let_def seq_Inr split: if_splits)
  note r = read_exact_file_Inr [OF b]
  have "inodes s2 = inodes s" "same_disk s s'"
    using open_read_Inr(1) [OF n] st(2) r v(2) same_disk_trans by (auto simp: same_disk_def)
  then have "bytes = in_data (inodes s ! i)"
    using r st(1) open_read_Inr(1) [OF n] by (simp add: same_disk_def)
  then show ?thesis using that open_read_Inr(2) [OF n] i v(1) \<open>same_disk s s'\<close> by blast
qed

lemma more_write_all [more_rules]: "keeps_more (write_all i pos view)"
proof (induction i pos view rule: write_all.induct)
  case (1 i pos view)
  show ?case by (subst write_all.simps) (intro more_rules 1; simp)
qed

lemma more_read_exact_file [more_rules]: "keeps_more (read_exact_file i pos n)"
proof (induction i pos n rule: read_exact_file.induct)
  case (1 i pos n)
  show ?case by (subst read_exact_file.simps) (intro more_rules 1; simp)
qed

lemma more_replace_with [more_rules]: "keeps_more (replace_with target payload)"
  unfolding replace_with_def discarding_def unlink_missing_ok_def Let_def by (intro more_rules)

lemma more_cleanup [more_rules]: "keeps_more (cleanup_atomic_write_temporaries target)"
proof -
  have "keeps_more (remove_temporary target removed entry)" for removed entry
    unfolding remove_temporary_def Let_def
    by (intro more_rules) (auto split: option.splits node.splits intro!: more_rules)
  then show ?thesis unfolding cleanup_atomic_write_temporaries_def by (intro more_rules)
qed

end
