(* ===== verification/Rank_Store.thy ===== *)
theory Rank_Store
  imports State_Files Topology
begin

text \<open>
  \<open>rank_store.py\<close>: the state of an open rank root, its cross-process lock, the durable inventory
  generations and the withdrawal markers.  The store extends the file system with the fields of
  \<open>RankStore\<close>; a callback is recorded where it is called, and may raise.  Operations under
  \<open>_exclusive\<close> run one at a time, in this and in every other process of the rank, so a history is a
  sequence of them with restarts in between.
\<close>

section \<open>The store\<close>

record rank_store = fs +
  rs_depth :: nat
  rs_closed :: bool
  rs_owner :: bool
  rs_active_restores :: int
  rs_withdraw_hook :: bool
  rs_quarantine_hook :: bool
  rs_withdrawn :: "string list"
  rs_quarantined :: "string list"
  rs_fault_hook :: bool
  rs_restore_credits :: int
  rs_pins_fd :: "nat option"
  rs_pins :: "(nat, int list) dict"

definition ensure_open :: "('z rank_store_scheme, unit) action" where
  "ensure_open s = (if rs_closed s then (Inl RuntimeError, s) else (Inr (), s))"

definition QUARANTINE_REASONS :: "string set" where
  "QUARANTINE_REASONS =
     {''manifest_io'', ''manifest_validation'', ''object_collision'', ''payload_checksum'', ''payload_size'', ''unknown''}"

definition set_quarantine_hook :: "bool \<Rightarrow> ('z rank_store_scheme, unit) action" where
  "set_quarantine_hook present s = (Inr (), s\<lparr>rs_quarantine_hook := present\<rparr>)"

definition set_withdraw_hook :: "bool \<Rightarrow> ('z rank_store_scheme, unit) action" where
  "set_withdraw_hook present s = (Inr (), s\<lparr>rs_withdraw_hook := present\<rparr>)"

text \<open>Telemetry failures are swallowed; a failed withdrawal is raised.\<close>

definition record_quarantine :: "string \<Rightarrow> ('z rank_store_scheme, unit) action" where
  "record_quarantine reason s =
     (if reason \<notin> QUARANTINE_REASONS then (Inl ValueError, s)
      else if \<not> rs_quarantine_hook s then (Inr (), s)
      else except any_error (callback (\<lambda>s. (Inr (), s\<lparr>rs_quarantined := rs_quarantined s @ [reason]\<rparr>))) (\<lambda>_. give ()) s)"

definition record_withdrawal :: "string \<Rightarrow> ('z rank_store_scheme, unit) action" where
  "record_withdrawal entry_id s =
     (if \<not> rs_withdraw_hook s then (Inr (), s)
      else callback (\<lambda>s. (Inr (), s\<lparr>rs_withdrawn := rs_withdrawn s @ [entry_id]\<rparr>)) s)"

section \<open>The cross-process lock\<close>

text \<open>\<open>leases.open_regular\<close>: open for reading and writing and check the identity of the file.\<close>

definition open_rdwr :: "path \<Rightarrow> ('z fs_scheme, node) action" where
  "open_rdwr p = seq (open_read p) (\<lambda>n. if n = Directory then throw OSError else give n)"

definition open_regular :: "path \<Rightarrow> ('z fs_scheme, nat) action" where
  "open_regular p =
     seq (open_rdwr p) (\<lambda>actual.
     seq (lstat p) (\<lambda>named.
     case actual of
       Regular i \<Rightarrow> if named = actual then give i else throw ValueError
     | _ \<Rightarrow> throw ValueError))"

text \<open>\<open>fcntl.flock\<close>: a blocking call returns with the lock or fails.\<close>

definition flock :: "('z fs_scheme, unit) action" where
  "flock = syscall (\<lambda>_ s. (Inr (), s))"

definition MAINTENANCE_LOCK :: path where "MAINTENANCE_LOCK = [''state'', ''maintenance.lock'']"
definition NAMESPACE_LOCK :: path where "NAMESPACE_LOCK = [''state'', ''namespace.lock'']"

definition set_depth :: "nat \<Rightarrow> ('z rank_store_scheme, unit) action" where
  "set_depth n s = (Inr (), s\<lparr>rs_depth := n\<rparr>)"

text \<open>\<open>_exclusive\<close>: reentrant within the thread; the outermost entry takes both file locks.\<close>

definition take_locks :: "('z rank_store_scheme, 'a) action \<Rightarrow> ('z rank_store_scheme, 'a) action" where
  "take_locks m =
     seq (open_rdwr MAINTENANCE_LOCK) (\<lambda>n.
       case n of
         Regular _ \<Rightarrow>
           seq flock (\<lambda>_.
           ensure
             (ensure
               (seq (open_regular NAMESPACE_LOCK) (\<lambda>_. seq flock (\<lambda>_. seq (set_depth 1) (\<lambda>_. m))))
               (set_depth 0))
             flock)
       | _ \<Rightarrow> throw ValueError)"

definition exclusive :: "('z rank_store_scheme, 'a) action \<Rightarrow> ('z rank_store_scheme, 'a) action" where
  "exclusive m s =
     (if 0 < rs_depth s
      then ensure (seq (set_depth (rs_depth s + 1)) (\<lambda>_. m)) (set_depth (rs_depth s)) s
      else take_locks m s)"

section \<open>Inventory generations\<close>

definition GENERATION_STATE :: path where
  "GENERATION_STATE = [''state'', ''generation.json'']"

definition GENERATION_REQUIRED :: path where
  "GENERATION_REQUIRED = [''state'', ''generation.required.json'']"

definition MAX_GENERATION_STATE_BYTES :: int where
  "MAX_GENERATION_STATE_BYTES = 4096"

definition MAX_GENERATION_EPOCH :: int where
  "MAX_GENERATION_EPOCH = 2 ^ 63 - 1"

definition PERSISTENT_GENERATION_EPOCH_BASE :: int where
  "PERSISTENT_GENERATION_EPOCH_BASE = 2 ^ 62"

definition generation_state :: "int \<Rightarrow> pyval" where
  "generation_state epoch = PyDict [(''schema'', PyStr ''spoolcache-generation/v1''), (''epoch'', PyInt epoch)]"

definition generation_required :: pyval where
  "generation_required = PyDict [(''schema'', PyStr ''spoolcache-generation-required/v1'')]"

text \<open>\<open>ValueError\<close> and the package's errors derived from it.\<close>

definition value_error :: "error \<Rightarrow> bool" where
  "value_error e \<longleftrightarrow>
     e \<in> {ValueError, ConfigurationError, IdentityError, ManifestError, LayoutError, ObjectCorruptionError}"

text \<open>\<open>lstat\<close>, with \<open>None\<close> for an absent name.\<close>

definition lstat_opt :: "path \<Rightarrow> ('z fs_scheme, node option) action" where
  "lstat_opt p = except not_found (seq (lstat p) (\<lambda>n. give (Some n))) (\<lambda>_. give None)"

definition read_state :: "platform \<Rightarrow> path \<Rightarrow> ('z fs_scheme, pyval) action" where
  "read_state E p =
     except (\<lambda>e. os_error e \<or> value_error e) (read_small_json E p MAX_GENERATION_STATE_BYTES) (\<lambda>_. throw ValueError)"

text \<open>Dictionaries compare without regard to the order of their keys.\<close>

definition read_sentry :: "platform \<Rightarrow> ('z fs_scheme, bool) action" where
  "read_sentry E =
     seq (lstat_opt GENERATION_REQUIRED) (\<lambda>metadata.
     case metadata of
       None \<Rightarrow> give False
     | Some (Regular _) \<Rightarrow>
         seq (read_state E GENERATION_REQUIRED) (\<lambda>payload.
         if key_sorted payload = key_sorted generation_required then give True else throw ValueError)
     | Some _ \<Rightarrow> throw ValueError)"

definition previous_epoch_of :: "pyval \<Rightarrow> int result" where
  "previous_epoch_of payload =
     (case payload of
        PyDict d \<Rightarrow>
          if fst ` set d \<noteq> {''schema'', ''epoch''} \<or> dict_get d ''schema'' \<noteq> Some (PyStr ''spoolcache-generation/v1'')
          then Inl ValueError
          else (case dict_get d ''epoch'' of
                  Some (PyInt n) \<Rightarrow> if 0 < n \<and> n \<le> MAX_GENERATION_EPOCH then Inr n else Inl ValueError
                | _ \<Rightarrow> Inl ValueError)
      | _ \<Rightarrow> Inl ValueError)"

definition read_previous :: "platform \<Rightarrow> bool \<Rightarrow> ('z fs_scheme, int) action" where
  "read_previous E required_exists =
     seq (lstat_opt GENERATION_STATE) (\<lambda>metadata.
     case metadata of
       None \<Rightarrow> if required_exists then throw ValueError else give 0
     | Some (Regular _) \<Rightarrow> seq (read_state E GENERATION_STATE) (\<lambda>payload. lift (previous_epoch_of payload))
     | Some _ \<Rightarrow> throw ValueError)"

definition next_epoch :: "int \<Rightarrow> int \<Rightarrow> int result" where
  "next_epoch previous clock_epoch =
     (if MAX_GENERATION_EPOCH \<le> previous then Inl RuntimeError
      else if \<not> (0 < clock_epoch \<and> clock_epoch \<le> MAX_GENERATION_EPOCH) then Inl RuntimeError
      else if MAX_GENERATION_EPOCH - PERSISTENT_GENERATION_EPOCH_BASE < clock_epoch then Inl RuntimeError
      else
        let persistent_clock = PERSISTENT_GENERATION_EPOCH_BASE + clock_epoch in
        Inr (if previous < PERSISTENT_GENERATION_EPOCH_BASE
             then max persistent_clock (PERSISTENT_GENERATION_EPOCH_BASE + previous)
             else max (previous + 1) persistent_clock))"

definition write_state :: "platform \<Rightarrow> path \<Rightarrow> pyval \<Rightarrow> ('z fs_scheme, unit) action" where
  "write_state E p v = seq (lift (canonical_json (pf_encoder E) v)) (\<lambda>t. atomic_small_write p (t @ [CHR 0x0A]))"

definition reserve_epoch :: "platform \<Rightarrow> ('z fs_scheme, int) action" where
  "reserve_epoch E =
     seq (cleanup_atomic_write_temporaries GENERATION_STATE) (\<lambda>_.
     seq (cleanup_atomic_write_temporaries GENERATION_REQUIRED) (\<lambda>_.
     seq (read_sentry E) (\<lambda>required_exists.
     seq (read_previous E required_exists) (\<lambda>previous.
     seq time_ns (\<lambda>clock_epoch.
     seq (lift (next_epoch previous clock_epoch)) (\<lambda>epoch.
     seq (write_state E GENERATION_STATE (generation_state epoch)) (\<lambda>_.
     seq (if required_exists then give () else write_state E GENERATION_REQUIRED generation_required) (\<lambda>_.
     give epoch))))))))"

definition reserve_inventory_generation_epoch :: "platform \<Rightarrow> ('z rank_store_scheme, int) action" where
  "reserve_inventory_generation_epoch E = seq ensure_open (\<lambda>_. exclusive (reserve_epoch E))"

section \<open>What the store operations leave alone\<close>

lemma fs_part [simp]:
  "wf_fs (s\<lparr>rs_depth := n\<rparr>) = wf_fs s" "frame_of N k t (s\<lparr>rs_depth := n\<rparr>) = frame_of N k t s"
  "wf_fs (s\<lparr>rs_withdrawn := w\<rparr>) = wf_fs s" "frame_of N k t (s\<lparr>rs_withdrawn := w\<rparr>) = frame_of N k t s"
  "wf_fs (s\<lparr>rs_quarantined := w\<rparr>) = wf_fs s" "frame_of N k t (s\<lparr>rs_quarantined := w\<rparr>) = frame_of N k t s"
  by (simp_all add: wf_fs_def frame_of_def)

lemma keeps_callback: "keeps N k m \<Longrightarrow> keeps N k (callback m)"
proof (rule keepsI)
  fix s r s'
  assume m: "keeps N k m" and run: "callback m s = (r, s')" and s: "wf_fs s" "k \<le> length (inodes s)"
  show "wf_fs s' \<and> frame_of N k s s'"
    using run
  proof (cases rule: callback_cases)
    case fail
    then show ?thesis using s same_disk_frame by blast
  next
    case (run s0)
    have s0: "wf_fs s0" "k \<le> length (inodes s0)" "frame_of N k s s0"
      using run(1) s same_disk_frame [OF run(1)] by (auto simp: same_disk_def)
    show ?thesis using keepsD [OF m run(2) s0(1,2)] frame_of_trans [OF s0(3)] by blast
  qed
qed

lemma keeps_store_field:
  "keeps N k (\<lambda>s. (Inr (), s\<lparr>rs_withdrawn := f s\<rparr>))" "keeps N k (\<lambda>s. (Inr (), s\<lparr>rs_quarantined := f s\<rparr>))"
  "keeps N k (set_depth n)" "keeps N k ensure_open"
  by (simp_all add: keeps_def set_depth_def ensure_open_def)

lemma keeps_choose: "keeps N k a \<Longrightarrow> keeps N k b \<Longrightarrow> keeps N k c \<Longrightarrow> keeps N k (\<lambda>s. if P s then a s else if Q s then b s else c s)"
  by (simp add: keeps_def)

lemma keeps_record [keeps_rules]: "keeps N k (record_quarantine reason)" "keeps N k (record_withdrawal entry_id)"
proof -
  have q: "record_quarantine reason = (\<lambda>s. if reason \<notin> QUARANTINE_REASONS then throw ValueError s
      else if \<not> rs_quarantine_hook s then give () s
      else except any_error (callback (\<lambda>s. (Inr (), s\<lparr>rs_quarantined := rs_quarantined s @ [reason]\<rparr>))) (\<lambda>_. give ()) s)"
    by (simp add: record_quarantine_def fun_eq_iff)
  show "keeps N k (record_quarantine reason)"
    unfolding q by (intro keeps_choose keeps_rules keeps_callback keeps_store_field)
  have w: "record_withdrawal entry_id = (\<lambda>s. if \<not> rs_withdraw_hook s then give () s else if True
      then callback (\<lambda>s. (Inr (), s\<lparr>rs_withdrawn := rs_withdrawn s @ [entry_id]\<rparr>)) s else give () s)"
    by (simp add: record_withdrawal_def fun_eq_iff)
  show "keeps N k (record_withdrawal entry_id)"
    unfolding w by (intro keeps_choose keeps_rules keeps_callback keeps_store_field)
qed

lemma keeps_open [keeps_rules]: "keeps N k (open_rdwr p)" "keeps N k (open_regular p)" "keeps N k flock"
proof -
  show rdwr: "keeps N k (open_rdwr p)" for N k p unfolding open_rdwr_def by (intro keeps_rules)
  show "keeps N k (open_regular p)"
    unfolding open_regular_def by (intro keeps_rules rdwr) (auto split: node.splits intro!: keeps_rules)
  show "keeps N k flock" unfolding flock_def by (rule keeps_syscall) simp
qed

lemma keeps_exclusive [keeps_rules]:
  assumes "keeps N k m"
  shows "keeps N k (exclusive m)"
proof -
  have "keeps N k (take_locks m)"
    unfolding take_locks_def using assms
    by (intro keeps_rules) (auto split: node.splits intro!: keeps_rules keeps_store_field)
  moreover have "keeps N k (ensure (seq (set_depth (n + 1)) (\<lambda>_. m)) (set_depth n))" for n
    using assms by (intro keeps_rules keeps_store_field)
  ultimately show ?thesis by (simp add: keeps_def exclusive_def)
qed

lemma keeps_state [keeps_rules]:
  "keeps N k (lstat_opt p)" "keeps N k (read_state E p)" "keeps N k (read_sentry E)" "keeps N k (read_previous E b)"
proof -
  show l: "keeps N k (lstat_opt p)" for N k p unfolding lstat_opt_def by (intro keeps_rules)
  show r: "keeps N k (read_state E p)" for N k p unfolding read_state_def by (intro keeps_rules)
  show "keeps N k (read_sentry E)" "keeps N k (read_previous E b)"
    unfolding read_sentry_def read_previous_def
    by (intro keeps_rules l r; auto split: option.splits node.splits intro!: keeps_rules r)+
qed

section \<open>Epochs increase\<close>

definition encode_epoch :: "int \<Rightarrow> string" where
  "encode_epoch epoch = json_text (key_sorted (generation_state epoch)) @ [CHR 0x0A]"

definition valid_epoch :: "int \<Rightarrow> bool" where
  "valid_epoch n \<longleftrightarrow> 0 < n \<and> n \<le> MAX_GENERATION_EPOCH"

text \<open>The contents of the state file that do not forget the epoch \<open>lo\<close>.\<close>

definition remembers :: "int option \<Rightarrow> string option set" where
  "remembers lo = (case lo of None \<Rightarrow> UNIV | Some m \<Rightarrow> {Some (encode_epoch n) | n. m \<le> n \<and> valid_epoch n})"

lemma readable_generation: "valid_epoch n \<Longrightarrow> readable 1 (generation_state n)"
proof -
  assume "valid_epoch n"
  then have "readable 0 (PyInt n)"
    by (intro readable_int63) (auto simp: valid_epoch_def MAX_GENERATION_EPOCH_def)
  moreover have "utf8 ''schema''" "utf8 ''epoch''" "utf8 ''spoolcache-generation/v1''"
    by (rule utf8_ascii; simp)+
  ultimately show ?thesis by (simp add: generation_state_def)
qed

lemma key_sorted_generation:
  "key_sorted (generation_state n) = PyDict [(''epoch'', PyInt n), (''schema'', PyStr ''spoolcache-generation/v1'')]"
  by (simp add: generation_state_def sort_key_def insort_key.simps)

lemma loads_epoch:
  assumes "valid_epoch n" and "1 \<le> pf_limit E"
  shows "json_loads (pf_codec E) (pf_limit E) (encode_epoch n) = Inr (key_sorted (generation_state n))"
    "previous_epoch_of (key_sorted (generation_state n)) = Inr n"
proof -
  show "json_loads (pf_codec E) (pf_limit E) (encode_epoch n) = Inr (key_sorted (generation_state n))"
    unfolding encode_epoch_def
    by (rule loads_text [OF readable_key_sorted [OF readable_generation [OF assms(1)]] assms(2)]) simp
  show "previous_epoch_of (key_sorted (generation_state n)) = Inr n"
    using assms(1) unfolding key_sorted_generation by (auto simp: previous_epoch_of_def valid_epoch_def)
qed

lemma next_epoch_Inr:
  assumes "next_epoch previous clock_epoch = Inr epoch" and "0 \<le> previous"
  shows "previous < epoch" "valid_epoch epoch" "PERSISTENT_GENERATION_EPOCH_BASE < epoch"
  using assms
  by (auto simp: next_epoch_def Let_def valid_epoch_def MAX_GENERATION_EPOCH_def PERSISTENT_GENERATION_EPOCH_BASE_def
      split: if_splits)

lemma write_state_eq:
  assumes "readable d v" and "d \<le> pf_limit E"
  shows "write_state E p v = atomic_small_write p (json_text (key_sorted v) @ [CHR 0x0A])"
  using canonical_json_readable [OF assms(1), of "pf_encoder E"] assms(2)
  by (simp add: write_state_def lift_def seq_def fun_eq_iff)

text \<open>A queried state that returned is unchanged and its value is one a restart could find.\<close>

lemma lstat_opt_Inr:
  assumes "lstat_opt p s = (Inr b, s')"
  shows "same_disk s s'" "b = live_at s p"
proof -
  have "same_disk s s' \<and> b = live_at s p"
    using assms unfolding lstat_opt_def
  proof (cases rule: except_cases)
    case pass
    then obtain n where "lstat p s = (Inr n, s')" "b = Some n" by (auto simp: seq_Inr)
    then show ?thesis using lstat_Inr [of p s "Inr n" s'] by auto
  next
    case (handle e s1)
    then have "lstat p s = (Inl FileNotFoundError, s1)" "s1 = s'" "b = None"
      by (auto simp: not_found_def elim!: seq_cases)
    then show ?thesis using lstat_Inr [of p s "Inl FileNotFoundError" s1] by auto
  qed
  then show "same_disk s s'" "b = live_at s p" by blast+
qed

lemma read_state_Inr:
  assumes "read_state E p s = (Inr v, s')"
  obtains i where "live_at s p = Some (Regular i)" "json_loads (pf_codec E) (pf_limit E) (in_data (inodes s ! i)) = Inr v"
    "same_disk s s'"
  using assms unfolding read_state_def
  by (cases rule: except_cases) (auto elim: read_small_json_Inr)

lemma read_previous_Inr:
  assumes "read_previous E required s = (Inr previous, s')" and "on_disk s GENERATION_STATE (remembers lo)"
    and "1 \<le> pf_limit E"
  shows "same_disk s s'" "0 \<le> previous" "lo = Some m \<Longrightarrow> m \<le> previous"
proof -
  obtain b s1 where b: "lstat_opt GENERATION_STATE s = (Inr b, s1)"
      and rest: "(case b of None \<Rightarrow> if required then throw ValueError else give 0
        | Some (Regular _) \<Rightarrow> seq (read_state E GENERATION_STATE) (\<lambda>payload. lift (previous_epoch_of payload))
        | Some _ \<Rightarrow> throw ValueError) s1 = (Inr previous, s')"
    using assms(1) unfolding read_previous_def seq_Inr by blast
  note l = lstat_opt_Inr [OF b]
  have "same_disk s s' \<and> 0 \<le> previous \<and> (\<forall>m. lo = Some m \<longrightarrow> m \<le> previous)"
  proof (cases b)
    case None
    then have "previous = 0" "s1 = s'" using rest by (auto split: if_splits)
    moreover have "lo = None"
      using assms(2) None l(2) by (auto simp: on_disk_def binding_in_def remembers_def split: option.splits)
    ultimately show ?thesis using l(1) by simp
  next
    case (Some n)
    then obtain payload where r: "read_state E GENERATION_STATE s1 = (Inr payload, s')" and p: "previous_epoch_of payload = Inr previous"
      using rest by (cases n) (auto simp: seq_Inr)
    obtain i where i: "live_at s1 GENERATION_STATE = Some (Regular i)"
        "json_loads (pf_codec E) (pf_limit E) (in_data (inodes s1 ! i)) = Inr payload" "same_disk s1 s'"
      using read_state_Inr [OF r] by blast
    have pos: "0 \<le> previous" using p by (auto simp: previous_epoch_of_def split: pyval.splits if_splits option.splits)
    have "m \<le> previous" if m: "lo = Some m" for m
    proof -
      obtain n where n: "in_data (inodes s1 ! i) = encode_epoch n" "m \<le> n" "valid_epoch n"
        using assms(2) i(1) l(1) m by (auto simp: on_disk_def binding_in_def remembers_def same_disk_def)
      then show ?thesis using i(2) p loads_epoch [OF n(3) assms(3)] by auto
    qed
    then show ?thesis using same_disk_trans [OF l(1) i(3)] pos by blast
  qed
  then show "same_disk s s'" "0 \<le> previous" "lo = Some m \<Longrightarrow> m \<le> previous" by blast+
qed

definition generation_names :: "path set" where
  "generation_names = replaced GENERATION_STATE \<union> replaced GENERATION_REQUIRED"

lemma generation_apart:
  "GENERATION_STATE \<notin> temporaries GENERATION_STATE \<union> temporaries GENERATION_REQUIRED"
  "GENERATION_STATE \<notin> replaced GENERATION_REQUIRED" "[''state''] \<notin> generation_names"
proof -
  have v: "visible GENERATION_STATE" "visible [''state'']" by (simp_all add: visible_def GENERATION_STATE_def)
  show r: "GENERATION_STATE \<notin> replaced GENERATION_REQUIRED"
    by (rule not_replaced [OF v(1)]) (simp_all add: GENERATION_STATE_def GENERATION_REQUIRED_def)
  then show "GENERATION_STATE \<notin> temporaries GENERATION_STATE \<union> temporaries GENERATION_REQUIRED"
    using target_not_temporary [OF v(1)] by (auto simp: replaced_def)
  show "[''state''] \<notin> generation_names"
    unfolding generation_names_def using not_replaced [OF v(2)]
    by (simp add: GENERATION_STATE_def GENERATION_REQUIRED_def)
qed

lemma anchored_state:
  assumes "frame_of generation_names k s s'" and "anchored s [''state'']"
  shows "anchored s' [''state'']"
proof (rule anchored_frame [OF assms])
  fix j :: nat
  assume "0 < j" "j \<le> length [''state'']"
  then have "take j [''state''] = [''state'']" by simp
  then show "take j [''state''] \<notin> generation_names" using generation_apart(3) by metis
qed

lemma remembers_mono: "valid_epoch e \<Longrightarrow> (\<And>m. lo = Some m \<Longrightarrow> m \<le> e) \<Longrightarrow> remembers (Some e) \<subseteq> remembers lo"
  by (fastforce simp: remembers_def split: option.splits)

lemma butlast_generation: "butlast GENERATION_STATE = [''state'']" "butlast GENERATION_REQUIRED = [''state'']"
  "GENERATION_STATE \<noteq> []" "GENERATION_REQUIRED \<noteq> []"
  by (simp_all add: GENERATION_STATE_def GENERATION_REQUIRED_def)

text \<open>Writing the new epoch, and the sentry after it.\<close>

lemma write_epoch_spec:
  assumes run: "seq (write_state E GENERATION_STATE (generation_state epoch)) (\<lambda>_.
      seq (if required then give () else write_state E GENERATION_REQUIRED generation_required) (\<lambda>_. give epoch)) s = (r, s')"
    and wf: "wf_fs s" and dir: "anchored s [''state'']" and disk: "on_disk s GENERATION_STATE (remembers lo)"
    and epoch: "valid_epoch epoch" "\<And>m. lo = Some m \<Longrightarrow> m < epoch" and limit: "1 \<le> pf_limit E"
  shows "wf_fs s' \<and> frame_of generation_names (length (inodes s)) s s' \<and> on_disk s' GENERATION_STATE (remembers lo)
    \<and> (\<forall>e. r = Inr e \<longrightarrow> e = epoch \<and> on_disk s' GENERATION_STATE (remembers (Some epoch)))"
proof -
  have new: "insert (Some (encode_epoch epoch)) (remembers lo) = remembers lo" "{Some (encode_epoch epoch)} \<subseteq> remembers (Some epoch)"
    using epoch by (auto simp: remembers_def split: option.splits intro: less_imp_le)
  have dir': "is_dir s (butlast GENERATION_STATE)" using anchored_is_dir [OF dir] by (simp add: butlast_generation)
  have eq: "write_state E GENERATION_STATE (generation_state epoch) = atomic_small_write GENERATION_STATE (encode_epoch epoch)"
    by (simp add: write_state_eq [OF readable_generation [OF epoch(1)] limit] encode_epoch_def)
  have mono: "frame_of (replaced p) j t t' \<Longrightarrow> p \<in> {GENERATION_STATE, GENERATION_REQUIRED} \<Longrightarrow> frame_of generation_names j t t'"
    for p j and t t' :: "'a fs_scheme"
    by (rule frame_of_mono) (auto simp: generation_names_def)
  show ?thesis
    using run
  proof (cases rule: seq_cases)
    case (fail e)
    note w = atomic_small_write_spec [OF fail(1) [unfolded eq] wf butlast_generation(3) dir' disk]
    show ?thesis using w mono new fail(2) by auto
  next
    case (cont u s1)
    note w = atomic_small_write_spec [OF cont(1) [unfolded eq] wf butlast_generation(3) dir' disk]
    have f1: "frame_of generation_names (length (inodes s)) s s1" using w(2) mono by blast
    have d1: "on_disk s1 GENERATION_STATE (remembers (Some epoch))" using w(4) on_disk_mono [OF _ new(2)] by blast
    have dir1: "is_dir s1 (butlast GENERATION_REQUIRED)"
      using anchored_is_dir [OF anchored_state [OF f1 dir]] by (simp add: butlast_generation)
    have "wf_fs s' \<and> frame_of generation_names (length (inodes s)) s1 s' \<and> on_disk s' GENERATION_STATE (remembers (Some epoch)) \<and> (\<forall>e. r = Inr e \<longrightarrow> e = epoch)"
    proof (cases required)
      case True
      then show ?thesis using cont(2) w(1) d1 by auto
    next
      case False
      have "readable 1 generation_required"
        unfolding generation_required_def by (simp add: utf8_ascii)
      then obtain r2 where c: "atomic_small_write GENERATION_REQUIRED (json_text (key_sorted generation_required) @ [CHR 0x0A]) s1 = (r2, s')"
          and r: "\<forall>e. r = Inr e \<longrightarrow> e = epoch"
        using cont(2) False limit by (auto simp: write_state_eq elim!: seq_cases)
      have len: "length (inodes s) \<le> length (inodes s1)" using f1 by (simp add: frame_of_def)
      have frame: "wf_fs s' \<and> frame_of (replaced GENERATION_REQUIRED) (length (inodes s1)) s1 s'"
        using atomic_small_write_frame [OF c w(1) dir1] by blast
      then show ?thesis
        using on_disk_frame [OF _ order_refl d1 w(1) generation_apart(2)] r frame_of_mono [OF _ _ len] mono by blast
    qed
    then show ?thesis
      using frame_of_trans [OF f1] on_disk_mono [OF _ remembers_mono [OF epoch(1)]] epoch(2) by (blast intro: less_imp_le)
  qed
qed

lemma reserve_epoch_spec:
  assumes run: "reserve_epoch E s = (r, s')" and wf: "wf_fs s" and dir: "anchored s [''state'']"
    and disk: "on_disk s GENERATION_STATE (remembers lo)" and limit: "1 \<le> pf_limit E"
  shows "wf_fs s' \<and> anchored s' [''state''] \<and> on_disk s' GENERATION_STATE (remembers lo)
    \<and> (\<forall>e. r = Inr e \<longrightarrow> (\<forall>m. lo = Some m \<longrightarrow> m < e) \<and> valid_epoch e \<and> PERSISTENT_GENERATION_EPOCH_BASE < e
         \<and> on_disk s' GENERATION_STATE (remembers (Some e)))"
proof -
  define N where "N = temporaries GENERATION_STATE \<union> temporaries GENERATION_REQUIRED"
  define k where "k = length (inodes s)"
  have N: "N \<subseteq> generation_names" by (auto simp: N_def generation_names_def replaced_def)
  have clean: "keeps N k (cleanup_atomic_write_temporaries GENERATION_STATE)"
    "keeps N k (cleanup_atomic_write_temporaries GENERATION_REQUIRED)"
    by (rule keeps_subset [OF keeps_cleanup]; simp add: N_def)+
  have early: "wf_fs t \<and> anchored t [''state''] \<and> on_disk t GENERATION_STATE (remembers lo)"
    if "wf_fs t" "frame_of N k s t" for t
    using that on_disk_frame [OF that(2) _ disk wf generation_apart(1) [folded N_def]]
      anchored_state [OF frame_of_mono [OF that(2) N order_refl] dir] by (simp add: k_def)
  have start: "wf_fs s" "frame_of N k s s" "k \<le> length (inodes s)" using wf by (simp_all add: k_def)
  show ?thesis
  proof (cases rule: keeps_stage [OF run [unfolded reserve_epoch_def] clean(1) start])
    case (2 x s1)
    show ?thesis
    proof (cases rule: keeps_stage [OF 2(2) clean(2) 2(3,4,5)])
      case (2 x s2)
      show ?thesis
      proof (cases rule: keeps_stage [OF 2(2) keeps_state(3) 2(3,4,5)])
        case (2 required s3)
        show ?thesis
        proof (cases rule: keeps_stage [OF 2(2) keeps_state(4) 2(3,4,5)])
          case (2 previous s4)
          note s3 = early [OF \<open>wf_fs s3\<close> \<open>frame_of N k s s3\<close>]
          note p = read_previous_Inr [OF 2(1) s3 [THEN conjunct2, THEN conjunct2] limit]
          show ?thesis
          proof (cases rule: keeps_stage [OF 2(2) keeps_query(10) 2(3,4,5)])
            case (2 now s5)
            show ?thesis
            proof (cases "next_epoch previous now")
              case (Inl e)
              then show ?thesis using 2(2) early [OF 2(3,4)] by (auto simp: seq_def)
            next
              case (Inr epoch)
              note n = next_epoch_Inr [OF Inr p(2)]
              note e = early [OF 2(3,4)]
              have lo: "m < epoch" if "lo = Some m" for m using p(3) [OF that] n(1) by linarith
              from 2(2) Inr have w: "seq (write_state E GENERATION_STATE (generation_state epoch)) (\<lambda>_.
                 seq (if required then give () else write_state E GENERATION_REQUIRED generation_required) (\<lambda>_. give epoch)) s5 = (r, s')"
                by (simp add: seq_def)
              note spec = write_epoch_spec [OF w _ _ _ n(2) lo limit, of lo]
              show ?thesis using spec e n anchored_state lo by blast
            qed
          qed (use early in blast)
        qed (use early in blast)
      qed (use early in blast)
    qed (use early in blast)
  qed (use early in blast)
qed

section \<open>Running under the lock\<close>

definition disk_eq :: "'z fs_scheme \<Rightarrow> 'z fs_scheme \<Rightarrow> bool" where
  "disk_eq s s' \<longleftrightarrow> live s' = live s \<and> durable s' = durable s \<and> inodes s' = inodes s"

lemma disk_eqD:
  assumes "disk_eq s s'"
  shows "wf_fs s' = wf_fs s" "on_disk s' p V = on_disk s p V" "anchored s' d = anchored s d" "frame_of N k s s'"
    "length (inodes s') = length (inodes s)"
  using assms binding_in_same [of s' s] by (auto simp: disk_eq_def wf_fs_def on_disk_def anchored_def frame_of_def)

lemma disk_eq_trans: "disk_eq s s' \<Longrightarrow> disk_eq s' s'' \<Longrightarrow> disk_eq s s''"
  by (simp add: disk_eq_def)

lemma same_disk_eq: "same_disk s s' \<Longrightarrow> disk_eq s s'"
  by (simp add: same_disk_def disk_eq_def)

lemma quiet:
  "open_rdwr p s = (r, s') \<Longrightarrow> disk_eq s s'" "open_regular p s = (r2, s') \<Longrightarrow> disk_eq s s'"
  "flock s = (r3, s') \<Longrightarrow> disk_eq s s'"
proof -
  show rdwr: "disk_eq s s'" if "open_rdwr p s = (r, s')" for p s r and s' :: "'a fs_scheme"
    using that unfolding open_rdwr_def
    by (cases rule: seq_cases) (auto dest!: open_read_Inr(1) same_disk_eq split: if_splits)
  show "disk_eq s s'" if "open_regular p s = (r2, s')"
    using that unfolding open_regular_def
  proof (cases rule: seq_cases)
    case (cont actual s1)
    show ?thesis
      using cont(2)
    proof (cases rule: seq_cases)
      case (fail e)
      then show ?thesis using rdwr [OF cont(1)] lstat_Inr(1) same_disk_eq disk_eq_trans by blast
    next
      case c: (cont named s2)
      have "s' = s2" using c(2) by (cases actual) (auto split: if_splits)
      then show ?thesis using rdwr [OF cont(1)] lstat_Inr(1) [OF c(1)] same_disk_eq disk_eq_trans by blast
    qed
  qed (use rdwr in blast)
  show "flock s = (r3, s') \<Longrightarrow> disk_eq s s'"
    unfolding flock_def by (auto elim!: syscall_cases dest: same_disk_eq)
qed

lemma set_depth_eq: "set_depth n s = (r, s') \<Longrightarrow> disk_eq s s' \<and> r = Inr ()"
  by (auto simp: set_depth_def disk_eq_def)

lemma set_depth_disk: "set_depth n s = (r, s') \<Longrightarrow> disk_eq s s'"
  by (simp add: set_depth_eq)

text \<open>Either the lock was refused, or the body ran and perhaps the release failed.\<close>

inductive ran_within :: "('z fs_scheme, 'a) action \<Rightarrow> 'z fs_scheme \<Rightarrow> 'a result \<Rightarrow> 'z fs_scheme \<Rightarrow> bool" for m where
  refused: "disk_eq s s' \<Longrightarrow> ran_within m s (Inl e) s'"
| ran: "disk_eq s s1 \<Longrightarrow> m s1 = (r1, s2) \<Longrightarrow> disk_eq s2 s' \<Longrightarrow> r = r1 \<or> (\<exists>e. r = Inl e) \<Longrightarrow> ran_within m s r s'"

lemma ran_within_refl: "m s = (r, s') \<Longrightarrow> ran_within m s r s'"
  by (rule ran_within.ran [of s s m r s' s' r]) (simp_all add: disk_eq_def)

lemma ran_within_pre: "ran_within m s1 r s' \<Longrightarrow> disk_eq s s1 \<Longrightarrow> ran_within m s r s'"
  by (induction rule: ran_within.induct) (blast intro: ran_within.intros disk_eq_trans)+

lemma ran_within_post:
  assumes "ran_within m s r1 s1" and "disk_eq s1 s'" and "r = r1 \<or> (\<exists>e. r = Inl e)"
  shows "ran_within m s r s'"
  using assms(1)
proof cases
  case (refused e)
  then show ?thesis using assms(2,3) disk_eq_trans ran_within.refused by blast
next
  case (ran t1 r2 t2)
  have "r = r2 \<or> (\<exists>e. r = Inl e)" using ran(4) assms(3) by blast
  then show ?thesis
    by (intro ran_within.ran [of s t1 m r2 t2 s' r] ran(1,2) disk_eq_trans [OF ran(3) assms(2)])
qed

lemma ran_within_seq:
  assumes "seq q (\<lambda>_. m) s = (r, s')" and "\<And>s r s'. q s = (r, s') \<Longrightarrow> disk_eq s s'"
    and "\<And>s r s'. m s = (r, s') \<Longrightarrow> ran_within m' s r s'"
  shows "ran_within m' s r s'"
  using assms(1)
proof (cases rule: seq_cases)
  case (fail e)
  then show ?thesis using ran_within.refused [OF assms(2) [OF fail(1)]] by simp
next
  case (cont x s1)
  show ?thesis by (rule ran_within_pre [OF assms(3) [OF cont(2)] assms(2) [OF cont(1)]])
qed

lemma ran_within_ensure:
  assumes "ensure m c s = (r, s')" and "\<And>s r s'. c s = (r, s') \<Longrightarrow> disk_eq s s'"
    and "\<And>s r s'. m s = (r, s') \<Longrightarrow> ran_within m' s r s'"
  shows "ran_within m' s r s'"
  using assms(1)
proof (cases rule: ensure_cases)
  case (pass s1)
  show ?thesis by (rule ran_within_post [OF assms(3) [OF pass(1)] assms(2) [OF pass(2)]]) simp
next
  case (fail r1 s1 e)
  show ?thesis by (rule ran_within_post [OF assms(3) [OF fail(1)] assms(2) [OF fail(2)]]) (simp add: fail(3))
qed

lemma take_locks_ran:
  assumes "take_locks m s = (r, s')"
  shows "ran_within m s r s'"
proof -
  define body where "body = seq (open_regular NAMESPACE_LOCK) (\<lambda>_. seq flock (\<lambda>_. seq (set_depth 1) (\<lambda>_. m)))"
  have inner: "ran_within m s r s'" if "seq (set_depth 1) (\<lambda>_. m) s = (r, s')" for s r s'
    by (rule ran_within_seq [OF that]) (erule set_depth_disk, erule ran_within_refl)
  have both: "ran_within m s r s'" if "seq flock (\<lambda>_. seq (set_depth 1) (\<lambda>_. m)) s = (r, s')" for s r s'
    by (rule ran_within_seq [OF that]) (erule quiet(3), erule inner)
  have b: "ran_within m s r s'" if "body s = (r, s')" for s r s'
    by (rule ran_within_seq [OF that [unfolded body_def]]) (erule quiet(2), erule both)
  have d: "ran_within m s r s'" if "ensure body (set_depth 0) s = (r, s')" for s r s'
    by (rule ran_within_ensure [OF that]) (erule set_depth_disk, erule b)
  have e: "ran_within m s r s'" if "ensure (ensure body (set_depth 0)) flock s = (r, s')" for s r s'
    by (rule ran_within_ensure [OF that]) (erule quiet(3), erule d)
  have locked: "ran_within m s r s'" if "seq flock (\<lambda>_. ensure (ensure body (set_depth 0)) flock) s = (r, s')" for s r s'
    by (rule ran_within_seq [OF that]) (erule quiet(3), erule e)
  show ?thesis
    using assms unfolding take_locks_def body_def [symmetric]
  proof (cases rule: seq_cases)
    case (fail e)
    then show ?thesis using ran_within.refused [OF quiet(1) [OF fail(1)]] by simp
  next
    case (cont n s1)
    have "ran_within m s1 r s'"
    proof (cases n)
      case (Regular i)
      then show ?thesis using cont(2) locked by simp
    qed (use cont(2) in \<open>auto intro!: ran_within.refused simp: disk_eq_def\<close>)
    then show ?thesis using quiet(1) [OF cont(1)] by (rule ran_within_pre)
  qed
qed

lemma exclusive_cases:
  assumes run: "exclusive m s = (r, s')"
  obtains (refused) e where "r = Inl e" "disk_eq s s'"
    | (ran) s1 r1 s2 where "disk_eq s s1" "m s1 = (r1, s2)" "disk_eq s2 s'" "r = r1 \<or> (\<exists>e. r = Inl e)"
proof -
  have "ran_within m s r s'"
  proof (cases "0 < rs_depth s")
    case True
    obtain s1 where d: "set_depth (rs_depth s + 1) s = (Inr (), s1)" by (simp add: set_depth_def)
    obtain r1 s2 where m: "m s1 = (r1, s2)" by (rule prod.exhaust)
    have "r = r1" "set_depth (rs_depth s) s2 = (Inr (), s')"
      using run True d m by (simp_all add: exclusive_def ensure_def seq_def set_depth_def)
    then show ?thesis
      using ran_within.ran [of s s1 m r1 s2 s' r] m set_depth_eq [OF d] set_depth_eq by blast
  qed (use run take_locks_ran in \<open>simp add: exclusive_def\<close>)
  then show ?thesis by cases (use refused ran in blast)+
qed

section \<open>Histories of a rank root\<close>

text \<open>
  The epochs reserved on one root, in order, by any number of processes: a reservation that returned,
  one that raised, the loss of the process or of power at any point, and any other activity that
  leaves the generation state alone.
\<close>

inductive generations :: "platform \<Rightarrow> int list \<Rightarrow> rank_store \<Rightarrow> bool" for E where
  opened: "generations E [] s" if "wf_fs s" "anchored s [''state'']" "on_disk s GENERATION_STATE UNIV"
| reserved: "generations E (es @ [e]) s'" if "generations E es s" "reserve_inventory_generation_epoch E s = (Inr e, s')"
| refused: "generations E es s'" if "generations E es s" "reserve_inventory_generation_epoch E s = (Inl x, s')"
| restart: "generations E es s'" if "generations E es s" "restarted s s'"
| other: "generations E es s'" if "generations E es s" "wf_fs s'" "frame_of N (length (inodes s)) s s'"
    "GENERATION_STATE \<notin> N" "[''state''] \<notin> N"

definition last_epoch :: "int list \<Rightarrow> int option" where
  "last_epoch es = (if es = [] then None else Some (last es))"

definition epochs_ok :: "int list \<Rightarrow> bool" where
  "epochs_ok es \<longleftrightarrow> sorted_wrt (<) es \<and> (\<forall>e \<in> set es. valid_epoch e \<and> PERSISTENT_GENERATION_EPOCH_BASE < e)"

lemma reserve_spec:
  assumes run: "reserve_inventory_generation_epoch E s = (r, s')" and wf: "wf_fs s" and dir: "anchored s [''state'']"
    and disk: "on_disk s GENERATION_STATE (remembers lo)" and limit: "1 \<le> pf_limit E"
  shows "wf_fs s' \<and> anchored s' [''state''] \<and> on_disk s' GENERATION_STATE (remembers lo)
    \<and> (\<forall>e. r = Inr e \<longrightarrow> (\<forall>m. lo = Some m \<longrightarrow> m < e) \<and> valid_epoch e \<and> PERSISTENT_GENERATION_EPOCH_BASE < e
         \<and> on_disk s' GENERATION_STATE (remembers (Some e)))"
proof -
  consider "\<exists>e. r = Inl e" "s' = s" | "exclusive (reserve_epoch E) s = (r, s')"
    using run by (auto simp: reserve_inventory_generation_epoch_def seq_def ensure_open_def split: if_splits)
  then show ?thesis
  proof cases
    case 2
    from this show ?thesis
    proof (cases rule: exclusive_cases)
      case (refused e)
      then show ?thesis using wf dir disk disk_eqD [OF refused(2)] by simp
    next
      case (ran s1 r1 s2)
      have s1: "wf_fs s1" "anchored s1 [''state'']" "on_disk s1 GENERATION_STATE (remembers lo)"
        using wf dir disk disk_eqD [OF ran(1)] by simp_all
      show ?thesis
        using reserve_epoch_spec [OF ran(2) s1 limit] disk_eqD [OF ran(3)] ran(4) by auto
    qed
  qed (use wf dir disk in auto)
qed

lemma generations_inv:
  assumes "generations E es s" and "1 \<le> pf_limit E"
  shows "epochs_ok es \<and> wf_fs s \<and> anchored s [''state''] \<and> on_disk s GENERATION_STATE (remembers (last_epoch es))"
  using assms(1)
proof induction
  case (opened s)
  then show ?case by (simp add: epochs_ok_def last_epoch_def remembers_def)
next
  case (reserved es s e s')
  note spec = reserve_spec [OF reserved.hyps(2) _ _ _ assms(2), of "last_epoch es"]
  have e: "valid_epoch e" "PERSISTENT_GENERATION_EPOCH_BASE < e" "\<And>m. last_epoch es = Some m \<Longrightarrow> m < e"
    using spec reserved.IH by blast+
  have "x < e" if x: "x \<in> set es" for x
  proof -
    have "x \<le> last es"
      using reserved.IH x unfolding epochs_ok_def by (cases es rule: rev_cases) (auto simp: sorted_wrt_append less_imp_le)
    moreover have "last_epoch es = Some (last es)" using x by (auto simp: last_epoch_def)
    ultimately show ?thesis using e(3) [of "last es"] by simp
  qed
  then have "epochs_ok (es @ [e])" using reserved.IH e by (auto simp: epochs_ok_def sorted_wrt_append)
  then show ?case using spec reserved.IH by (simp add: last_epoch_def)
next
  case (refused es s x s')
  then show ?case using reserve_spec [OF refused.hyps(2) _ _ _ assms(2), of "last_epoch es"] by blast
next
  case (restart es s s')
  then show ?case
    using wf_restarted anchored_restarted on_disk_restarted [of s s' GENERATION_STATE] butlast_generation(1) by metis
next
  case (other es s s' N)
  have "anchored s' [''state'']"
    by (rule anchored_frame [OF other.hyps(3)]) (use other.IH other.hyps(5) in \<open>auto simp: take_Cons' split: if_splits\<close>)
  then show ?case using other on_disk_frame [OF other.hyps(3) order_refl] by blast
qed

text \<open>
  C27: Inventory generations never go back.  On one rank root, in every history of reservations that
  return or raise, partial and failed system calls, lost processes and power cuts at any point, and
  clocks that move backwards, the epochs handed out increase strictly, stay in the persistent domain
  above \<open>2\<^sup>6\<^sup>2\<close> and below \<open>2\<^sup>6\<^sup>3\<close>, and after the last one every state a restart can find
  on disk is an encoded epoch at least as large.
\<close>

theorem epochs_strictly_increase:
  assumes "generations E es s" and "1 \<le> pf_limit E"
  shows "sorted_wrt (<) es \<and> (\<forall>e \<in> set es. 2 ^ 62 < e \<and> e < 2 ^ 63)
    \<and> (es \<noteq> [] \<longrightarrow> on_disk s GENERATION_STATE {Some (encode_epoch n) | n. last es \<le> n \<and> n < 2 ^ 63})"
proof -
  note inv = generations_inv [OF assms]
  have ranges: "\<forall>e \<in> set es. 2 ^ 62 < e \<and> e < 2 ^ 63"
    using inv by (auto simp: epochs_ok_def valid_epoch_def MAX_GENERATION_EPOCH_def PERSISTENT_GENERATION_EPOCH_BASE_def)
  have "remembers (Some m) \<subseteq> {Some (encode_epoch n) | n. m \<le> n \<and> n < 2 ^ 63}" for m
    by (auto simp: remembers_def valid_epoch_def MAX_GENERATION_EPOCH_def)
  moreover have "on_disk s GENERATION_STATE (remembers (Some (last es)))" if "es \<noteq> []"
    using inv that by (simp add: last_epoch_def)
  ultimately have "on_disk s GENERATION_STATE {Some (encode_epoch n) | n. last es \<le> n \<and> n < 2 ^ 63}" if "es \<noteq> []"
    using that on_disk_mono by blast
  then show ?thesis using inv ranges by (simp add: epochs_ok_def)
qed

definition sample_platform :: platform where
  "sample_platform = \<lparr>pf_sha = (\<lambda>s. replicate 32 (CHR 0x00)), pf_frepr = (\<lambda>_. []), pf_codec = (\<lambda>_. Inl ValueError), pf_limit = 100\<rparr>"

definition sample_fs :: fs where
  "sample_fs =
     \<lparr>live = [([''state''], Directory), (MAINTENANCE_LOCK, Regular 0), (NAMESPACE_LOCK, Regular 1)],
      durable = [([''state''], Directory), (MAINTENANCE_LOCK, Regular 0), (NAMESPACE_LOCK, Regular 1)],
      inodes = replicate 2 \<lparr>in_data = [], in_synced = True, in_mtime = 0\<rparr>,
      schedule = [Done, Done, Done, Done], power_off = False, uuids = [''0'', ''1'', ''2'', ''3''], clock = [10, 3]\<rparr>"

definition sample_store :: rank_store where
  "sample_store = fs.extend sample_fs
     \<lparr>rs_depth = 0, rs_closed = False, rs_owner = True, rs_active_restores = 0, rs_withdraw_hook = True,
      rs_quarantine_hook = False, rs_withdrawn = [], rs_quarantined = [], rs_fault_hook = False, rs_restore_credits = 2,
      rs_pins_fd = Some 0, rs_pins = []\<rparr>"

lemma sample_opened: "generations E [] sample_store"
proof (rule generations.opened)
  have m: "live_at sample_store = [[''state''] \<mapsto> Directory, MAINTENANCE_LOCK \<mapsto> Regular 0, NAMESPACE_LOCK \<mapsto> Regular 1]"
    "durable_at sample_store = live_at sample_store"
    by (simp_all add: sample_store_def sample_fs_def fs.defs fun_eq_iff MAINTENANCE_LOCK_def NAMESPACE_LOCK_def)
  show "wf_fs sample_store"
    unfolding wf_fs_def tree_def m
    by (auto simp: sample_store_def sample_fs_def fs.defs MAINTENANCE_LOCK_def NAMESPACE_LOCK_def split: if_splits)
  show "anchored sample_store [''state'']"
    unfolding anchored_def m by (auto simp: take_Cons' MAINTENANCE_LOCK_def NAMESPACE_LOCK_def)
  show "on_disk sample_store GENERATION_STATE UNIV"
    unfolding on_disk_def m by (simp add: binding_in_def GENERATION_STATE_def MAINTENANCE_LOCK_def NAMESPACE_LOCK_def)
qed

definition sample_reserved :: "rank_store" where
  "sample_reserved = snd (reserve_inventory_generation_epoch sample_platform sample_store)"

lemma sample_first: "reserve_inventory_generation_epoch sample_platform sample_store = (Inr (2 ^ 62 + 10), sample_reserved)"
proof -
  have "fst (reserve_inventory_generation_epoch sample_platform sample_store) = Inr (2 ^ 62 + 10)" by code_simp
  then show ?thesis by (simp add: sample_reserved_def prod_eq_iff)
qed

lemma sample_second:
  "reserve_inventory_generation_epoch sample_platform sample_reserved
     = (Inr (2 ^ 62 + 11), snd (reserve_inventory_generation_epoch sample_platform sample_reserved))"
proof -
  have "fst (reserve_inventory_generation_epoch sample_platform sample_reserved) = Inr (2 ^ 62 + 11)" by code_simp
  then show ?thesis by (simp add: prod_eq_iff)
qed

theorem epochs_strictly_increase_witness:
  "\<exists>s. generations sample_platform [2 ^ 62 + 10, 2 ^ 62 + 11] s
     \<and> on_disk s GENERATION_STATE {Some (encode_epoch n) | n. 2 ^ 62 + 11 \<le> n \<and> n < 2 ^ 63}"
proof -
  have "\<exists>s. generations sample_platform [2 ^ 62 + 10, 2 ^ 62 + 11] s"
    using generations.reserved [OF generations.reserved [OF sample_opened sample_first] sample_second] by auto
  then obtain s where s: "generations sample_platform [2 ^ 62 + 10, 2 ^ 62 + 11] s" by blast
  have "1 \<le> pf_limit sample_platform" by (simp add: sample_platform_def)
  from epochs_strictly_increase [OF s this] s show ?thesis by auto
qed

end
