(* ===== verification/Withdrawals.thy ===== *)
theory Withdrawals
  imports Rank_Store "HOL-Library.Word"
begin

text \<open>
  The rest of \<open>rank_store.py\<close> and \<open>leases.py\<close>: key leases, the durable withdrawal markers (one empty
  directory per withdrawn key), quarantine, the managed directories of a root, ownership and closing.
  Descriptors are the inode numbers they were opened on; the locks a live restore holds on the lease
  file are the field \<open>rs_pins\<close>.
\<close>

unbundle bit_operations_syntax

section \<open>Errors that are collected\<close>

text \<open>\<open>try: m except Exception as error: first = first or error\<close>.\<close>

definition attempt :: "('s, 'a) action \<Rightarrow> ('s, error option) action" where
  "attempt m = except any_error (seq m (\<lambda>_. give None)) (\<lambda>e. give (Some e))"

definition first_error :: "error option \<Rightarrow> error option \<Rightarrow> error option" where
  "first_error a b = (case a of None \<Rightarrow> b | Some e \<Rightarrow> Some e)"

definition cleanup_temporary_file :: "path \<Rightarrow> error option \<Rightarrow> ('z fs_scheme, unit) action" where
  "cleanup_temporary_file p primary_error =
     seq (attempt (unlink_missing_ok p)) (\<lambda>e1.
     seq (attempt (fsync_directory (butlast p))) (\<lambda>e2.
     case first_error e1 e2 of
       None \<Rightarrow> give ()
     | Some e \<Rightarrow> (case primary_error of None \<Rightarrow> throw e | Some _ \<Rightarrow> give ())))"

section \<open>Key leases\<close>

definition OBJECT_READS_LOCK :: path where
  "OBJECT_READS_LOCK = [''state'', ''object-reads.lock'']"

definition hex_int :: "string \<Rightarrow> int" where
  "hex_int s = foldl (\<lambda>n c. 16 * n + int (of_char c - (if CHR ''a'' \<le> c then 87 else 48))) 0 s"

definition lease_range :: "string \<Rightarrow> int result" where
  "lease_range digest =
     (if \<not> is_digest digest then Inl ValueError
      else Inr ((hex_int (take 16 digest) AND (push_bit 62 1 - 1)) * 2))"

text \<open>A lock request that does not wait: \<open>False\<close> when it would block.\<close>

definition try_lock :: "('z fs_scheme, bool) action" where
  "try_lock = syscall (\<lambda>quota s. (Inr (quota = None), s))"

definition pinned :: "'z rank_store_scheme \<Rightarrow> int set" where
  "pinned s = (\<Union>(fd, offsets) \<in> set (rs_pins s). set offsets)"

definition pins_busy :: "string \<Rightarrow> ('z rank_store_scheme, bool) action" where
  "pins_busy key =
     seq (lift (lease_range key)) (\<lambda>offset s.
     case rs_pins_fd s of
       None \<Rightarrow> (Inl TypeError, s)
     | Some i \<Rightarrow>
         seq (lstat OBJECT_READS_LOCK) (\<lambda>named.
         if named \<noteq> Regular i then throw ValueError
         else syscall (\<lambda>_ s. (Inr (offset \<in> pinned s), s))) s)"

definition pins_close :: "('z rank_store_scheme, unit) action" where
  "pins_close s = (Inr (), s\<lparr>rs_pins_fd := None\<rparr>)"

definition KeyPins :: "('z rank_store_scheme, unit) action" where
  "KeyPins =
     seq (open_regular OBJECT_READS_LOCK) (\<lambda>i.
     seq (\<lambda>s. (Inr (), s\<lparr>rs_pins_fd := Some i\<rparr>)) (\<lambda>_.
     except any_error (seq (pins_busy (replicate 64 (CHR ''0''))) (\<lambda>_. give ())) (\<lambda>e. seq pins_close (\<lambda>_. throw e))))"

definition fresh_fd :: "'z rank_store_scheme \<Rightarrow> nat" where
  "fresh_fd s = Suc (fold max (map fst (rs_pins s)) 0)"

text \<open>Locks a failed acquisition took are released with its descriptor.\<close>

definition pins_acquire :: "string list \<Rightarrow> ('z rank_store_scheme, nat) action" where
  "pins_acquire keys =
     seq (open_regular OBJECT_READS_LOCK) (\<lambda>_.
     seq (fold_action (\<lambda>offsets key. seq (lift (lease_range key)) (\<lambda>offset. seq flock (\<lambda>_. give (offsets @ [offset])))) [] keys)
       (\<lambda>offsets s. (Inr (fresh_fd s), s\<lparr>rs_pins := dict_set (fresh_fd s) offsets (rs_pins s)\<rparr>)))"

definition pins_release :: "nat \<Rightarrow> ('z rank_store_scheme, unit) action" where
  "pins_release fd s = (Inr (), s\<lparr>rs_pins := dict_pop fd (rs_pins s)\<rparr>)"

section \<open>Withdrawal markers\<close>

definition WITHDRAWN :: path where
  "WITHDRAWN = [''state'', ''inventory-withdrawn'']"

definition inventory_withdrawal_path :: "string \<Rightarrow> path" where
  "inventory_withdrawal_path entry_id = WITHDRAWN @ [entry_id]"

text \<open>\<open>TokenFileStore._manifest_path\<close> on a digest.\<close>

definition manifest_path :: "string \<Rightarrow> path" where
  "manifest_path entry_id = [''manifests'', take 2 entry_id, entry_id @ ''.kv'']"

definition validate_marker :: "path \<Rightarrow> string \<Rightarrow> ('z fs_scheme, unit) action" where
  "validate_marker dir entry =
     (if \<not> is_digest entry then throw ValueError
      else
        seq (lstat_opt (dir @ [entry])) (\<lambda>metadata.
        case metadata of
          None \<Rightarrow> give ()
        | Some Directory \<Rightarrow> seq (scandir (dir @ [entry])) (\<lambda>children. check (children = []) ValueError)
        | Some _ \<Rightarrow> throw ValueError))"

definition validate_digest_marker_namespace :: "path \<Rightarrow> ('z fs_scheme, unit) action" where
  "validate_digest_marker_namespace dir = seq (scandir dir) (\<lambda>entries. for_each (validate_marker dir) entries)"

definition digest_marker_is_present :: "path \<Rightarrow> ('z fs_scheme, bool) action" where
  "digest_marker_is_present p =
     seq (lstat_opt p) (\<lambda>metadata.
     case metadata of
       None \<Rightarrow> give False
     | Some Directory \<Rightarrow>
         seq (except not_found (seq (scandir p) (\<lambda>names. give (Some names))) (\<lambda>_. give None)) (\<lambda>children.
         case children of
           None \<Rightarrow> give False
         | Some names \<Rightarrow> if names \<noteq> [] then throw ValueError else give True)
     | Some _ \<Rightarrow> throw ValueError)"

text \<open>\<open>try: path.mkdir() except FileExistsError: pass\<close>, and whether it was created.\<close>

definition mkdir_existing_ok :: "path \<Rightarrow> ('z fs_scheme, bool) action" where
  "mkdir_existing_ok p =
     except (\<lambda>e. e = FileExistsError) (seq (os_mkdir p) (\<lambda>_. give True)) (\<lambda>_. give False)"

definition mark_digest_marker :: "path \<Rightarrow> ('z fs_scheme, unit) action" where
  "mark_digest_marker p =
     seq (mkdir_existing_ok p) (\<lambda>_.
     seq (digest_marker_is_present p) (\<lambda>present.
     if \<not> present then throw ValueError else fsync_directory (butlast p)))"

definition clear_digest_marker :: "path \<Rightarrow> ('z fs_scheme, unit) action" where
  "clear_digest_marker p =
     seq (digest_marker_is_present p) (\<lambda>present.
     if \<not> present then give () else seq (os_rmdir p) (\<lambda>_. fsync_directory (butlast p)))"

definition inventory_is_withdrawn :: "string \<Rightarrow> ('z fs_scheme, bool) action" where
  "inventory_is_withdrawn entry_id = digest_marker_is_present (inventory_withdrawal_path entry_id)"

definition mark_inventory_withdrawn :: "string \<Rightarrow> ('z fs_scheme, unit) action" where
  "mark_inventory_withdrawn entry_id = mark_digest_marker (inventory_withdrawal_path entry_id)"

definition clear_inventory_withdrawal :: "string \<Rightarrow> ('z fs_scheme, unit) action" where
  "clear_inventory_withdrawal entry_id = clear_digest_marker (inventory_withdrawal_path entry_id)"

text \<open>The names a batch selects from, in directory order; every marked key is withdrawn on the way.\<close>

definition marked_names ::
  "(string \<Rightarrow> ('z fs_scheme, unit) action) option \<Rightarrow> string option \<Rightarrow> ('z fs_scheme, string list) action" where
  "marked_names withdraw following =
     seq (scandir WITHDRAWN) (\<lambda>entries.
     fold_action (\<lambda>names name.
       if \<not> is_digest name then throw ValueError
       else
         seq (digest_marker_is_present (WITHDRAWN @ [name])) (\<lambda>present.
         if \<not> present then give names
         else
           seq (case withdraw of None \<Rightarrow> give () | Some f \<Rightarrow> f name) (\<lambda>_.
           give (case following of None \<Rightarrow> names @ [name] | Some c \<Rightarrow> if c < name then names @ [name] else names))))
       [] entries)"

definition inventory_withdrawal_marker_batch ::
  "int \<Rightarrow> string option \<Rightarrow> (string \<Rightarrow> ('z rank_store_scheme, unit) action) option
    \<Rightarrow> ('z rank_store_scheme, string list \<times> string option) action" where
  "inventory_withdrawal_marker_batch limit after withdraw =
     (if \<not> (0 < limit \<and> limit \<le> 100000) then throw ValueError
      else if (case after of None \<Rightarrow> False | Some c \<Rightarrow> \<not> is_digest c) then throw ValueError
      else
        seq (exclusive
               (seq (marked_names withdraw after) (\<lambda>names.
                let selected = nsmallest limit names in
                if selected = [] \<and> after \<noteq> None
                then seq (marked_names withdraw None) (\<lambda>names. give (nsmallest limit names))
                else give selected))) (\<lambda>selected.
        give (selected, if int (length selected) = limit then Some (last selected) else None)))"

section \<open>Acknowledgement and quarantine\<close>

definition fsync_manifest_absence_locked :: "path \<Rightarrow> ('z fs_scheme, unit) action" where
  "fsync_manifest_absence_locked p =
     seq (lstat_opt (butlast p)) (\<lambda>metadata.
     case metadata of
       None \<Rightarrow> fsync_directory [''manifests'']
     | Some Directory \<Rightarrow> fsync_directory (butlast p)
     | Some _ \<Rightarrow> throw ValueError)"

definition acknowledge_absent :: "string \<Rightarrow> ('z fs_scheme, unit) action" where
  "acknowledge_absent entry_id =
     (if \<not> is_digest entry_id then throw ValueError
      else
        let p = manifest_path entry_id in
        seq (lstat_opt p) (\<lambda>metadata.
        if metadata \<noteq> None then give ()
        else
          seq (fsync_manifest_absence_locked p) (\<lambda>_.
          seq (lstat_opt p) (\<lambda>metadata.
          if metadata \<noteq> None then give () else clear_inventory_withdrawal entry_id))))"

definition acknowledge_absent_inventory_withdrawals :: "string list \<Rightarrow> ('z rank_store_scheme, unit) action" where
  "acknowledge_absent_inventory_withdrawals entry_ids = exclusive (for_each acknowledge_absent entry_ids)"

definition ensure_shard_directory :: "path \<Rightarrow> ('z fs_scheme, unit) action" where
  "ensure_shard_directory p =
     seq (mkdir_existing_ok p) (\<lambda>_.
     seq (lstat p) (\<lambda>metadata.
     if metadata \<noteq> Directory then throw ValueError else fsync_directory (butlast p)))"

text \<open>\<open>Path.stem\<close> of a final component.\<close>

definition path_stem :: "string \<Rightarrow> string" where
  "path_stem name =
     (let suffix = takeWhile (\<lambda>c. c \<noteq> CHR ''.'') (rev name);
          i = length name - length suffix - 1
      in if CHR ''.'' \<in> set name \<and> 0 < i \<and> suffix \<noteq> [] then take i name else name)"

definition quarantine_path :: "path \<Rightarrow> string \<Rightarrow> path" where
  "quarantine_path p nonce = [''quarantine'', ''manifest-'' @ last p @ ''.'' @ nonce @ ''.bad'']"

text \<open>Persist the decision before the rename; the errors of both are reported after it.\<close>

definition withdraw_entry :: "string \<Rightarrow> ('z rank_store_scheme, error option) action" where
  "withdraw_entry entry_id =
     (if is_digest entry_id
      then seq (attempt (mark_inventory_withdrawn entry_id)) (\<lambda>e1.
           seq (attempt (record_withdrawal entry_id)) (\<lambda>e2. give (first_error e1 e2)))
      else give None)"

definition release_if_owner :: "string \<Rightarrow> ('z rank_store_scheme, unit) action" where
  "release_if_owner entry_id s =
     (if is_digest entry_id \<and> rs_owner s \<and> rs_withdraw_hook s then clear_inventory_withdrawal entry_id s else (Inr (), s))"

definition quarantine_moved :: "path \<Rightarrow> string \<Rightarrow> error option \<Rightarrow> ('z rank_store_scheme, bool) action" where
  "quarantine_moved p reason withdrawal_error =
     seq (attempt (fsync_directory (butlast p))) (\<lambda>e1.
     seq (attempt (fsync_directory [''quarantine''])) (\<lambda>e2.
     seq (record_quarantine reason) (\<lambda>_.
     if first_error withdrawal_error (first_error e1 e2) \<noteq> None then throw RuntimeError
     else seq (release_if_owner (path_stem (last p))) (\<lambda>_. give True))))"

definition quarantine_locked :: "path \<Rightarrow> string \<Rightarrow> ('z rank_store_scheme, bool) action" where
  "quarantine_locked p reason =
     seq (withdraw_entry (path_stem (last p))) (\<lambda>withdrawal_error.
     seq uuid4 (\<lambda>nonce.
     seq (except not_found (seq (os_replace p (quarantine_path p nonce)) (\<lambda>_. give True)) (\<lambda>_. give False)) (\<lambda>moved.
     if \<not> moved then give False else quarantine_moved p reason withdrawal_error)))"

definition quarantine_manifest :: "path \<Rightarrow> string \<Rightarrow> ('z rank_store_scheme, bool) action" where
  "quarantine_manifest p reason =
     (if reason \<notin> QUARANTINE_REASONS then throw ValueError else exclusive (quarantine_locked p reason))"

section \<open>Ownership, closing and sizes\<close>

definition INVENTORY_OWNER_LOCK :: path where
  "INVENTORY_OWNER_LOCK = [''state'', ''inventory-owner.lock'']"

definition acquire_inventory_owner :: "('z rank_store_scheme, unit) action" where
  "acquire_inventory_owner =
     seq ensure_open (\<lambda>_ s.
     if rs_owner s then (Inr (), s)
     else
       seq (open_rdwr INVENTORY_OWNER_LOCK) (\<lambda>n.
       case n of
         Regular _ \<Rightarrow>
           seq try_lock (\<lambda>got.
           if \<not> got then throw RuntimeError else (\<lambda>s. (Inr (), s\<lparr>rs_owner := True\<rparr>)))
       | _ \<Rightarrow> throw ValueError) s)"

definition close_store :: "('z rank_store_scheme, unit) action" where
  "close_store s =
     (if rs_closed s then (Inr (), s)
      else if rs_active_restores s \<noteq> 0 then (Inl StoreBusyError, s)
      else
        seq (if rs_owner s then seq (\<lambda>s. (Inr (), s\<lparr>rs_owner := False\<rparr>)) (\<lambda>_. flock) else give ()) (\<lambda>_.
        seq pins_close (\<lambda>_ s. (Inr (), s\<lparr>rs_closed := True\<rparr>))) s)"

definition checkpoint :: "string \<Rightarrow> ('z rank_store_scheme, unit) action" where
  "checkpoint stage s = (if rs_fault_hook s then callback (give ()) s else (Inr (), s))"

text \<open>The recursion is bounded by the depth of the tree; Python raises \<open>RecursionError\<close> beyond its bound.\<close>

fun tree_bytes :: "nat \<Rightarrow> path \<Rightarrow> ('z fs_scheme, int) action" where
  "tree_bytes 0 p = throw RecursionError"
| "tree_bytes (Suc depth) p =
     seq (lstat_opt p) (\<lambda>metadata.
     case metadata of
       Some (Regular i) \<Rightarrow> (\<lambda>s. (Inr (int (length (in_data (inodes s ! i)))), s))
     | Some Directory \<Rightarrow>
         seq (except not_found (seq (scandir p) (\<lambda>names. give (Some names))) (\<lambda>_. give None)) (\<lambda>entries.
         case entries of
           None \<Rightarrow> give 0
         | Some names \<Rightarrow>
             fold_action (\<lambda>total name. seq (tree_bytes depth (p @ [name])) (\<lambda>n. give (total + n))) 0 names)
     | _ \<Rightarrow> give 0)"

definition tree_depth :: "'z fs_scheme \<Rightarrow> nat" where
  "tree_depth s = fold max (map length (dict_keys (live s))) 0"

definition managed_tree_bytes :: "path \<Rightarrow> ('z fs_scheme, int) action" where
  "managed_tree_bytes p s = tree_bytes (Suc (tree_depth s)) p s"

section \<open>Preparing a root\<close>

definition ROOT_MARKER :: path where
  "ROOT_MARKER = [''.spoolcache-root'']"

definition root_marker :: pyval where
  "root_marker = PyDict [(''schema'', PyStr ''spoolcache-root/v1'')]"

definition MANAGED :: "string list" where
  "MANAGED = [''objects'', ''manifests'', ''quarantine'', ''tmp'', ''state'']"

definition own_root :: "platform \<Rightarrow> ('z fs_scheme, unit) action" where
  "own_root E =
     seq (scandir []) (\<lambda>names.
     seq (is_symlink ROOT_MARKER) (\<lambda>linked.
     if linked then throw ValueError
     else
       seq (path_exists ROOT_MARKER) (\<lambda>present.
       if \<not> present \<and> list_ex (\<lambda>name. [name] \<noteq> ROOT_MARKER) names then throw ValueError
       else
         seq (path_exists ROOT_MARKER) (\<lambda>present.
         if present
         then seq (except (\<lambda>e. os_error e \<or> value_error e) (read_small_json E ROOT_MARKER 4096) (\<lambda>_. throw ValueError)) (\<lambda>payload.
              if key_sorted payload = key_sorted root_marker then give () else throw ValueError)
         else write_state E ROOT_MARKER root_marker))))"

definition managed_directory :: "path \<Rightarrow> ('z fs_scheme, unit) action" where
  "managed_directory p =
     seq (mkdir_existing_ok p) (\<lambda>created.
     seq (is_symlink p) (\<lambda>linked.
     if linked then throw ValueError
     else
       seq (path_is_dir p) (\<lambda>dir.
       if \<not> dir then throw ValueError
       else if created then fsync_directory (butlast p) else give ())))"

definition lock_file :: "path \<Rightarrow> ('z fs_scheme, unit) action" where
  "lock_file p =
     seq (is_symlink p) (\<lambda>linked.
     if linked then throw ValueError
     else
       seq (path_exists p) (\<lambda>present.
       seq (if present then give () else seq (open_create p) (\<lambda>_. fsync_directory (butlast p))) (\<lambda>_.
       seq (lstat p) (\<lambda>n. case n of Regular _ \<Rightarrow> give () | _ \<Rightarrow> throw ValueError))))"

definition lease_file :: "path \<Rightarrow> ('z fs_scheme, unit) action" where
  "lease_file p =
     seq (except (\<lambda>e. e = FileExistsError) (open_create p) (\<lambda>_. open_regular p)) (\<lambda>i. seq (fstat i) (\<lambda>_. give ()))"

text \<open>\<open>_prepare_root\<close> once the root directory itself exists; its absolute path is checked before that.\<close>

definition prepare_root :: "platform \<Rightarrow> ('z rank_store_scheme, unit) action" where
  "prepare_root E =
     seq (own_root E) (\<lambda>_.
     seq (for_each (\<lambda>name. managed_directory [name]) MANAGED) (\<lambda>_.
     seq (fsync_directory []) (\<lambda>_.
     seq (lock_file MAINTENANCE_LOCK) (\<lambda>_.
     seq (for_each lease_file [NAMESPACE_LOCK, OBJECT_READS_LOCK]) (\<lambda>_.
     seq (fsync_directory [''state'']) (\<lambda>_.
     seq (lock_file INVENTORY_OWNER_LOCK) (\<lambda>_.
     seq (managed_directory WITHDRAWN) (\<lambda>_.
     seq (fsync_directory [''state'']) (\<lambda>_.
     exclusive (validate_digest_marker_namespace WITHDRAWN))))))))))"

section \<open>Queries\<close>

text \<open>Actions that change nothing but the environment.\<close>

definition reads_only :: "('z fs_scheme, 'a) action \<Rightarrow> bool" where
  "reads_only m \<longleftrightarrow> (\<forall>s. same_disk s (snd (m s)))"

named_theorems reads_rules \<open>actions that only read\<close>

lemma reads_onlyD: "reads_only m \<Longrightarrow> m s = (r, s') \<Longrightarrow> same_disk s s'"
  by (metis reads_only_def snd_conv)

lemma reads_onlyI: "(\<And>s r s'. m s = (r, s') \<Longrightarrow> same_disk s s') \<Longrightarrow> reads_only m"
  unfolding reads_only_def by (metis prod.collapse)

lemma reads_basic [reads_rules]: "reads_only (give x)" "reads_only (throw e)" "reads_only (lift r)" "reads_only (check b e)"
  by (simp_all add: reads_only_def)

lemma reads_seq [reads_rules]: "reads_only m \<Longrightarrow> (\<And>x. reads_only (f x)) \<Longrightarrow> reads_only (seq m f)"
  by (rule reads_onlyI) (auto elim!: seq_cases dest: reads_onlyD intro: same_disk_trans)

lemma reads_except [reads_rules]: "reads_only m \<Longrightarrow> (\<And>e. reads_only (h e)) \<Longrightarrow> reads_only (except P m h)"
  by (rule reads_onlyI) (auto elim!: except_cases dest: reads_onlyD intro: same_disk_trans)

lemma reads_if [reads_rules]: "(b \<Longrightarrow> reads_only m) \<Longrightarrow> (\<not> b \<Longrightarrow> reads_only n) \<Longrightarrow> reads_only (if b then m else n)"
  by simp

lemma seq_lift: "seq (lift r) f = (case r of Inl e \<Rightarrow> throw e | Inr x \<Rightarrow> f x)"
  by (auto simp: seq_def lift_def throw_def fun_eq_iff split: sum.splits)

lemma reads_fold [reads_rules]: "(\<And>b x. reads_only (f b x)) \<Longrightarrow> reads_only (fold_action f b xs)"
  by (induction xs arbitrary: b) (simp_all add: reads_basic reads_seq)

lemma reads_for_each [reads_rules]: "(\<And>x. reads_only (f x)) \<Longrightarrow> reads_only (for_each f xs)"
  by (induction xs) (simp_all add: reads_basic reads_seq)

lemma reads_syscall: "(\<And>q s. snd (f q s) = s) \<Longrightarrow> reads_only (syscall f)"
  by (rule reads_onlyI, erule syscall_cases) (auto, metis snd_conv)

lemma reads_calls [reads_rules]:
  "reads_only (lstat p)" "reads_only (path_exists p)" "reads_only (path_is_dir p)" "reads_only (is_symlink p)" "reads_only (open_read p)"
  "reads_only (read_at i pos n)" "reads_only (fstat i)" "reads_only (scandir d)" "reads_only flock" "reads_only try_lock"
  unfolding lstat_def path_exists_def path_is_dir_def is_symlink_def open_read_def read_at_def fstat_def scandir_def flock_def try_lock_def
  by (rule reads_syscall; auto split: option.splits node.splits)+

lemma reads_environment [reads_rules]: "reads_only uuid4" "reads_only time_ns"
  by (auto simp: reads_only_def uuid4_def time_ns_def split: list.splits)

lemma reads_lstat_opt [reads_rules]: "reads_only (lstat_opt p)"
  unfolding lstat_opt_def by (intro reads_rules)

lemma reads_marker [reads_rules]: "reads_only (digest_marker_is_present p)"
  unfolding digest_marker_is_present_def
  by (intro reads_rules; auto split: option.splits node.splits intro!: reads_rules)

lemma reads_read_exact_file [reads_rules]: "reads_only (read_exact_file i pos n)"
proof (induction i pos n rule: read_exact_file.induct)
  case (1 i pos n)
  show ?case by (subst read_exact_file.simps) (intro reads_rules 1; simp)
qed

lemma reads_keeps: "reads_only m \<Longrightarrow> keeps N k m"
  by (rule keepsI) (metis reads_onlyD same_disk_frame)

section \<open>Markers\<close>

text \<open>A name whose binding is the same before and after any restart.\<close>

definition settled :: "'z fs_scheme \<Rightarrow> path \<Rightarrow> node option \<Rightarrow> bool" where
  "settled s p b \<longleftrightarrow> live_at s p = b \<and> durable_at s p = b"

lemma settled_frame: "frame_of N k s s' \<Longrightarrow> p \<notin> N \<Longrightarrow> settled s p b \<Longrightarrow> settled s' p b"
  unfolding frame_of_def settled_def by metis

lemma settled_same: "same_disk s s' \<Longrightarrow> settled s' p b = settled s p b"
  by (simp add: same_disk_def settled_def)

lemma settled_absent_restarted:
  assumes "restarted s s'" and "settled s p None"
  shows "settled s' p None"
proof (cases "process_restarted s s'")
  case False
  then obtain c where c: "\<And>p. c p = live_at s p \<or> c p = durable_at s p"
      "live_at s' = (\<lambda>p. if \<forall>q \<in> ancestors p. c q = Some Directory then c p else None)" "durable_at s' = live_at s'"
    using assms(1) unfolding restarted_def power_cycled_def by blast
  have "c p = None" using c(1) [of p] assms(2) by (auto simp: settled_def)
  then show ?thesis by (simp add: settled_def c(2,3))
qed (use assms(2) in \<open>simp add: settled_def process_restarted_def\<close>)

lemma settled_directory_restarted:
  assumes "restarted s s'" and "settled s p (Some Directory)" and "anchored s (butlast p)"
  shows "settled s' p (Some Directory)"
proof (cases "process_restarted s s'")
  case False
  then have "power_cycled s s'" using assms(1) by (simp add: restarted_def)
  from power_cycled_at [OF this assms(3)] assms(2) show ?thesis by (auto simp: settled_def)
qed (use assms(2) in \<open>simp add: settled_def process_restarted_def\<close>)

lemma fsync_settles:
  assumes "fsync_directory d s = (Inr u, s')" and "child_of d p"
  shows "settled s' p (live_at s p)"
  using fsync_directory_Inr [OF assms(1)] assms(2) by (simp add: settled_def)

lemma keeps_mkdir_existing_ok [keeps_rules]: "keeps {p} k (mkdir_existing_ok p)"
  unfolding mkdir_existing_ok_def by (intro keeps_rules)

lemma keeps_marker [keeps_rules]:
  "keeps N k (digest_marker_is_present p)" "keeps {p} k (mark_digest_marker p)" "keeps {p} k (clear_digest_marker p)"
proof -
  show present: "keeps N k (digest_marker_is_present p)" for N k p by (rule reads_keeps [OF reads_marker])
  show "keeps {p} k (mark_digest_marker p)" "keeps {p} k (clear_digest_marker p)"
    unfolding mark_digest_marker_def clear_digest_marker_def by (intro keeps_rules present)+
qed

lemma present_result:
  assumes "digest_marker_is_present p s = (Inr b, s')"
  shows "live_at s p = (if b then Some Directory else None)"
proof -
  obtain m s1 where m: "lstat_opt p s = (Inr m, s1)"
      and rest: "(case m of None \<Rightarrow> give False
        | Some Directory \<Rightarrow> seq (except not_found (seq (scandir p) (\<lambda>names. give (Some names))) (\<lambda>_. give None)) (\<lambda>children.
            case children of None \<Rightarrow> give False | Some names \<Rightarrow> if names \<noteq> [] then throw ValueError else give True)
        | Some _ \<Rightarrow> throw ValueError) s1 = (Inr b, s')"
    using assms unfolding digest_marker_is_present_def seq_Inr by blast
  note l = lstat_opt_Inr [OF m]
  show ?thesis
  proof (cases m)
    case None
    then show ?thesis using rest l(2) by simp
  next
    case (Some n)
    then have n: "n = Directory" using rest by (cases n) auto
    then obtain c where c: "except not_found (seq (scandir p) (\<lambda>names. give (Some names))) (\<lambda>_. give None) s1 = (Inr c, s')"
        and b: "b \<longleftrightarrow> c \<noteq> None"
      using rest Some by (auto simp: seq_Inr split: option.splits if_splits)
    have dir: "is_dir s1 p" using l Some n by (simp add: is_dir_def same_disk_def)
    from c have "c \<noteq> None"
    proof (cases rule: except_cases)
      case (handle e s2)
      then have "scandir p s1 = (Inl FileNotFoundError, s2)" by (auto simp: not_found_def elim!: seq_cases)
      then have False unfolding scandir_def
        by (cases rule: syscall_cases) (use dir in \<open>auto simp: is_dir_def same_disk_def split: if_splits\<close>)
      then show ?thesis ..
    qed (auto simp: seq_Inr)
    then show ?thesis using b l(2) Some n by auto
  qed
qed

lemma mkdir_existing_keeps_dir:
  assumes "mkdir_existing_ok p s = (r, s')" and "live_at s p = Some Directory"
  shows "same_disk s s'"
proof -
  have "os_mkdir p s = (r1, s1) \<Longrightarrow> same_disk s s1" for r1 s1
    using os_mkdir_result(6) [of p s r1 s1] assms(2) by (simp add: is_dir_def)
  then show ?thesis using assms(1) unfolding mkdir_existing_ok_def
    by (auto elim!: except_cases seq_cases)
qed

lemma mark_spec:
  assumes "mark_digest_marker p s = (r, s')" and "p \<noteq> []"
  shows "r = Inr u \<Longrightarrow> settled s' p (Some Directory)"
    "settled s p (Some Directory) \<Longrightarrow> settled s' p (Some Directory)"
proof -
  have child: "child_of (butlast p) p" using assms(2) by (simp add: child_of_def)
  show "settled s' p (Some Directory)" if r: "r = Inr u"
  proof -
    obtain c s1 s2 where m: "mkdir_existing_ok p s = (Inr c, s1)" "digest_marker_is_present p s1 = (Inr True, s2)"
        "fsync_directory (butlast p) s2 = (Inr u, s')"
      using assms(1) unfolding r mark_digest_marker_def by (auto simp: seq_Inr split: if_splits)
    have "live_at s2 p = Some Directory"
      using present_result [OF m(2)] reads_onlyD [OF reads_marker m(2)] by (simp add: same_disk_def)
    then show ?thesis using fsync_settles [OF m(3) child] by simp
  qed
  show "settled s' p (Some Directory)" if st: "settled s p (Some Directory)"
    using assms(1) unfolding mark_digest_marker_def
  proof (cases rule: seq_cases)
    case (fail e)
    then show ?thesis using mkdir_existing_keeps_dir [OF fail(1)] st settled_same by (auto simp: settled_def)
  next
    case (cont c s1)
    have s1: "settled s1 p (Some Directory)"
      using mkdir_existing_keeps_dir [OF cont(1)] st by (simp add: settled_def same_disk_def)
    from cont(2) show ?thesis
    proof (cases rule: seq_cases)
      case (fail e)
      then show ?thesis using reads_onlyD [OF reads_marker fail(1)] s1 by (simp add: settled_same)
    next
      case (cont b s2)
      have s2: "settled s2 p (Some Directory)" using reads_onlyD [OF reads_marker cont(1)] s1 by (simp add: settled_same)
      show ?thesis
      proof (cases "\<not> b")
        case True
        then show ?thesis using cont(2) s2 by simp
      next
        case False
        then have f: "fsync_directory (butlast p) s2 = (r, s')" using cont(2) by simp
        show ?thesis
        proof (cases r)
          case (Inl e)
          then show ?thesis using fsync_directory_Inl f s2 settled_same by blast
        next
          case (Inr v)
          then show ?thesis using fsync_settles [OF f [unfolded Inr] child] s2 by (simp add: settled_def)
        qed
      qed
    qed
  qed
qed


end
