(* ===== verification/Token_Format.thy ===== *)
theory Token_Format
  imports Withdrawals Hma Config
begin

text \<open>
  The file format of \<open>token_files.py\<close>: a framed canonical-JSON header, which is the publication record,
  followed by the payload.  A \<open>token_config\<close> holds what a \<open>TokenFileStore\<close> fixes at construction: the
  layout, the chunk size, the transfer unit and the identity binding.
\<close>

section \<open>Store configuration\<close>

definition TOKEN_FILE_SCHEMA :: string where "TOKEN_FILE_SCHEMA = ''spoolcache-token-key-file/v3''"
definition MAX_BATCH_CHUNKS :: int where "MAX_BATCH_CHUNKS = 16"
definition MAX_HEADER_BYTES :: int where "MAX_HEADER_BYTES = 64 * 1024"
definition MAX_TRANSFER_BLOCKS :: int where "MAX_TRANSFER_BLOCKS = 512"
definition FRAME_SIZE :: nat where "FRAME_SIZE = 44"
definition MAGIC :: string where "MAGIC = ''SPCTOK02''"

record token_config =
  tc_layout :: hma_layout
  tc_chunk_tokens :: int
  tc_slot_bytes :: int
  tc_binding :: pyval

text \<open>The identity a store is opened with; \<open>TokenFileStore\<close> requires every part of it.\<close>

record store_identity =
  si_deployment_digest :: "string option"
  si_rank_digest :: "string option"
  si_rank :: "int option"
  si_topology_digest :: "string option"
  si_profile :: "string option"
  si_layout_digest :: "string option"

text \<open>\<open>TokenPageMover.validate_layout\<close>: the files of a layout fit the transfer metadata.\<close>

definition full_chunk_bytes :: "hma_layout \<Rightarrow> int \<Rightarrow> int" where
  "full_chunk_bytes layout quantum =
     sum_list (concat (map (\<lambda>g. map (\<lambda>l. (quantum div logical_tokens_per_page g) * lg_page_size_bytes l) (gg_layers g))
       (filter (\<lambda>g. reuse_policy g = ''full'') (groups layout))))"

definition state_bytes :: "hma_layout \<Rightarrow> int \<Rightarrow> int result" where
  "state_bytes layout maximum =
     fold_result (\<lambda>total (g, l). and_then (selected_page_count g maximum) (\<lambda>n. Inr (total + n * lg_page_size_bytes l))) 0
       (concat (map (\<lambda>g. map (\<lambda>l. (g, l)) (gg_layers g)) (filter (\<lambda>g. reuse_policy g \<noteq> ''full'') (groups layout))))"

definition largest_window :: "hma_layout \<Rightarrow> int" where
  "largest_window layout =
     (let w = (\<lambda>g. case reuse_window_tokens g of
                 None \<Rightarrow> logical_tokens_per_page g
               | Some n \<Rightarrow> if n = 0 then logical_tokens_per_page g else n)
      in fold max (map w (tl (groups layout))) (w (hd (groups layout))))"

definition validate_layout :: "hma_layout \<Rightarrow> int \<Rightarrow> unit result" where
  "validate_layout layout slot_bytes =
     (if \<not> (0 < slot_bytes \<and> slot_bytes \<le> STAGING_SLOT_BYTES) then Inl LayoutError
      else and_then (aligned_chunk_tokens (alignment_tokens layout)) (\<lambda>quantum.
      if groups layout = [] then Inl LayoutError
      else
        let fs_bytes = full_chunk_bytes layout quantum in
        if \<not> (0 < fs_bytes \<and> fs_bytes \<le> slot_bytes * MAX_TRANSFER_BLOCKS) then Inl LayoutError
        else if has_boundary_state layout
        then and_then (state_bytes layout (((largest_window layout + quantum - 1) div quantum) * quantum)) (\<lambda>total.
             if 0 < total \<and> total \<le> slot_bytes * MAX_TRANSFER_BLOCKS then Inr () else Inl LayoutError)
        else Inr ()))"

text \<open>\<open>TokenFileStore.__init__\<close> before \<open>RankStore.__init__\<close>.\<close>

definition TokenFileStore ::
  "platform \<Rightarrow> hma_layout \<Rightarrow> int \<Rightarrow> int \<Rightarrow> store_identity \<Rightarrow> token_config result" where
  "TokenFileStore E layout slot_bytes slot_count ident =
     and_then (validate_layout layout slot_bytes) (\<lambda>_.
     case (si_deployment_digest ident, si_rank_digest ident, si_rank ident, si_topology_digest ident, si_profile ident, si_layout_digest ident) of
       (Some dep, Some rank_d, Some rank, Some topology, Some profile, Some layout_d) \<Rightarrow>
         and_then (if profile \<noteq> layout_profile layout then Inl ValueError
                   else and_then (layout_digest (pf_sha E) (pf_encoder E) layout) (\<lambda>d. if layout_d \<noteq> d then Inl ValueError else Inr ())) (\<lambda>_.
         if \<not> (0 < slot_bytes \<and> slot_bytes \<le> STAGING_SLOT_BYTES) \<or> slot_count \<noteq> 1 then Inl ValueError
         else and_then (aligned_chunk_tokens (alignment_tokens layout)) (\<lambda>chunk.
           Inr \<lparr>tc_layout = layout, tc_chunk_tokens = chunk, tc_slot_bytes = slot_bytes,
                tc_binding = PyDict
                  [(''deployment_digest'', PyStr dep), (''rank_digest'', PyStr rank_d), (''rank'', PyInt rank),
                   (''topology_digest'', PyStr topology), (''profile'', PyStr profile), (''layout_digest'', PyStr layout_d),
                   (''storage_schema'', PyStr TOKEN_FILE_SCHEMA), (''chunk_tokens'', PyInt chunk), (''transfer_bytes'', PyInt slot_bytes)]\<rparr>))
     | _ \<Rightarrow> Inl ValueError)"

section \<open>Keys and headers\<close>

definition is_digest_value :: "pyval \<Rightarrow> bool" where
  "is_digest_value v = (case as_str v of None \<Rightarrow> False | Some s \<Rightarrow> is_digest s)"

definition checked_manifest_path :: "string \<Rightarrow> path result" where
  "checked_manifest_path entry_id = (if is_digest entry_id then Inr (manifest_path entry_id) else Inl ValueError)"

definition boundary_state_key :: "platform \<Rightarrow> string \<Rightarrow> string result" where
  "boundary_state_key E prefix_key =
     (if \<not> is_digest prefix_key then Inl ManifestError
      else Inr (hex_of (pf_sha E (''spoolcache-hma-boundary/v1'' @ [CHR 0x00] @ from_hex prefix_key))))"

definition positive :: "pyval \<Rightarrow> int \<Rightarrow> int result" where
  "positive v maximum =
     (case as_int v of
        None \<Rightarrow> Inl ManifestError
      | Some n \<Rightarrow> if 0 < n \<and> n \<le> maximum then Inr n else Inl ManifestError)"

definition segments :: "token_config \<Rightarrow> int \<Rightarrow> string \<Rightarrow> token_segments result" where
  "segments C span_tokens kind =
     (if kind \<notin> {''data'', ''state''} then Inl ManifestError
      else Inr \<lparr>ts_layout = tc_layout C, ts_span_tokens = span_tokens, ts_chunk_tokens = tc_chunk_tokens C, ts_kind = kind\<rparr>)"

text \<open>The identity checks of the two kinds of file.\<close>

definition check_kind :: "platform \<Rightarrow> token_config \<Rightarrow> string \<Rightarrow> pyval \<Rightarrow> int \<Rightarrow> pyval \<Rightarrow> string result" where
  "check_kind E C key parent span_tokens kind =
     (if kind = PyStr ''state''
      then if \<not> has_boundary_state (tc_layout C) \<or> \<not> is_digest_value parent then Inl ManifestError
           else and_then (boundary_state_key E (case as_str parent of None \<Rightarrow> [] | Some p \<Rightarrow> p)) (\<lambda>k.
                if key \<noteq> k \<or> span_tokens mod alignment_tokens (tc_layout C) \<noteq> 0 then Inl ManifestError else Inr ''state'')
      else if kind = PyStr ''data''
      then if (span_tokens = tc_chunk_tokens C \<and> parent \<noteq> PyNone)
              \<or> (tc_chunk_tokens C < span_tokens \<and> \<not> is_digest_value parent) then Inl ManifestError
           else Inr ''data''
      else Inl ManifestError)"

definition check_blocks :: "pyval option \<Rightarrow> int \<Rightarrow> pyval \<Rightarrow> pyval list result" where
  "check_blocks block_sha256 blocks digest =
     (case (case block_sha256 of None \<Rightarrow> Some (replicate (nat blocks) (PyStr (replicate 64 (CHR ''0'')))) | Some v \<Rightarrow> as_list v) of
        None \<Rightarrow> Inl ManifestError
      | Some hs \<Rightarrow>
          if int (length hs) \<noteq> blocks \<or> list_ex (\<lambda>h. \<not> is_digest_value h) hs \<or> (blocks = 1 \<and> hd hs \<noteq> digest)
          then Inl ManifestError else Inr hs)"

definition header_payload ::
  "platform \<Rightarrow> token_config \<Rightarrow> string \<Rightarrow> pyval \<Rightarrow> pyval \<Rightarrow> pyval \<Rightarrow> pyval \<Rightarrow> pyval option \<Rightarrow> (string, pyval) dict result" where
  "header_payload E C key parent span_tokens digest kind block_sha256 =
     and_then (positive span_tokens (2 ^ 63 - 1)) (\<lambda>n.
     if n mod tc_chunk_tokens C \<noteq> 0 \<or> \<not> is_digest key \<or> \<not> is_digest_value digest then Inl ManifestError
     else and_then (check_kind E C key parent n kind) (\<lambda>k.
     and_then (segments C n k) (\<lambda>t.
     and_then (gen_list (ts_iter t)) (\<lambda>slices.
     let byte_length = sum_list (map ps_byte_length slices);
         blocks = (byte_length + tc_slot_bytes C - 1) div tc_slot_bytes C
     in and_then (positive (PyInt blocks) MAX_TRANSFER_BLOCKS) (\<lambda>_.
        and_then (check_blocks block_sha256 blocks digest) (\<lambda>hs.
        Inr [(''schema'', PyStr TOKEN_FILE_SCHEMA), (''kind'', kind), (''binding'', tc_binding C), (''key'', PyStr key),
             (''parent'', parent), (''span_tokens'', span_tokens), (''segments'', PyList (map (\<lambda>x. PyDict (page_slice_dict x)) slices)),
             (''byte_length'', PyInt byte_length), (''sha256'', digest), (''block_sha256'', PyList hs)]))))))"

text \<open>\<open>struct.Struct("<8sI32s")\<close>.\<close>

definition pack_I :: "int \<Rightarrow> string" where
  "pack_I n = map (\<lambda>i. char_of (nat (n div 256 ^ i mod 256))) [0..<4]"

definition unpack_I :: "string \<Rightarrow> int" where
  "unpack_I bytes = foldr (\<lambda>c n. int (of_char c) + 256 * n) bytes 0"

definition encode_header :: "platform \<Rightarrow> (string, pyval) dict \<Rightarrow> string result" where
  "encode_header E payload =
     and_then (canonical_json (pf_encoder E) (PyDict payload)) (\<lambda>encoded.
     and_then (positive (PyInt (int (length encoded))) MAX_HEADER_BYTES) (\<lambda>n.
     Inr (MAGIC @ pack_I n @ pf_sha E encoded @ encoded)))"

definition validate_prefix_headers :: "platform \<Rightarrow> token_config \<Rightarrow> int \<Rightarrow> unit result" where
  "validate_prefix_headers E C span_tokens =
     (let zeros = replicate 64 (CHR ''0'');
          kinds = (if has_boundary_state (tc_layout C) then [''data'', ''state''] else [''data''])
      in and_then (map_result (\<lambda>kind.
           and_then (if kind = ''data'' then Inr zeros else boundary_state_key E zeros) (\<lambda>key.
           and_then (header_payload E C key
                       (if kind = ''data'' then (if span_tokens = tc_chunk_tokens C then PyNone else PyStr zeros) else PyStr zeros)
                       (PyInt span_tokens) (PyStr zeros) (PyStr kind) None) (\<lambda>payload.
           encode_header E payload))) kinds) (\<lambda>_. Inr ()))"

section \<open>Reading a header\<close>

definition metadata_error :: "error \<Rightarrow> bool" where
  "metadata_error e \<longleftrightarrow> value_error e \<or> e \<in> {KeyError, TypeError, RecursionError, OverflowError}"

definition as_manifest_error :: "'a result \<Rightarrow> 'a result" where
  "as_manifest_error r = (case r of Inl e \<Rightarrow> if metadata_error e then Inl ManifestError else Inl e | Inr x \<Rightarrow> Inr x)"

definition lookup_key :: "(string, pyval) dict \<Rightarrow> string \<Rightarrow> pyval result" where
  "lookup_key d k = (case dict_get d k of None \<Rightarrow> Inl KeyError | Some v \<Rightarrow> Inr v)"

definition string_of :: "pyval \<Rightarrow> string" where
  "string_of v = (case as_str v of None \<Rightarrow> [] | Some s \<Rightarrow> s)"

text \<open>Decode the header bytes and compare them with the header this store would write.\<close>

definition decode_header :: "platform \<Rightarrow> token_config \<Rightarrow> string \<Rightarrow> string \<Rightarrow> (string, pyval) dict result" where
  "decode_header E C key encoded =
     as_manifest_error
       (and_then (json_loads (pf_codec E) (pf_limit E) encoded) (\<lambda>v.
        case v of
          PyDict d \<Rightarrow>
            and_then (lookup_key d ''parent'') (\<lambda>parent.
            and_then (lookup_key d ''span_tokens'') (\<lambda>span_tokens.
            and_then (lookup_key d ''sha256'') (\<lambda>digest.
            and_then (lookup_key d ''kind'') (\<lambda>kind.
            and_then (lookup_key d ''block_sha256'') (\<lambda>blocks.
            and_then (header_payload E C key parent span_tokens digest kind (Some blocks)) (\<lambda>expected.
            and_then (canonical_json (pf_encoder E) (PyDict d)) (\<lambda>actual.
            and_then (canonical_json (pf_encoder E) (PyDict expected)) (\<lambda>wanted.
            if actual \<noteq> wanted then Inl ValueError else Inr d))))))))
        | _ \<Rightarrow> Inl TypeError))"

definition describe ::
  "token_config \<Rightarrow> string \<Rightarrow> (string, pyval) dict \<Rightarrow> int \<Rightarrow> int \<Rightarrow> string \<Rightarrow> token_file_descriptor result" where
  "describe C key d byte_length offset checksum =
     (let f = (\<lambda>k. case dict_get d k of None \<Rightarrow> PyNone | Some v \<Rightarrow> v);
          span_tokens = (case as_int (f ''span_tokens'') of None \<Rightarrow> 0 | Some n \<Rightarrow> n);
          hs = (case as_list (f ''block_sha256'') of None \<Rightarrow> [] | Some hs \<Rightarrow> hs)
      in and_then (segments C span_tokens (string_of (f ''kind''))) (\<lambda>t.
         Inr \<lparr>td_key = key, td_parent = as_str (f ''parent''), td_span_tokens = span_tokens,
              td_segments = Derived t, td_byte_length = byte_length, td_sha256 = string_of (f ''sha256''),
              td_payload_offset = offset, td_metadata_digest = hex_of checksum, td_kind = string_of (f ''kind''),
              td_block_sha256 = map string_of hs\<rparr>))"

end
