(* ===== verification/Token_Files.thy ===== *)
theory Token_Files
  imports Token_Format
begin

text \<open>
  The operations of \<open>TokenFileStore\<close>: opening and authenticating a file, publication through a synced
  temporary and a hard link, chains of files, lookup, restore, eviction, garbage collection and
  recovery.  A descriptor is the inode number; reads carry their position.  The staging slot of an
  authentication is exclusive (theory \<open>Buffers\<close>) and holds what was read last, so it is not a part of
  the state here.
\<close>

section \<open>Reading and writing files\<close>

text \<open>\<open>consume count views\<close>: drop \<open>count\<close> written bytes from the front of the remaining views.\<close>

fun consume :: "nat \<Rightarrow> string list \<Rightarrow> string list" where
  "consume count [] = []"
| "consume count (v # vs) = (if length v \<le> count then consume (count - length v) vs else drop count v # vs)"

lemma consume_le: "length (concat (consume n vs)) + length (consume n vs) \<le> length (concat vs) + length vs"
  by (induction n vs rule: consume.induct) auto

lemma consume_shorter:
  "0 < n \<Longrightarrow> vs \<noteq> [] \<Longrightarrow> length (concat (consume n vs)) + length (consume n vs) < length (concat vs) + length vs"
  using consume_le [of "n - length (hd vs)" "tl vs"] by (cases vs) auto

function write_vector :: "nat \<Rightarrow> nat \<Rightarrow> string list \<Rightarrow> ('z fs_scheme, unit) action" where
  "write_vector i pos views =
     (if views = [] then give ()
      else seq (write_at i pos (concat views)) (\<lambda>count.
        if count = 0 then throw OSError else write_vector i (pos + count) (consume count views)))"
  by pat_completeness auto
termination
  by (relation "measure (\<lambda>(i, pos, views). length (concat views) + length views)") (simp_all add: consume_shorter)

declare write_vector.simps [simp del]

definition read_into :: "nat \<Rightarrow> nat \<Rightarrow> nat \<Rightarrow> ('z fs_scheme, string) action" where
  "read_into i pos n = read_exact_file i pos n"

section \<open>Opening and authenticating\<close>

definition read_frame :: "platform \<Rightarrow> token_config \<Rightarrow> string \<Rightarrow> nat \<Rightarrow> int \<Rightarrow> ('z fs_scheme, token_file_descriptor) action" where
  "read_frame E C key i st_size =
     seq (read_into i 0 FRAME_SIZE) (\<lambda>frame.
     let magic = take 8 frame; n = unpack_I (take 4 (drop 8 frame)); checksum = drop 12 frame in
     if magic \<noteq> MAGIC then throw ManifestError
     else
       seq (lift (positive (PyInt n) MAX_HEADER_BYTES)) (\<lambda>n.
       seq (read_into i FRAME_SIZE (nat n)) (\<lambda>encoded.
       if pf_sha E encoded \<noteq> checksum then throw ManifestError
       else
         seq (lift (decode_header E C key encoded)) (\<lambda>d.
         seq (lift (and_then (lookup_key d ''byte_length'') (\<lambda>v. positive v (tc_slot_bytes C * MAX_TRANSFER_BLOCKS)))) (\<lambda>byte_length.
         let offset = int FRAME_SIZE + n in
         if st_size \<noteq> offset + byte_length then throw ManifestError
         else lift (describe C key d byte_length offset checksum))))))"

definition open_chunk ::
  "platform \<Rightarrow> token_config \<Rightarrow> string \<Rightarrow> bool \<Rightarrow> ('z rank_store_scheme, nat \<times> token_file_descriptor) action" where
  "open_chunk E C key allow_withdrawn =
     seq (lift (checked_manifest_path key)) (\<lambda>p.
     seq (if allow_withdrawn then give False else inventory_is_withdrawn key) (\<lambda>withdrawn.
     if withdrawn then throw ManifestError
     else
       seq (is_symlink (butlast p)) (\<lambda>linked.
       if linked then throw ManifestError
       else
         seq (open_read p) (\<lambda>n.
         case n of
           Regular i \<Rightarrow>
             seq (fstat i) (\<lambda>metadata.
             seq (read_frame E C key i (int (length (in_data metadata)))) (\<lambda>desc. give (i, desc)))
         | _ \<Rightarrow> throw ManifestError))))"

text \<open>The blocks of a payload, hashed one by one; \<open>acc\<close> is what the running checksum has seen.\<close>

fun authenticate_blocks ::
  "platform \<Rightarrow> token_config \<Rightarrow> nat \<Rightarrow> nat \<Rightarrow> int \<Rightarrow> string \<Rightarrow> string list \<Rightarrow> ('z fs_scheme, int \<times> string) action" where
  "authenticate_blocks E C i pos remaining acc [] = give (remaining, acc)"
| "authenticate_blocks E C i pos remaining acc (expected # rest) =
     (let n = min remaining (tc_slot_bytes C) in
      seq (read_into i pos (nat n)) (\<lambda>view.
      if hex_of (pf_sha E view) \<noteq> expected then throw ManifestError
      else authenticate_blocks E C i (pos + nat n) (remaining - n) (acc @ view) rest))"

definition authenticate :: "platform \<Rightarrow> token_config \<Rightarrow> nat \<Rightarrow> token_file_descriptor \<Rightarrow> ('z fs_scheme, unit) action" where
  "authenticate E C i desc =
     seq (authenticate_blocks E C i (nat (td_payload_offset desc)) (td_byte_length desc) [] (td_block_sha256 desc)) (\<lambda>(remaining, acc).
     if remaining \<noteq> 0 \<or> hex_of (pf_sha E acc) \<noteq> td_sha256 desc then throw ManifestError else give ())"

definition quarantine_bad :: "string \<Rightarrow> ('z rank_store_scheme, unit) action" where
  "quarantine_bad key =
     seq (pins_busy key) (\<lambda>busy.
     if busy then seq (mark_inventory_withdrawn key) (\<lambda>_. record_withdrawal key)
     else seq (lift (checked_manifest_path key)) (\<lambda>p. seq (quarantine_manifest p ''payload_checksum'') (\<lambda>_. give ())))"

text \<open>\<open>except FileNotFoundError\<close> before \<open>except (OSError, ManifestError)\<close>.\<close>

definition file_error :: "error \<Rightarrow> bool" where
  "file_error e \<longleftrightarrow> os_error e \<or> e = ManifestError \<or> e = ObjectCorruptionError"

definition valid_chunk ::
  "platform \<Rightarrow> token_config \<Rightarrow> string \<Rightarrow> string option \<Rightarrow> int \<Rightarrow> string \<Rightarrow> ('z rank_store_scheme, token_file_descriptor option) action" where
  "valid_chunk E C key parent span_tokens kind =
     exclusive
       (except file_error
         (seq (open_chunk E C key False) (\<lambda>(i, desc).
          if (td_parent desc, td_span_tokens desc, td_kind desc) \<noteq> (parent, span_tokens, kind) then throw ManifestError
          else seq (authenticate E C i desc) (\<lambda>_. give (Some desc))))
         (\<lambda>e. if e = FileNotFoundError then give None else seq (quarantine_bad key) (\<lambda>_. give None)))"

section \<open>Publication\<close>

definition tmp_path :: "string \<Rightarrow> path" where
  "tmp_path nonce = [''tmp'', ''token-'' @ nonce @ ''.part'']"

definition withdraw_failed :: "string \<Rightarrow> error \<Rightarrow> ('z rank_store_scheme, unit) action" where
  "withdraw_failed key e =
     seq (attempt (seq (mark_inventory_withdrawn key) (\<lambda>_. record_withdrawal key))) (\<lambda>_. throw e)"

text \<open>Up to the link; from the link to the removal of the temporary.\<close>

definition prepare_link ::
  "string \<Rightarrow> path \<Rightarrow> nat \<Rightarrow> string \<Rightarrow> (nat \<Rightarrow> string \<Rightarrow> ('z rank_store_scheme, unit) action) \<Rightarrow> ('z rank_store_scheme, unit) action" where
  "prepare_link key temporary i header writer =
     seq (writer i header) (\<lambda>_.
     seq (fsync_file i) (\<lambda>_.
     seq (checkpoint ''token_before_publish'') (\<lambda>_.
     seq (ensure_shard_directory (butlast (manifest_path key))) (\<lambda>_.
     os_link temporary (manifest_path key)))))"

definition settle_link :: "string \<Rightarrow> path \<Rightarrow> ('z rank_store_scheme, unit) action" where
  "settle_link key temporary =
     seq (checkpoint ''token_after_link'') (\<lambda>_.
     seq (fsync_directory (butlast (manifest_path key))) (\<lambda>_.
     seq (os_unlink temporary) (\<lambda>_.
     fsync_directory (butlast temporary))))"

definition link_chunk ::
  "string \<Rightarrow> path \<Rightarrow> nat \<Rightarrow> string \<Rightarrow> (nat \<Rightarrow> string \<Rightarrow> ('z rank_store_scheme, unit) action) \<Rightarrow> ('z rank_store_scheme, unit) action" where
  "link_chunk key temporary i header writer =
     seq (except any_error
            (seq (prepare_link key temporary i header writer) (\<lambda>_.
             except any_error (settle_link key temporary) (withdraw_failed key)))
            (\<lambda>e. seq (cleanup_temporary_file temporary (Some e)) (\<lambda>_. throw e))) (\<lambda>_.
     except any_error (clear_inventory_withdrawal key) (withdraw_failed key))"

definition publish_chunk ::
  "platform \<Rightarrow> token_config \<Rightarrow> string \<Rightarrow> (string, pyval) dict
    \<Rightarrow> (nat \<Rightarrow> string \<Rightarrow> ('z rank_store_scheme, unit) action) \<Rightarrow> ('z rank_store_scheme, token_file_descriptor) action" where
  "publish_chunk E C key payload writer =
     seq ensure_open (\<lambda>_.
     seq (lift (encode_header E payload)) (\<lambda>header.
     seq (lift (checked_manifest_path key)) (\<lambda>p.
     seq (path_exists p) (\<lambda>present.
     if present then throw ManifestError
     else
       seq uuid4 (\<lambda>nonce.
       seq (open_create (tmp_path nonce)) (\<lambda>i.
       seq (link_chunk key (tmp_path nonce) i header writer) (\<lambda>_.
       seq (open_chunk E C key False) (\<lambda>(_, desc). give desc))))))))"

definition optional_str :: "string option \<Rightarrow> pyval" where
  "optional_str x = (case x of None \<Rightarrow> PyNone | Some s \<Rightarrow> PyStr s)"

fun pieces_of :: "nat \<Rightarrow> nat \<Rightarrow> string \<Rightarrow> string list" where
  "pieces_of 0 n view = []"
| "pieces_of (Suc k) n view = (if view = [] then [] else take n view # pieces_of k n (drop n view))"

definition transfer_pieces :: "token_config \<Rightarrow> string \<Rightarrow> string list" where
  "transfer_pieces C view = pieces_of (length view) (nat (tc_slot_bytes C)) view"

definition commit_chunk ::
  "platform \<Rightarrow> token_config \<Rightarrow> string \<Rightarrow> string option \<Rightarrow> int \<Rightarrow> string \<Rightarrow> string \<Rightarrow> ('z rank_store_scheme, token_file_descriptor) action" where
  "commit_chunk E C key parent span_tokens data kind =
     exclusive
       (let hashes = map (\<lambda>p. hex_of (pf_sha E p)) (transfer_pieces C data);
            digest = (if length hashes = 1 then hd hashes else hex_of (pf_sha E data))
        in seq (lift (header_payload E C key (optional_str parent) (PyInt span_tokens) (PyStr digest) (PyStr kind)
                        (Some (PyList (map PyStr hashes))))) (\<lambda>payload.
           if dict_get payload ''byte_length'' \<noteq> Some (PyInt (int (length data))) then throw ManifestError
           else publish_chunk E C key payload (\<lambda>i header. write_vector i 0 [header, data])))"

text \<open>
  \<open>commit_stream\<close>: the state of the loop is the position, the remaining length, the hashes and the
  bytes the running checksum has seen (all of them are hashed when there is more than one block).
\<close>

definition stream_piece ::
  "platform \<Rightarrow> token_config \<Rightarrow> nat \<Rightarrow> nat \<times> int \<times> string list \<times> string \<Rightarrow> string
    \<Rightarrow> ('z rank_store_scheme, nat \<times> int \<times> string list \<times> string) action" where
  "stream_piece E C i = (\<lambda>(pos, remaining, hashes, acc) view.
     let n = min remaining (tc_slot_bytes C) in
     if n \<le> 0 \<or> int (length view) \<noteq> n then throw ManifestError
     else
       seq (write_vector i pos [view]) (\<lambda>_.
       seq (checkpoint ''token_after_payload_block'') (\<lambda>_.
       give (pos + length view, remaining - n, hashes @ [hex_of (pf_sha E view)], acc @ view))))"

definition byte_length_of :: "(string, pyval) dict \<Rightarrow> int" where
  "byte_length_of payload = (case dict_get payload ''byte_length'' of Some (PyInt n) \<Rightarrow> n | _ \<Rightarrow> 0)"

definition stream_writer ::
  "platform \<Rightarrow> token_config \<Rightarrow> (string, pyval) dict \<Rightarrow> string generator \<Rightarrow> nat \<Rightarrow> string \<Rightarrow> ('z rank_store_scheme, unit) action" where
  "stream_writer E C payload pieces i header =
     seq (write_vector i 0 [header]) (\<lambda>_.
     seq (fold_action (stream_piece E C i) (length header, byte_length_of payload, [], []) (fst pieces)) (\<lambda>(pos, remaining, hashes, acc).
     seq (case snd pieces of None \<Rightarrow> give () | Some e \<Rightarrow> throw e) (\<lambda>_.
     if remaining \<noteq> 0 then throw ManifestError
     else
       let digest = (if length hashes = 1 then hd hashes else hex_of (pf_sha E acc)) in
       seq (lift (encode_header E (dict_set ''block_sha256'' (PyList (map PyStr hashes)) (dict_set ''sha256'' (PyStr digest) payload)))) (\<lambda>final.
       if length final \<noteq> length header then throw ManifestError else write_vector i 0 [final]))))"

definition commit_stream ::
  "platform \<Rightarrow> token_config \<Rightarrow> string \<Rightarrow> string option \<Rightarrow> int \<Rightarrow> string generator \<Rightarrow> string \<Rightarrow> ('z rank_store_scheme, token_file_descriptor) action" where
  "commit_stream E C key parent span_tokens pieces kind =
     exclusive
       (seq (lift (header_payload E C key (optional_str parent) (PyInt span_tokens) (PyStr (replicate 64 (CHR ''0''))) (PyStr kind) None))
         (\<lambda>payload. publish_chunk E C key payload (stream_writer E C payload pieces)))"

end
