(* ===== verification/Token_Store.thy ===== *)
theory Token_Store
  imports Token_Files
begin

text \<open>
  The rest of \<open>TokenFileStore\<close>: chains of files, lookup, leases of a restore and streaming under them,
  inventory scans, eviction, capacity batches and recovery.
\<close>

section \<open>Opening the payload backend\<close>

definition TOKEN_FORMAT :: path where
  "TOKEN_FORMAT = [''state'', ''token-format.json'']"

text \<open>
  \<open>==\<close> of decoded JSON values: numbers, booleans among them, compare by value; dictionaries as maps.  The
  sign of an infinite float is not part of the model; the binding it is compared with holds no float.
\<close>

fun py_number :: "pyval \<Rightarrow> rat option" where
  "py_number (PyBool b) = Some (if b then 1 else 0)"
| "py_number (PyInt n) = Some (of_int n)"
| "py_number (PyFloat (Finite q)) = Some q"
| "py_number v = None"

function py_eq :: "pyval \<Rightarrow> pyval \<Rightarrow> bool" where
  "py_eq v w =
     (case (v, w) of
        (PyNone, PyNone) \<Rightarrow> True
      | (PyStr a, PyStr b) \<Rightarrow> a = b
      | (PyList xs, PyList ys) \<Rightarrow> length xs = length ys \<and> list_all (\<lambda>(x, y). py_eq x y) (zip xs ys)
      | (PyDict xs, PyDict ys) \<Rightarrow>
          length xs = length ys
          \<and> list_all (\<lambda>(k, x). case dict_get ys k of None \<Rightarrow> False | Some y \<Rightarrow> py_eq x y) xs
      | (PyFloat Infinite, PyFloat Infinite) \<Rightarrow> True
      | _ \<Rightarrow> (case py_number v of None \<Rightarrow> False | Some q \<Rightarrow> py_number w = Some q))"
  by pat_completeness auto
termination
proof (relation "measure (\<lambda>(v, w). size v)", goal_cases)
  case (2 v w a b xs ys z x y)
  then show ?case by (auto dest!: set_zip_leftD simp: less_Suc_eq_le intro: size_list_estimation')
next
  case (3 v w a b xs ys z k x y)
  then have "size x \<le> size_list (size_prod (\<lambda>_. 0) size) xs" by (auto intro: size_list_estimation' [of "(k, x)"])
  then show ?case using 3 by auto
qed simp

declare py_eq.simps [simp del]

definition initialize_payload_backend :: "platform \<Rightarrow> token_config \<Rightarrow> ('z fs_scheme, unit) action" where
  "initialize_payload_backend E C =
     seq (path_exists TOKEN_FORMAT) (\<lambda>present.
     if present
     then seq (read_small_json E TOKEN_FORMAT 4096) (\<lambda>payload.
          if py_eq payload (tc_binding C) then give () else throw ValueError)
     else
       seq (for_each (\<lambda>name. seq (scandir [name]) (\<lambda>names. check (names = []) ValueError)) [''manifests'', ''objects'']) (\<lambda>_.
       seq (lift (canonical_json (pf_encoder E) (tc_binding C))) (\<lambda>t. atomic_small_write TOKEN_FORMAT t)))"

section \<open>Chains\<close>

definition open_reporting :: "platform \<Rightarrow> token_config \<Rightarrow> string \<Rightarrow> ('z rank_store_scheme, token_file_descriptor) action" where
  "open_reporting E C key =
     except file_error (seq (open_chunk E C key False) (\<lambda>(_, desc). give desc))
       (\<lambda>e. if e = FileNotFoundError then throw e else seq (quarantine_bad key) (\<lambda>_. throw e))"

text \<open>One turn of the loop, and the loop: \<open>fuel\<close> is the number of chunks the first file spans.\<close>

definition chain_step ::
  "platform \<Rightarrow> token_config \<Rightarrow> string \<Rightarrow> int option \<Rightarrow> ('z rank_store_scheme, token_file_descriptor) action" where
  "chain_step E C key expected_span =
     seq (open_reporting E C key) (\<lambda>desc.
     if td_kind desc \<noteq> ''data'' then throw ManifestError
     else if expected_span \<noteq> None \<and> expected_span \<noteq> Some (td_span_tokens desc)
     then seq (quarantine_bad key) (\<lambda>_. throw ManifestError)
     else give desc)"

fun chain_loop ::
  "platform \<Rightarrow> token_config \<Rightarrow> nat \<Rightarrow> token_file_descriptor \<Rightarrow> token_file_descriptor list
    \<Rightarrow> ('z rank_store_scheme, token_file_descriptor list) action" where
  "chain_loop E C 0 desc objects = (case td_parent desc of None \<Rightarrow> give objects | Some _ \<Rightarrow> throw AssertionError)"
| "chain_loop E C (Suc fuel) desc objects =
     (case td_parent desc of
        None \<Rightarrow> give objects
      | Some key \<Rightarrow>
          seq (chain_step E C key (Some (td_span_tokens desc - tc_chunk_tokens C))) (\<lambda>d. chain_loop E C fuel d (d # objects)))"

definition open_state ::
  "platform \<Rightarrow> token_config \<Rightarrow> string \<Rightarrow> int \<Rightarrow> ('z rank_store_scheme, token_file_descriptor) action" where
  "open_state E C entry_id span_tokens =
     seq (lift (boundary_state_key E entry_id)) (\<lambda>state_key.
     except file_error
       (seq (open_chunk E C state_key False) (\<lambda>(_, state).
        if (td_kind state, td_parent state, td_span_tokens state) \<noteq> (''state'', Some entry_id, span_tokens)
        then throw ManifestError else give state))
       (\<lambda>e. if e = FileNotFoundError then throw e else seq (quarantine_bad state_key) (\<lambda>_. throw e)))"

definition chain :: "platform \<Rightarrow> token_config \<Rightarrow> string \<Rightarrow> ('z rank_store_scheme, token_snapshot) action" where
  "chain E C entry_id =
     seq (chain_step E C entry_id None) (\<lambda>desc.
     seq (chain_loop E C (nat (td_span_tokens desc div tc_chunk_tokens C)) desc [desc]) (\<lambda>objects.
     if objects = [] \<or> td_span_tokens (hd objects) \<noteq> tc_chunk_tokens C then throw ManifestError
     else
       let span_tokens = td_span_tokens (last objects) in
       seq (if has_boundary_state (tc_layout C)
            then seq (open_state E C entry_id span_tokens) (\<lambda>state. give (objects @ [state])) else give objects) (\<lambda>objects.
       seq (lift (layout_digest (pf_sha E) (pf_encoder E) (tc_layout C))) (\<lambda>digest.
       let snapshot = \<lparr>sn_entry_id = entry_id, sn_span_tokens = span_tokens, sn_profile = layout_profile (tc_layout C),
                       sn_layout_digest = digest, sn_objects = objects\<rparr>
       in seq (lift (validate_manifest_coverage (pf_sha E) (pf_encoder E) (tc_layout C) snapshot)) (\<lambda>_. give snapshot)))))"

section \<open>Lookup, recency and restore\<close>

record lookup_result =
  lk_is_hit :: bool
  lk_reason :: string
  lk_manifest :: "token_snapshot option"
  lk_manifest_digest :: "string option"

fun verify_objects ::
  "platform \<Rightarrow> token_config \<Rightarrow> token_file_descriptor list \<Rightarrow> ('z rank_store_scheme, bool) action" where
  "verify_objects E C [] = give True"
| "verify_objects E C (d # ds) =
     seq (valid_chunk E C (td_key d) (td_parent d) (td_span_tokens d) (td_kind d)) (\<lambda>r.
     case r of None \<Rightarrow> give False | Some _ \<Rightarrow> verify_objects E C ds)"

definition lookup_miss :: "string \<Rightarrow> lookup_result" where
  "lookup_miss reason = \<lparr>lk_is_hit = False, lk_reason = reason, lk_manifest = None, lk_manifest_digest = None\<rparr>"

definition lookup :: "platform \<Rightarrow> token_config \<Rightarrow> string \<Rightarrow> bool \<Rightarrow> ('z rank_store_scheme, lookup_result) action" where
  "lookup E C entry_id verify_payloads =
     exclusive
       (seq ensure_open (\<lambda>_.
        seq (lift (checked_manifest_path entry_id)) (\<lambda>_.
        except file_error
          (seq (chain E C entry_id) (\<lambda>snapshot.
           seq (if verify_payloads then verify_objects E C (sn_objects snapshot) else give True) (\<lambda>valid.
           give (if \<not> valid then lookup_miss ''token_payload''
                 else \<lparr>lk_is_hit = True, lk_reason = ''hit'', lk_manifest = Some snapshot,
                       lk_manifest_digest = Some (td_metadata_digest (last (sn_objects snapshot)))\<rparr>))))
          (\<lambda>_. give (lookup_miss ''token_chain'')))))"

definition touch_file :: "string \<Rightarrow> ('z fs_scheme, unit) action" where
  "touch_file key =
     seq (lift (checked_manifest_path key)) (\<lambda>p. seq time_ns (\<lambda>_. seq time_ns (\<lambda>modified. os_utime p modified)))"

definition touch_files :: "token_file_descriptor list \<Rightarrow> ('z rank_store_scheme, unit) action" where
  "touch_files descriptors = exclusive (for_each (\<lambda>d. touch_file (td_key d)) (rev descriptors))"

definition restore_objects :: "lookup_result \<Rightarrow> token_file_descriptor list" where
  "restore_objects r = (case lk_manifest r of Some m \<Rightarrow> if lk_is_hit r then sn_objects m else [] | None \<Rightarrow> [])"

text \<open>Entering and leaving the context manager \<open>restore_view\<close>; \<open>use\<close> is the body of the \<open>with\<close> statement.\<close>

definition restore_enter ::
  "platform \<Rightarrow> token_config \<Rightarrow> string \<Rightarrow> ('z rank_store_scheme, nat \<times> lookup_result) action" where
  "restore_enter E C entry_id =
     exclusive
       (seq (lookup E C entry_id False) (\<lambda>result.
        seq (pins_acquire (map td_key (restore_objects result))) (\<lambda>pin s.
        (Inr (pin, result), s\<lparr>rs_active_restores := rs_active_restores s + 1\<rparr>))))"

definition release_credit :: "('z rank_store_scheme, unit) action" where
  "release_credit s = (Inr (), s\<lparr>rs_restore_credits := rs_restore_credits s + 1\<rparr>)"

text \<open>The \<open>finally\<close> block, once the view exists.\<close>

definition leave_restore :: "nat \<Rightarrow> ('z rank_store_scheme, unit) action" where
  "leave_restore pin =
     seq (exclusive (\<lambda>s. (Inr (), s\<lparr>rs_active_restores := rs_active_restores s - 1\<rparr>))) (\<lambda>_.
     seq (pins_release pin) (\<lambda>_. release_credit))"

text \<open>
  The lease descriptor is the first free one, so after a failed entry the view exists exactly when
  that descriptor is open.
\<close>

definition restore_view ::
  "platform \<Rightarrow> token_config \<Rightarrow> string \<Rightarrow> (lookup_result \<Rightarrow> ('z rank_store_scheme, 'a) action) \<Rightarrow> ('z rank_store_scheme, 'a) action" where
  "restore_view E C entry_id body s =
     (if rs_restore_credits s \<le> 0 then (Inl StoreBusyError, s)
      else
        case restore_enter E C entry_id (s\<lparr>rs_restore_credits := rs_restore_credits s - 1\<rparr>) of
          (Inl e, s1) \<Rightarrow>
            seq (if fresh_fd s \<in> fst ` set (rs_pins s1) then leave_restore (fresh_fd s) else release_credit) (\<lambda>_. throw e) s1
        | (Inr (pin, result), s1) \<Rightarrow>
            ensure
              (seq (body result) (\<lambda>x.
               seq (if lk_is_hit result then touch_files (restore_objects result) else give ()) (\<lambda>_. give x)))
              (leave_restore pin) s1)"

section \<open>Streaming under a lease\<close>

text \<open>
  \<open>receive\<close> is the body of \<open>with receiver(desc) as receive: receive(view)\<close>, \<open>on_complete\<close> the callback after
  a batch.  Both belong to the mover.
\<close>

fun verify_blocks :: "platform \<Rightarrow> token_config \<Rightarrow> string \<Rightarrow> string list \<Rightarrow> bool" where
  "verify_blocks E C view [] = True"
| "verify_blocks E C view (h # hs) =
     (hex_of (pf_sha E (take (nat (tc_slot_bytes C)) view)) = h \<and> verify_blocks E C (drop (nat (tc_slot_bytes C)) view) hs)"

definition verify_buffer :: "platform \<Rightarrow> token_config \<Rightarrow> token_file_descriptor \<Rightarrow> string \<Rightarrow> unit result" where
  "verify_buffer E C desc view =
     (if \<not> verify_blocks E C view (td_block_sha256 desc) then Inl ManifestError
      else if 1 < length (td_block_sha256 desc) \<and> hex_of (pf_sha E view) \<noteq> td_sha256 desc then Inl ManifestError
      else Inr ())"

definition stream_small ::
  "platform \<Rightarrow> token_config \<Rightarrow> (token_file_descriptor \<Rightarrow> string \<Rightarrow> ('z rank_store_scheme, unit) action)
    \<Rightarrow> token_file_descriptor \<Rightarrow> ('z rank_store_scheme, unit) action" where
  "stream_small E C receive desc =
     seq (open_chunk E C (td_key desc) False) (\<lambda>(i, current).
     if current \<noteq> desc then throw ManifestError
     else
       seq (read_into i (nat (td_payload_offset desc)) (nat (td_byte_length desc))) (\<lambda>view.
       seq (lift (verify_buffer E C desc view)) (\<lambda>_. receive desc view)))"

text \<open>The files of one batch in order; the first failing key is quarantined after the slot is returned.\<close>

fun stream_batch ::
  "(token_file_descriptor \<Rightarrow> ('z rank_store_scheme, unit) action) \<Rightarrow> token_file_descriptor list
    \<Rightarrow> ('z rank_store_scheme, (string \<times> error) option) action" where
  "stream_batch f [] = give None"
| "stream_batch f (d # ds) =
     seq (except file_error (seq (f d) (\<lambda>_. give None)) (\<lambda>e. give (Some (td_key d, e)))) (\<lambda>failed.
     case failed of None \<Rightarrow> stream_batch f ds | Some _ \<Rightarrow> give failed)"

definition run_batch ::
  "platform \<Rightarrow> token_config \<Rightarrow> (token_file_descriptor \<Rightarrow> string \<Rightarrow> ('z rank_store_scheme, unit) action)
    \<Rightarrow> ('z rank_store_scheme, unit) action \<Rightarrow> token_file_descriptor list \<Rightarrow> ('z rank_store_scheme, unit) action" where
  "run_batch E C receive on_complete batch s =
     (case stream_batch (stream_small E C receive) batch s of
        (Inl e, s1) \<Rightarrow> seq on_complete (\<lambda>_. throw e) s1
      | (Inr None, s1) \<Rightarrow> on_complete s1
      | (Inr (Some (key, e)), s1) \<Rightarrow>
          (case on_complete s1 of
             (r, s2) \<Rightarrow> seq (exclusive (quarantine_bad key)) (\<lambda>_. throw (case r of Inl e' \<Rightarrow> e' | Inr _ \<Rightarrow> e)) s2))"

fun stream_blocks ::
  "platform \<Rightarrow> token_config \<Rightarrow> (string \<Rightarrow> ('z rank_store_scheme, unit) action) \<Rightarrow> ('z rank_store_scheme, unit) action
    \<Rightarrow> nat \<Rightarrow> nat \<Rightarrow> int \<Rightarrow> string \<Rightarrow> string list \<Rightarrow> ('z rank_store_scheme, int \<times> string) action" where
  "stream_blocks E C receive on_complete i pos remaining acc [] = give (remaining, acc)"
| "stream_blocks E C receive on_complete i pos remaining acc (expected # rest) =
     (let n = min remaining (tc_slot_bytes C) in
      seq (ensure
            (seq (read_into i pos (nat n)) (\<lambda>view.
             if hex_of (pf_sha E view) \<noteq> expected then throw ManifestError
             else seq (receive view) (\<lambda>_. give view)))
            on_complete) (\<lambda>view.
      stream_blocks E C receive on_complete i (pos + nat n) (remaining - n) (acc @ view) rest))"

definition stream_large_object ::
  "platform \<Rightarrow> token_config \<Rightarrow> (token_file_descriptor \<Rightarrow> string \<Rightarrow> ('z rank_store_scheme, unit) action)
    \<Rightarrow> ('z rank_store_scheme, unit) action \<Rightarrow> token_file_descriptor \<Rightarrow> ('z rank_store_scheme, unit) action" where
  "stream_large_object E C receive on_complete desc =
     except file_error
       (seq (open_chunk E C (td_key desc) False) (\<lambda>(i, current).
        if current \<noteq> desc then throw ManifestError
        else
          seq (stream_blocks E C (receive desc) on_complete i (nat (td_payload_offset desc)) (td_byte_length desc) [] (td_block_sha256 desc))
            (\<lambda>(remaining, acc).
            if remaining \<noteq> 0 \<or> hex_of (pf_sha E acc) \<noteq> td_sha256 desc then throw ManifestError else give ())))
       (\<lambda>e. seq (exclusive (quarantine_bad (td_key desc))) (\<lambda>_. throw e))"

text \<open>The next batch: at most 16 files, and after the first only while they fit one slot.\<close>

fun take_batch :: "int \<Rightarrow> nat \<Rightarrow> int \<Rightarrow> token_file_descriptor list \<Rightarrow> token_file_descriptor list" where
  "take_batch slot 0 used ds = []"
| "take_batch slot (Suc room) used [] = []"
| "take_batch slot (Suc room) used (d # ds) =
     (if slot < used + td_byte_length d then [] else d # take_batch slot room (used + td_byte_length d) ds)"

definition first_batch :: "int \<Rightarrow> token_file_descriptor list \<Rightarrow> token_file_descriptor list" where
  "first_batch slot ds = hd ds # take_batch slot (nat MAX_BATCH_CHUNKS - 1) (td_byte_length (hd ds)) (tl ds)"

function stream_files ::
  "platform \<Rightarrow> token_config \<Rightarrow> int \<Rightarrow> (token_file_descriptor \<Rightarrow> string \<Rightarrow> ('z rank_store_scheme, unit) action)
    \<Rightarrow> ('z rank_store_scheme, unit) action \<Rightarrow> token_file_descriptor list \<Rightarrow> ('z rank_store_scheme, unit) action" where
  "stream_files E C slot receive on_complete ds =
     (case ds of
        [] \<Rightarrow> give ()
      | d # rest \<Rightarrow>
          if slot < td_byte_length d
          then seq (stream_large_object E C receive on_complete d) (\<lambda>_. stream_files E C slot receive on_complete rest)
          else seq (run_batch E C receive on_complete (first_batch slot ds)) (\<lambda>_.
               stream_files E C slot receive on_complete (drop (length (first_batch slot ds)) ds)))"
  by pat_completeness auto
termination
  by (relation "measure (\<lambda>(E, C, slot, receive, on_complete, ds). length ds)") (auto simp: first_batch_def)

declare stream_files.simps [simp del]

text \<open>A view is live while its descriptor holds the locks of exactly these files.\<close>

definition stream_objects ::
  "platform \<Rightarrow> token_config \<Rightarrow> int \<Rightarrow> (token_file_descriptor \<Rightarrow> string \<Rightarrow> ('z rank_store_scheme, unit) action)
    \<Rightarrow> ('z rank_store_scheme, unit) action \<Rightarrow> nat \<times> lookup_result \<Rightarrow> token_file_descriptor list \<Rightarrow> ('z rank_store_scheme, unit) action" where
  "stream_objects E C slot receive on_complete lease descriptors s =
     (if dict_get (rs_pins s) (fst lease) = None \<or> descriptors \<noteq> restore_objects (snd lease) then (Inl ValueError, s)
      else if list_ex (\<lambda>d. slot < min (td_byte_length d) (tc_slot_bytes C)) descriptors then (Inl ValueError, s)
      else stream_files E C slot receive on_complete descriptors s)"

section \<open>Inventory and capacity\<close>

definition shard_name :: "nat \<Rightarrow> string" where
  "shard_name i = [hex_digit (i div 16), hex_digit (i mod 16)]"

text \<open>\<open>iter_manifest_paths\<close>, as a loop over the keys of the paths it yields.\<close>

definition manifest_key :: "string \<Rightarrow> string \<Rightarrow> string option" where
  "manifest_key shard name =
     (let key = take (length name - 3) name in
      if drop (length name - 3) name = ''.kv'' \<and> is_digest key \<and> take 2 name = shard then Some key else None)"

definition scan_shard :: "('b \<Rightarrow> string \<Rightarrow> ('z fs_scheme, 'b) action) \<Rightarrow> 'b \<Rightarrow> string \<Rightarrow> ('z fs_scheme, 'b) action" where
  "scan_shard f acc shard =
     seq (is_symlink [''manifests'', shard]) (\<lambda>linked.
     if linked then throw ManifestError
     else
       seq (except not_found (seq (scandir [''manifests'', shard]) (\<lambda>names. give names)) (\<lambda>_. give [])) (\<lambda>names.
       fold_action f acc (List.map_filter (manifest_key shard) names)))"

definition iter_manifest_paths :: "('b \<Rightarrow> string \<Rightarrow> ('z fs_scheme, 'b) action) \<Rightarrow> 'b \<Rightarrow> ('z fs_scheme, 'b) action" where
  "iter_manifest_paths f acc = fold_action (scan_shard f) acc (map shard_name [0..<256])"

record manifest_offer =
  mo_entry_id :: string
  mo_span_tokens :: int
  mo_manifest_digest :: string
  mo_modified :: int

definition offer :: "platform \<Rightarrow> token_config \<Rightarrow> string \<Rightarrow> ('z rank_store_scheme, manifest_offer option) action" where
  "offer E C key =
     except file_error
       (seq (open_chunk E C key False) (\<lambda>(i, desc).
        seq (fstat i) (\<lambda>metadata.
        give (Some \<lparr>mo_entry_id = td_key desc, mo_span_tokens = td_span_tokens desc, mo_manifest_digest = td_metadata_digest desc,
                    mo_modified = in_mtime metadata\<rparr>))))
       (\<lambda>_. give None)"

definition scan_offers :: "platform \<Rightarrow> token_config \<Rightarrow> int \<Rightarrow> ('z rank_store_scheme, manifest_offer list) action" where
  "scan_offers E C limit =
     seq (lift (positive (PyInt limit) (2 ^ 63 - 1))) (\<lambda>_.
     exclusive
       (seq (iter_manifest_paths (\<lambda>offers key. seq (offer E C key) (\<lambda>x.
               give (case x of None \<Rightarrow> offers | Some y \<Rightarrow> offers @ [y]))) []) (\<lambda>offers.
        give (take (nat limit) (sort_key (\<lambda>x. (mo_span_tokens x, mo_entry_id x)) offers)))))"

definition evict_locked :: "string \<Rightarrow> ('z rank_store_scheme, bool) action" where
  "evict_locked key =
     seq (pins_busy key) (\<lambda>busy.
     if busy then give False
     else
       seq (lift (checked_manifest_path key)) (\<lambda>p.
       seq (path_exists p) (\<lambda>present.
       if \<not> present then give False
       else
         seq (mark_inventory_withdrawn key) (\<lambda>_.
         seq (record_withdrawal key) (\<lambda>_.
         seq (os_unlink p) (\<lambda>_.
         seq (fsync_directory (butlast p)) (\<lambda>_. give True)))))))"

definition evict :: "string \<Rightarrow> ('z rank_store_scheme, bool) action" where
  "evict key = exclusive (evict_locked key)"

definition disk_usage_bytes :: "('z fs_scheme, int) action" where
  "disk_usage_bytes = managed_tree_bytes [''manifests'']"

record managed_disk_usage =
  du_cache_bytes :: int
  du_quarantine_bytes :: int
  du_temporary_bytes :: int
  du_state_bytes :: int
  du_unrecognized_bytes :: int
  du_control_bytes :: int

definition total_bytes :: "managed_disk_usage \<Rightarrow> int" where
  "total_bytes u = du_cache_bytes u + du_quarantine_bytes u + du_temporary_bytes u + du_state_bytes u
     + du_unrecognized_bytes u + du_control_bytes u"

definition measure_disk_usage :: "('z fs_scheme, managed_disk_usage) action" where
  "measure_disk_usage =
     seq disk_usage_bytes (\<lambda>cache.
     seq (managed_tree_bytes [''quarantine'']) (\<lambda>quarantine.
     seq (managed_tree_bytes [''tmp'']) (\<lambda>temporary.
     seq (managed_tree_bytes [''state'']) (\<lambda>state.
     seq (managed_tree_bytes [''objects'']) (\<lambda>unrecognized.
     seq (managed_tree_bytes [''.spoolcache-root'']) (\<lambda>control.
     give \<lparr>du_cache_bytes = cache, du_quarantine_bytes = quarantine, du_temporary_bytes = temporary, du_state_bytes = state,
           du_unrecognized_bytes = unrecognized, du_control_bytes = control\<rparr>))))))"

text \<open>\<open>_exclusive(blocking=False)\<close>: \<open>None\<close> when the lock of the thread or of another process is taken.\<close>

definition try_exclusive :: "('z rank_store_scheme, 'a) action \<Rightarrow> ('z rank_store_scheme, 'a option) action" where
  "try_exclusive m s =
     (if 0 < rs_depth s then seq (exclusive m) (\<lambda>x. give (Some x)) s
      else
        seq try_lock (\<lambda>acquired.
        if \<not> acquired then give None
        else
          seq (open_rdwr MAINTENANCE_LOCK) (\<lambda>n.
          case n of
            Regular _ \<Rightarrow>
              seq try_lock (\<lambda>shared.
              if \<not> shared then give None
              else
                ensure
                  (ensure
                    (seq (open_regular NAMESPACE_LOCK) (\<lambda>_.
                     seq try_lock (\<lambda>own. if \<not> own then give None else seq (set_depth 1) (\<lambda>_. seq m (\<lambda>x. give (Some x))))))
                    (set_depth 0))
                  flock)
          | _ \<Rightarrow> throw ValueError)) s)"

record capacity_batch_report =
  cb_bytes_before :: int
  cb_bytes_after :: int
  cb_manifests_removed :: int
  cb_objects_removed :: int
  cb_bytes_reclaimed :: int
  cb_candidates_attempted :: int
  cb_candidates_remaining :: int

text \<open>The modification time of a name that is not a regular file counts as 0.\<close>

definition node_mtime :: "'z fs_scheme \<Rightarrow> node \<Rightarrow> int" where
  "node_mtime s n = (case n of Regular i \<Rightarrow> in_mtime (inodes s ! i) | _ \<Rightarrow> 0)"

definition candidate ::
  "int \<times> (int \<times> string) list \<Rightarrow> string \<Rightarrow> ('z rank_store_scheme, int \<times> (int \<times> string) list) action" where
  "candidate = (\<lambda>(count, found) key.
     seq (lstat_opt (manifest_path key)) (\<lambda>metadata.
     case metadata of
       None \<Rightarrow> give (count, found)
     | Some n \<Rightarrow>
         seq (pins_busy key) (\<lambda>busy s.
         (Inr (count + 1, if busy then found else found @ [(node_mtime s n, key)]), s))))"

definition evict_counted :: "int \<Rightarrow> string \<Rightarrow> ('z rank_store_scheme, int) action" where
  "evict_counted removed key = seq (evict key) (\<lambda>gone. give (removed + (if gone then 1 else 0)))"

definition capacity_quota :: "int \<Rightarrow> int \<Rightarrow> int" where
  "capacity_quota remaining_candidates count = (if remaining_candidates \<noteq> 0 then remaining_candidates else max 1 (count div 5))"

definition collect_garbage :: "int \<Rightarrow> int \<Rightarrow> ('z rank_store_scheme, capacity_batch_report) action" where
  "collect_garbage trigger_bytes remaining_candidates =
     seq disk_usage_bytes (\<lambda>before.
     if remaining_candidates = 0 \<and> before < trigger_bytes
     then give \<lparr>cb_bytes_before = before, cb_bytes_after = before, cb_manifests_removed = 0, cb_objects_removed = 0,
                cb_bytes_reclaimed = 0, cb_candidates_attempted = 0, cb_candidates_remaining = 0\<rparr>
     else
       seq (iter_manifest_paths candidate (0, [])) (\<lambda>(count, found).
       let selected = nsmallest 4 found;
           quota = capacity_quota remaining_candidates count;
           chosen = map snd (take (nat quota) selected);
           attempted = int (length chosen)
       in seq (fold_action evict_counted 0 chosen) (\<lambda>removed.
          seq disk_usage_bytes (\<lambda>after.
          give \<lparr>cb_bytes_before = before, cb_bytes_after = after, cb_manifests_removed = removed, cb_objects_removed = removed,
                cb_bytes_reclaimed = max 0 (before - after), cb_candidates_attempted = attempted,
                cb_candidates_remaining = (if min 4 quota \<le> int (length selected) then max 0 (quota - attempted) else 0)\<rparr>))))"

definition maintain_capacity_batch :: "int \<Rightarrow> int \<Rightarrow> ('z rank_store_scheme, capacity_batch_report option) action" where
  "maintain_capacity_batch trigger_bytes remaining_candidates =
     seq (lift (positive (PyInt trigger_bytes) (2 ^ 63 - 1))) (\<lambda>_.
     if remaining_candidates < 0 then throw ValueError
     else try_exclusive (collect_garbage trigger_bytes remaining_candidates))"

section \<open>Recovery\<close>

definition is_part :: "string \<Rightarrow> bool" where
  "is_part name \<longleftrightarrow> take 6 name = ''token-'' \<and> drop (length name - 5) name = ''.part''"

text \<open>The loop removes every name it has found before it looks again; \<open>fuel\<close> bounds the turns.\<close>

fun recover_loop :: "nat \<Rightarrow> int \<Rightarrow> ('z fs_scheme, int) action" where
  "recover_loop 0 removed = throw AssertionError"
| "recover_loop (Suc fuel) removed =
     seq (scandir [''tmp'']) (\<lambda>names.
     let batch = take 64 (filter is_part names) in
     if batch = [] then give removed
     else
       seq (for_each (\<lambda>name. unlink_missing_ok [''tmp'', name]) batch) (\<lambda>_.
       recover_loop fuel (removed + int (length batch))))"

definition recover :: "('z rank_store_scheme, int) action" where
  "recover =
     exclusive (\<lambda>s.
       seq (recover_loop (Suc (length (live s))) 0) (\<lambda>removed.
       seq (if removed \<noteq> 0 then fsync_directory [''tmp''] else give ()) (\<lambda>_. give removed)) s)"

section \<open>Opening a store\<close>

definition check_identity :: "store_identity \<Rightarrow> unit result" where
  "check_identity ident =
     (if list_ex (\<lambda>d. case d of None \<Rightarrow> False | Some x \<Rightarrow> \<not> is_digest x)
           [si_deployment_digest ident, si_rank_digest ident, si_topology_digest ident, si_layout_digest ident] then Inl ValueError
      else if (case si_rank ident of None \<Rightarrow> False | Some n \<Rightarrow> n < 0) then Inl ValueError
      else if (case si_profile ident of None \<Rightarrow> False | Some x \<Rightarrow> x = [] \<or> 128 < code_points x) then Inl ValueError
      else Inr ())"

definition open_store :: "platform \<Rightarrow> hma_layout \<Rightarrow> int \<Rightarrow> int \<Rightarrow> store_identity \<Rightarrow> ('z rank_store_scheme, token_config) action" where
  "open_store E layout slot_bytes slot_count ident =
     seq (lift (TokenFileStore E layout slot_bytes slot_count ident)) (\<lambda>C.
     seq (lift (check_identity ident)) (\<lambda>_.
     seq (prepare_root E) (\<lambda>_.
     except any_error
       (seq (exclusive (seq KeyPins (\<lambda>_. initialize_payload_backend E C))) (\<lambda>_.
        seq recover (\<lambda>_. give C)))
       (\<lambda>e. seq pins_close (\<lambda>_. throw e)))))"

end
