(* ===== verification/Withdrawal_Fence.thy ===== *)
theory Withdrawal_Fence
  imports Token_Store
begin

text \<open>
  The fence of a withdrawn key.  A key is fenced when its marker is durable or its file durably absent.
  The lemmas show which actions maintain the fence: reading, in-memory bookkeeping, eviction,
  quarantine and acknowledgement of any key, and publication under any other key.
\<close>

section \<open>Invariants of actions\<close>

definition maintains :: "('z fs_scheme \<Rightarrow> bool) \<Rightarrow> ('z fs_scheme, 'a) action \<Rightarrow> bool" where
  "maintains P m \<longleftrightarrow> (\<forall>s. P s \<longrightarrow> P (snd (m s)))"

text \<open>A predicate of the disk alone.\<close>

definition of_disk :: "('z fs_scheme \<Rightarrow> bool) \<Rightarrow> bool" where
  "of_disk P \<longleftrightarrow> (\<forall>s s'. disk_eq s s' \<longrightarrow> P s = P s')"

lemma maintainsI: "(\<And>s r s'. m s = (r, s') \<Longrightarrow> P s \<Longrightarrow> P s') \<Longrightarrow> maintains P m"
  unfolding maintains_def by (metis prod.collapse)

lemma maintainsD: "maintains P m \<Longrightarrow> m s = (r, s') \<Longrightarrow> P s \<Longrightarrow> P s'"
  by (metis maintains_def snd_conv)

named_theorems maintains_rules \<open>which actions maintain a predicate\<close>

lemma maintains_basic [maintains_rules]: "maintains P (give x)" "maintains P (throw e)" "maintains P (lift r)"
  by (simp_all add: maintains_def)

lemma maintains_seq [maintains_rules]: "maintains P m \<Longrightarrow> (\<And>x. maintains P (f x)) \<Longrightarrow> maintains P (seq m f)"
  by (rule maintainsI) (auto elim!: seq_cases dest: maintainsD)

lemma maintains_except [maintains_rules]: "maintains P m \<Longrightarrow> (\<And>e. maintains P (h e)) \<Longrightarrow> maintains P (except Q m h)"
  by (rule maintainsI) (auto elim!: except_cases dest: maintainsD)

lemma maintains_if [maintains_rules]: "(b \<Longrightarrow> maintains P m) \<Longrightarrow> (\<not> b \<Longrightarrow> maintains P n) \<Longrightarrow> maintains P (if b then m else n)"
  by simp

lemma maintains_for_each [maintains_rules]: "(\<And>x. maintains P (f x)) \<Longrightarrow> maintains P (for_each f xs)"
  by (induction xs) (simp_all add: maintains_basic maintains_seq)

lemma maintains_attempt [maintains_rules]: "maintains P m \<Longrightarrow> maintains P (attempt m)"
  unfolding attempt_def by (intro maintains_rules)

lemma maintains_stage:
  assumes "seq m f s = (r, s')" and "P s" and "maintains P m"
    and "\<And>x s1. m s = (Inr x, s1) \<Longrightarrow> P s1 \<Longrightarrow> f x s1 = (r, s') \<Longrightarrow> P s'"
  shows "P s'"
  using assms(1) by (cases rule: seq_cases) (use assms(2-4) maintainsD in blast)+

lemma maintains_reads: "of_disk P \<Longrightarrow> reads_only m \<Longrightarrow> maintains P m"
  by (rule maintainsI) (metis of_disk_def reads_onlyD same_disk_eq)

lemma maintains_exclusive:
  assumes "of_disk P" and "maintains P m"
  shows "maintains P (exclusive m)"
proof (rule maintainsI)
  fix s r s'
  assume run: "exclusive m s = (r, s')" and P: "P s"
  have eq: "disk_eq a b \<Longrightarrow> P a = P b" for a b using assms(1) by (simp add: of_disk_def)
  from run show "P s'"
  proof (cases rule: exclusive_cases)
    case (ran s1 r1 s2)
    then show ?thesis using maintainsD [OF assms(2) ran(2)] eq P by blast
  qed (use P eq in blast)
qed

section \<open>The fence of a key\<close>

definition fenced :: "'z fs_scheme \<Rightarrow> string \<Rightarrow> bool" where
  "fenced s key \<longleftrightarrow> settled s (inventory_withdrawal_path key) (Some Directory) \<or> settled s (manifest_path key) None"

text \<open>A shard directory is never removed, so a file name that may reappear lies in a live shard.\<close>

definition shard_kept :: "'z fs_scheme \<Rightarrow> string \<Rightarrow> bool" where
  "shard_kept s key \<longleftrightarrow> (durable_at s (manifest_path key) \<noteq> None \<longrightarrow> live_at s (butlast (manifest_path key)) = Some Directory)"

definition fence_base :: "string \<Rightarrow> 'z fs_scheme \<Rightarrow> bool" where
  "fence_base key s \<longleftrightarrow> wf_fs s \<and> anchored s WITHDRAWN \<and> fenced s key"

definition fence_inv :: "string \<Rightarrow> 'z fs_scheme \<Rightarrow> bool" where
  "fence_inv key s \<longleftrightarrow> fence_base key s \<and> shard_kept s key"

lemma disk_eq_same: "disk_eq s s' \<Longrightarrow> live s' = live s \<and> durable s' = durable s \<and> inodes s' = inodes s"
  by (simp add: disk_eq_def)

lemma fence_of_disk: "of_disk (fence_base key)" "of_disk (fence_inv key)"
  unfolding of_disk_def
  by (auto dest!: disk_eq_same simp: fence_base_def fence_inv_def fenced_def shard_kept_def settled_def wf_fs_def anchored_def)

lemma key_paths:
  "inventory_withdrawal_path key \<noteq> []" "butlast (inventory_withdrawal_path key) = WITHDRAWN"
  "manifest_path key \<noteq> []" "butlast (manifest_path key) = [''manifests'', take 2 key]"
  "child_of (butlast (manifest_path key)) (manifest_path key)" "last (manifest_path key) = key @ ''.kv''"
  by (simp_all add: inventory_withdrawal_path_def manifest_path_def child_of_def)

text \<open>The names operations on another key or on temporaries may change.\<close>

definition outside :: "string \<Rightarrow> path set" where
  "outside key = - {inventory_withdrawal_path key, manifest_path key, [''manifests'', take 2 key], WITHDRAWN, [''state'']}"

lemma anchored_withdrawn_frame:
  assumes "frame_of N k s s'" and "anchored s WITHDRAWN" and "[''state''] \<notin> N" and "WITHDRAWN \<notin> N"
  shows "anchored s' WITHDRAWN"
proof (rule anchored_frame [OF assms(1,2)])
  fix j :: nat
  assume j: "0 < j" "j \<le> length WITHDRAWN"
  then have "j = 1 \<or> j = 2" by (auto simp: WITHDRAWN_def)
  then show "take j WITHDRAWN \<notin> N" using assms(3,4) by (auto simp: WITHDRAWN_def)
qed

lemma fence_frame:
  assumes "fence_base key s" and "wf_fs s'" and "frame_of N k s s'"
    and "[''state''] \<notin> N" "WITHDRAWN \<notin> N" "inventory_withdrawal_path key \<notin> N" "manifest_path key \<notin> N"
  shows "fence_base key s'"
  using assms settled_frame [OF assms(3)] anchored_withdrawn_frame [OF assms(3)] unfolding fence_base_def fenced_def by blast

lemma shard_frame:
  assumes "shard_kept s key" and "wf_fs s" and "frame_of N k s s'" and "manifest_path key \<notin> N"
    and "live_at s [''manifests'', take 2 key] = Some Directory \<longrightarrow> live_at s' [''manifests'', take 2 key] = Some Directory"
  shows "shard_kept s' key"
proof -
  have "durable_at s' (manifest_path key) = durable_at s (manifest_path key) \<or> durable_at s' (manifest_path key) = live_at s (manifest_path key)"
    using assms(3,4) by (auto simp: frame_of_def)
  moreover have "live_at s [''manifests'', take 2 key] = Some Directory" if "live_at s (manifest_path key) \<noteq> None"
    using treeD(2) [OF wf_fsD(2) [OF assms(2)], of "manifest_path key"] that by (auto simp: key_paths)
  ultimately show ?thesis using assms(1,5) by (auto simp: shard_kept_def key_paths)
qed

lemma fence_inv_frame:
  assumes "fence_inv key s" and "wf_fs s'" and "frame_of N k s s'" and "N \<subseteq> outside key"
  shows "fence_inv key s'"
proof -
  have n: "[''state''] \<notin> N" "WITHDRAWN \<notin> N" "inventory_withdrawal_path key \<notin> N" "manifest_path key \<notin> N" "[''manifests'', take 2 key] \<notin> N"
    using assms(4) by (auto simp: outside_def)
  have "live_at s' [''manifests'', take 2 key] = live_at s [''manifests'', take 2 key]" using assms(3) n(5) by (simp add: frame_of_def)
  then show ?thesis
    using fence_frame [OF _ assms(2,3) n(1-4)] shard_frame [OF _ _ assms(3) n(4)] assms(1) by (auto simp: fence_inv_def fence_base_def)
qed

lemma keeps_maintains:
  assumes "\<And>k. keeps N k m" and "N \<subseteq> outside key"
  shows "maintains (fence_inv key) m"
proof (rule maintainsI)
  fix s r s'
  assume run: "m s = (r, s')" and P: "fence_inv key s"
  have wf: "wf_fs s" using P by (simp add: fence_inv_def fence_base_def)
  show "fence_inv key s'"
    using fence_inv_frame [OF P _ _ assms(2)] keepsD [OF assms(1) run wf order_refl] by blast
qed

lemma fence_restarted:
  assumes "fence_inv key s" and "restarted s s'"
  shows "fence_inv key s'"
proof -
  have s: "wf_fs s" "anchored s WITHDRAWN" "fenced s key" using assms(1) by (simp_all add: fence_inv_def fence_base_def)
  note wf' = wf_restarted [OF assms(2) s(1)]
  have "fenced s' key"
    using s(3) settled_absent_restarted [OF assms(2)] settled_directory_restarted [OF assms(2)] s(2)
    by (auto simp: fenced_def key_paths)
  moreover have "shard_kept s' key"
  proof -
    have "durable_at s' (manifest_path key) = live_at s' (manifest_path key) \<or> (live s' = live s \<and> durable s' = durable s)"
      using assms(2) by (auto simp: restarted_def process_restarted_def power_cycled_def)
    then show ?thesis
      using treeD(2) [OF wf_fsD(2) [OF wf'], of "manifest_path key"] assms(1) by (auto simp: shard_kept_def fence_inv_def key_paths)
  qed
  ultimately show ?thesis using wf' anchored_restarted [OF assms(2) s(2)] by (simp add: fence_inv_def fence_base_def)
qed

section \<open>Steps on the key itself\<close>

lemma other_paths:
  assumes "e \<noteq> key"
  shows "{inventory_withdrawal_path e} \<subseteq> outside key" "{manifest_path e} \<subseteq> outside key"
    "below (manifest_path e) \<union> below (quarantine_path p nonce) \<subseteq> outside key"
  using assms
  by (auto simp: outside_def inventory_withdrawal_path_def manifest_path_def WITHDRAWN_def quarantine_path_def below_def take_Cons'
      split: if_splits)

lemma outside_empty: "{} \<subseteq> outside key"
  by simp

lemma reads_pins_busy [reads_rules]: "reads_only (pins_busy key)"
proof (rule reads_onlyI)
  fix s r s'
  assume run: "pins_busy key s = (r, s')"
  have q: "reads_only (seq (lstat OBJECT_READS_LOCK) (\<lambda>named.
         if named \<noteq> Regular i then throw ValueError else syscall (\<lambda>_ s. (Inr (offset \<in> pinned s), s))))" for i offset
    by (intro reads_rules) (rule reads_syscall, simp)
  show "same_disk s s'"
    using run unfolding pins_busy_def seq_lift by (auto split: option.splits sum.splits dest: reads_onlyD [OF q])
qed

lemma fence_same: "fence_inv key s \<Longrightarrow> same_disk s s' \<Longrightarrow> fence_inv key s'"
  using fence_of_disk(2) same_disk_eq unfolding of_disk_def by blast

lemma mark_maintains [maintains_rules]: "maintains (fence_inv key) (mark_inventory_withdrawn e)"
proof (cases "e = key")
  case True
  show ?thesis
  proof (rule maintainsI)
    fix s r s'
    assume run: "mark_inventory_withdrawn e s = (r, s')" and P: "fence_inv key s"
    have run': "mark_digest_marker (inventory_withdrawal_path key) s = (r, s')" using run True by (simp add: mark_inventory_withdrawn_def)
    have s: "wf_fs s" "anchored s WITHDRAWN" "fenced s key" "shard_kept s key" using P by (simp_all add: fence_inv_def fence_base_def)
    note k = keepsD [OF keeps_marker(2) run' s(1) order_refl]
    have n: "[''state''] \<notin> {inventory_withdrawal_path key}" "WITHDRAWN \<notin> {inventory_withdrawal_path key}"
        "manifest_path key \<notin> {inventory_withdrawal_path key}" "[''manifests'', take 2 key] \<notin> {inventory_withdrawal_path key}"
      by (simp_all add: inventory_withdrawal_path_def manifest_path_def WITHDRAWN_def)
    have "fenced s' key"
      using s(3) mark_spec(2) [OF run' key_paths(1)] settled_frame [OF k(2) n(3)] by (auto simp: fenced_def)
    moreover have "live_at s' [''manifests'', take 2 key] = live_at s [''manifests'', take 2 key]" using k(2) n(4) by (simp add: frame_of_def)
    then have "shard_kept s' key" using shard_frame [OF s(4,1) k(2) n(3)] by simp
    ultimately show "fence_inv key s'"
      using k(1) anchored_withdrawn_frame [OF k(2) s(2) n(1,2)] by (simp add: fence_inv_def fence_base_def)
  qed
next
  case False
  show ?thesis unfolding mark_inventory_withdrawn_def
    by (rule keeps_maintains [OF keeps_marker(2) other_paths(1) [OF False]])
qed

text \<open>Removing or renaming the file of a fenced key.\<close>

lemma remove_maintains:
  assumes "\<And>k. keeps N k m" and "[''state''] \<notin> N" "WITHDRAWN \<notin> N" "inventory_withdrawal_path key \<notin> N" "[''manifests'', take 2 key] \<notin> N"
    and durable: "\<And>s r s'. m s = (r, s') \<Longrightarrow> durable s' = durable s"
    and absent: "\<And>s r s'. m s = (r, s') \<Longrightarrow> live_at s (manifest_path key) = None \<Longrightarrow> live s' = live s"
  shows "maintains (fence_inv key) m"
proof (rule maintainsI)
  fix s r s'
  assume run: "m s = (r, s')" and P: "fence_inv key s"
  have s: "wf_fs s" "anchored s WITHDRAWN" "fenced s key" "shard_kept s key" using P by (simp_all add: fence_inv_def fence_base_def)
  note k = keepsD [OF assms(1) run s(1) order_refl]
  have "fenced s' key"
    using s(3) settled_frame [OF k(2) assms(4)] durable [OF run] absent [OF run] by (auto simp: fenced_def settled_def)
  moreover have "live_at s' [''manifests'', take 2 key] = live_at s [''manifests'', take 2 key]" using k(2) assms(5) by (simp add: frame_of_def)
  then have "shard_kept s' key" using s(4) durable [OF run] by (simp add: shard_kept_def key_paths)
  ultimately show "fence_inv key s'"
    using k(1) anchored_withdrawn_frame [OF k(2) s(2) assms(2,3)] by (simp add: fence_inv_def fence_base_def)
qed

lemma os_unlink_effect:
  assumes "os_unlink p s = (r, s')"
  shows "durable s' = durable s" "live_at s p = None \<Longrightarrow> live s' = live s"
  using assms unfolding os_unlink_def
  by (cases rule: syscall_cases; auto simp: same_disk_def split: option.splits node.splits)+

lemma os_replace_effect:
  assumes "os_replace a b s = (r, s')"
  shows "durable s' = durable s" "live_at s a = None \<Longrightarrow> live s' = live s"
  using assms unfolding os_replace_def
  by (cases rule: syscall_cases; auto simp: same_disk_def split: option.splits if_splits)+

lemma unlink_maintains [maintains_rules]: "maintains (fence_inv key) (os_unlink (manifest_path e))"
proof (cases "e = key")
  case True
  show ?thesis unfolding True
    by (rule remove_maintains [OF keeps_os_unlink])
      (auto dest: os_unlink_effect simp: inventory_withdrawal_path_def manifest_path_def WITHDRAWN_def)
qed (rule keeps_maintains [OF keeps_os_unlink other_paths(2)])

lemma replace_maintains [maintains_rules]: "maintains (fence_inv key) (os_replace (manifest_path e) (quarantine_path p nonce))"
proof (cases "e = key")
  case True
  show ?thesis unfolding True
    by (rule remove_maintains [OF keeps_os_replace])
      (auto dest: os_replace_effect
        simp: inventory_withdrawal_path_def manifest_path_def WITHDRAWN_def quarantine_path_def below_def take_Cons' split: if_splits)
qed (rule keeps_maintains [OF keeps_os_replace other_paths(3)])

lemma quiet_maintains [maintains_rules]:
  "maintains (fence_inv key) (fsync_directory d)" "maintains (fence_inv key) (record_withdrawal e)"
  "maintains (fence_inv key) (record_quarantine reason)"
  by (rule keeps_maintains [OF _ outside_empty], intro keeps_rules)+

lemma reads_maintains: "reads_only m \<Longrightarrow> maintains (fence_inv key) m"
  by (rule maintains_reads [OF fence_of_disk(2)])

lemma queries_maintain [maintains_rules]:
  "maintains (fence_inv key) (path_exists p)" "maintains (fence_inv key) (lstat_opt p)" "maintains (fence_inv key) uuid4"
  "maintains (fence_inv key) (pins_busy e)" "maintains (fence_inv key) (digest_marker_is_present p)"
  by (rule reads_maintains, intro reads_rules)+

lemma seq_checked: "seq (lift (checked_manifest_path e)) f = (if is_digest e then f (manifest_path e) else throw ValueError)"
  by (simp add: seq_lift checked_manifest_path_def)

lemma evict_maintains: "maintains (fence_inv key) (evict e)"
proof -
  have "maintains (fence_inv key) (evict_locked e)"
    unfolding evict_locked_def seq_checked by (intro maintains_rules)
  then show ?thesis unfolding evict_def by (rule maintains_exclusive [OF fence_of_disk(2)])
qed

lemma stem_manifest: "path_stem (last (manifest_path e)) = e" if "e \<noteq> []"
  using that by (simp add: path_stem_def manifest_path_def Let_def)

lemma withdraw_entry_maintains [maintains_rules]: "maintains (fence_inv key) (withdraw_entry e)"
  unfolding withdraw_entry_def by (intro maintains_rules)

text \<open>Clearing a marker is safe once the file is durably absent.\<close>

lemma clear_absent:
  assumes "clear_inventory_withdrawal e s = (r, s')" and "fence_inv key s" and "e = key \<Longrightarrow> settled s (manifest_path key) None"
  shows "fence_inv key s'"
proof (cases "e = key")
  case True
  have run': "clear_digest_marker (inventory_withdrawal_path key) s = (r, s')" using assms(1) True by (simp add: clear_inventory_withdrawal_def)
  have s: "wf_fs s" "anchored s WITHDRAWN" "shard_kept s key" using assms(2) by (simp_all add: fence_inv_def fence_base_def)
  note k = keepsD [OF keeps_marker(3) run' s(1) order_refl]
  have n: "[''state''] \<notin> {inventory_withdrawal_path key}" "WITHDRAWN \<notin> {inventory_withdrawal_path key}"
      "manifest_path key \<notin> {inventory_withdrawal_path key}" "[''manifests'', take 2 key] \<notin> {inventory_withdrawal_path key}"
    by (simp_all add: inventory_withdrawal_path_def manifest_path_def WITHDRAWN_def)
  have "fenced s' key" using settled_frame [OF k(2) n(3) assms(3) [OF True]] by (simp add: fenced_def)
  moreover have "live_at s' [''manifests'', take 2 key] = live_at s [''manifests'', take 2 key]" using k(2) n(4) by (simp add: frame_of_def)
  then have "shard_kept s' key" using shard_frame [OF s(3,1) k(2) n(3)] by simp
  ultimately show ?thesis
    using k(1) anchored_withdrawn_frame [OF k(2) s(2) n(1,2)] by (simp add: fence_inv_def fence_base_def)
next
  case False
  have "maintains (fence_inv key) (clear_inventory_withdrawal e)"
    unfolding clear_inventory_withdrawal_def by (rule keeps_maintains [OF keeps_marker(3) other_paths(1) [OF False]])
  then show ?thesis using assms(1,2) maintainsD by blast
qed

lemma release_absent:
  assumes "release_if_owner e s = (r, s')" and "fence_inv key s" and "e = key \<Longrightarrow> settled s (manifest_path key) None"
  shows "fence_inv key s'"
  using assms clear_absent [of e s r s' key] unfolding release_if_owner_def by (auto split: if_splits)

lemma attempt_None: "attempt m s = (Inr None, s') \<longleftrightarrow> (\<exists>x. m s = (Inr x, s'))"
  by (auto simp: attempt_def except_def seq_def any_error_def split: prod.splits sum.splits)

lemma attempt_Inr: "attempt m s = (r, s') \<Longrightarrow> \<exists>e. r = Inr e"
  by (auto simp: attempt_def except_def seq_def any_error_def split: prod.splits sum.splits)

lemma quarantine_moved_maintains:
  assumes run: "quarantine_moved (manifest_path e) reason werr s = (r, s')" and P: "fence_inv key s"
    and e: "is_digest e" and gone: "live_at s (manifest_path e) = None"
  shows "fence_inv key s'"
proof -
  have stem: "path_stem (last (manifest_path e)) = e" using e by (intro stem_manifest) (auto simp: is_digest_def)
  obtain e1 s1 where a1: "attempt (fsync_directory (butlast (manifest_path e))) s = (Inr e1, s1)"
    using attempt_Inr by (metis prod.exhaust)
  obtain e2 s2 where a2: "attempt (fsync_directory [''quarantine'']) s1 = (Inr e2, s2)"
    using attempt_Inr by (metis prod.exhaust)
  have P1: "fence_inv key s1" by (rule maintainsD [OF maintains_attempt [OF quiet_maintains(1)] a1 P])
  have P2: "fence_inv key s2" by (rule maintainsD [OF maintains_attempt [OF quiet_maintains(1)] a2 P1])
  have rest: "seq (record_quarantine reason) (\<lambda>_.
     if first_error werr (first_error e1 e2) \<noteq> None then throw RuntimeError
     else seq (release_if_owner e) (\<lambda>_. give True)) s2 = (r, s')"
    using run a1 a2 unfolding quarantine_moved_def stem by simp
  from rest show ?thesis
  proof (cases rule: seq_cases)
    case (fail x)
    then show ?thesis using maintainsD [OF quiet_maintains(3) fail(1) P2] by simp
  next
    case (cont u s3)
    note P3 = maintainsD [OF quiet_maintains(3) cont(1) P2]
    show ?thesis
    proof (cases "first_error werr (first_error e1 e2) \<noteq> None")
      case True
      then show ?thesis using cont(2) P3 by simp
    next
      case False
      then have "e1 = None" by (auto simp: first_error_def split: option.splits)
      then obtain v where "fsync_directory (butlast (manifest_path e)) s = (Inr v, s1)" using a1 by (auto simp: attempt_None)
      then have s1: "settled s1 (manifest_path e) None" using fsync_settles [OF _ key_paths(5)] gone by metis
      have wf1: "wf_fs s1" "wf_fs s2" using P1 P2 by (simp_all add: fence_inv_def fence_base_def)
      have k2: "keeps {} k (attempt (fsync_directory [''quarantine'']))" for k unfolding attempt_def by (intro keeps_rules)
      have "settled s3 (manifest_path e) None"
        using settled_frame [OF keepsD(2) [OF keeps_record(1) cont(1) wf1(2) order_refl, of "{}"]]
          settled_frame [OF keepsD(2) [OF k2 a2 wf1(1) order_refl] _ s1] by blast
      then show ?thesis
        using cont(2) False release_absent [OF _ P3, of e] by (auto elim!: seq_cases) blast+
    qed
  qed
qed

lemma os_replace_gone:
  assumes "os_replace a b s = (Inr u, s')" and "wf_fs s" and "a \<notin> below b"
  shows "live_at s' a = None"
  using assms(1) unfolding os_replace_def
proof (cases rule: syscall_cases)
  case (run q s0)
  have l: "live s0 = live s" using same_diskD [OF run(1)] by simp
  have ab: "a \<noteq> b" using assms(3) by auto
  have r: "live_at s a \<noteq> None" "has_parent s b" "b \<notin> below a" "live_at s b \<noteq> Some Directory"
      "live s' = map (\<lambda>(p, m). (moved a b p, m)) (dict_pop b (live s))"
    using run(2) ab unfolding l is_dir_same [OF l] by (auto simp: below_def l split: option.splits if_splits)
  note lk = rename_lookup(1) [OF wf_fsD(2,1) [OF assms(2)] r(1,4) _ r(3), of a]
  show ?thesis using lk has_parentD [OF r(2)] assms(3) by (simp add: r(5) below_def)
qed simp

definition move_away :: "path \<Rightarrow> string \<Rightarrow> ('z fs_scheme, bool) action" where
  "move_away p nonce = except not_found (seq (os_replace p (quarantine_path p nonce)) (\<lambda>_. give True)) (\<lambda>_. give False)"

lemma move_away_gone:
  assumes "move_away (manifest_path e) nonce s = (Inr True, s')" and "wf_fs s"
  shows "live_at s' (manifest_path e) = None"
proof -
  have "\<exists>u. os_replace (manifest_path e) (quarantine_path (manifest_path e) nonce) s = (Inr u, s')"
    using assms(1) unfolding move_away_def by (auto simp: seq_Inr elim!: except_cases)
  moreover have "manifest_path e \<notin> below (quarantine_path (manifest_path e) nonce)"
    by (simp add: manifest_path_def quarantine_path_def below_def)
  ultimately show ?thesis using os_replace_gone [OF _ assms(2)] by blast
qed

definition quarantine_tail :: "string \<Rightarrow> string \<Rightarrow> error option \<Rightarrow> ('z rank_store_scheme, bool) action" where
  "quarantine_tail e reason werr =
     seq uuid4 (\<lambda>nonce. seq (move_away (manifest_path e) nonce) (\<lambda>moved.
     if \<not> moved then give False else quarantine_moved (manifest_path e) reason werr))"

lemma quarantine_locked_eq:
  "quarantine_locked (manifest_path e) reason = seq (withdraw_entry (path_stem (last (manifest_path e)))) (quarantine_tail e reason)"
  unfolding quarantine_locked_def quarantine_tail_def move_away_def ..

lemma quarantine_tail_maintains:
  assumes run: "quarantine_tail e reason werr s = (r, s')" and P: "fence_inv key s" and e: "is_digest e"
  shows "fence_inv key s'"
proof (rule maintains_stage [OF run [unfolded quarantine_tail_def] P queries_maintain(3)])
  fix nonce s2
  assume P2: "fence_inv key s2" and run2: "seq (move_away (manifest_path e) nonce) (\<lambda>moved.
    if \<not> moved then give False else quarantine_moved (manifest_path e) reason werr) s2 = (r, s')"
  have move: "maintains (fence_inv key) (move_away (manifest_path e) nonce)"
    unfolding move_away_def by (intro maintains_rules)
  show "fence_inv key s'"
  proof (rule maintains_stage [OF run2 P2 move])
    fix moved s3
    assume m: "move_away (manifest_path e) nonce s2 = (Inr moved, s3)" and P3: "fence_inv key s3"
      and run3: "(if \<not> moved then give False else quarantine_moved (manifest_path e) reason werr) s3 = (r, s')"
    have "wf_fs s2" using P2 by (simp add: fence_inv_def fence_base_def)
    then show "fence_inv key s'"
      using run3 m P3 move_away_gone [of e nonce s2 s3] quarantine_moved_maintains [OF _ P3 e, of reason werr r s']
      by (cases moved) auto
  qed
qed

lemma quarantine_locked_maintains:
  assumes "quarantine_locked (manifest_path e) reason s = (r, s')" and "fence_inv key s" and "is_digest e"
  shows "fence_inv key s'"
  by (rule maintains_stage [OF assms(1) [unfolded quarantine_locked_eq] assms(2) withdraw_entry_maintains])
    (rule quarantine_tail_maintains [OF _ _ assms(3)])

lemma quarantine_maintains:
  assumes "is_digest e"
  shows "maintains (fence_inv key) (quarantine_manifest (manifest_path e) reason)"
proof -
  have "maintains (fence_inv key) (quarantine_locked (manifest_path e) reason)"
    by (rule maintainsI) (rule quarantine_locked_maintains [OF _ _ assms])
  then show ?thesis
    unfolding quarantine_manifest_def by (intro maintains_rules maintains_exclusive fence_of_disk)
qed

lemma absence_settles:
  assumes "fsync_manifest_absence_locked (manifest_path e) s = (Inr u, s')" and "live_at s (manifest_path e) = None"
    and "e = key" and "shard_kept s key"
  shows "settled s' (manifest_path key) None"
proof -
  obtain m s1 where m: "lstat_opt [''manifests'', take 2 e] s = (Inr m, s1)"
      and rest: "(case m of None \<Rightarrow> fsync_directory [''manifests''] | Some Directory \<Rightarrow> fsync_directory [''manifests'', take 2 e]
        | Some _ \<Rightarrow> throw ValueError) s1 = (Inr u, s')"
    using assms(1) unfolding fsync_manifest_absence_locked_def key_paths(4) seq_Inr by blast
  note l = lstat_opt_Inr [OF m]
  show ?thesis
  proof (cases m)
    case None
    then have "durable_at s (manifest_path key) = None" using assms(3,4) l(2) by (auto simp: shard_kept_def key_paths)
    then have "settled s1 (manifest_path key) None" using assms(2,3) l(1) by (simp add: settled_def same_disk_def)
    moreover have "fsync_directory [''manifests''] s1 = (Inr u, s')" using rest None by simp
    ultimately show ?thesis using fsync_directory_Inr [of "[''manifests'']" s1 u s'] by (auto simp: settled_def)
  next
    case (Some n)
    then have "fsync_directory (butlast (manifest_path e)) s1 = (Inr u, s')" using rest by (cases n) (auto simp: key_paths)
    from fsync_settles [OF this key_paths(5)] show ?thesis using assms(2,3) l(1) by (simp add: same_disk_def)
  qed
qed

lemma acknowledge_one_maintains:
  assumes run: "acknowledge_absent e s = (r, s')" and P: "fence_inv key s"
  shows "fence_inv key s'"
proof -
  show "fence_inv key s'"
  proof (cases "is_digest e")
    case True
    have absence: "maintains (fence_inv key) (fsync_manifest_absence_locked p)" for p :: path
      unfolding fsync_manifest_absence_locked_def
      by (intro maintains_rules) (auto split: option.splits node.splits intro!: maintains_rules)
    have run0: "seq (lstat_opt (manifest_path e)) (\<lambda>metadata.
      if metadata \<noteq> None then give ()
      else seq (fsync_manifest_absence_locked (manifest_path e)) (\<lambda>_.
        seq (lstat_opt (manifest_path e)) (\<lambda>metadata.
        if metadata \<noteq> None then give () else clear_inventory_withdrawal e))) s = (r, s')"
      using run True unfolding acknowledge_absent_def Let_def by simp
    show ?thesis
    proof (rule maintains_stage [OF run0 P queries_maintain(2)])
      fix m s1
      assume m: "lstat_opt (manifest_path e) s = (Inr m, s1)" and P1: "fence_inv key s1"
        and run1: "(if m \<noteq> None then give () else seq (fsync_manifest_absence_locked (manifest_path e)) (\<lambda>_.
        seq (lstat_opt (manifest_path e)) (\<lambda>metadata.
        if metadata \<noteq> None then give () else clear_inventory_withdrawal e))) s1 = (r, s')"
      show "fence_inv key s'"
      proof (cases "m = None")
        case None: True
        have live1: "live_at s1 (manifest_path e) = None" using lstat_opt_Inr [OF m] None by (simp add: same_disk_def)
        have run2: "seq (fsync_manifest_absence_locked (manifest_path e)) (\<lambda>_.
          seq (lstat_opt (manifest_path e)) (\<lambda>metadata.
          if metadata \<noteq> None then give () else clear_inventory_withdrawal e)) s1 = (r, s')" using run1 None by simp
        show ?thesis
        proof (rule maintains_stage [OF run2 P1 absence])
          fix u s2
          assume f: "fsync_manifest_absence_locked (manifest_path e) s1 = (Inr u, s2)" and P2: "fence_inv key s2"
            and run3: "seq (lstat_opt (manifest_path e)) (\<lambda>metadata.
              if metadata \<noteq> None then give () else clear_inventory_withdrawal e) s2 = (r, s')"
          have gone: "e = key \<Longrightarrow> settled s2 (manifest_path key) None"
            using absence_settles [OF f live1] P1 by (simp add: fence_inv_def)
          show "fence_inv key s'"
          proof (rule maintains_stage [OF run3 P2 queries_maintain(2)])
            fix m' s3
            assume m': "lstat_opt (manifest_path e) s2 = (Inr m', s3)" and P3: "fence_inv key s3"
              and run4: "(if m' \<noteq> None then give () else clear_inventory_withdrawal e) s3 = (r, s')"
            have "e = key \<Longrightarrow> settled s3 (manifest_path key) None" using gone lstat_opt_Inr(1) [OF m'] by (simp add: settled_same)
            then show "fence_inv key s'" using run4 P3 clear_absent [of e s3 r s' key] by (cases m') auto
          qed
        qed
      qed (use run1 P1 in simp)
    qed
  qed (use run P in \<open>simp add: acknowledge_absent_def\<close>)
qed

lemma acknowledge_maintains: "maintains (fence_inv key) (acknowledge_absent_inventory_withdrawals es)"
proof -
  have "maintains (fence_inv key) (acknowledge_absent e)" for e
    by (rule maintainsI) (rule acknowledge_one_maintains)
  then show ?thesis
    unfolding acknowledge_absent_inventory_withdrawals_def by (intro maintains_exclusive fence_of_disk maintains_rules)
qed

section \<open>Every operation keeps the fence\<close>

lemma maintains_ensure [maintains_rules]: "maintains P m \<Longrightarrow> maintains P c \<Longrightarrow> maintains P (ensure m c)"
  by (rule maintainsI) (auto elim!: ensure_cases dest: maintainsD)

lemma maintains_fold [maintains_rules]: "(\<And>b x. maintains P (f b x)) \<Longrightarrow> maintains P (fold_action f b xs)"
  by (induction xs arbitrary: b) (simp_all add: maintains_basic maintains_seq)

lemma maintains_with_state: "(\<And>x. maintains P (f x)) \<Longrightarrow> maintains P (\<lambda>s. f (g s) s)"
  by (simp add: maintains_def)

lemma maintains_callback: "of_disk P \<Longrightarrow> maintains P m \<Longrightarrow> maintains P (callback m)"
proof (rule maintainsI)
  fix s r s'
  assume P: "of_disk P" and m: "maintains P m" and run: "callback m s = (r, s')" and s: "P s"
  have eq: "same_disk a b \<Longrightarrow> P a \<Longrightarrow> P b" for a b using P same_disk_eq unfolding of_disk_def by blast
  show "P s'" using run by (cases rule: callback_cases) (use s eq maintainsD [OF m] in blast)+
qed

lemma fence_inodes: "fence_inv key s \<Longrightarrow> live s' = live s \<Longrightarrow> durable s' = durable s \<Longrightarrow> length (inodes s') = length (inodes s) \<Longrightarrow> fence_inv key s'"
  by (auto simp: fence_inv_def fence_base_def fenced_def shard_kept_def settled_def wf_fs_def anchored_def)

lemma maintains_inodes:
  assumes "\<And>q s. live (snd (f q s)) = live s \<and> durable (snd (f q s)) = durable s \<and> length (inodes (snd (f q s))) = length (inodes s)"
  shows "maintains (fence_inv key) (syscall f)"
proof (rule maintainsI)
  fix s r s'
  assume run: "syscall f s = (r, s')" and P: "fence_inv key s"
  from run show "fence_inv key s'"
  proof (cases rule: syscall_cases)
    case (run q s0)
    then show ?thesis using fence_inodes [of key s0 s'] fence_same [OF P run(1)] assms [of q s0] by simp
  qed (use P fence_same in blast)
qed

lemma data_maintains [maintains_rules]:
  "maintains (fence_inv key) (write_at i pos bytes)" "maintains (fence_inv key) (fsync_file i)" "maintains (fence_inv key) (os_utime p t)"
  unfolding write_at_def fsync_file_def os_utime_def Let_def
  by (rule maintains_inodes; auto split: option.splits node.splits)+

lemma write_vector_maintains [maintains_rules]: "maintains (fence_inv key) (write_vector i pos views)"
proof (induction i pos views rule: write_vector.induct)
  case (1 i pos views)
  show ?case by (subst write_vector.simps) (intro maintains_rules 1; simp)
qed

lemma tmp_outside: "{[''tmp'', name]} \<subseteq> outside key"
  by (auto simp: outside_def inventory_withdrawal_path_def manifest_path_def WITHDRAWN_def)

lemma tmp_maintains [maintains_rules]:
  "maintains (fence_inv key) (open_create [''tmp'', name])" "maintains (fence_inv key) (os_unlink [''tmp'', name])"
  "maintains (fence_inv key) (unlink_missing_ok [''tmp'', name])"
  by (rule keeps_maintains [OF _ tmp_outside], rule keeps_rules)+

lemma shard_maintains [maintains_rules]: "maintains (fence_inv key) (os_mkdir [''manifests'', shard])"
proof (rule maintainsI)
  fix s r s'
  assume run: "os_mkdir [''manifests'', shard] s = (r, s')" and P: "fence_inv key s"
  have s: "wf_fs s" "fence_base key s" "shard_kept s key" using P by (simp_all add: fence_inv_def fence_base_def)
  note k = keepsD [OF keeps_os_mkdir run s(1) order_refl]
  have n: "[''state''] \<notin> {[''manifests'', shard]}" "WITHDRAWN \<notin> {[''manifests'', shard]}"
      "inventory_withdrawal_path key \<notin> {[''manifests'', shard]}" "manifest_path key \<notin> {[''manifests'', shard]}"
    by (simp_all add: inventory_withdrawal_path_def manifest_path_def WITHDRAWN_def)
  have "live_at s' p = Some Directory" if "live_at s p = Some Directory" for p
    using os_mkdir_result(4,5) [OF run] that by (cases r) auto
  then show "fence_inv key s'"
    using fence_frame [OF s(2) k(1,2) n] shard_frame [OF s(3,1) k(2) n(4)] by (simp add: fence_inv_def)
qed

lemma ensure_shard_maintains [maintains_rules]: "maintains (fence_inv key) (ensure_shard_directory (butlast (manifest_path e)))"
proof -
  have "maintains (fence_inv key) (lstat p)" for p by (rule reads_maintains) (intro reads_rules)
  then show ?thesis
    unfolding ensure_shard_directory_def mkdir_existing_ok_def key_paths(4) by (intro maintains_rules)
qed

lemma checkpoint_maintains [maintains_rules]: "maintains (fence_inv key) (checkpoint stage)"
proof (rule maintainsI)
  fix s r s'
  assume run: "checkpoint stage s = (r, s')" and P: "fence_inv key s"
  show "fence_inv key s'"
  proof (cases "rs_fault_hook s")
    case True
    then have "callback (give ()) s = (r, s')" using run by (simp add: checkpoint_def)
    then show ?thesis by (rule maintainsD [OF maintains_callback [OF fence_of_disk(2) maintains_basic(1)]]) (rule P)
  qed (use run P in \<open>simp add: checkpoint_def\<close>)
qed

lemma reads_read_into [reads_rules]: "reads_only (read_into i pos n)"
  unfolding read_into_def by (intro reads_rules)

lemma reads_open_chunk [reads_rules]: "reads_only (open_chunk E C key allow)"
proof -
  have "reads_only (read_frame E C key i n)" for i n
    unfolding read_frame_def Let_def by (intro reads_rules)
  moreover have "reads_only (inventory_is_withdrawn key)" unfolding inventory_is_withdrawn_def by (intro reads_rules)
  ultimately show ?thesis
    unfolding open_chunk_def by (intro reads_rules) (auto split: node.splits intro!: reads_rules)
qed

lemma reads_authenticate [reads_rules]: "reads_only (authenticate E C i desc)"
proof -
  have "reads_only (authenticate_blocks E C i pos remaining acc hs)" for pos remaining acc hs
    by (induction hs arbitrary: pos remaining acc) (auto simp: Let_def intro!: reads_rules)
  then show ?thesis unfolding authenticate_def by (intro reads_rules) (auto split: prod.splits intro!: reads_rules)
qed

lemma chunk_maintains [maintains_rules]:
  "maintains (fence_inv key) (open_chunk E C e allow)" "maintains (fence_inv key) (authenticate E C i desc)"
  "maintains (fence_inv key) (fstat i)" "maintains (fence_inv key) (lstat p)" "maintains (fence_inv key) (scandir d)"
  "maintains (fence_inv key) (is_symlink p)" "maintains (fence_inv key) time_ns"
  by (rule reads_maintains, intro reads_rules)+

lemma quarantine_bad_maintains [maintains_rules]: "maintains (fence_inv key) (quarantine_bad e)"
  unfolding quarantine_bad_def seq_checked by (intro maintains_rules quarantine_maintains)

lemma exclusive_maintains [maintains_rules]: "maintains (fence_inv key) m \<Longrightarrow> maintains (fence_inv key) (exclusive m)"
  by (rule maintains_exclusive [OF fence_of_disk(2)])

lemma ensure_open_maintains [maintains_rules]: "maintains (fence_inv key) ensure_open"
  by (simp add: maintains_def ensure_open_def)

lemma clear_other_maintains: "e \<noteq> key \<Longrightarrow> maintains (fence_inv key) (clear_inventory_withdrawal e)"
  by (rule maintainsI) (blast intro: clear_absent)

lemma link_maintains:
  assumes "e \<noteq> key" and "\<And>i header. maintains (fence_inv key) (writer i header)"
  shows "maintains (fence_inv key) (link_chunk e (tmp_path nonce) i header writer)"
proof -
  have link: "maintains (fence_inv key) (os_link t (manifest_path e))" for t :: path
    by (rule keeps_maintains [OF keeps_os_link other_paths(2) [OF assms(1)]])
  have cleanup: "maintains (fence_inv key) (cleanup_temporary_file (tmp_path nonce) x)" for x
    unfolding cleanup_temporary_file_def tmp_path_def
    by (intro maintains_rules) (auto split: option.splits intro!: maintains_rules)
  show ?thesis
    unfolding link_chunk_def prepare_link_def settle_link_def withdraw_failed_def
    by (intro maintains_rules assms clear_other_maintains link cleanup; simp only: tmp_path_def; intro maintains_rules)
qed

lemma publish_maintains:
  assumes "e \<noteq> key" and "\<And>i header. maintains (fence_inv key) (writer i header)"
  shows "maintains (fence_inv key) (publish_chunk E C e payload writer)"
proof -
  have create: "maintains (fence_inv key) (open_create (tmp_path nonce))" for nonce
    unfolding tmp_path_def by (intro maintains_rules)
  show ?thesis
    unfolding publish_chunk_def
    by (intro maintains_rules link_maintains assms create) (auto split: prod.splits intro!: maintains_rules)
qed

end
