(* ===== verification/Withdrawal_Safety.thy ===== *)
theory Withdrawal_Safety
  imports Withdrawal_Fence
begin

text \<open>
  Withdrawn entries stay withdrawn.  Every operation of the store but the publication of a new file
  under that key keeps its fence (\<open>Withdrawal_Fence\<close>) over crashes at any point, opening and closing
  the store included, and a fenced key cannot be opened.
\<close>

section \<open>The operations of a store\<close>

text \<open>
  The operations of a store, with their results forgotten: every public method that touches the root,
  and opening and closing it.  The body of a \<open>with restore_view\<close> statement is any sequence of
  operations that may depend on the result; the receiver and the completion callback of a stream, and
  the withdrawal callback of a marker batch, are calls into other components that may raise or crash.
\<close>

datatype store_op =
    OpenStore hma_layout int int store_identity
  | CloseStore
  | AcquireOwner
  | ReserveEpoch
  | MarkerBatch int "string option" bool
  | Acknowledge "string list"
  | Evict string
  | Quarantine string string
  | CommitChunk string "string option" int string string
  | CommitStream string "string option" int "string generator" string
  | ValidChunk string "string option" int string
  | Lookup string bool
  | ScanOffers int
  | Touch "token_file_descriptor list"
  | RestoreView string "lookup_result \<Rightarrow> store_op list"
  | StreamObjects int "nat \<times> lookup_result" "token_file_descriptor list"
  | MaintainCapacity int int
  | MeasureUsage
  | Recover

primrec run_op :: "platform \<Rightarrow> token_config \<Rightarrow> store_op \<Rightarrow> ('z rank_store_scheme, unit) action" where
  "run_op E C (OpenStore layout slot_bytes slot_count ident) = seq (open_store E layout slot_bytes slot_count ident) (\<lambda>_. give ())"
| "run_op E C CloseStore = close_store"
| "run_op E C AcquireOwner = acquire_inventory_owner"
| "run_op E C ReserveEpoch = seq (reserve_inventory_generation_epoch E) (\<lambda>_. give ())"
| "run_op E C (MarkerBatch limit after withdraw) =
     seq (inventory_withdrawal_marker_batch limit after (if withdraw then Some (\<lambda>_. callback (give ())) else None)) (\<lambda>_. give ())"
| "run_op E C (Acknowledge keys) = acknowledge_absent_inventory_withdrawals keys"
| "run_op E C (Evict key) = seq (evict key) (\<lambda>_. give ())"
| "run_op E C (Quarantine key reason) = seq (lift (checked_manifest_path key)) (\<lambda>p. seq (quarantine_manifest p reason) (\<lambda>_. give ()))"
| "run_op E C (CommitChunk key parent n data kind) = seq (commit_chunk E C key parent n data kind) (\<lambda>_. give ())"
| "run_op E C (CommitStream key parent n pieces kind) = seq (commit_stream E C key parent n pieces kind) (\<lambda>_. give ())"
| "run_op E C (ValidChunk key parent n kind) = seq (valid_chunk E C key parent n kind) (\<lambda>_. give ())"
| "run_op E C (Lookup key verify) = seq (lookup E C key verify) (\<lambda>_. give ())"
| "run_op E C (ScanOffers limit) = seq (scan_offers E C limit) (\<lambda>_. give ())"
| "run_op E C (Touch ds) = touch_files ds"
| "run_op E C (RestoreView key body) = restore_view E C key (\<lambda>result. for_each (\<lambda>m. m) (map (run_op E C) (body result)))"
| "run_op E C (StreamObjects slot lease ds) = stream_objects E C slot (\<lambda>_ _. callback (give ())) (callback (give ())) lease ds"
| "run_op E C (MaintainCapacity trigger remaining) = seq (maintain_capacity_batch trigger remaining) (\<lambda>_. give ())"
| "run_op E C MeasureUsage = seq measure_disk_usage (\<lambda>_. give ())"
| "run_op E C Recover = seq recover (\<lambda>_. give ())"

text \<open>The keys an operation may publish a file under.\<close>

primrec publishes :: "store_op \<Rightarrow> string set" where
  "publishes (OpenStore layout slot_bytes slot_count ident) = {}"
| "publishes CloseStore = {}"
| "publishes AcquireOwner = {}"
| "publishes ReserveEpoch = {}"
| "publishes (MarkerBatch limit after withdraw) = {}"
| "publishes (Acknowledge keys) = {}"
| "publishes (Evict key) = {}"
| "publishes (Quarantine key reason) = {}"
| "publishes (CommitChunk key parent n data kind) = {key}"
| "publishes (CommitStream key parent n pieces kind) = {key}"
| "publishes (ValidChunk key parent n kind) = {}"
| "publishes (Lookup key verify) = {}"
| "publishes (ScanOffers limit) = {}"
| "publishes (Touch ds) = {}"
| "publishes (RestoreView key body) = (\<Union>result. \<Union>(set (map publishes (body result))))"
| "publishes (StreamObjects slot lease ds) = {}"
| "publishes (MaintainCapacity trigger remaining) = {}"
| "publishes MeasureUsage = {}"
| "publishes Recover = {}"

lemma commit_maintains:
  assumes "e \<noteq> key"
  shows "maintains (fence_inv key) (commit_chunk E C e parent n data kind)" "maintains (fence_inv key) (commit_stream E C e parent n pieces kind)"
proof -
  show "maintains (fence_inv key) (commit_chunk E C e parent n data kind)"
    unfolding commit_chunk_def Let_def by (intro maintains_rules publish_maintains assms)
  have piece: "maintains (fence_inv key) (stream_piece E C i st view)" for i st view
    unfolding stream_piece_def Let_def by (auto split: prod.splits intro!: maintains_rules)
  have "maintains (fence_inv key) (stream_writer E C payload pieces i header)" for payload i header
    unfolding stream_writer_def Let_def
    by (intro maintains_rules piece) (auto split: prod.splits option.splits intro!: maintains_rules piece)
  then show "maintains (fence_inv key) (commit_stream E C e parent n pieces kind)"
    unfolding commit_stream_def by (intro maintains_rules publish_maintains assms)
qed

lemma valid_chunk_maintains [maintains_rules]: "maintains (fence_inv key) (valid_chunk E C e parent n kind)"
  unfolding valid_chunk_def by (intro maintains_rules) (auto split: prod.splits intro!: maintains_rules)

lemma chain_step_maintains [maintains_rules]: "maintains (fence_inv key) (chain_step E C e n)"
  unfolding chain_step_def open_reporting_def by (intro maintains_rules) (auto split: prod.splits intro!: maintains_rules)

lemma chain_maintains [maintains_rules]: "maintains (fence_inv key) (chain E C e)"
proof -
  have loop: "maintains (fence_inv key) (chain_loop E C fuel desc objects)" for fuel desc objects
    by (induction fuel arbitrary: desc objects) (auto split: option.splits intro!: maintains_rules)
  have state: "maintains (fence_inv key) (open_state E C e n)" for n
    unfolding open_state_def by (intro maintains_rules) (auto split: prod.splits intro!: maintains_rules)
  show ?thesis unfolding chain_def Let_def by (intro maintains_rules loop state)
qed

lemma lookup_maintains [maintains_rules]: "maintains (fence_inv key) (lookup E C e verify)"
proof -
  have "maintains (fence_inv key) (verify_objects E C ds)" for ds
  proof (induction ds)
    case (Cons d ds)
    show ?case by (simp only: verify_objects.simps, intro maintains_rules) (auto split: option.splits intro!: maintains_rules Cons)
  qed (simp only: verify_objects.simps maintains_basic)
  then show ?thesis unfolding lookup_def by (intro maintains_rules)
qed

lemma iter_maintains:
  assumes "\<And>acc e. maintains (fence_inv key) (f acc e)"
  shows "maintains (fence_inv key) (iter_manifest_paths f acc)"
  unfolding iter_manifest_paths_def scan_shard_def by (intro maintains_rules assms)

lemma scan_maintains: "maintains (fence_inv key) (scan_offers E C limit)"
proof -
  have "maintains (fence_inv key) (offer E C e)" for e
    unfolding offer_def by (intro maintains_rules) (auto split: prod.splits intro!: maintains_rules)
  then show ?thesis unfolding scan_offers_def by (intro maintains_rules iter_maintains)
qed

lemma reads_tree_bytes [reads_rules]: "reads_only (tree_bytes depth p)"
proof (induction depth arbitrary: p)
  case (Suc depth)
  have st: "reads_only (\<lambda>s. (Inr (f s), s))" for f :: "'a fs_scheme \<Rightarrow> int" by (simp add: reads_only_def)
  show ?case
    by (simp only: tree_bytes.simps, intro reads_rules) (auto split: option.splits node.splits intro!: reads_rules Suc st)
qed (simp add: reads_basic)

lemma usage_maintains [maintains_rules]: "maintains (fence_inv key) disk_usage_bytes"
proof -
  have "maintains (fence_inv key) (tree_bytes d p)" for d p by (rule reads_maintains) (intro reads_rules)
  then show ?thesis unfolding maintains_def disk_usage_bytes_def managed_tree_bytes_def by blast
qed

lemma try_exclusive_maintains [maintains_rules]:
  assumes "maintains (fence_inv key) m"
  shows "maintains (fence_inv key) (try_exclusive m)"
proof -
  have depth: "maintains (fence_inv key) (set_depth n)" for n
    by (rule maintainsI) (metis fence_of_disk(2) of_disk_def set_depth_disk)
  have locks: "maintains (fence_inv key) try_lock" "maintains (fence_inv key) flock"
    by (rule reads_maintains, intro reads_rules)+
  have opens: "maintains (fence_inv key) (open_rdwr p)" "maintains (fence_inv key) (open_regular p)" for p
    by (rule keeps_maintains [OF keeps_open(1) outside_empty], rule keeps_maintains [OF keeps_open(2) outside_empty])
  have "maintains (fence_inv key) (seq try_lock (\<lambda>acquired.
        if \<not> acquired then give None
        else
          seq (open_rdwr MAINTENANCE_LOCK) (\<lambda>n.
          case n of
            Regular _ \<Rightarrow>
              seq try_lock (\<lambda>shared.
              if \<not> shared then give None
              else
                ensure
                  (ensure
                    (seq (open_regular NAMESPACE_LOCK) (\<lambda>_.
                     seq try_lock (\<lambda>own. if \<not> own then give None else seq (set_depth 1) (\<lambda>_. seq m (\<lambda>x. give (Some x))))))
                    (set_depth 0))
                  flock)
          | _ \<Rightarrow> throw ValueError)))"
    by (intro maintains_rules locks opens) (auto split: node.splits intro!: maintains_rules locks opens depth assms)
  moreover have "maintains (fence_inv key) (seq (exclusive m) (\<lambda>x. give (Some x)))"
    by (intro maintains_rules assms)
  ultimately show ?thesis unfolding try_exclusive_def maintains_def by (simp split: if_splits)
qed

lemma capacity_maintains: "maintains (fence_inv key) (maintain_capacity_batch trigger remaining)"
proof -
  have pure: "maintains (fence_inv key) (\<lambda>s. (Inr (f s), s))" for f by (simp add: maintains_def)
  have "maintains (fence_inv key) (candidate acc e)" for acc e
    unfolding candidate_def
    by (cases acc) (auto split: option.splits intro!: maintains_rules pure)
  moreover have "maintains (fence_inv key) (evict_counted n e)" for n e
    unfolding evict_counted_def by (intro maintains_rules evict_maintains)
  ultimately have "maintains (fence_inv key) (collect_garbage trigger remaining)"
    unfolding collect_garbage_def Let_def
    by (intro maintains_rules iter_maintains) (auto split: prod.splits intro!: maintains_rules)
  then show ?thesis unfolding maintain_capacity_batch_def by (intro maintains_rules)
qed

lemma recover_maintains: "maintains (fence_inv key) recover"
proof -
  have loop: "maintains (fence_inv key) (recover_loop fuel removed)" for fuel removed
  proof (induction fuel arbitrary: removed)
    case (Suc fuel)
    show ?case unfolding recover_loop.simps Let_def by (intro maintains_rules Suc)
  qed (simp add: maintains_basic)
  have "maintains (fence_inv key) (\<lambda>s. seq (recover_loop (Suc (length (live s))) 0) (\<lambda>removed.
       seq (if removed \<noteq> 0 then fsync_directory [''tmp''] else give ()) (\<lambda>_. give removed)) s)"
    by (rule maintains_with_state [where f = "\<lambda>n. seq (recover_loop (Suc n) 0) (\<lambda>removed.
       seq (if removed \<noteq> 0 then fsync_directory [''tmp''] else give ()) (\<lambda>_. give removed))"]) (intro maintains_rules loop)
  then show ?thesis unfolding recover_def by (rule exclusive_maintains)
qed

lemma touch_maintains: "maintains (fence_inv key) (touch_files ds)"
  unfolding touch_files_def touch_file_def by (intro maintains_rules)

subsection \<open>Opening, owning and closing a store\<close>

text \<open>Steps that change only the memory of the process.\<close>

lemma field_maintains:
  assumes "\<And>s. live (f s) = live s \<and> durable (f s) = durable s \<and> inodes (f s) = inodes s"
  shows "maintains (fence_inv key) (\<lambda>s. (r s, f s))"
  by (rule maintainsI) (use assms fence_inodes in fastforce)

lemma choose_maintains: "maintains P m \<Longrightarrow> maintains P n \<Longrightarrow> maintains P (\<lambda>s. if b s then m s else n s)"
  by (simp add: maintains_def)

lemma pins_close_maintains [maintains_rules]: "maintains (fence_inv key) pins_close"
  unfolding pins_close_def [abs_def] by (rule field_maintains) simp

lemma check_maintains [maintains_rules]: "maintains (fence_inv key) (check b e)"
  by (rule reads_maintains) (rule reads_basic)

lemma lock_call_maintains [maintains_rules]:
  "maintains (fence_inv key) try_lock" "maintains (fence_inv key) flock" "maintains (fence_inv key) (path_is_dir p)"
  "maintains (fence_inv key) (open_rdwr p)" "maintains (fence_inv key) (open_regular p)"
  "maintains (fence_inv key) (read_small_json E p n)"
proof -
  show "maintains (fence_inv key) try_lock" "maintains (fence_inv key) flock" "maintains (fence_inv key) (path_is_dir p)"
    by (rule reads_maintains, intro reads_rules)+
  show "maintains (fence_inv key) (open_rdwr p)" "maintains (fence_inv key) (open_regular p)" "maintains (fence_inv key) (read_small_json E p n)"
    by (rule keeps_maintains [OF _ outside_empty], rule keeps_rules)+
qed

text \<open>The directories of the fence exist, so opening a root never creates them.\<close>

lemma fence_is_dir:
  assumes "fence_inv key s"
  shows "is_dir s [''state'']" "is_dir s WITHDRAWN"
proof -
  have a: "anchored s WITHDRAWN" using assms by (simp add: fence_inv_def fence_base_def)
  show "is_dir s WITHDRAWN" by (rule anchored_is_dir [OF a])
  have "anchored s [''state'']" using a by (auto simp: anchored_def WITHDRAWN_def numeral_2_eq_2)
  then show "is_dir s [''state'']" by (rule anchored_is_dir)
qed

lemma mkdir_fence_maintains: "p \<in> {[''state''], WITHDRAWN} \<Longrightarrow> maintains (fence_inv key) (os_mkdir p)"
  by (rule maintainsI) (use fence_is_dir os_mkdir_result(6) fence_same in blast)

lemma mkdir_other_maintains: "{p} \<subseteq> outside key \<Longrightarrow> maintains (fence_inv key) (os_mkdir p)"
  by (rule keeps_maintains [OF keeps_os_mkdir])

lemma managed_directory_maintains:
  assumes "maintains (fence_inv key) (os_mkdir p :: ('z fs_scheme, unit) action)"
  shows "maintains (fence_inv key) (managed_directory p :: ('z fs_scheme, unit) action)"
  unfolding managed_directory_def mkdir_existing_ok_def by (intro maintains_rules assms)

text \<open>Names in \<open>state\<close> other than the marker directory, and names of the root other than the two directories.\<close>

lemma state_names: "name \<noteq> ''inventory-withdrawn'' \<Longrightarrow> below [''state'', name] \<subseteq> outside key"
  by (auto simp: outside_def below_def inventory_withdrawal_path_def manifest_path_def WITHDRAWN_def take_Cons')

lemma root_names: "name \<notin> {''state'', ''manifests''} \<Longrightarrow> below [name] \<subseteq> outside key"
  by (auto simp: outside_def below_def inventory_withdrawal_path_def manifest_path_def WITHDRAWN_def take_Cons')

lemma temporary_name_dot: "temporary_name name nonce \<notin> {''inventory-withdrawn'', ''state'', ''manifests''}"
  by (simp add: temporary_name_def)

lemma replaced_state:
  assumes "name \<noteq> ''inventory-withdrawn''"
  shows "replaced [''state'', name] \<subseteq> outside key"
proof -
  have "below (temporary_path [''state'', name] nonce) \<subseteq> outside key" for nonce
    unfolding temporary_path_def using state_names [of "temporary_name name nonce" key] temporary_name_dot by simp
  then show ?thesis unfolding replaced_def temporaries_def using state_names [OF assms, of key] by blast
qed

lemma replaced_root:
  assumes "name \<notin> {''state'', ''manifests''}"
  shows "replaced [name] \<subseteq> outside key"
proof -
  have "below (temporary_path [name] nonce) \<subseteq> outside key" for nonce
    unfolding temporary_path_def using root_names [of "temporary_name name nonce" key] temporary_name_dot by simp
  then show ?thesis unfolding replaced_def temporaries_def using root_names [OF assms, of key] by blast
qed

lemma replaced_outside:
  "p \<in> {GENERATION_STATE, GENERATION_REQUIRED, TOKEN_FORMAT, ROOT_MARKER} \<Longrightarrow> replaced p \<subseteq> outside key"
  unfolding GENERATION_STATE_def GENERATION_REQUIRED_def TOKEN_FORMAT_def ROOT_MARKER_def
  by (elim insertE emptyE; hypsubst; rule replaced_state replaced_root; simp)

lemma small_write_maintains:
  assumes "p \<in> {GENERATION_STATE, GENERATION_REQUIRED, TOKEN_FORMAT, ROOT_MARKER}"
  shows "maintains (fence_inv key) (atomic_small_write p x)"
proof (rule maintainsI)
  fix s r s'
  assume run: "atomic_small_write p x s = (r, s')" and P: "fence_inv key s"
  have wf: "wf_fs s" using P by (simp add: fence_inv_def fence_base_def)
  have "butlast p \<in> {[], [''state'']}"
    using assms by (auto simp: GENERATION_STATE_def GENERATION_REQUIRED_def TOKEN_FORMAT_def ROOT_MARKER_def)
  then have "is_dir s (butlast p)" using fence_is_dir(1) [OF P] by (auto simp: is_dir_def)
  note k = atomic_small_write_frame [OF run wf this]
  then show "fence_inv key s'" using fence_inv_frame [OF P _ _ replaced_outside [OF assms]] by blast
qed

lemma write_state_maintains:
  "p \<in> {GENERATION_STATE, GENERATION_REQUIRED, TOKEN_FORMAT, ROOT_MARKER} \<Longrightarrow> maintains (fence_inv key) (write_state E p v)"
  unfolding write_state_def by (intro maintains_rules small_write_maintains)

lemma apart_names:
  "{MAINTENANCE_LOCK} \<subseteq> outside key" "{NAMESPACE_LOCK} \<subseteq> outside key" "{OBJECT_READS_LOCK} \<subseteq> outside key" "{INVENTORY_OWNER_LOCK} \<subseteq> outside key"
  by (auto simp: outside_def MAINTENANCE_LOCK_def NAMESPACE_LOCK_def OBJECT_READS_LOCK_def INVENTORY_OWNER_LOCK_def
      inventory_withdrawal_path_def manifest_path_def WITHDRAWN_def)

lemma lock_file_maintains:
  assumes "{p} \<subseteq> outside key"
  shows "maintains (fence_inv key) (lock_file p)" "maintains (fence_inv key) (lease_file p)"
proof -
  note create = keeps_maintains [OF keeps_open_create assms]
  show "maintains (fence_inv key) (lock_file p)"
    unfolding lock_file_def by (intro maintains_rules create) (auto split: node.splits intro!: maintains_rules)
  show "maintains (fence_inv key) (lease_file p)"
    unfolding lease_file_def by (intro maintains_rules create)
qed

lemma managed_maintains:
  assumes "name \<in> set MANAGED"
  shows "maintains (fence_inv key) (managed_directory [name])"
proof (cases "name = ''state''")
  case True
  then show ?thesis by (intro managed_directory_maintains mkdir_fence_maintains) simp
next
  case False
  then have "{[name]} \<subseteq> outside key" by (auto simp: outside_def inventory_withdrawal_path_def manifest_path_def WITHDRAWN_def)
  then show ?thesis by (intro managed_directory_maintains mkdir_other_maintains)
qed

lemma maintains_for_each_mem: "(\<And>x. x \<in> set xs \<Longrightarrow> maintains P (f x)) \<Longrightarrow> maintains P (for_each f xs)"
  by (induction xs) (simp_all add: maintains_basic maintains_seq)

lemma own_root_maintains: "maintains (fence_inv key) (own_root E)"
  unfolding own_root_def by (intro maintains_rules write_state_maintains) simp

lemma namespace_maintains: "maintains (fence_inv key) (validate_digest_marker_namespace WITHDRAWN)"
proof -
  have "maintains (fence_inv key) (validate_marker WITHDRAWN e)" for e
    unfolding validate_marker_def
    by (intro maintains_rules) (auto split: option.splits node.splits intro!: maintains_rules)
  then show ?thesis unfolding validate_digest_marker_namespace_def by (intro maintains_rules)
qed

lemma prepare_root_maintains: "maintains (fence_inv key) (prepare_root E)"
proof -
  have managed: "maintains (fence_inv key) (for_each (\<lambda>name. managed_directory [name]) MANAGED)"
    by (intro maintains_for_each_mem managed_maintains)
  have leases: "maintains (fence_inv key) (for_each lease_file [NAMESPACE_LOCK, OBJECT_READS_LOCK])"
    by (intro maintains_for_each_mem) (use lock_file_maintains(2) apart_names in auto)
  have withdrawn: "maintains (fence_inv key) (managed_directory WITHDRAWN)"
    by (intro managed_directory_maintains mkdir_fence_maintains) simp
  show ?thesis
    unfolding prepare_root_def
    by (intro maintains_rules own_root_maintains managed leases withdrawn lock_file_maintains(1) apart_names namespace_maintains)
qed

lemma key_pins_maintains: "maintains (fence_inv key) KeyPins"
proof -
  have "maintains (fence_inv key) (\<lambda>s. (Inr (), s\<lparr>rs_pins_fd := Some i\<rparr>))" for i by (rule field_maintains) simp
  then show ?thesis unfolding KeyPins_def by (intro maintains_rules)
qed

lemma backend_maintains: "maintains (fence_inv key) (initialize_payload_backend E C)"
  unfolding initialize_payload_backend_def by (intro maintains_rules small_write_maintains) simp_all

lemma open_store_maintains: "maintains (fence_inv key) (open_store E layout slot_bytes slot_count ident)"
  unfolding open_store_def
  by (intro maintains_rules prepare_root_maintains key_pins_maintains backend_maintains recover_maintains)

lemma close_store_maintains: "maintains (fence_inv key) close_store"
proof -
  have field: "maintains (fence_inv key) (\<lambda>s. (r s, s\<lparr>rs_owner := b\<rparr>))" "maintains (fence_inv key) (\<lambda>s. (r s, s\<lparr>rs_closed := b\<rparr>))"
      "maintains (fence_inv key) (\<lambda>s. (r s, s))" for r b
    by (rule field_maintains, simp)+
  have release: "maintains (fence_inv key) (seq (if b then seq (\<lambda>s. (Inr (), s\<lparr>rs_owner := False\<rparr>)) (\<lambda>_. flock) else give ()) (\<lambda>_.
        seq pins_close (\<lambda>_ s. (Inr (), s\<lparr>rs_closed := True\<rparr>))))" for b
    by (intro maintains_rules field)
  have "maintains (fence_inv key) (\<lambda>s. seq (if rs_owner s then seq (\<lambda>s. (Inr (), s\<lparr>rs_owner := False\<rparr>)) (\<lambda>_. flock) else give ()) (\<lambda>_.
        seq pins_close (\<lambda>_ s. (Inr (), s\<lparr>rs_closed := True\<rparr>))) s)"
    using release unfolding maintains_def by blast
  then show ?thesis unfolding close_store_def [abs_def] by (intro choose_maintains field)
qed

lemma owner_maintains: "maintains (fence_inv key) acquire_inventory_owner"
proof -
  have field: "maintains (fence_inv key) (\<lambda>s. (r s, s\<lparr>rs_owner := b\<rparr>))" "maintains (fence_inv key) (\<lambda>s. (r s, s))" for r b
    by (rule field_maintains, simp)+
  show ?thesis
    unfolding acquire_inventory_owner_def
    by (intro maintains_rules choose_maintains field) (auto split: node.splits intro!: maintains_rules field)
qed

lemma reserve_maintains: "maintains (fence_inv key) (reserve_inventory_generation_epoch E)"
proof -
  have cleanup: "maintains (fence_inv key) (cleanup_atomic_write_temporaries p)" if "p \<in> {GENERATION_STATE, GENERATION_REQUIRED}" for p
  proof (rule keeps_maintains [OF keeps_cleanup])
    show "temporaries p \<subseteq> outside key" using replaced_outside [of p key] that by (auto simp: replaced_def)
  qed
  have reads: "maintains (fence_inv key) (read_sentry E)" "maintains (fence_inv key) (read_previous E b)" for b
    by (rule keeps_maintains [OF _ outside_empty], rule keeps_rules)+
  show ?thesis
    unfolding reserve_inventory_generation_epoch_def reserve_epoch_def
    by (intro maintains_rules cleanup reads write_state_maintains) simp_all
qed

lemma marker_batch_maintains:
  assumes "\<And>f name. withdraw = Some f \<Longrightarrow> maintains (fence_inv key) (f name)"
  shows "maintains (fence_inv key) (inventory_withdrawal_marker_batch limit after withdraw)"
proof -
  have "maintains (fence_inv key) (case withdraw of None \<Rightarrow> give () | Some f \<Rightarrow> f name)" for name
    using assms by (auto split: option.splits intro: maintains_rules)
  then have "maintains (fence_inv key) (marked_names withdraw following)" for following
    unfolding marked_names_def by (intro maintains_rules)
  then show ?thesis unfolding inventory_withdrawal_marker_batch_def Let_def by (intro maintains_rules)
qed

subsection \<open>Restores and streams\<close>

lemma leave_restore_maintains: "maintains (fence_inv key) (leave_restore pin)" "maintains (fence_inv key) release_credit"
proof -
  show credit: "maintains (fence_inv key) release_credit" unfolding release_credit_def [abs_def] by (rule field_maintains) simp
  have "maintains (fence_inv key) (pins_release n)" for n unfolding pins_release_def [abs_def] by (rule field_maintains) simp
  then show "maintains (fence_inv key) (leave_restore pin)"
    unfolding leave_restore_def by (intro maintains_rules field_maintains credit) simp_all
qed

lemma restore_view_maintains:
  assumes "\<And>result. maintains (fence_inv key) (body result)"
  shows "maintains (fence_inv key) (restore_view E C e body)"
proof (rule maintainsI)
  fix s r s'
  assume run: "restore_view E C e body s = (r, s')" and P: "fence_inv key s"
  have acquire: "maintains (fence_inv key) (pins_acquire ks)" for ks
    unfolding pins_acquire_def by (intro maintains_rules field_maintains) simp
  have enter: "maintains (fence_inv key) (restore_enter E C e)"
    unfolding restore_enter_def by (intro maintains_rules acquire field_maintains) simp
  show "fence_inv key s'"
  proof (cases "rs_restore_credits s \<le> 0")
    case False
    obtain q s1 where q: "restore_enter E C e (s\<lparr>rs_restore_credits := rs_restore_credits s - 1\<rparr>) = (q, s1)" by (rule prod.exhaust)
    have "fence_inv key (s\<lparr>rs_restore_credits := rs_restore_credits s - 1\<rparr>)" by (rule fence_inodes [OF P]) simp_all
    then have P1: "fence_inv key s1" by (rule maintainsD [OF enter q])
    show ?thesis
    proof (cases q)
      case (Inl x)
      have "maintains (fence_inv key) (seq (if fresh_fd s \<in> fst ` set (rs_pins s1) then leave_restore (fresh_fd s) else release_credit) (\<lambda>_. throw x :: ('a rank_store_scheme, 'b) action))"
        by (intro maintains_rules leave_restore_maintains)
      then show ?thesis using run q Inl False P1 maintainsD by (fastforce simp: restore_view_def)
    next
      case (Inr p)
      obtain pin result where p: "p = (pin, result)" by force
      have "maintains (fence_inv key) (ensure (seq (body result) (\<lambda>x.
               seq (if lk_is_hit result then touch_files (restore_objects result) else give ()) (\<lambda>_. give x))) (leave_restore pin))"
        by (intro maintains_rules assms touch_maintains leave_restore_maintains)
      then show ?thesis using run q Inr p False P1 maintainsD by (fastforce simp: restore_view_def)
    qed
  qed (use run P in \<open>simp add: restore_view_def\<close>)
qed

lemma stream_maintains:
  assumes receive: "\<And>d view. maintains (fence_inv key) (receive d view)" and complete: "maintains (fence_inv key) on_complete"
  shows "maintains (fence_inv key) (stream_objects E C slot receive on_complete lease ds)"
proof -
  have read: "maintains (fence_inv key) (read_into i pos n)" for i pos n by (rule reads_maintains) (rule reads_rules)
  have small: "maintains (fence_inv key) (stream_small E C receive d)" for d
    unfolding stream_small_def by (intro maintains_rules) (auto split: prod.splits intro!: maintains_rules read receive)
  have batch: "maintains (fence_inv key) (stream_batch (stream_small E C receive) ds)" for ds
    by (induction ds) (simp_all only: stream_batch.simps, (intro maintains_rules small | auto split: option.splits intro!: maintains_rules)+)
  have run_batch: "maintains (fence_inv key) (run_batch E C receive on_complete ds)" for ds
  proof (rule maintainsI)
    fix s r s'
    assume run: "run_batch E C receive on_complete ds s = (r, s')" and P: "fence_inv key s"
    obtain q s1 where q: "stream_batch (stream_small E C receive) ds s = (q, s1)" by (rule prod.exhaust)
    have P1: "fence_inv key s1" by (rule maintainsD [OF batch q P])
    have failed: "maintains (fence_inv key) (seq on_complete (\<lambda>_. throw e :: ('a rank_store_scheme, unit) action))"
      "maintains (fence_inv key) (seq (exclusive (quarantine_bad k)) (\<lambda>_. throw e :: ('a rank_store_scheme, unit) action))" for e k
      by (intro maintains_rules complete)+
    show "fence_inv key s'"
      using run q P1 maintainsD [OF complete] maintainsD [OF failed(1)] maintainsD [OF failed(2)]
      unfolding run_batch_def by (fastforce split: sum.splits option.splits prod.splits)
  qed
  have blocks: "maintains (fence_inv key) (stream_blocks E C (receive d) on_complete i pos remaining acc hs)" for d i pos remaining acc hs
    by (induction hs arbitrary: pos remaining acc) (simp_all only: stream_blocks.simps Let_def, (intro maintains_rules read receive complete | assumption)+)
  have large: "maintains (fence_inv key) (stream_large_object E C receive on_complete d)" for d
    unfolding stream_large_object_def
    by (intro maintains_rules) (auto split: prod.splits intro!: maintains_rules blocks)
  have files: "maintains (fence_inv key) (stream_files E C slot receive on_complete ds)" for ds
  proof (induction "length ds" arbitrary: ds rule: less_induct)
    case less
    show ?case
    proof (cases ds)
      case (Cons d rest)
      have "maintains (fence_inv key) (stream_files E C slot receive on_complete rest)" using less Cons by simp
      moreover have "maintains (fence_inv key) (stream_files E C slot receive on_complete (drop (length (first_batch slot ds)) ds))"
        by (rule less) (simp add: first_batch_def Cons)
      ultimately show ?thesis
        unfolding stream_files.simps [of E C slot receive on_complete ds]
        by (simp only: Cons list.case) (intro maintains_rules large run_batch; simp)
    qed (simp add: stream_files.simps maintains_basic)
  qed
  show ?thesis
    unfolding stream_objects_def [abs_def] by (intro choose_maintains field_maintains files) simp_all
qed

lemma measure_maintains: "maintains (fence_inv key) measure_disk_usage"
proof -
  have "maintains (fence_inv key) (tree_bytes d p)" for d p by (rule reads_maintains) (intro reads_rules)
  then have "maintains (fence_inv key) (managed_tree_bytes p)" for p
    unfolding maintains_def managed_tree_bytes_def by blast
  then show ?thesis unfolding measure_disk_usage_def by (intro maintains_rules)
qed

lemma callback_maintains: "maintains (fence_inv key) (callback (give ()))"
  by (rule maintains_callback [OF fence_of_disk(2) maintains_basic(1)])

subsection \<open>Every operation\<close>

lemma run_op_maintains:
  "key \<notin> publishes op \<Longrightarrow> maintains (fence_inv key) (run_op E C op :: ('z rank_store_scheme, unit) action)"
proof (induction op)
  case (MarkerBatch limit after withdraw)
  then show ?case by (simp only: run_op.simps) (intro maintains_rules marker_batch_maintains; auto intro: callback_maintains split: if_splits)
next
  case (Quarantine e reason)
  then show ?case unfolding run_op.simps seq_checked by (intro maintains_rules quarantine_maintains)
next
  case (CommitChunk e parent n data kind)
  then have "e \<noteq> key" by auto
  then show ?case unfolding run_op.simps by (intro maintains_rules commit_maintains)
next
  case (CommitStream e parent n pieces kind)
  then have "e \<noteq> key" by auto
  then show ?case unfolding run_op.simps by (intro maintains_rules commit_maintains)
next
  case (RestoreView e body)
  have "maintains (fence_inv key) m" if "m \<in> set (map (run_op E C) (body result))"
    for m :: "('z rank_store_scheme, unit) action" and result
    using RestoreView.IH [OF rangeI, of _ result] RestoreView.prems that by fastforce
  then show ?case unfolding run_op.simps by (intro restore_view_maintains maintains_for_each_mem)
qed (simp_all only: run_op.simps, (intro maintains_rules evict_maintains acknowledge_maintains scan_maintains touch_maintains
  capacity_maintains recover_maintains open_store_maintains close_store_maintains owner_maintains reserve_maintains
  stream_maintains measure_maintains callback_maintains)+)

section \<open>Withdrawn for good\<close>

text \<open>A key whose file is live and whose marker is settled is fenced.\<close>

lemma fence_established:
  assumes "wf_fs s" and "anchored s WITHDRAWN" and "settled s (inventory_withdrawal_path key) (Some Directory)"
    and "live_at s (manifest_path key) \<noteq> None"
  shows "fence_inv key s"
  using assms treeD(2) [OF wf_fsD(2) [OF assms(1)], of "manifest_path key"]
  by (auto simp: fence_inv_def fence_base_def fenced_def shard_kept_def key_paths)

lemma marked_state:
  assumes mark: "mark_inventory_withdrawn key s = (Inr u, s1)" and rec: "record_withdrawal key s1 = (r, s2)"
    and s: "wf_fs s" "anchored s WITHDRAWN"
  shows "wf_fs s2" "anchored s2 WITHDRAWN" "settled s2 (inventory_withdrawal_path key) (Some Directory)"
    "live_at s2 (manifest_path key) = live_at s (manifest_path key)"
proof -
  note m = mark [unfolded mark_inventory_withdrawn_def]
  note k1 = keepsD [OF keeps_marker(2) m s(1) order_refl]
  note k2 = keepsD [OF keeps_record(2) [where N = "{}"] rec k1(1) order_refl]
  have n: "[''state''] \<notin> {inventory_withdrawal_path key}" "WITHDRAWN \<notin> {inventory_withdrawal_path key}"
      "manifest_path key \<notin> {inventory_withdrawal_path key}"
    by (simp_all add: inventory_withdrawal_path_def manifest_path_def WITHDRAWN_def)
  show "wf_fs s2" by (rule k2(1))
  show "anchored s2 WITHDRAWN"
    by (rule anchored_withdrawn_frame [OF k2(2) anchored_withdrawn_frame [OF k1(2) s(2) n(1,2)]]) simp_all
  show "settled s2 (inventory_withdrawal_path key) (Some Directory)"
    by (rule settled_frame [OF k2(2) _ mark_spec(1) [OF m key_paths(1) refl]]) simp
  show "live_at s2 (manifest_path key) = live_at s (manifest_path key)"
    using k1(2) k2(2) n(3) by (auto simp: frame_of_def)
qed

lemma path_exists_Inr:
  assumes "path_exists p s = (Inr b, s')"
  shows "same_disk s s'" "b \<Longrightarrow> live_at s p \<noteq> None"
  using assms unfolding path_exists_def by (cases rule: syscall_cases; auto simp: same_disk_def split: option.splits)+

lemma evict_fences:
  assumes run: "evict key s = (Inr True, s')" and s: "wf_fs s" "anchored s WITHDRAWN"
  shows "fence_inv key s'"
  using run unfolding evict_def
proof (cases rule: exclusive_cases)
  case (ran s1 r1 s2)
  have s1: "wf_fs s1" "anchored s1 WITHDRAWN" using s disk_eqD [OF ran(1)] by simp_all
  have "evict_locked key s1 = (Inr True, s2)" using ran(2,4) by auto
  then obtain t0 t1 t2 t3 u1 u2 where t: "pins_busy key s1 = (Inr False, t0)" "path_exists (manifest_path key) t0 = (Inr True, t1)"
      "mark_inventory_withdrawn key t1 = (Inr u1, t2)" "record_withdrawal key t2 = (Inr u2, t3)"
      and rest: "seq (os_unlink (manifest_path key)) (\<lambda>_. seq (fsync_directory (butlast (manifest_path key))) (\<lambda>_. give True)) t3 = (Inr True, s2)"
    unfolding evict_locked_def seq_checked by (auto simp: seq_Inr split: if_splits)
  have sd: "same_disk s1 t1" using reads_onlyD [OF reads_pins_busy t(1)] path_exists_Inr(1) [OF t(2)] same_disk_trans by blast
  have t1: "wf_fs t1" "anchored t1 WITHDRAWN" "live_at t1 (manifest_path key) \<noteq> None"
    using s1 disk_eqD [OF same_disk_eq [OF sd]] path_exists_Inr [OF t(2)] by (simp_all add: same_disk_def)
  have "fence_inv key t3" using fence_established marked_state [OF t(3,4) t1(1,2)] t1(3) by metis
  moreover have "maintains (fence_inv key) (seq (os_unlink (manifest_path key)) (\<lambda>_. seq (fsync_directory (butlast (manifest_path key))) (\<lambda>_. give True)))"
    by (intro maintains_rules)
  ultimately have "fence_inv key s2" using rest maintainsD by blast
  then show ?thesis using ran(3) fence_of_disk(2) unfolding of_disk_def by blast
qed simp

lemma withdraw_entry_None:
  assumes "withdraw_entry e s = (Inr None, s')" and "is_digest e"
  obtains u v s1 where "mark_inventory_withdrawn e s = (Inr u, s1)" "record_withdrawal e s1 = (Inr v, s')"
proof -
  obtain e1 e2 s1 where a: "attempt (mark_inventory_withdrawn e) s = (Inr e1, s1)" "attempt (record_withdrawal e) s1 = (Inr e2, s')"
      "first_error e1 e2 = None"
    using assms unfolding withdraw_entry_def by (auto simp: seq_Inr)
  then have "e1 = None" "e2 = None" by (auto simp: first_error_def split: option.splits)
  then show ?thesis using a that by (auto simp: attempt_None)
qed

lemma moved_needs_file:
  assumes "move_away (manifest_path e) nonce s = (Inr True, s')"
  shows "live_at s (manifest_path e) \<noteq> None"
proof -
  obtain u where "os_replace (manifest_path e) (quarantine_path (manifest_path e) nonce) s = (Inr u, s')"
    using assms unfolding move_away_def by (auto simp: seq_Inr elim!: except_cases)
  then show ?thesis unfolding os_replace_def by (cases rule: syscall_cases) (auto simp: same_disk_def split: option.splits)
qed

lemma quarantine_fences:
  assumes run: "quarantine_manifest (manifest_path key) reason s = (Inr True, s')" and key: "is_digest key"
    and s: "wf_fs s" "anchored s WITHDRAWN"
  shows "fence_inv key s'"
proof -
  have stem: "path_stem (last (manifest_path key)) = key" using key by (intro stem_manifest) (auto simp: is_digest_def)
  have "exclusive (quarantine_locked (manifest_path key) reason) s = (Inr True, s')"
    using run by (auto simp: quarantine_manifest_def split: if_splits)
  then show ?thesis
  proof (cases rule: exclusive_cases)
    case (ran s1 r1 s2)
    have s1: "wf_fs s1" "anchored s1 WITHDRAWN" using s disk_eqD [OF ran(1)] by simp_all
    have "quarantine_locked (manifest_path key) reason s1 = (Inr True, s2)" using ran(2,4) by auto
    then obtain werr t1 where w: "withdraw_entry key s1 = (Inr werr, t1)" and tail: "quarantine_tail key reason werr t1 = (Inr True, s2)"
      unfolding quarantine_locked_eq stem seq_Inr by blast
    obtain nonce t2 t3 where n: "uuid4 t1 = (Inr nonce, t2)" "move_away (manifest_path key) nonce t2 = (Inr True, t3)"
        and moved: "quarantine_moved (manifest_path key) reason werr t3 = (Inr True, s2)"
      using tail unfolding quarantine_tail_def by (auto simp: seq_Inr split: if_splits)
    have "werr = None"
      using moved unfolding quarantine_moved_def by (auto simp: seq_Inr first_error_def split: if_splits option.splits)
    then obtain u v t0 where m: "mark_inventory_withdrawn key s1 = (Inr u, t0)" "record_withdrawal key t0 = (Inr v, t1)"
      using w withdraw_entry_None [OF _ key] by blast
    have "live_at t1 (manifest_path key) \<noteq> None"
      using moved_needs_file [OF n(2)] reads_onlyD [OF reads_environment(1) n(1)] by (simp add: same_disk_def)
    then have "fence_inv key t1" using fence_established marked_state [OF m s1] by metis
    then have "fence_inv key s2" by (rule quarantine_tail_maintains [OF tail _ key])
    then show ?thesis using ran(3) fence_of_disk(2) unfolding of_disk_def by blast
  qed simp
qed

lemma open_chunk_Inr:
  assumes "open_chunk E C key False s = (Inr (i, desc), s')"
  shows "live_at s (inventory_withdrawal_path key) = None" "live_at s (manifest_path key) = Some (Regular i)" "td_key desc = key"
proof -
  obtain s1 s2 s3 n where r: "inventory_is_withdrawn key s = (Inr False, s1)" "is_symlink (butlast (manifest_path key)) s1 = (Inr False, s2)"
      "open_read (manifest_path key) s2 = (Inr n, s3)"
      and f: "(case n of Regular i \<Rightarrow> seq (fstat i) (\<lambda>metadata.
             seq (read_frame E C key i (int (length (in_data metadata)))) (\<lambda>desc. give (i, desc))) | _ \<Rightarrow> throw ManifestError) s3 = (Inr (i, desc), s')"
    using assms unfolding open_chunk_def seq_checked by (auto simp: seq_Inr split: if_splits)
  obtain m s4 where f: "n = Regular i" "fstat i s3 = (Inr m, s4)" "read_frame E C key i (int (length (in_data m))) s4 = (Inr desc, s')"
    using f by (cases n) (auto simp: seq_Inr)
  have "same_disk s s2"
    using reads_onlyD [OF reads_marker r(1) [unfolded inventory_is_withdrawn_def]] reads_onlyD [OF reads_calls(4) r(2)] same_disk_trans by blast
  then show "live_at s (manifest_path key) = Some (Regular i)" using open_read_Inr(2) [OF r(3)] f(1) by (simp add: same_disk_def)
  show "live_at s (inventory_withdrawal_path key) = None"
    using present_result [OF r(1) [unfolded inventory_is_withdrawn_def]] by simp
  obtain d n off c where "describe C key d n off c = Inr desc"
    using f(3) unfolding read_frame_def Let_def by (auto simp: seq_Inr seq_lift split: if_splits sum.splits)
  then show "td_key desc = key" by (auto simp: describe_def Let_def and_then_Inr_iff)
qed

lemma open_chunk_fenced: "fence_inv key s \<Longrightarrow> open_chunk E C key False s = (r, s') \<Longrightarrow> \<exists>e. r = Inl e"
  using open_chunk_Inr(1,2) [of E C key s]
  by (cases r) (auto simp: fence_inv_def fence_base_def fenced_def settled_def)


lemma chain_fenced:
  assumes "fence_inv key s" and "chain E C key s = (r, s')"
  shows "\<exists>e. r = Inl e"
proof -
  have report: "\<exists>e. q = Inl e" if "open_reporting E C key s = (q, t)" for q t
    using that unfolding open_reporting_def
  proof (cases rule: except_cases)
    case pass
    then show ?thesis by (cases rule: seq_cases) (use open_chunk_fenced [OF assms(1)] in blast)+
  qed (auto elim!: seq_cases split: if_splits)
  have step: "\<exists>e. q = Inl e" if "chain_step E C key None s = (q, t)" for q t
    using that unfolding chain_step_def by (cases rule: seq_cases) (use report in blast)+
  show ?thesis using assms(2) unfolding chain_def by (cases rule: seq_cases) (use step in blast)+
qed

lemma lookup_fenced:
  assumes "fence_inv key s" and "lookup E C key verify s = (Inr x, s')"
  shows "x = lookup_miss ''token_chain''"
  using assms(2) unfolding lookup_def
proof (cases rule: exclusive_cases)
  case (ran s1 r1 s2)
  have inv: "fence_inv key s1" using fence_of_disk(2) assms(1) ran(1) unfolding of_disk_def by blast
  have "r1 = Inr x" using ran(4) by blast
  then obtain s3 m where "s3 = s1" and run: "except file_error (seq (chain E C key) m) (\<lambda>_. give (lookup_miss ''token_chain'')) s3 = (Inr x, s2)"
    using ran(2) unfolding seq_checked by (auto simp: seq_Inr ensure_open_def split: if_splits)
  then show ?thesis using chain_fenced [OF inv] by (auto elim!: except_cases seq_cases)
qed simp

text \<open>What holds of the state and of the carried value before every turn of a loop holds at its end.\<close>

lemma fold_action_inv:
  assumes step: "\<And>b x s b' s'. P s \<Longrightarrow> Q b \<Longrightarrow> f b x s = (Inr b', s') \<Longrightarrow> P s' \<and> Q b'"
    and "P s" "Q b" "fold_action f b xs s = (Inr b', s')"
  shows "P s' \<and> Q b'"
  using assms(2-)
proof (induction xs arbitrary: b s)
  case (Cons x xs)
  then obtain b1 s1 where "f b x s = (Inr b1, s1)" "fold_action f b1 xs s1 = (Inr b', s')" by (auto simp: seq_Inr)
  then show ?case using step Cons by blast
qed simp

lemma offer_fenced:
  assumes "fence_inv key s" and "offer E C e s = (Inr (Some y), s')"
  shows "mo_entry_id y \<noteq> key"
proof -
  obtain i desc t where t: "open_chunk E C e False s = (Inr (i, desc), t)" and y: "mo_entry_id y = td_key desc"
    using assms(2) unfolding offer_def by (auto elim!: except_cases simp: seq_Inr)
  have "e \<noteq> key" using open_chunk_fenced [OF assms(1), of E C] t by auto
  then show ?thesis using open_chunk_Inr(3) [OF t] y by simp
qed

lemma scan_fenced:
  fixes s :: "'z rank_store_scheme"
  assumes "fence_inv key s" and "scan_offers E C limit s = (Inr offers, s')"
  shows "key \<notin> mo_entry_id ` set offers"
proof -
  define turn :: "manifest_offer list \<Rightarrow> string \<Rightarrow> ('z rank_store_scheme, manifest_offer list) action"
    where "turn = (\<lambda>offers e. seq (offer E C e) (\<lambda>x. give (case x of None \<Rightarrow> offers | Some y \<Rightarrow> offers @ [y])))"
  define Q where "Q = (\<lambda>found :: manifest_offer list. key \<notin> mo_entry_id ` set found)"
  have m: "maintains (fence_inv key) (offer E C e)" for e
    unfolding offer_def by (intro maintains_rules) (auto split: prod.splits intro!: maintains_rules)
  have turn: "fence_inv key t' \<and> Q b'" if t: "fence_inv key t" "Q b" "turn b e t = (Inr b', t')" for t b e b' t'
  proof -
    obtain x where x: "offer E C e t = (Inr x, t')" "b' = (case x of None \<Rightarrow> b | Some y \<Rightarrow> b @ [y])"
      using t(3) unfolding turn_def by (auto simp: seq_Inr)
    then show ?thesis using t(2) offer_fenced [OF t(1), of E C e _ t'] maintainsD [OF m x(1) t(1)] by (fastforce simp: Q_def split: option.splits)
  qed
  have shard: "fence_inv key t' \<and> Q b'" if t: "fence_inv key t" "Q b" "scan_shard turn b e t = (Inr b', t')" for t b e b' t'
  proof -
    obtain names t1 t2 u where u: "is_symlink [''manifests'', e] t = (Inr u, t1)"
        "except not_found (seq (scandir [''manifests'', e]) (\<lambda>names. give names)) (\<lambda>_. give []) t1 = (Inr names, t2)"
        "fold_action turn b (List.map_filter (manifest_key e) names) t2 = (Inr b', t')"
      using t(3) unfolding scan_shard_def by (auto simp: seq_Inr split: if_splits)
    have m: "maintains (fence_inv key) (is_symlink [''manifests'', e])"
        "maintains (fence_inv key) (except not_found (seq (scandir [''manifests'', e]) (\<lambda>names. give names)) (\<lambda>_. give []))"
      by (intro maintains_rules)+
    have "fence_inv key t2" by (rule maintainsD [OF m(2) u(2) maintainsD [OF m(1) u(1) t(1)]])
    then show ?thesis using t(2) u(3) by (rule fold_action_inv [where P = "fence_inv key" and Q = Q and f = turn, rotated]) (rule turn)
  qed
  have "exclusive (seq (iter_manifest_paths turn []) (\<lambda>offers. give (take (nat limit) (sort_key (\<lambda>x. (mo_span_tokens x, mo_entry_id x)) offers)))) s = (Inr offers, s')"
    using assms(2) unfolding scan_offers_def turn_def seq_lift by (auto split: sum.splits)
  then show ?thesis
  proof (cases rule: exclusive_cases)
    case (ran s1 r1 s2)
    have inv: "fence_inv key s1" using fence_of_disk(2) assms(1) ran(1) unfolding of_disk_def by blast
    obtain found where found: "iter_manifest_paths turn [] s1 = (Inr found, s2)"
        "offers = take (nat limit) (sort_key (\<lambda>x. (mo_span_tokens x, mo_entry_id x)) found)"
      using ran(2,4) by (auto simp: seq_Inr)
    have "Q found"
      by (rule conjunct2, rule fold_action_inv [where P = "fence_inv key" and Q = Q and f = "scan_shard turn", OF _ inv _ found(1) [unfolded iter_manifest_paths_def]])
        (rule shard, simp_all add: Q_def)
    then show ?thesis unfolding found(2) Q_def using set_take_subset [of "nat limit"] by fastforce
  qed simp
qed

text \<open>
  The life of a key after its withdrawal: an eviction or a quarantine has returned, then any
  operations but a publication under that key run, under any configuration and each with whatever
  faults and power losses the environment decides; the process or the machine restarts at any time;
  and anything else happens, in memory or to other names of the disk, that leaves alone the marker
  and the file of the key, its shard directory and the two directories above the marker.
\<close>

inductive withdrawn_run :: "string \<Rightarrow> 'z rank_store_scheme \<Rightarrow> bool" for key where
  evicted: "evict key s = (Inr True, s') \<Longrightarrow> wf_fs s \<Longrightarrow> anchored s WITHDRAWN \<Longrightarrow> withdrawn_run key s'"
| quarantined: "quarantine_manifest (manifest_path key) reason s = (Inr True, s') \<Longrightarrow> is_digest key \<Longrightarrow> wf_fs s \<Longrightarrow> anchored s WITHDRAWN
    \<Longrightarrow> withdrawn_run key s'"
| operated: "withdrawn_run key s \<Longrightarrow> key \<notin> publishes op \<Longrightarrow> run_op E C op s = (r, s') \<Longrightarrow> withdrawn_run key s'"
| restart: "withdrawn_run key s \<Longrightarrow> restarted s s' \<Longrightarrow> withdrawn_run key s'"
| other: "withdrawn_run key s \<Longrightarrow> wf_fs s' \<Longrightarrow> frame_of N k s s' \<Longrightarrow> N \<subseteq> outside key \<Longrightarrow> withdrawn_run key s'"

lemma withdrawn_run_fenced: "withdrawn_run key s \<Longrightarrow> fence_inv key s"
proof (induction rule: withdrawn_run.induct)
  case (operated s op E C r s')
  then show ?case using run_op_maintains maintainsD by blast
qed (auto intro: evict_fences quarantine_fences fence_restarted fence_inv_frame)

text \<open>
  C28: A withdrawn entry stays withdrawn.  After an eviction or a quarantine of a key has returned
  success, no sequence of store operations other than a new publication of the same key makes the old
  file readable again: not opening, closing and reopening the store with the preparation of its root,
  restore views with any body, streaming, marker batches, acknowledgements, epoch reservation, capacity
  batches, recovery, scans, lookups, evictions, quarantines or publications of other keys, with any
  faults, power losses and restarts and any activity on other names in between.  Opening the key
  raises, a lookup that returns is a miss, and no inventory scan offers it.
\<close>

theorem withdrawn_stays_withdrawn:
  assumes "withdrawn_run key s"
  shows "(\<forall>i desc. fst (open_chunk E C key False s) \<noteq> Inr (i, desc))
     \<and> (\<forall>verify x. fst (lookup E C key verify s) = Inr x \<longrightarrow> \<not> lk_is_hit x)
     \<and> (\<forall>limit offers. fst (scan_offers E C limit s) = Inr offers \<longrightarrow> key \<notin> mo_entry_id ` set offers)"
proof -
  note inv = withdrawn_run_fenced [OF assms]
  have "\<not> lk_is_hit x" if "fst (lookup E C key verify s) = Inr x" for verify x
    using lookup_fenced [OF inv, of E C verify x "snd (lookup E C key verify s)"] that by (simp add: prod_eq_iff lookup_miss_def)
  moreover have "key \<notin> mo_entry_id ` set offers" if "fst (scan_offers E C limit s) = Inr offers" for limit offers
    using scan_fenced [OF inv, of E C limit offers "snd (scan_offers E C limit s)"] that by (simp add: prod_eq_iff)
  moreover have "fst (open_chunk E C key False s) \<noteq> Inr (i, desc)" for i desc
    using open_chunk_fenced [OF inv, of E C] by (cases "open_chunk E C key False s") auto
  ultimately show ?thesis by blast
qed

definition sample_key :: string where
  "sample_key = replicate 64 (CHR ''a'')"

definition sample_tree :: "(path, node) dict" where
  "sample_tree = [([''state''], Directory), (WITHDRAWN, Directory), ([''manifests''], Directory), ([''manifests'', ''aa''], Directory),
     (MAINTENANCE_LOCK, Regular 0), (NAMESPACE_LOCK, Regular 1), (manifest_path sample_key, Regular 2),
     (OBJECT_READS_LOCK, Regular 3)]"

definition sample_cached :: rank_store where
  "sample_cached = sample_store\<lparr>live := sample_tree, durable := sample_tree,
     rs_pins_fd := Some 3,
     inodes := replicate 4 \<lparr>in_data = [], in_synced = True, in_mtime = 0\<rparr>, schedule := []\<rparr>"

definition sample_evicted :: rank_store where
  "sample_evicted = snd (evict sample_key sample_cached)"

lemma sample_evicts: "fst (evict sample_key sample_cached) = Inr True"
  by code_simp

text \<open>The eviction returns, then the process is killed and another one looks the key up.\<close>

lemma sample_cached_run: "withdrawn_run sample_key (sample_evicted\<lparr>schedule := [PowerLoss]\<rparr>)"
proof (rule withdrawn_run.restart [OF withdrawn_run.evicted])
  show "evict sample_key sample_cached = (Inr True, sample_evicted)" by (simp add: prod_eq_iff sample_evicts sample_evicted_def)
  show "restarted sample_evicted (sample_evicted\<lparr>schedule := [PowerLoss]\<rparr>)" by (simp add: restarted_def process_restarted_def)
  have m: "live sample_cached = sample_tree" "durable sample_cached = sample_tree" "length (inodes sample_cached) = 4"
    by (simp_all add: sample_cached_def sample_store_def fs.defs)
  have names: "sample_tree = [([''state''], Directory), ([''state'', ''inventory-withdrawn''], Directory), ([''manifests''], Directory), ([''manifests'', ''aa''], Directory),
     (MAINTENANCE_LOCK, Regular 0), (NAMESPACE_LOCK, Regular 1), ([''manifests'', ''aa'', sample_key @ ''.kv''], Regular 2), (OBJECT_READS_LOCK, Regular 3)]"
    by (simp add: sample_tree_def manifest_path_def WITHDRAWN_def) (simp add: sample_key_def numeral_eq_Suc)
  show "wf_fs sample_cached"
    unfolding wf_fs_def tree_def m names
    by (auto simp: m sample_cached_def MAINTENANCE_LOCK_def NAMESPACE_LOCK_def OBJECT_READS_LOCK_def split: if_splits)
  show "anchored sample_cached WITHDRAWN"
    unfolding anchored_def m names WITHDRAWN_def by (auto simp: take_Cons' MAINTENANCE_LOCK_def NAMESPACE_LOCK_def OBJECT_READS_LOCK_def)
qed

theorem withdrawn_stays_withdrawn_witness:
  "\<forall>C. withdrawn_run sample_key (sample_evicted\<lparr>schedule := [PowerLoss]\<rparr>)
     \<and> (\<forall>desc. fst (open_chunk sample_platform C sample_key False (sample_evicted\<lparr>schedule := [PowerLoss]\<rparr>)) \<noteq> Inr (2, desc))"
proof
  fix C
  show "withdrawn_run sample_key (sample_evicted\<lparr>schedule := [PowerLoss]\<rparr>)
     \<and> (\<forall>desc. fst (open_chunk sample_platform C sample_key False (sample_evicted\<lparr>schedule := [PowerLoss]\<rparr>)) \<noteq> Inr (2, desc))"
    using sample_cached_run withdrawn_stays_withdrawn [OF sample_cached_run, of sample_platform C] by blast
qed

end
