(* ===== verification/Token_Reads.thy ===== *)
theory Token_Reads
  imports Withdrawal_Safety
begin

text \<open>
  What a reader of the token store may rely on: the bytes behind a validated file, and the chain of
  files behind a lookup that hits.
\<close>

section \<open>Opened files\<close>

text \<open>A descriptor of a data file, and of a boundary-state file, as the header checks leave it.\<close>

definition data_node :: "token_config \<Rightarrow> token_file_descriptor \<Rightarrow> bool" where
  "data_node C d \<longleftrightarrow> td_kind d = ''data'' \<and> 0 < td_span_tokens d \<and> tc_chunk_tokens C dvd td_span_tokens d
     \<and> (td_span_tokens d = tc_chunk_tokens C \<longrightarrow> td_parent d = None)
     \<and> (tc_chunk_tokens C < td_span_tokens d \<longrightarrow> (\<exists>p. td_parent d = Some p \<and> is_digest p))"

definition from_header :: "token_config \<Rightarrow> string \<Rightarrow> token_file_descriptor \<Rightarrow> bool" where
  "from_header C key d \<longleftrightarrow> td_key d = key \<and> is_digest key \<and> 0 < td_byte_length d \<and> (td_kind d = ''data'' \<longrightarrow> data_node C d)
     \<and> td_segments d = Derived \<lparr>ts_layout = tc_layout C, ts_span_tokens = td_span_tokens d, ts_chunk_tokens = tc_chunk_tokens C, ts_kind = td_kind d\<rparr>"

lemma positive_Inr: "positive v m = Inr n \<longleftrightarrow> v = PyInt n \<and> 0 < n \<and> n \<le> m"
  by (cases v) (auto simp: positive_def)

lemma lookup_key_Inr: "lookup_key d k = Inr v \<longleftrightarrow> dict_get d k = Some v"
  by (auto simp: lookup_key_def split: option.splits)

lemma as_manifest_error_Inr: "as_manifest_error r = Inr x \<longleftrightarrow> r = Inr x"
  by (auto simp: as_manifest_error_def split: sum.splits if_splits)

lemma decoded_fields:
  assumes "decode_header E C key encoded = Inr d" and "describe C key d len off c = Inr desc" and "0 < len"
  shows "from_header C key desc"
proof -
  obtain v where v: "json_loads (pf_codec E) (pf_limit E) encoded = Inr v"
    using assms(1) unfolding decode_header_def as_manifest_error_Inr and_then_Inr_iff by blast
  obtain parent span_v digest kind blocks expected where d: "dict_get d ''parent'' = Some parent" "dict_get d ''span_tokens'' = Some span_v"
      "dict_get d ''kind'' = Some kind"
      and h: "header_payload E C key parent span_v digest kind blocks = Inr expected"
    using assms(1) unfolding decode_header_def as_manifest_error_Inr v
    by (cases v) (auto simp: lookup_key_Inr and_then_Inr_iff split: if_split_asm)
  obtain n k where n: "span_v = PyInt n" "0 < n" "n mod tc_chunk_tokens C = 0" "is_digest key" "check_kind E C key parent n kind = Inr k"
    using h unfolding header_payload_def by (auto simp: and_then_Inr_iff positive_Inr split: if_splits)
  have fields: "td_key desc = key" "td_span_tokens desc = n" "td_parent desc = as_str parent" "td_kind desc = string_of kind" "td_byte_length desc = len"
      "td_segments desc = Derived \<lparr>ts_layout = tc_layout C, ts_span_tokens = n, ts_chunk_tokens = tc_chunk_tokens C, ts_kind = string_of kind\<rparr>"
    using assms(2) unfolding describe_def Let_def segments_def by (auto simp: and_then_Inr_iff d n(1) split: if_splits)
  have "data_node C desc" if "td_kind desc = ''data''"
  proof -
    have "kind = PyStr ''data''" using that n(5) fields(4) by (auto simp: check_kind_def string_of_def and_then_Inr_iff split: if_splits)
    then have "(n = tc_chunk_tokens C \<longrightarrow> parent = PyNone) \<and> (tc_chunk_tokens C < n \<longrightarrow> is_digest_value parent)"
      using n(5) by (auto simp: check_kind_def split: if_splits)
    then show ?thesis using n fields that by (auto simp: data_node_def is_digest_value_def split: option.splits)
  qed
  then show ?thesis using fields n(4) assms(3) by (simp add: from_header_def)
qed

lemma read_frame_Inr:
  assumes "read_frame E C key i st_size s = (Inr desc, s')"
  shows "from_header C key desc" "0 \<le> td_payload_offset desc" "st_size = td_payload_offset desc + td_byte_length desc"
proof -
  obtain encoded d n len c where d: "decode_header E C key encoded = Inr d" "describe C key d len (int FRAME_SIZE + n) c = Inr desc"
      and n: "0 < n" "0 < len" "st_size = int FRAME_SIZE + n + len"
    using assms unfolding read_frame_def Let_def seq_lift by (auto simp: seq_Inr positive_Inr and_then_Inr_iff split: if_splits sum.splits)
  show "from_header C key desc" by (rule decoded_fields [OF d n(2)])
  have "td_payload_offset desc = int FRAME_SIZE + n" "td_byte_length desc = len"
    using d(2) by (auto simp: describe_def Let_def and_then_Inr_iff)
  then show "0 \<le> td_payload_offset desc" "st_size = td_payload_offset desc + td_byte_length desc" using n by simp_all
qed

lemma fstat_Inr: "fstat i s = (Inr m, s') \<Longrightarrow> m = inodes s ! i"
  unfolding fstat_def by (erule syscall_cases) (auto simp: same_disk_def)

lemma opened_file:
  assumes "open_chunk E C key allow s = (Inr (i, desc), s')"
  shows "same_disk s s'" "live_at s (manifest_path key) = Some (Regular i)" "from_header C key desc" "0 \<le> td_payload_offset desc"
    "int (length (in_data (inodes s ! i))) = td_payload_offset desc + td_byte_length desc"
proof -
  show same: "same_disk s s'" by (rule reads_onlyD [OF reads_open_chunk assms])
  obtain w s1 s2 s3 n where r: "(if allow then give False else inventory_is_withdrawn key) s = (Inr w, s1)" "is_symlink (butlast (manifest_path key)) s1 = (Inr False, s2)"
      "open_read (manifest_path key) s2 = (Inr n, s3)"
      and f: "(case n of Regular i \<Rightarrow> seq (fstat i) (\<lambda>metadata.
             seq (read_frame E C key i (int (length (in_data metadata)))) (\<lambda>desc. give (i, desc))) | _ \<Rightarrow> throw ManifestError) s3 = (Inr (i, desc), s')"
    using assms unfolding open_chunk_def seq_checked by (auto simp: seq_Inr split: if_splits)
  have "reads_only (if allow then give False else inventory_is_withdrawn key)"
    unfolding inventory_is_withdrawn_def by (intro reads_rules)
  from reads_onlyD [OF this r(1)] have "same_disk s s2" using reads_onlyD [OF reads_calls(4) r(2)] same_disk_trans by blast
  then have s3: "live s3 = live s" "inodes s3 = inodes s" "live_at s (manifest_path key) = Some n"
    using open_read_Inr [OF r(3)] by (simp_all add: same_disk_def)
  obtain m s4 where f: "n = Regular i" "fstat i s3 = (Inr m, s4)" "read_frame E C key i (int (length (in_data m))) s4 = (Inr desc, s')"
    using f by (cases n) (auto simp: seq_Inr)
  have "m = inodes s ! i" using fstat_Inr [OF f(2)] s3(2) by simp
  then show "live_at s (manifest_path key) = Some (Regular i)" "from_header C key desc" "0 \<le> td_payload_offset desc"
    "int (length (in_data (inodes s ! i))) = td_payload_offset desc + td_byte_length desc"
    using s3(3) f(1) read_frame_Inr [OF f(3)] by simp_all
qed

text \<open>The frame was read from the bytes that were on disk when the file was opened.\<close>

lemma opened_frame:
  assumes "open_chunk E C key allow s = (Inr (i, desc), s')"
  obtains t where "inodes t = inodes s" "read_frame E C key i (int (length (in_data (inodes s ! i)))) t = (Inr desc, s')"
proof -
  obtain w s1 s2 s3 n where r: "(if allow then give False else inventory_is_withdrawn key) s = (Inr w, s1)" "is_symlink (butlast (manifest_path key)) s1 = (Inr False, s2)"
      "open_read (manifest_path key) s2 = (Inr n, s3)"
      and f: "(case n of Regular i \<Rightarrow> seq (fstat i) (\<lambda>metadata.
             seq (read_frame E C key i (int (length (in_data metadata)))) (\<lambda>desc. give (i, desc))) | _ \<Rightarrow> throw ManifestError) s3 = (Inr (i, desc), s')"
    using assms unfolding open_chunk_def seq_checked by (auto simp: seq_Inr split: if_splits)
  have "reads_only (if allow then give False else inventory_is_withdrawn key)"
    unfolding inventory_is_withdrawn_def by (intro reads_rules)
  from reads_onlyD [OF this r(1)] have "same_disk s s2" using reads_onlyD [OF reads_calls(4) r(2)] same_disk_trans by blast
  then have s3: "inodes s3 = inodes s" using open_read_Inr [OF r(3)] by (simp add: same_disk_def)
  obtain m s4 where f: "fstat i s3 = (Inr m, s4)" "read_frame E C key i (int (length (in_data m))) s4 = (Inr desc, s')"
    using f by (cases n) (auto simp: seq_Inr)
  have "m = inodes s ! i" "inodes s4 = inodes s" using fstat_Inr [OF f(1)] reads_onlyD [OF reads_calls(7) f(1)] s3 by (simp_all add: same_disk_def)
  then show ?thesis using f(2) that by simp
qed

subsection \<open>The identity a header records\<close>

text \<open>
  The bytes of an opened file: the magic, the length and the hash of the header, and a header whose
  canonical encoding is the one this store would write for the requested key, under its own binding
  and geometry, with the parent, span, kind and hashes of the descriptor.
\<close>

definition identified :: "platform \<Rightarrow> token_config \<Rightarrow> string \<Rightarrow> token_file_descriptor \<Rightarrow> string \<Rightarrow> bool" where
  "identified E C key desc bytes \<longleftrightarrow> (\<exists>size encoded rest d expected t.
     bytes = MAGIC @ size @ pf_sha E encoded @ encoded @ rest \<and> length size = 4 \<and> unpack_I size = int (length encoded)
     \<and> td_payload_offset desc = int FRAME_SIZE + int (length encoded) \<and> td_metadata_digest desc = hex_of (pf_sha E encoded)
     \<and> json_loads (pf_codec E) (pf_limit E) encoded = Inr (PyDict d)
     \<and> header_payload E C key (optional_str (td_parent desc)) (PyInt (td_span_tokens desc)) (PyStr (td_sha256 desc)) (PyStr (td_kind desc))
         (Some (PyList (map PyStr (td_block_sha256 desc)))) = Inr expected
     \<and> canonical_json (pf_encoder E) (PyDict d) = Inr t \<and> canonical_json (pf_encoder E) (PyDict expected) = Inr t)"

lemma digest_value: "is_digest_value v \<Longrightarrow> PyStr (string_of v) = v"
  by (cases v) (auto simp: is_digest_value_def string_of_def)

lemma digest_values: "list_all is_digest_value hs \<Longrightarrow> map (PyStr \<circ> string_of) hs = hs"
  by (induction hs) (auto simp: digest_value)

text \<open>The arguments a header payload was built from are the strings the descriptor records.\<close>

lemma header_payload_arguments:
  assumes "header_payload E C key parent span_v digest kind (Some blocks) = Inr expected" and "0 < tc_chunk_tokens C"
  obtains n hs where "span_v = PyInt n" "optional_str (as_str parent) = parent" "PyStr (string_of digest) = digest" "PyStr (string_of kind) = kind"
    "blocks = PyList hs" "PyList (map (PyStr \<circ> string_of) hs) = blocks"
proof -
  obtain n k where n: "span_v = PyInt n" "0 < n" "n mod tc_chunk_tokens C = 0" "is_digest_value digest" "check_kind E C key parent n kind = Inr k"
    using assms(1) unfolding header_payload_def by (auto simp: and_then_Inr_iff positive_Inr split: if_splits)
  have "tc_chunk_tokens C \<le> n" using n(2,3) assms(2) by (intro zdvd_imp_le) auto
  then have parent: "parent = PyNone \<or> is_digest_value parent" and kind: "kind \<in> {PyStr ''data'', PyStr ''state''}"
    using n(5) by (auto simp: check_kind_def split: if_splits)
  obtain m hs where b: "check_blocks (Some blocks) m digest = Inr hs"
    using assms(1) unfolding header_payload_def Let_def by (auto simp: and_then_Inr_iff split: if_splits)
  then have "blocks = PyList hs" "list_all is_digest_value hs"
    unfolding check_blocks_def by (cases blocks; auto simp: list_all_iff list_ex_iff split: if_splits)+
  moreover have "optional_str (as_str parent) = parent"
    using parent by (cases parent) (auto simp: optional_str_def is_digest_value_def)
  ultimately show ?thesis
    using that n(1) digest_value [OF n(4)] digest_values [of hs] kind by (auto simp: string_of_def)
qed

lemma decoded_identity:
  assumes "decode_header E C key encoded = Inr d" and "describe C key d len off c = Inr desc" and "0 < tc_chunk_tokens C"
  obtains expected t where "json_loads (pf_codec E) (pf_limit E) encoded = Inr (PyDict d)"
    "header_payload E C key (optional_str (td_parent desc)) (PyInt (td_span_tokens desc)) (PyStr (td_sha256 desc)) (PyStr (td_kind desc))
       (Some (PyList (map PyStr (td_block_sha256 desc)))) = Inr expected"
    "canonical_json (pf_encoder E) (PyDict d) = Inr t" "canonical_json (pf_encoder E) (PyDict expected) = Inr t"
proof -
  obtain v where v: "json_loads (pf_codec E) (pf_limit E) encoded = Inr v"
    using assms(1) unfolding decode_header_def as_manifest_error_Inr and_then_Inr_iff by blast
  obtain parent span_v digest kind blocks expected t where d: "v = PyDict d" "dict_get d ''parent'' = Some parent" "dict_get d ''span_tokens'' = Some span_v"
      "dict_get d ''sha256'' = Some digest" "dict_get d ''kind'' = Some kind" "dict_get d ''block_sha256'' = Some blocks"
      and h: "header_payload E C key parent span_v digest kind (Some blocks) = Inr expected"
      and t: "canonical_json (pf_encoder E) (PyDict d) = Inr t" "canonical_json (pf_encoder E) (PyDict expected) = Inr t"
    using assms(1) unfolding decode_header_def as_manifest_error_Inr v
    by (cases v) (auto simp: lookup_key_Inr and_then_Inr_iff split: if_split_asm)
  show ?thesis
  proof (rule header_payload_arguments [OF h assms(3)])
    fix n hs
    assume a: "span_v = PyInt n" "optional_str (as_str parent) = parent" "PyStr (string_of digest) = digest" "PyStr (string_of kind) = kind"
      "blocks = PyList hs" "PyList (map (PyStr \<circ> string_of) hs) = blocks"
    have fields: "td_span_tokens desc = n" "td_parent desc = as_str parent" "td_kind desc = string_of kind" "td_sha256 desc = string_of digest"
        "td_block_sha256 desc = map string_of hs"
      using assms(2) unfolding describe_def Let_def by (auto simp: and_then_Inr_iff d a(1,5))
    show ?thesis
      by (rule that [OF v [unfolded d(1)] _ t]) (use h a in \<open>simp add: fields\<close>)
  qed
qed

lemma read_frame_identified:
  assumes "read_frame E C key i st_size s = (Inr desc, s')" and "0 < tc_chunk_tokens C"
  shows "identified E C key desc (in_data (inodes s ! i))"
proof -
  define bytes where "bytes = in_data (inodes s ! i)"
  obtain frame encoded d n len s1 s2 where f: "read_into i 0 FRAME_SIZE s = (Inr frame, s1)" "take 8 frame = MAGIC" "n = unpack_I (take 4 (drop 8 frame))"
      "0 < n" "read_into i FRAME_SIZE (nat n) s1 = (Inr encoded, s2)" "pf_sha E encoded = drop 12 frame"
      and d: "decode_header E C key encoded = Inr d" "describe C key d len (int FRAME_SIZE + n) (drop 12 frame) = Inr desc"
    using assms(1) unfolding read_frame_def Let_def seq_lift
    by (auto simp: seq_Inr positive_Inr and_then_Inr_iff split: if_splits sum.splits)
  have a: "same_disk s s1" "frame = take FRAME_SIZE bytes" "length frame = FRAME_SIZE"
    unfolding bytes_def using read_exact_file_Inr [OF f(1) [unfolded read_into_def]] by auto
  have b: "encoded = take (nat n) (drop FRAME_SIZE bytes)" "length encoded = nat n"
    unfolding bytes_def using read_exact_file_Inr [OF f(5) [unfolded read_into_def]] same_diskD(3) [OF a(1)] by auto
  have "frame = MAGIC @ take 4 (drop 8 frame) @ pf_sha E encoded"
  proof -
    have "frame = take 8 frame @ drop 8 frame" "drop 8 frame = take 4 (drop 8 frame) @ drop 4 (drop 8 frame)"
      by (simp_all only: append_take_drop_id)
    moreover have "drop 4 (drop 8 frame) = drop 12 frame" by simp
    ultimately show ?thesis unfolding f(6) f(2) [symmetric] by metis
  qed
  moreover have "bytes = frame @ encoded @ drop (nat n) (drop FRAME_SIZE bytes)"
    using append_take_drop_id [of FRAME_SIZE bytes] append_take_drop_id [of "nat n" "drop FRAME_SIZE bytes"]
    unfolding a(2) [symmetric] b(1) [symmetric] by simp
  ultimately have whole: "bytes = MAGIC @ take 4 (drop 8 frame) @ pf_sha E encoded @ encoded @ drop (nat n) (drop FRAME_SIZE bytes)"
    by (metis append_assoc)
  have size: "length (take 4 (drop 8 frame)) = 4" "unpack_I (take 4 (drop 8 frame)) = int (length encoded)"
    using a(3) b(2) f(3,4) by (simp_all add: FRAME_SIZE_def)
  have offset: "td_payload_offset desc = int FRAME_SIZE + int (length encoded)" "td_metadata_digest desc = hex_of (pf_sha E encoded)"
    using d(2) b(2) f(4,6) unfolding describe_def Let_def by (auto simp: and_then_Inr_iff)
  obtain expected t where "json_loads (pf_codec E) (pf_limit E) encoded = Inr (PyDict d)"
    "header_payload E C key (optional_str (td_parent desc)) (PyInt (td_span_tokens desc)) (PyStr (td_sha256 desc)) (PyStr (td_kind desc))
       (Some (PyList (map PyStr (td_block_sha256 desc)))) = Inr expected"
    "canonical_json (pf_encoder E) (PyDict d) = Inr t" "canonical_json (pf_encoder E) (PyDict expected) = Inr t"
    by (rule decoded_identity [OF d assms(2)])
  then show ?thesis
    unfolding identified_def bytes_def [symmetric] using whole size offset by blast
qed

section \<open>Authenticated payloads\<close>

lemma pieces_of_Nil [simp]: "pieces_of k n [] = []"
  by (cases k) simp_all

text \<open>The blocks that authentication reads are the transfer pieces of the payload.\<close>

lemma authenticate_blocks_Inr:
  assumes "authenticate_blocks E C i pos remaining acc hs s = (Inr (0, acc'), s')" and "0 < tc_slot_bytes C" and "0 \<le> remaining"
    and "nat remaining \<le> k" and "payload = take (nat remaining) (drop pos (in_data (inodes s ! i)))"
  shows "acc' = acc @ payload \<and> (\<exists>extra. hs = map (\<lambda>p. hex_of (pf_sha E p)) (pieces_of k (nat (tc_slot_bytes C)) payload) @ extra)"
  using assms
proof (induction hs arbitrary: pos remaining acc s k payload)
  case (Cons h hs)
  define n where "n = nat (min remaining (tc_slot_bytes C))"
  define rest where "rest = take (nat (remaining - int n)) (drop (pos + n) (in_data (inodes s ! i)))"
  have n: "int n = min remaining (tc_slot_bytes C)" using Cons.prems(2,3) by (simp add: n_def)
  obtain view s1 where v: "read_into i pos n s = (Inr view, s1)" "hex_of (pf_sha E view) = h"
      "authenticate_blocks E C i (pos + n) (remaining - int n) (acc @ view) hs s1 = (Inr (0, acc'), s')"
    using Cons.prems(1) n by (auto simp: Let_def n_def [symmetric] seq_Inr split: if_splits)
  have view: "same_disk s s1" "view = take n (drop pos (in_data (inodes s ! i)))" "length view = n"
    using read_exact_file_Inr [OF v(1) [unfolded read_into_def]] by blast+
  have split: "payload = view @ rest"
    unfolding Cons.prems(5) rest_def view(2) using n Cons.prems(3)
    by (simp add: take_add [symmetric] add.commute flip: drop_drop) (metis (no_types, lifting) add.commute nat_int le_add_diff_inverse nat_mono min.cobounded1 nat_diff_distrib' of_nat_0_le_iff take_add)
  have ih: "acc' = (acc @ view) @ rest \<and> (\<exists>extra. hs = map (\<lambda>p. hex_of (pf_sha E p)) (pieces_of j (nat (tc_slot_bytes C)) rest) @ extra)"
      if "nat (remaining - int n) \<le> j" for j
    using Cons.IH [OF v(3) Cons.prems(2) _ that] n same_diskD(3) [OF view(1)] by (simp add: rest_def)
  show ?case
  proof (cases "remaining = 0")
    case True
    then show ?thesis using ih [of 0] n split view(3) Cons.prems(2,5) by auto
  next
    case False
    then have "0 < n" using n Cons.prems(2,3) by (simp add: min_def split: if_splits)
    moreover obtain j where k: "k = Suc j" using False Cons.prems(3,4) by (cases k) simp_all
    moreover have "take (nat (tc_slot_bytes C)) payload = view \<and> drop (nat (tc_slot_bytes C)) payload = rest"
    proof (cases "remaining \<le> tc_slot_bytes C")
      case True
      then have "rest = []" using n by (simp add: rest_def)
      then show ?thesis using split view(3) n True by (simp add: nat_le_iff)
    next
      case False
      then show ?thesis using split view(3) n by (simp add: nat_eq_iff2)
    qed
    ultimately show ?thesis using ih [of j] Cons.prems(3,4) split view(3) v(2) by auto
  qed
qed simp

text \<open>
  The bytes of a file behind a descriptor: a header of the recorded length, then a payload with the
  recorded hash whose transfer pieces have the recorded block hashes.
\<close>

definition authentic :: "platform \<Rightarrow> token_config \<Rightarrow> token_file_descriptor \<Rightarrow> string \<Rightarrow> bool" where
  "authentic E C desc bytes \<longleftrightarrow> (\<exists>header payload extra. bytes = header @ payload
     \<and> int (length header) = td_payload_offset desc \<and> int (length payload) = td_byte_length desc
     \<and> hex_of (pf_sha E payload) = td_sha256 desc
     \<and> td_block_sha256 desc = map (\<lambda>p. hex_of (pf_sha E p)) (transfer_pieces C payload) @ extra)"

lemma authenticated_bytes:
  assumes "open_chunk E C key allow s = (Inr (i, desc), s1)" and "authenticate E C i desc s1 = (Inr u, s2)" and "0 < tc_slot_bytes C"
  shows "authentic E C desc (in_data (inodes s ! i))"
proof -
  note o = opened_file [OF assms(1)]
  define payload where "payload = drop (nat (td_payload_offset desc)) (in_data (inodes s ! i))"
  obtain acc where a: "authenticate_blocks E C i (nat (td_payload_offset desc)) (td_byte_length desc) [] (td_block_sha256 desc) s1 = (Inr (0, acc), s2)"
      "hex_of (pf_sha E acc) = td_sha256 desc"
    using assms(2) unfolding authenticate_def by (auto simp: seq_Inr split: if_splits prod.splits)
  have len: "0 < td_byte_length desc" using o(3) by (simp add: from_header_def)
  have payload: "int (length payload) = td_byte_length desc" using o(4,5) len by (simp add: payload_def)
  have whole: "payload = take (nat (td_byte_length desc)) (drop (nat (td_payload_offset desc)) (in_data (inodes s1 ! i)))"
    using payload same_diskD(3) [OF o(1)] by (simp add: payload_def)
  have "nat (td_byte_length desc) \<le> length payload" using payload by simp
  from authenticate_blocks_Inr [OF a(1) assms(3) _ this whole] len
  have "acc = payload" "\<exists>extra. td_block_sha256 desc = map (\<lambda>p. hex_of (pf_sha E p)) (transfer_pieces C payload) @ extra"
    by (simp_all add: transfer_pieces_def)
  moreover have "in_data (inodes s ! i) = take (nat (td_payload_offset desc)) (in_data (inodes s ! i)) @ payload" by (simp add: payload_def)
  moreover have "int (length (take (nat (td_payload_offset desc)) (in_data (inodes s ! i)))) = td_payload_offset desc" using o(4,5) len by simp
  ultimately show ?thesis unfolding authentic_def using a(2) payload by blast
qed


lemma store_config:
  assumes "TokenFileStore E layout slot_bytes slot_count ident = Inr C"
  shows "0 < tc_slot_bytes C" "0 < tc_chunk_tokens C" "tc_layout C = layout" "alignment_tokens layout dvd tc_chunk_tokens C"
  using assms unfolding TokenFileStore_def
  by (auto simp: and_then_Inr_iff dest: aligned_chunk_tokens_pos aligned_chunk_tokens_Inr(2) split: option.splits if_splits)

lemma exclusive_Inr:
  assumes "exclusive m s = (Inr x, s')"
  obtains s1 s2 where "disk_eq s s1" "m s1 = (Inr x, s2)" "disk_eq s2 s'"
  using assms by (cases rule: exclusive_cases) (use that in blast)+

section \<open>Chains\<close>

text \<open>
  The data files of a prefix, oldest first: the first spans one chunk and has no parent, each of the
  others one chunk more than its parent.
\<close>

definition linked :: "token_config \<Rightarrow> token_file_descriptor list \<Rightarrow> bool" where
  "linked C ds \<longleftrightarrow> ds \<noteq> [] \<and> (\<forall>i < length ds. td_kind (ds ! i) = ''data'' \<and> td_span_tokens (ds ! i) = int (Suc i) * tc_chunk_tokens C
     \<and> td_parent (ds ! i) = (if i = 0 then None else Some (td_key (ds ! (i - 1)))))"

text \<open>The part of a chain that has been read.\<close>

definition tail_linked :: "token_config \<Rightarrow> token_file_descriptor list \<Rightarrow> bool" where
  "tail_linked C ds \<longleftrightarrow> ds \<noteq> [] \<and> (\<forall>d \<in> set ds. from_header C (td_key d) d \<and> data_node C d)
     \<and> (\<forall>i. Suc i < length ds \<longrightarrow> td_span_tokens (ds ! Suc i) = td_span_tokens (ds ! i) + tc_chunk_tokens C
          \<and> td_parent (ds ! Suc i) = Some (td_key (ds ! i)))"

lemma chain_step_Inr:
  assumes "chain_step E C key expected s = (Inr d, s')"
  shows "from_header C key d" "data_node C d" "expected \<noteq> None \<Longrightarrow> expected = Some (td_span_tokens d)"
proof -
  obtain s1 where "open_reporting E C key s = (Inr d, s1)" and k: "td_kind d = ''data''" "expected = None \<or> expected = Some (td_span_tokens d)"
    using assms unfolding chain_step_def by (auto simp: seq_Inr split: if_splits)
  then obtain i where o: "open_chunk E C key False s = (Inr (i, d), s1)"
    unfolding open_reporting_def by (auto simp: seq_Inr elim!: except_cases split: if_splits prod.splits)
  show "from_header C key d" by (rule opened_file(3) [OF o])
  then show "data_node C d" "expected \<noteq> None \<Longrightarrow> expected = Some (td_span_tokens d)"
    using k by (auto simp: from_header_def)
qed

lemma tail_linked_Cons:
  assumes "tail_linked C ds" and "from_header C key d" "data_node C d" and "td_parent (hd ds) = Some key"
    and "td_span_tokens d = td_span_tokens (hd ds) - tc_chunk_tokens C"
  shows "tail_linked C (d # ds)"
  using assms by (auto simp: tail_linked_def from_header_def hd_conv_nth nth_Cons split: nat.splits)

lemma seq_cong: "(\<And>x s'. m s = (Inr x, s') \<Longrightarrow> f x = g x) \<Longrightarrow> seq m f s = seq m g s"
  by (auto simp: seq_def split: prod.splits sum.splits)

text \<open>The length of a chain is determined by its span, so more turns than chunks are never needed.\<close>

lemma chain_loop_fuel:
  assumes "0 < tc_chunk_tokens C" and "data_node C d" and "td_span_tokens d \<le> int fuel * tc_chunk_tokens C"
    and "td_span_tokens d \<le> int turns * tc_chunk_tokens C"
  shows "chain_loop E C fuel d objects = (chain_loop E C turns d objects :: ('z rank_store_scheme, token_file_descriptor list) action)"
  using assms(2-)
proof (induction fuel arbitrary: d objects turns)
  case 0
  then show ?case by (simp add: data_node_def)
next
  case (Suc fuel)
  have "0 < td_span_tokens d" using Suc.prems(1) by (simp add: data_node_def)
  then obtain j where j: "turns = Suc j" using Suc.prems(3) assms(1) by (cases turns) simp_all
  show ?case
  proof (cases "td_parent d")
    case (Some key)
    show ?thesis unfolding j chain_loop.simps Some option.case
    proof (rule ext, rule seq_cong)
      fix s s' :: "'z rank_store_scheme" and d'
      assume c: "chain_step E C key (Some (td_span_tokens d - tc_chunk_tokens C)) s = (Inr d', s')"
      have "td_span_tokens d' = td_span_tokens d - tc_chunk_tokens C" using chain_step_Inr(3) [OF c] by simp
      then show "chain_loop E C fuel d' (d' # objects) = (chain_loop E C j d' (d' # objects) :: ('z rank_store_scheme, token_file_descriptor list) action)"
        using Suc.prems(2,3) by (intro Suc.IH [OF chain_step_Inr(2) [OF c]]) (simp_all add: j algebra_simps)
    qed
  qed (simp add: j)
qed

lemma chain_loop_Inr:
  assumes "chain_loop E C fuel d ds s = (Inr objects, s')" and "tail_linked C ds" and "d = hd ds"
  shows "\<exists>front. objects = front @ ds \<and> tail_linked C objects \<and> td_parent (hd objects) = None"
  using assms
proof (induction fuel arbitrary: d ds s)
  case 0
  then show ?case by (auto split: option.splits intro!: exI [of _ "[]"])
next
  case (Suc fuel)
  show ?case
  proof (cases "td_parent d")
    case None
    then show ?thesis using Suc.prems by (auto intro!: exI [of _ "[]"])
  next
    case (Some key)
    then obtain d' s1 where c: "chain_step E C key (Some (td_span_tokens d - tc_chunk_tokens C)) s = (Inr d', s1)"
        and rest: "chain_loop E C fuel d' (d' # ds) s1 = (Inr objects, s')"
      using Suc.prems(1) by (auto simp: seq_Inr)
    have "tail_linked C (d' # ds)"
      using tail_linked_Cons [OF Suc.prems(2) chain_step_Inr(1,2) [OF c]] chain_step_Inr(3) [OF c] Some Suc.prems(3) by simp
    from Suc.IH [OF rest this] show ?thesis by auto
  qed
qed

lemma linked_complete:
  assumes "tail_linked C ds" and "td_parent (hd ds) = None" and "0 < tc_chunk_tokens C"
  shows "linked C ds"
proof -
  have first: "td_span_tokens (hd ds) = tc_chunk_tokens C"
  proof -
    have d: "data_node C (hd ds)" using assms(1) by (simp add: tail_linked_def)
    then have "tc_chunk_tokens C \<le> td_span_tokens (hd ds)" by (auto simp: data_node_def dest: zdvd_imp_le)
    moreover have "\<not> tc_chunk_tokens C < td_span_tokens (hd ds)" using d assms(2) by (auto simp: data_node_def)
    ultimately show ?thesis by simp
  qed
  have "td_span_tokens (ds ! i) = int (Suc i) * tc_chunk_tokens C" if "i < length ds" for i
    using that
  proof (induction i)
    case (Suc i)
    then show ?case using assms(1) by (simp add: tail_linked_def algebra_simps)
  qed (use first assms(1) in \<open>simp add: tail_linked_def hd_conv_nth\<close>)
  moreover have "td_parent (ds ! i) = (if i = 0 then None else Some (td_key (ds ! (i - 1))))" if "i < length ds" for i
    using that assms(1,2) by (cases i) (auto simp: tail_linked_def hd_conv_nth)
  moreover have "td_kind (ds ! i) = ''data''" if "i < length ds" for i
    using that assms(1) by (auto simp: tail_linked_def data_node_def)
  ultimately show ?thesis using assms(1) by (auto simp: linked_def tail_linked_def)
qed


text \<open>What a complete prefix consists of: its linked data files and, when the layout needs one, its boundary state.\<close>

definition prefix_files :: "token_config \<Rightarrow> string \<Rightarrow> token_snapshot \<Rightarrow> bool" where
  "prefix_files C key m \<longleftrightarrow> sn_entry_id m = key \<and> (\<exists>ds state. sn_objects m = ds @ state \<and> linked C ds \<and> td_key (last ds) = key
     \<and> sn_span_tokens m = int (length ds) * tc_chunk_tokens C
     \<and> (if has_boundary_state (tc_layout C)
        then \<exists>d. state = [d] \<and> td_kind d = ''state'' \<and> td_parent d = Some key \<and> td_span_tokens d = sn_span_tokens m
        else state = []))"

lemma open_state_Inr:
  assumes "open_state E C key n s = (Inr d, s')"
  shows "td_kind d = ''state''" "td_parent d = Some key" "td_span_tokens d = n" "\<exists>t. td_segments d = Derived t"
proof -
  obtain state_key i s1 where o: "open_chunk E C state_key False s = (Inr (i, d), s1)" "td_kind d = ''state''" "td_parent d = Some key" "td_span_tokens d = n"
    using assms unfolding open_state_def seq_lift
    by (auto simp: seq_Inr elim!: except_cases split: if_splits prod.splits sum.splits)
  then show "td_kind d = ''state''" "td_parent d = Some key" "td_span_tokens d = n" "\<exists>t. td_segments d = Derived t"
    using opened_file(3) [OF o(1)] by (simp_all add: from_header_def)
qed

lemma chain_Inr:
  assumes run: "chain E C key s = (Inr m, s')" and C: "0 < tc_chunk_tokens C"
  shows "prefix_files C key m \<and> validate_manifest_coverage (pf_sha E) (pf_encoder E) (tc_layout C) m = Inr ()
    \<and> (\<forall>d \<in> set (sn_objects m). \<exists>t. td_segments d = Derived t)"
proof -
  obtain d s1 fuel ds s2 where d: "chain_step E C key None s = (Inr d, s1)" and loop: "chain_loop E C fuel d [d] s1 = (Inr ds, s2)"
      and rest: "(if ds = [] \<or> td_span_tokens (hd ds) \<noteq> tc_chunk_tokens C then throw ManifestError
     else
       seq (if has_boundary_state (tc_layout C)
            then seq (open_state E C key (td_span_tokens (last ds))) (\<lambda>state. give (ds @ [state])) else give ds) (\<lambda>objects.
       seq (lift (layout_digest (pf_sha E) (pf_encoder E) (tc_layout C))) (\<lambda>digest.
       let snapshot = \<lparr>sn_entry_id = key, sn_span_tokens = td_span_tokens (last ds), sn_profile = layout_profile (tc_layout C),
                       sn_layout_digest = digest, sn_objects = objects\<rparr>
       in seq (lift (validate_manifest_coverage (pf_sha E) (pf_encoder E) (tc_layout C) snapshot)) (\<lambda>_. give snapshot)))) s2 = (Inr m, s')"
    using run unfolding chain_def Let_def by (auto simp: seq_Inr)
  have "tail_linked C [d]" using chain_step_Inr(1,2) [OF d] by (auto simp: tail_linked_def from_header_def)
  from chain_loop_Inr [OF loop this] obtain front where f: "ds = front @ [d]" "tail_linked C ds" "td_parent (hd ds) = None" by auto
  have ds: "linked C ds" by (rule linked_complete [OF f(2,3) C])
  have key: "td_key (last ds) = key" using f(1) chain_step_Inr(1) [OF d] by (simp add: from_header_def)
  have n: "td_span_tokens (last ds) = int (length ds) * tc_chunk_tokens C"
    using ds unfolding linked_def by (cases ds rule: rev_cases) (auto simp: nth_append)
  have der: "\<forall>d \<in> set ds. \<exists>t. td_segments d = Derived t" using f(2) by (auto simp: tail_linked_def from_header_def)
  obtain objects s3 where o: "(if has_boundary_state (tc_layout C)
            then seq (open_state E C key (td_span_tokens (last ds))) (\<lambda>state. give (ds @ [state])) else give ds) s2 = (Inr objects, s3)"
      and m: "sn_entry_id m = key" "sn_span_tokens m = td_span_tokens (last ds)" "sn_objects m = objects"
        "validate_manifest_coverage (pf_sha E) (pf_encoder E) (tc_layout C) m = Inr ()"
    using rest by (auto simp: seq_Inr Let_def split: if_splits)
  show ?thesis
  proof (cases "has_boundary_state (tc_layout C)")
    case True
    then obtain st where st: "open_state E C key (td_span_tokens (last ds)) s2 = (Inr st, s3)" "objects = ds @ [st]" using o by (auto simp: seq_Inr)
    have "prefix_files C key m" unfolding prefix_files_def
      using m(1) by (intro conjI exI [of _ ds] exI [of _ "[st]"]) (use m st ds key n True open_state_Inr [OF st(1)] in simp_all)
    then show ?thesis using m(3,4) st(2) der open_state_Inr(4) [OF st(1)] by auto
  next
    case False
    then have "objects = ds" using o by simp
    then have "prefix_files C key m" using m ds key n False by (auto simp: prefix_files_def)
    then show ?thesis using m(3,4) \<open>objects = ds\<close> der by simp
  qed
qed

lemma lookup_hit:
  assumes "lookup E C key verify s = (Inr x, s')" and "lk_is_hit x"
  obtains m s1 s2 where "disk_eq s s1" "chain E C key s1 = (Inr m, s2)" "lk_manifest x = Some m"
    "lk_manifest_digest x = Some (td_metadata_digest (last (sn_objects m)))"
proof -
  obtain s1 s2 where x: "disk_eq s s1" and body: "seq ensure_open (\<lambda>_.
        seq (lift (checked_manifest_path key)) (\<lambda>_.
        except file_error
          (seq (chain E C key) (\<lambda>snapshot.
           seq (if verify then verify_objects E C (sn_objects snapshot) else give True) (\<lambda>valid.
           give (if \<not> valid then lookup_miss ''token_payload''
                 else \<lparr>lk_is_hit = True, lk_reason = ''hit'', lk_manifest = Some snapshot,
                       lk_manifest_digest = Some (td_metadata_digest (last (sn_objects snapshot)))\<rparr>))))
          (\<lambda>_. give (lookup_miss ''token_chain'')))) s1 = (Inr x, s2)"
    using assms(1) unfolding lookup_def by (rule exclusive_Inr)
  have open_same: "ensure_open s1 = (Inr u, t) \<Longrightarrow> t = s1" for u t by (auto simp: ensure_open_def split: if_splits)
  show ?thesis
    using body assms(2) that [OF x] open_same
    by (auto simp: seq_Inr lookup_miss_def elim!: except_cases split: if_splits)
qed

end
