(* ===== verification/Token_Publish.thy ===== *)
theory Token_Publish
  imports Token_Reads
begin

text \<open>
  Publication of a token file: whatever faults and power losses interrupt it, its name is bound to
  the complete synced file or to what it was bound to before; and what is published can be read back.
\<close>

section \<open>What the steps of a publication leave alone\<close>

lemma keeps_checkpoint [keeps_rules]: "keeps N k (checkpoint stage)"
proof -
  have c: "checkpoint stage = (\<lambda>s. if rs_fault_hook s then callback (give ()) s else if True then give () s else give () s)"
    by (simp add: checkpoint_def fun_eq_iff)
  show ?thesis unfolding c by (intro keeps_choose keeps_callback keeps_give)
qed

lemma keeps_attempt [keeps_rules]: "keeps N k m \<Longrightarrow> keeps N k (attempt m)"
  unfolding attempt_def by (intro keeps_rules)

lemma keeps_cleanup_temporary [keeps_rules]: "keeps {p} k (cleanup_temporary_file p e)"
  unfolding cleanup_temporary_file_def by (intro keeps_rules) (auto split: option.splits intro!: keeps_rules)

lemma keeps_shard [keeps_rules]: "keeps {p} k (ensure_shard_directory p)"
  unfolding ensure_shard_directory_def by (intro keeps_rules)

lemma keeps_withdraw_failed [keeps_rules]: "keeps {inventory_withdrawal_path key} k (withdraw_failed key e)"
  unfolding withdraw_failed_def mark_inventory_withdrawn_def by (intro keeps_rules)

lemma keeps_clear [keeps_rules]: "keeps {inventory_withdrawal_path key} k (clear_inventory_withdrawal key)"
  unfolding clear_inventory_withdrawal_def by (rule keeps_marker)

lemma keeps_open_chunk [keeps_rules]: "keeps N k (open_chunk E C key allow)"
  by (rule reads_keeps [OF reads_open_chunk])

lemma keeps_write_vector [keeps_rules]: "k \<le> i \<Longrightarrow> keeps N k (write_vector i pos views)"
proof (induction i pos views rule: write_vector.induct)
  case (1 i pos views)
  show ?case
    unfolding write_vector.simps [of i pos views] using "1.IH" "1.prems" by (intro keeps_rules) auto
qed

lemma keeps_settle_link: "keeps {temporary} k (settle_link key temporary)"
  unfolding settle_link_def by (intro keeps_rules)

section \<open>Complete writes\<close>

lemma concat_consume: "n \<le> length (concat vs) \<Longrightarrow> concat (consume n vs) = drop n (concat vs)"
  by (induction n vs rule: consume.induct) auto

lemma overwrite_twice:
  assumes "pos \<le> length old" and "n \<le> length bytes"
  shows "overwrite (pos + n) (drop n bytes) (overwrite pos (take n bytes) old) = overwrite pos bytes old"
    "pos + n \<le> length (overwrite pos (take n bytes) old)"
proof -
  have old: "overwrite pos (take n bytes) old = take pos old @ take n bytes @ drop (pos + n) old"
      "overwrite pos bytes old = take pos old @ bytes @ drop (pos + length bytes) old"
    using assms by (simp_all add: overwrite_def)
  have front: "take (pos + n) (take pos old @ take n bytes @ drop (pos + n) old) = take pos old @ take n bytes"
    using assms by simp
  have rear: "drop (pos + n + length (drop n bytes)) (take pos old @ take n bytes @ drop (pos + n) old) = drop (pos + length bytes) old"
    using assms by (simp add: add.commute)
  show "pos + n \<le> length (overwrite pos (take n bytes) old)" using assms by (simp add: old)
  then have "overwrite (pos + n) (drop n bytes) (overwrite pos (take n bytes) old)
      = take (pos + n) (overwrite pos (take n bytes) old) @ drop n bytes @ drop (pos + n + length (drop n bytes)) (overwrite pos (take n bytes) old)"
    by (simp add: overwrite_def)
  also have "\<dots> = take pos old @ take n bytes @ drop n bytes @ drop (pos + length bytes) old" unfolding old front rear by simp
  finally show "overwrite (pos + n) (drop n bytes) (overwrite pos (take n bytes) old) = overwrite pos bytes old"
    unfolding old by (simp add: append_take_drop_id flip: append_assoc)
qed

lemma write_vector_Inr:
  assumes "write_vector i pos views s = (Inr u, s')" and "i < length (inodes s)" and "pos \<le> length (in_data (inodes s ! i))"
  shows "live s' = live s \<and> durable s' = durable s \<and> length (inodes s') = length (inodes s)
    \<and> in_data (inodes s' ! i) = overwrite pos (concat views) (in_data (inodes s ! i))"
  using assms
proof (induction i pos views arbitrary: s rule: write_vector.induct)
  case (1 i pos views)
  show ?case
  proof (cases "views = []")
    case True
    then show ?thesis using "1.prems" by (simp add: write_vector.simps overwrite_def flip: append_assoc)
  next
    case False
    then obtain n s1 where w: "write_at i pos (concat views) s = (Inr n, s1)" and n: "n \<noteq> 0"
        and rest: "write_vector i (pos + n) (consume n views) s1 = (Inr u, s')"
      using "1.prems"(1) unfolding write_vector.simps [of i pos views] by (auto simp: seq_Inr split: if_splits)
    note s1 = write_at_Inr [OF w]
    note twice = overwrite_twice [OF "1.prems"(3) s1(1)]
    show ?thesis using "1.IH" [OF False n rest] s1 "1.prems"(2) concat_consume [OF s1(1)] twice by simp
  qed
qed


lemma overwrite_fresh [simp]: "overwrite 0 bytes [] = bytes"
  by (simp add: overwrite_def)

section \<open>Publication of one file\<close>

lemma seq_assoc: "seq (seq m f) g = seq m (\<lambda>x. seq (f x) g)"
  by (auto simp: seq_def fun_eq_iff split: prod.splits sum.splits)

definition prepare_file ::
  "string \<Rightarrow> nat \<Rightarrow> string \<Rightarrow> (nat \<Rightarrow> string \<Rightarrow> ('z rank_store_scheme, unit) action) \<Rightarrow> ('z rank_store_scheme, unit) action" where
  "prepare_file key i header writer =
     seq (writer i header) (\<lambda>_. seq (fsync_file i) (\<lambda>_. seq (checkpoint ''token_before_publish'') (\<lambda>_.
       ensure_shard_directory (butlast (manifest_path key)))))"

lemma prepare_link_eq: "prepare_link key temporary i header writer = seq (prepare_file key i header writer) (\<lambda>_. os_link temporary (manifest_path key))"
  by (simp add: prepare_link_def prepare_file_def seq_assoc)

lemma fsync_file_keeps: "k \<le> i \<Longrightarrow> keeps N k (fsync_file i)"
  by (intro keeps_rules)

lemma manifest_names:
  "manifest_path key \<noteq> tmp_path nonce" "manifest_path key \<noteq> butlast (manifest_path key)" "manifest_path key \<noteq> inventory_withdrawal_path e"
  "tmp_path nonce \<noteq> butlast (manifest_path key)" "tmp_path nonce \<noteq> inventory_withdrawal_path e"
  by (simp_all add: manifest_path_def tmp_path_def inventory_withdrawal_path_def WITHDRAWN_def)

text \<open>The file before it is linked: complete and synced, under a temporary name only.\<close>

lemma prepared_file:
  assumes create: "open_create (tmp_path nonce) s0 = (Inr i, s)" and run: "prepare_file key i header writer s = (r, s')" and wf: "wf_fs s0"
    and writer: "\<And>k N. k \<le> i \<Longrightarrow> keeps N k (writer i header)"
    and bytes: "\<And>u t. writer i header s = (Inr u, t) \<Longrightarrow> in_data (inodes t ! i) = bytes"
  shows "wf_fs s'" "frame_of {tmp_path nonce, butlast (manifest_path key)} (length (inodes s0)) s0 s'"
    "r = Inr u \<Longrightarrow> live_at s' (tmp_path nonce) = Some (Regular i) \<and> in_synced (inodes s' ! i) \<and> in_data (inodes s' ! i) = bytes"
proof -
  let ?N = "{tmp_path nonce, butlast (manifest_path key)}"
  note c = open_create_Inr [OF create]
  note k0 = keepsD [OF keeps_subset [OF keeps_open_create, of _ ?N] create wf order_refl]
  have wf1: "wf_fs s" "frame_of ?N i s0 s" using k0 c(1) by auto
  have shard: "keeps ?N k (ensure_shard_directory (butlast (manifest_path key)))" for k
    by (rule keeps_subset [OF keeps_shard]) simp
  have "keeps ?N i (prepare_file key i header writer)"
    unfolding prepare_file_def by (intro keeps_rules writer fsync_file_keeps shard order_refl)
  note k1 = keepsD [OF this run wf1(1)]
  show "wf_fs s'" "frame_of ?N (length (inodes s0)) s0 s'"
    using k1 c(1,5) frame_of_trans [OF wf1(2)] by simp_all
  assume "r = Inr u"
  then obtain s1 s2 s3 v1 v2 v3 where st: "writer i header s = (Inr v1, s1)" "fsync_file i s1 = (Inr v2, s2)"
      "checkpoint ''token_before_publish'' s2 = (Inr v3, s3)" "ensure_shard_directory (butlast (manifest_path key)) s3 = (Inr u, s')"
    using run unfolding prepare_file_def by (auto simp: seq_Inr)
  have len: "i < length (inodes s)" using c(1,5) by simp
  note k1 = keepsD [OF writer [OF order_refl, where N = "{}"] st(1) wf1(1)]
  have l1: "i < length (inodes s1)" "live_at s1 (tmp_path nonce) = Some (Regular i)" using k1(2) len c(3) by (auto simp: frame_of_def)
  note f = fsync_file_Inr [OF st(2)]
  have wf2: "wf_fs s2" using keepsD(1) [OF fsync_file_keeps [OF order_refl] st(2) k1(1)] l1(1) len by simp
  have l2: "i < length (inodes s2)" "live_at s2 (tmp_path nonce) = Some (Regular i)" "in_synced (inodes s2 ! i)" "in_data (inodes s2 ! i) = bytes"
    using f l1 bytes [OF st(1)] by simp_all
  note k3 = keepsD [OF keeps_checkpoint [where N = "{}"] st(3) wf2 order_refl]
  note k4 = keepsD [OF keeps_shard st(4) k3(1) order_refl]
  have l3: "i < length (inodes s3)" "live_at s3 (tmp_path nonce) = Some (Regular i)" "in_synced (inodes s3 ! i)" "in_data (inodes s3 ! i) = bytes"
    using k3(2) l2 by (auto simp: frame_of_def)
  show "live_at s' (tmp_path nonce) = Some (Regular i) \<and> in_synced (inodes s' ! i) \<and> in_data (inodes s' ! i) = bytes"
    using k4(2) l3 manifest_names(4) by (auto simp: frame_of_def)
qed

lemma os_link_Inl: "os_link a b s = (Inl e, s') \<Longrightarrow> same_disk s s'"
  unfolding os_link_def by (erule syscall_cases) (auto simp: same_disk_def split: option.splits if_splits)


text \<open>From the link on, the name is bound to the complete file and no step writes to it.\<close>

definition after_link :: "string \<Rightarrow> path \<Rightarrow> ('z rank_store_scheme, unit) action" where
  "after_link key temporary = except any_error (settle_link key temporary) (withdraw_failed key)"

lemma keeps_after_link: "keeps {temporary, inventory_withdrawal_path key} k (after_link key temporary)"
  unfolding after_link_def
  by (intro keeps_rules) (rule keeps_subset [OF keeps_settle_link], simp, rule keeps_subset [OF keeps_withdraw_failed], simp)

definition retire :: "string \<Rightarrow> ('z rank_store_scheme, unit) action" where
  "retire key = except any_error (clear_inventory_withdrawal key) (withdraw_failed key)"

lemma keeps_retire: "keeps {inventory_withdrawal_path key} k (retire key)"
  unfolding retire_def by (intro keeps_rules)

lemma link_chunk_eq:
  "link_chunk key temporary i header writer =
     seq (except any_error
            (seq (prepare_file key i header writer) (\<lambda>_. seq (os_link temporary (manifest_path key)) (\<lambda>_. after_link key temporary)))
            (\<lambda>e. seq (cleanup_temporary_file temporary (Some e)) (\<lambda>_. throw e))) (\<lambda>_. retire key)"
  by (simp add: link_chunk_def prepare_link_eq seq_assoc after_link_def retire_def)

lemma on_disk_linked:
  assumes "os_link temporary p s = (Inr u, s')" and "live_at s temporary = Some (Regular i)" and "in_synced (inodes s ! i)"
    and "in_data (inodes s ! i) = bytes" and "on_disk s p V" and "temporary \<noteq> p"
  shows "on_disk s' p (insert (Some bytes) V)" "binding_in s' {Some bytes} (live_at s' p)"
proof -
  obtain n where n: "live_at s temporary = Some n" "live s' = dict_set p n (live s)" "durable s' = durable s" "inodes s' = inodes s"
    by (rule os_link_Inr [OF assms(1)])
  show live: "binding_in s' {Some bytes} (live_at s' p)" using assms(2-4) n by (simp add: binding_in_def)
  have "binding_in s' V (durable_at s' p)" using assms(5) n(3) by (simp add: on_disk_def binding_in_same [OF n(4)])
  then show "on_disk s' p (insert (Some bytes) V)" unfolding on_disk_def using live binding_in_mono by blast
qed

lemma settled_link:
  assumes run: "settle_link key (tmp_path nonce) s = (Inr u, s')" and wf: "wf_fs s" and live: "binding_in s {Some bytes} (live_at s (manifest_path key))"
  shows "on_disk s' (manifest_path key) {Some bytes}"
proof -
  let ?p = "manifest_path key"
  obtain s1 s2 v1 v2 where st: "checkpoint ''token_after_link'' s = (Inr v1, s1)" "fsync_directory (butlast ?p) s1 = (Inr v2, s2)"
      and rest: "seq (os_unlink (tmp_path nonce)) (\<lambda>_. fsync_directory (butlast (tmp_path nonce))) s2 = (Inr u, s')"
    using run unfolding settle_link_def by (auto simp: seq_Inr)
  note k1 = keepsD [OF keeps_checkpoint [where N = "{}"] st(1) wf order_refl]
  have l1: "binding_in s1 {Some bytes} (live_at s1 ?p)"
    using binding_in_frame [OF k1(2) order_refl live] wf_fsD(4) [OF wf] k1(2) by (simp add: frame_of_def)
  note f = fsync_directory_Inr [OF st(2)]
  have d2: "on_disk s2 ?p {Some bytes}"
    using l1 f(1) f(5) [of ?p] key_paths(5) by (simp add: on_disk_def binding_in_same [OF f(2)])
  have wf2: "wf_fs s2" by (rule keepsD(1) [OF keeps_fsync_directory [where N = "{}"] st(2) k1(1) order_refl])
  have "keeps {tmp_path nonce} (length (inodes s2)) (seq (os_unlink (tmp_path nonce)) (\<lambda>_. fsync_directory (butlast (tmp_path nonce))))"
    by (intro keeps_rules)
  from on_disk_keeps [OF this rest wf2 d2] show ?thesis using manifest_names(1) by simp
qed

lemma link_chunk_spec:
  assumes create: "open_create (tmp_path nonce) s0 = (Inr i, s)" and run: "link_chunk key (tmp_path nonce) i header writer s = (r, s')"
    and wf: "wf_fs s0" and disk: "on_disk s0 (manifest_path key) V"
    and writer: "\<And>k N. k \<le> i \<Longrightarrow> keeps N k (writer i header)"
    and bytes: "\<And>u t. writer i header s = (Inr u, t) \<Longrightarrow> in_data (inodes t ! i) = bytes"
  shows "wf_fs s' \<and> on_disk s' (manifest_path key) (insert (Some bytes) V) \<and> (r = Inr () \<longrightarrow> on_disk s' (manifest_path key) {Some bytes})"
proof -
  let ?p = "manifest_path key" and ?t = "tmp_path nonce"
  have keep: "wf_fs b \<and> on_disk b ?p W" if "keeps N (length (inodes a)) m" "m a = (q, b)" "wf_fs a" "on_disk a ?p W" "?p \<notin> N"
    for N W q and m :: "('a rank_store_scheme, 'c) action" and a b
    using on_disk_keeps [OF that] keepsD(1) [OF that(1-3) order_refl] by blast
  have clean: "keeps {?t} k (seq (cleanup_temporary_file ?t (Some e)) (\<lambda>_. throw e))" for k e by (intro keeps_rules)
  have up: "on_disk b ?p V \<Longrightarrow> on_disk b ?p (insert (Some bytes) V)" for b :: "'a rank_store_scheme" by (rule on_disk_mono) auto
  define body where "body = seq (prepare_file key i header writer) (\<lambda>_. seq (os_link ?t ?p) (\<lambda>_. after_link key ?t))"
  have main: "wf_fs b \<and> on_disk b ?p (insert (Some bytes) V) \<and> (q = Inr () \<longrightarrow> on_disk b ?p {Some bytes})" if b: "body s = (q, b)" for q b
    using b unfolding body_def
  proof (cases rule: seq_cases)
    case (fail e)
    note p = prepared_file [OF create fail(1) wf writer bytes]
    show ?thesis using p(1) up [OF on_disk_frame [OF p(2) order_refl disk wf]] fail(2) manifest_names(1,2) by simp
  next
    case (cont v s1)
    note p = prepared_file [OF create cont(1) wf writer bytes]
    have d1: "on_disk s1 ?p V" using on_disk_frame [OF p(2) order_refl disk wf] manifest_names(1,2) by simp
    have t1: "live_at s1 ?t = Some (Regular i)" "in_synced (inodes s1 ! i)" "in_data (inodes s1 ! i) = bytes" using p(3) by simp_all
    show ?thesis
      using cont(2)
    proof (cases rule: seq_cases)
      case (fail e)
      note same = os_link_Inl [OF fail(1)]
      show ?thesis using p(1) up [OF d1] same_disk_frame [OF same] fail(2) by (simp add: on_disk_same [OF same])
    next
      case (cont v2 s2)
      note l = on_disk_linked [OF cont(1) t1 d1 manifest_names(1) [symmetric]]
      have wf2: "wf_fs s2" by (rule keepsD(1) [OF keeps_os_link cont(1) p(1) order_refl])
      have "wf_fs b \<and> on_disk b ?p (insert (Some bytes) V)"
        using keep [OF keeps_after_link cont(2) wf2 l(1)] manifest_names(1,3) by simp
      moreover have "on_disk b ?p {Some bytes}" if "q = Inr ()"
        using cont(2) that settled_link [OF _ wf2 l(2)] unfolding after_link_def
        by (auto elim!: except_cases simp: withdraw_failed_def seq_Inr)
      ultimately show ?thesis by blast
    qed
  qed
  show ?thesis
    using run unfolding link_chunk_eq body_def [symmetric]
  proof (cases rule: seq_cases)
    case (fail e)
    from fail(1) show ?thesis
    proof (cases rule: except_cases)
      case pass
      then show ?thesis by (simp add: any_error_def)
    next
      case (handle e' s1)
      have "wf_fs s1" "on_disk s1 ?p (insert (Some bytes) V)" using main [OF handle(1)] by simp_all
      from keep [OF clean handle(3) this] show ?thesis using fail(2) manifest_names(1) by simp
    qed
  next
    case (cont v s1)
    from cont(1) have b: "body s = (Inr v, s1)" by (cases rule: except_cases) (auto simp: seq_Inr)
    note m = main [OF b]
    have "wf_fs s1" "on_disk s1 ?p {Some bytes}" "on_disk s1 ?p (insert (Some bytes) V)" using m by simp_all
    then show ?thesis using keep [OF keeps_retire cont(2)] manifest_names(3) by simp
  qed
qed


lemma publish_chunk_spec:
  fixes s :: "'z rank_store_scheme"
  assumes run: "publish_chunk E C key payload writer s = (r, s')" and wf: "wf_fs s" and disk: "on_disk s (manifest_path key) V"
    and header: "encode_header E payload = Inr header"
    and writer: "\<And>i k N. k \<le> i \<Longrightarrow> keeps N k (writer i header)"
    and bytes: "\<And>i t u t'. writer i header t = (Inr u, t') \<Longrightarrow> i < length (inodes t) \<Longrightarrow> in_data (inodes t ! i) = [] \<Longrightarrow> in_data (inodes t' ! i) = bytes"
  shows "wf_fs s' \<and> on_disk s' (manifest_path key) (insert (Some bytes) V)
    \<and> (\<forall>desc. r = Inr desc \<longrightarrow> on_disk s' (manifest_path key) {Some bytes} \<and> (\<exists>i t. same_disk t s' \<and> open_chunk E C key False t = (Inr (i, desc), s')))"
proof -
  let ?p = "manifest_path key"
  define tail :: "string \<Rightarrow> ('z rank_store_scheme, token_file_descriptor) action" where "tail = (\<lambda>nonce. seq (open_create (tmp_path nonce)) (\<lambda>i. seq (link_chunk key (tmp_path nonce) i header writer) (\<lambda>_.
       seq (open_chunk E C key False) (\<lambda>(_, desc). give desc))))"
  have up: "on_disk b ?p V \<Longrightarrow> on_disk b ?p (insert (Some bytes) V)" for b :: "'z rank_store_scheme" by (rule on_disk_mono) auto
  have main: "wf_fs b \<and> on_disk b ?p (insert (Some bytes) V)
    \<and> (\<forall>desc. q = Inr desc \<longrightarrow> on_disk b ?p {Some bytes} \<and> (\<exists>i t. same_disk t b \<and> open_chunk E C key False t = (Inr (i, desc), b)))"
    if t: "tail nonce a = (q, b)" and a: "wf_fs a" "on_disk a ?p V" for nonce a q b
    using t unfolding tail_def
  proof (cases rule: seq_cases)
    case (fail e)
    then show ?thesis
      using up [OF on_disk_keeps [OF keeps_open_create fail(1) a]] keepsD(1) [OF keeps_open_create fail(1) a(1) order_refl] manifest_names(1) by simp
  next
    case (cont i s1)
    note c = open_create_Inr [OF cont(1)]
    have len: "i < length (inodes s1)" "in_data (inodes s1 ! i) = []" using c(1,5) by simp_all
    show ?thesis
      using cont(2)
    proof (cases rule: seq_cases)
      case (fail e)
      then show ?thesis using link_chunk_spec [OF cont(1) fail(1) a writer bytes [OF _ len]] by simp
    next
      case (cont u s2)
      note l = link_chunk_spec [OF \<open>open_create (tmp_path nonce) a = (Inr i, s1)\<close> cont(1) a writer bytes [OF _ len]]
      have "reads_only (seq (open_chunk E C key False) (\<lambda>(_, desc). give desc))"
        by (intro reads_rules) (auto split: prod.splits intro!: reads_rules)
      from reads_onlyD [OF this cont(2)] have same: "same_disk s2 b" .
      have "\<exists>i. open_chunk E C key False s2 = (Inr (i, desc), b)" if "q = Inr desc" for desc
        using cont(2) that by (auto simp: seq_Inr split: prod.splits)
      then have "\<exists>i t. same_disk t b \<and> open_chunk E C key False t = (Inr (i, desc), b)" if "q = Inr desc" for desc using that same by blast
      then show ?thesis using l same_disk_frame [OF same] by (simp add: on_disk_same [OF same])
    qed
  qed
  have quiet: "wf_fs b \<and> on_disk b ?p V" if "same_disk s b" for b
    using that wf disk same_disk_frame [OF that] by (simp add: on_disk_same [OF that])
  have "(\<exists>e. r = Inl e \<and> same_disk s s') \<or> (\<exists>nonce a. same_disk s a \<and> tail nonce a = (r, s'))"
  proof (cases "rs_closed s \<or> \<not> is_digest key")
    case True
    then show ?thesis using run by (auto simp: publish_chunk_def checked_manifest_path_def header ensure_open_def seq_def split: if_splits)
  next
    case False
    then have rest: "seq (path_exists ?p) (\<lambda>present. if present then throw ManifestError else seq uuid4 tail) s = (r, s')"
      using run unfolding publish_chunk_def tail_def by (simp add: checked_manifest_path_def header ensure_open_def seq_def)
    show ?thesis
      using rest
    proof (cases rule: seq_cases)
      case (fail e)
      then show ?thesis using reads_onlyD [OF reads_calls(2) fail(1)] by blast
    next
      case (cont present s1)
      note same = reads_onlyD [OF reads_calls(2) cont(1)]
      obtain nonce s2 where "uuid4 s1 = (Inr nonce, s2)" "same_disk s1 s2" by (rule uuid4_result)
      then show ?thesis using cont(2) same same_disk_trans [OF same] by (auto split: if_splits)
    qed
  qed
  then show ?thesis using main quiet up by blast
qed


section \<open>Reading back a published header\<close>

lemma key_sorted_idem: "key_sorted (key_sorted v) = key_sorted v"
proof (induction v rule: key_sorted.induct)
  case (2 kvs)
  have m: "map fst (map (\<lambda>(k, v). (k, key_sorted v)) xs) = map fst xs" for xs :: "(string, pyval) dict"
    by (induction xs) auto
  have "sorted (map fst (map (\<lambda>(k, v). (k, key_sorted v)) (sort_key fst kvs)))" by (simp only: m sorted_sort_key)
  then have "sort_key fst (map (\<lambda>(k, v). (k, key_sorted v)) (sort_key fst kvs)) = map (\<lambda>(k, v). (k, key_sorted v)) (sort_key fst kvs)"
    by (rule sort_key_id_if_sorted)
  then show ?case using 2 by (auto simp: comp_def)
qed simp_all

lemma unpack_pack:
  assumes "0 \<le> n" "n < 2 ^ 32"
  shows "unpack_I (pack_I n) = n"
proof -
  have four: "[0..<4] = [0, 1, 2, 3 :: nat]" by code_simp
  have digit: "int (of_char (char_of (nat (m mod 256)))) = m mod 256" for m :: int by (simp add: nat_less_iff)
  have "unpack_I (pack_I n) = n mod 256 + 256 * ((n div 256) mod 256 + 256 * ((n div 256 ^ 2) mod 256 + 256 * ((n div 256 ^ 3) mod 256)))"
    by (simp add: unpack_I_def pack_I_def four digit)
  also have "\<dots> = n mod 256 + 256 * ((n div 256) mod 256 + 256 * ((n div 256 div 256) mod 256 + 256 * ((n div 256 div 256 div 256) mod 256)))"
    using zdiv_zmult2_eq [of 256 n 256] zdiv_zmult2_eq [of "256 * 256" n 256] zdiv_zmult2_eq [of 256 "n div 256" 256] by simp
  also have "(n div 256 div 256 div 256) mod 256 = n div 256 div 256 div 256"
    using assms by (intro mod_pos_pos_trivial) simp_all
  also have "n mod 256 + 256 * ((n div 256) mod 256 + 256 * ((n div 256 div 256) mod 256 + 256 * (n div 256 div 256 div 256))) = n"
    by (simp add: mult.commute)
  finally show ?thesis .
qed

text \<open>The payload of a header, with the fields a reader takes from it.\<close>

lemma header_payload_fields:
  assumes "header_payload E C key parent (PyInt n) digest kind (Some (PyList hs)) = Inr payload"
  shows "dict_get payload ''parent'' = Some parent" "dict_get payload ''span_tokens'' = Some (PyInt n)" "dict_get payload ''sha256'' = Some digest"
    "dict_get payload ''kind'' = Some kind" "dict_get payload ''block_sha256'' = Some (PyList hs)"
    "\<exists>len. dict_get payload ''byte_length'' = Some (PyInt len)" "distinct (map fst payload)"
  using assms unfolding header_payload_def
  by (auto simp: and_then_Inr_iff positive_Inr check_blocks_def Let_def split: if_splits option.splits)

lemma decode_published:
  assumes p: "header_payload E C key parent (PyInt n) digest kind (Some (PyList hs)) = Inr payload" and t: "canonical_json (pf_encoder E) (PyDict payload) = Inr encoded"
    and fields: "key_sorted parent = parent" "key_sorted digest = digest" "key_sorted kind = kind" "map key_sorted hs = hs"
    and read: "readable (pf_limit E) (PyDict payload)"
  obtains d where "decode_header E C key encoded = Inr d" "key_sorted (PyDict payload) = PyDict d"
proof -
  obtain d where d: "key_sorted (PyDict payload) = PyDict d" by simp
  note f = header_payload_fields [OF p]
  have get: "dict_get d k = map_option key_sorted (dict_get payload k)" for k
    using sorted_dict_get [OF f(7), of k] d by simp
  have loads: "json_loads (pf_codec E) (pf_limit E) encoded = Inr (PyDict d)"
    using loads_canonical [OF read order_refl, of "pf_encoder E" "pf_codec E"] t d by auto
  have plain: "plain (PyDict payload)" by (rule readable_plain [OF read])
  have "plain (PyDict d)" using plain_key_sorted [OF plain] by (simp only: d)
  moreover have "key_sorted (PyDict d) = key_sorted (PyDict payload)" using key_sorted_idem [of "PyDict payload"] by (simp only: d)
  moreover have "encodable (pf_encoder E) (PyDict d)"
    using canonical_json_encodable [OF t] unfolding d [symmetric] encodable_key_sorted .
  ultimately have "canonical_json (pf_encoder E) (PyDict d) = Inr encoded"
    using canonical_json_plain [of "PyDict d" "pf_encoder E"] canonical_json_Inr [OF t plain] by simp
  then have "decode_header E C key encoded = Inr d"
    using p t by (simp add: decode_header_def as_manifest_error_Inr loads lookup_key_def get f fields)
  then show ?thesis using d that by blast
qed


text \<open>The bytes of a published file: the framed header of the pieces' hashes, then the payload.\<close>

definition chunk_header ::
  "platform \<Rightarrow> token_config \<Rightarrow> string \<Rightarrow> string option \<Rightarrow> int \<Rightarrow> string \<Rightarrow> string \<Rightarrow> (string, pyval) dict result" where
  "chunk_header E C key parent span_tokens data kind =
     (let hashes = map (\<lambda>p. hex_of (pf_sha E p)) (transfer_pieces C data) in
      header_payload E C key (optional_str parent) (PyInt span_tokens) (PyStr (hex_of (pf_sha E data))) (PyStr kind) (Some (PyList (map PyStr hashes))))"

definition chunk_file ::
  "platform \<Rightarrow> token_config \<Rightarrow> string \<Rightarrow> string option \<Rightarrow> int \<Rightarrow> string \<Rightarrow> string \<Rightarrow> string result" where
  "chunk_file E C key parent span_tokens data kind =
     and_then (chunk_header E C key parent span_tokens data kind) (\<lambda>payload.
     if dict_get payload ''byte_length'' \<noteq> Some (PyInt (int (length data))) then Inl ManifestError
     else and_then (encode_header E payload) (\<lambda>header. Inr (header @ data)))"

lemma pieces_concat: "0 < n \<Longrightarrow> length data \<le> k \<Longrightarrow> concat (pieces_of k n data) = data"
  by (induction k n data rule: pieces_of.induct) auto

lemma single_piece: "0 < tc_slot_bytes C \<Longrightarrow> length (transfer_pieces C data) = 1 \<Longrightarrow> transfer_pieces C data = [data]"
  using pieces_concat [of "nat (tc_slot_bytes C)" data "length data"] by (auto simp: transfer_pieces_def length_Suc_conv)

lemma commit_chunk_eq:
  assumes "0 < tc_slot_bytes C"
  shows "commit_chunk E C key parent span_tokens data kind =
     exclusive
       (seq (lift (chunk_header E C key parent span_tokens data kind)) (\<lambda>payload.
           if dict_get payload ''byte_length'' \<noteq> Some (PyInt (int (length data))) then throw ManifestError
           else publish_chunk E C key payload (\<lambda>i header. write_vector i 0 [header, data])))"
proof -
  have "(if length (transfer_pieces C data) = 1 then hex_of (pf_sha E (hd (transfer_pieces C data))) else hex_of (pf_sha E data)) = hex_of (pf_sha E data)"
    using single_piece [OF assms, of data] by auto
  moreover have "transfer_pieces C data \<noteq> [] \<Longrightarrow> hd (map (\<lambda>p. hex_of (pf_sha E p)) (transfer_pieces C data)) = hex_of (pf_sha E (hd (transfer_pieces C data)))"
    by (rule hd_map)
  ultimately have "(if length (map (\<lambda>p. hex_of (pf_sha E p)) (transfer_pieces C data)) = 1 then hd (map (\<lambda>p. hex_of (pf_sha E p)) (transfer_pieces C data))
      else hex_of (pf_sha E data)) = hex_of (pf_sha E data)" by (cases "transfer_pieces C data") auto
  then show ?thesis unfolding commit_chunk_def chunk_header_def Let_def by simp
qed

lemma commit_chunk_disk:
  fixes s :: "'z rank_store_scheme"
  assumes run: "commit_chunk E C key parent span_tokens data kind s = (r, s')" and C: "0 < tc_slot_bytes C"
    and wf: "wf_fs s" and disk: "on_disk s (manifest_path key) V"
  shows "case chunk_file E C key parent span_tokens data kind of
      Inl _ \<Rightarrow> disk_eq s s' \<and> (\<exists>e. r = Inl e)
    | Inr bytes \<Rightarrow> wf_fs s' \<and> on_disk s' (manifest_path key) (insert (Some bytes) V)
        \<and> (\<forall>desc. r = Inr desc \<longrightarrow> on_disk s' (manifest_path key) {Some bytes}
             \<and> (\<exists>i t t'. disk_eq t s' \<and> open_chunk E C key False t = (Inr (i, desc), t')))"
proof -
  let ?p = "manifest_path key"
  define body :: "('z rank_store_scheme, token_file_descriptor) action"
    where "body = seq (lift (chunk_header E C key parent span_tokens data kind)) (\<lambda>payload.
           if dict_get payload ''byte_length'' \<noteq> Some (PyInt (int (length data))) then throw ManifestError
           else publish_chunk E C key payload (\<lambda>i header. write_vector i 0 [header, data]))"
  have disk': "wf_fs t \<and> on_disk t ?p W" if "disk_eq a t" "wf_fs a" "on_disk a ?p W" for a t :: "'z rank_store_scheme" and W
  proof -
    have same: "live t = live a" "durable t = durable a" "inodes t = inodes a" using disk_eq_same [OF that(1)] by simp_all
    have "binding_in t W b = binding_in a W b" for b by (rule binding_in_same [OF same(3)])
    then show ?thesis using that(2,3) same by (simp add: wf_fs_def on_disk_def)
  qed
  have ran: "exclusive body s = (r, s')" using run unfolding commit_chunk_eq [OF C] body_def .
  show ?thesis
  proof (cases "chunk_file E C key parent span_tokens data kind")
    case (Inl e)
    have same: "\<exists>e. q = Inl e \<and> t = s1" if "body s1 = (q, t)" for q s1 t
      using that Inl unfolding body_def chunk_file_def publish_chunk_def
      by (auto simp: seq_def and_then_Inl_iff ensure_open_def split: sum.splits if_splits)
    from ran have "disk_eq s s' \<and> (\<exists>e. r = Inl e)"
    proof (cases rule: exclusive_cases)
      case (ran s1 r1 s2)
      then show ?thesis using same [OF ran(2)] disk_eq_trans by auto
    qed simp
    then show ?thesis by (simp add: Inl)
  next
    case (Inr bytes)
    then obtain payload header where h: "chunk_header E C key parent span_tokens data kind = Inr payload"
        "dict_get payload ''byte_length'' = Some (PyInt (int (length data)))" "encode_header E payload = Inr header" "bytes = header @ data"
      by (auto simp: chunk_file_def and_then_Inr_iff split: if_splits)
    have up: "on_disk b ?p V \<Longrightarrow> on_disk b ?p (insert (Some bytes) V)" for b :: "'z rank_store_scheme" by (rule on_disk_mono) auto
    from ran have "wf_fs s' \<and> on_disk s' ?p (insert (Some bytes) V)
        \<and> (\<forall>desc. r = Inr desc \<longrightarrow> on_disk s' ?p {Some bytes} \<and> (\<exists>i t t'. disk_eq t s' \<and> open_chunk E C key False t = (Inr (i, desc), t')))"
    proof (cases rule: exclusive_cases)
      case (refused e)
      then show ?thesis using disk' [OF refused(2) wf disk] up by simp
    next
      case (ran s1 r1 s2)
      have "publish_chunk E C key payload (\<lambda>i header. write_vector i 0 [header, data]) s1 = (r1, s2)"
        using ran(2) h(1,2) by (simp add: body_def seq_lift)
      note p = publish_chunk_spec [OF this conjunct1 [OF disk' [OF ran(1) wf disk]] conjunct2 [OF disk' [OF ran(1) wf disk]] h(3), of bytes]
      have w: "k \<le> i \<Longrightarrow> keeps N k (write_vector i 0 [header, data])" for i k N by (rule keeps_write_vector)
      have b: "in_data (inodes t' ! i) = bytes"
        if "write_vector i 0 [header, data] t = (Inr u, t')" "i < length (inodes t)" "in_data (inodes t ! i) = []"
        for i u and t t' :: "'z rank_store_scheme"
        using write_vector_Inr [OF that(1,2)] that(3) h(4) by simp
      have "wf_fs s2 \<and> on_disk s2 ?p (insert (Some bytes) V) \<and> (\<forall>desc. r1 = Inr desc \<longrightarrow> on_disk s2 ?p {Some bytes}
          \<and> (\<exists>i t. same_disk t s2 \<and> open_chunk E C key False t = (Inr (i, desc), s2)))"
        by (rule p) (fact w, fact b)
      moreover have "disk_eq t s'" if "same_disk t s2" for t using disk_eq_trans [OF same_disk_eq [OF that] ran(3)] .
      ultimately show ?thesis using disk' [OF ran(3)] ran(4) by blast
    qed
    then show ?thesis by (simp add: Inr)
  qed
qed


section \<open>Reading back a published file\<close>

lemma frame_parts:
  assumes "length checksum = 32" "0 \<le> n" "n < 2 ^ 32" "int (length encoded) = n"
    and bytes_def: "bytes = (MAGIC @ pack_I n @ checksum @ encoded) @ data"
  shows "take FRAME_SIZE bytes = MAGIC @ pack_I n @ checksum" "take (length encoded) (drop FRAME_SIZE bytes) = encoded"
    "take 8 (MAGIC @ pack_I n @ checksum) = MAGIC" "unpack_I (take 4 (drop 8 (MAGIC @ pack_I n @ checksum))) = n"
    "drop 12 (MAGIC @ pack_I n @ checksum) = checksum" "length (MAGIC @ pack_I n @ checksum) = FRAME_SIZE"
  using assms(1,4) unpack_pack [OF assms(2,3)] unfolding bytes_def by (simp_all add: FRAME_SIZE_def MAGIC_def pack_I_def)

text \<open>What a reader sees of a published file; the hash has the length of SHA-256.\<close>

lemma published_frame:
  assumes whole: "chunk_file E C key parent span_tokens data kind = Inr bytes" and payload: "chunk_header E C key parent span_tokens data kind = Inr payload"
    and sha: "\<And>x. length (pf_sha E x) = 32" and readable: "readable (pf_limit E) (PyDict payload)"
  obtains encoded n d where "canonical_json (pf_encoder E) (PyDict payload) = Inr encoded" "n = int (length encoded)" "0 < n" "n \<le> MAX_HEADER_BYTES"
    "bytes = (MAGIC @ pack_I n @ pf_sha E encoded @ encoded) @ data" "decode_header E C key encoded = Inr d" "key_sorted (PyDict payload) = PyDict d"
    "dict_get d ''byte_length'' = Some (PyInt (int (length data)))" "dict_get d ''parent'' = Some (optional_str parent)" "dict_get d ''span_tokens'' = Some (PyInt span_tokens)"
    "dict_get d ''kind'' = Some (PyStr kind)" "dict_get d ''sha256'' = Some (PyStr (hex_of (pf_sha E data)))"
    "dict_get d ''block_sha256'' = Some (PyList (map (\<lambda>p. PyStr (hex_of (pf_sha E p))) (transfer_pieces C data)))" "kind \<in> {''data'', ''state''}"
proof -
  obtain header where h: "dict_get payload ''byte_length'' = Some (PyInt (int (length data)))" "encode_header E payload = Inr header" "bytes = header @ data"
    using whole payload by (auto simp: chunk_file_def and_then_Inr_iff split: if_splits)
  obtain encoded n where e: "canonical_json (pf_encoder E) (PyDict payload) = Inr encoded" "n = int (length encoded)" "0 < n" "n \<le> MAX_HEADER_BYTES"
      "header = MAGIC @ pack_I n @ pf_sha E encoded @ encoded"
    using h(2) by (auto simp: encode_header_def and_then_Inr_iff positive_Inr)
  note p = payload [unfolded chunk_header_def Let_def]
  note f = header_payload_fields [OF p]
  have opt: "key_sorted (optional_str parent) = optional_str parent" by (simp add: optional_str_def split: option.splits)
  obtain d where d: "decode_header E C key encoded = Inr d" "key_sorted (PyDict payload) = PyDict d"
    by (rule decode_published [OF p e(1) opt _ _ _ readable]) (auto simp: comp_def)
  have get: "dict_get d k = map_option key_sorted (dict_get payload k)" for k
    using sorted_dict_get [OF f(7), of k] d(2) by simp
  have "kind \<in> {''data'', ''state''}" using p by (auto simp: header_payload_def and_then_Inr_iff check_kind_def split: if_splits)
  then show ?thesis by (intro that [OF e(1-4) _ d]) (simp_all add: get h f e(5) opt comp_def)
qed

lemma published_description:
  assumes "decode_header E C key encoded = Inr d" "dict_get d ''parent'' = Some (optional_str parent)" "dict_get d ''span_tokens'' = Some (PyInt n)"
    "dict_get d ''kind'' = Some (PyStr kind)" "dict_get d ''sha256'' = Some (PyStr digest)" "dict_get d ''block_sha256'' = Some (PyList (map PyStr hs))" "kind \<in> {''data'', ''state''}"
  shows "describe C key d len off c = Inr \<lparr>td_key = key, td_parent = parent, td_span_tokens = n,
      td_segments = Derived \<lparr>ts_layout = tc_layout C, ts_span_tokens = n, ts_chunk_tokens = tc_chunk_tokens C, ts_kind = kind\<rparr>, td_byte_length = len,
      td_sha256 = digest, td_payload_offset = off, td_metadata_digest = hex_of c, td_kind = kind, td_block_sha256 = hs\<rparr>"
  using assms by (auto simp: describe_def Let_def segments_def string_of_def optional_str_def comp_def split: option.splits)


lemma read_exact_ok:
  assumes "fault_free s" and "pos + n \<le> length (in_data (inodes s ! i))"
  shows "read_exact_file i pos n s = (Inr (take n (drop pos (in_data (inodes s ! i)))), s)"
proof (cases "n = 0")
  case False
  have "read_at i pos n s = (Inr (take n (drop pos (in_data (inodes s ! i)))), s)"
    by (simp add: read_at_def fault_free_syscall [OF assms(1)])
  moreover have "read_exact_file i (pos + n) 0 s = (Inr [], s)" by (simp add: read_exact_file.simps [of i _ 0])
  moreover have "length (take n (drop pos (in_data (inodes s ! i)))) = n" using assms(2) by simp
  ultimately show ?thesis
    using False assms(2) by (subst read_exact_file.simps) (auto simp: seq_def)
qed (simp add: read_exact_file.simps [of i _ 0])

lemma header_length:
  assumes "header_payload E C key parent v digest kind hs = Inr payload" and "dict_get payload ''byte_length'' = Some (PyInt len)" and "0 < tc_slot_bytes C"
  shows "0 < len" "len \<le> tc_slot_bytes C * MAX_TRANSFER_BLOCKS"
proof -
  have b: "0 < (len + tc_slot_bytes C - 1) div tc_slot_bytes C" "(len + tc_slot_bytes C - 1) div tc_slot_bytes C \<le> MAX_TRANSFER_BLOCKS"
    using assms(1,2) unfolding header_payload_def by (auto simp: and_then_Inr_iff positive_Inr Let_def split: if_splits)
  have "tc_slot_bytes C \<le> len + tc_slot_bytes C - 1" using b(1) assms(3) by (simp add: pos_imp_zdiv_pos_iff)
  then show "0 < len" by simp
  have "len + tc_slot_bytes C - 1 = (len + tc_slot_bytes C - 1) div tc_slot_bytes C * tc_slot_bytes C + (len + tc_slot_bytes C - 1) mod tc_slot_bytes C"
    by (simp only: div_mult_mod_eq)
  moreover have "(len + tc_slot_bytes C - 1) div tc_slot_bytes C * tc_slot_bytes C \<le> MAX_TRANSFER_BLOCKS * tc_slot_bytes C"
    using b(2) assms(3) by (intro mult_right_mono) simp_all
  moreover have "(len + tc_slot_bytes C - 1) mod tc_slot_bytes C < tc_slot_bytes C" using assms(3) by simp
  ultimately show "len \<le> tc_slot_bytes C * MAX_TRANSFER_BLOCKS" unfolding mult.commute [of "tc_slot_bytes C" MAX_TRANSFER_BLOCKS] by linarith
qed

definition chunk_descriptor ::
  "platform \<Rightarrow> token_config \<Rightarrow> string \<Rightarrow> string option \<Rightarrow> int \<Rightarrow> string \<Rightarrow> string \<Rightarrow> string \<Rightarrow> token_file_descriptor" where
  "chunk_descriptor E C key parent span_tokens data kind bytes =
     \<lparr>td_key = key, td_parent = parent, td_span_tokens = span_tokens,
      td_segments = Derived \<lparr>ts_layout = tc_layout C, ts_span_tokens = span_tokens, ts_chunk_tokens = tc_chunk_tokens C, ts_kind = kind\<rparr>,
      td_byte_length = int (length data), td_sha256 = hex_of (pf_sha E data), td_payload_offset = int (length bytes) - int (length data),
      td_metadata_digest = hex_of (drop 12 (take FRAME_SIZE bytes)), td_kind = kind,
      td_block_sha256 = map (\<lambda>p. hex_of (pf_sha E p)) (transfer_pieces C data)\<rparr>"

lemma chunk_descriptor_authentic:
  assumes "chunk_file E C key parent span_tokens data kind = Inr bytes"
  shows "authentic E C (chunk_descriptor E C key parent span_tokens data kind bytes) bytes"
proof -
  obtain header where "bytes = header @ data" using assms by (auto simp: chunk_file_def and_then_Inr_iff split: if_splits)
  then show ?thesis unfolding authentic_def chunk_descriptor_def by (intro exI [of _ header] exI [of _ data] exI [of _ "[]"]) simp
qed

lemma read_frame_published:
  fixes s :: "'z fs_scheme"
  assumes whole: "chunk_file E C key parent span_tokens data kind = Inr bytes" and payload: "chunk_header E C key parent span_tokens data kind = Inr payload"
    and sha: "\<And>x. length (pf_sha E x) = 32" and readable: "readable (pf_limit E) (PyDict payload)" and C: "0 < tc_slot_bytes C"
    and bytes: "in_data (inodes s ! i) = bytes"
  shows "read_frame E C key i (int (length bytes)) s = (Inr desc, s') \<Longrightarrow> desc = chunk_descriptor E C key parent span_tokens data kind bytes"
    "fault_free s \<Longrightarrow> read_frame E C key i (int (length bytes)) s = (Inr (chunk_descriptor E C key parent span_tokens data kind bytes), s)"
proof -
  obtain encoded n d where e: "n = int (length encoded)" "0 < n" "n \<le> MAX_HEADER_BYTES"
    and b: "bytes = (MAGIC @ pack_I n @ pf_sha E encoded @ encoded) @ data"
    and d: "decode_header E C key encoded = Inr d" "dict_get d ''byte_length'' = Some (PyInt (int (length data)))"
      "dict_get d ''parent'' = Some (optional_str parent)" "dict_get d ''span_tokens'' = Some (PyInt span_tokens)"
      "dict_get d ''kind'' = Some (PyStr kind)" "dict_get d ''sha256'' = Some (PyStr (hex_of (pf_sha E data)))"
      "dict_get d ''block_sha256'' = Some (PyList (map PyStr (map (\<lambda>p. hex_of (pf_sha E p)) (transfer_pieces C data))))" "kind \<in> {''data'', ''state''}"
    by (rule published_frame [OF whole payload sha readable]) (auto simp: comp_def)
  have n32: "0 \<le> n" "n < 2 ^ 32" using e by (simp_all add: MAX_HEADER_BYTES_def)
  note f = frame_parts [OF sha n32 e(1) [symmetric] b]
  have len: "length bytes = FRAME_SIZE + length encoded + length data" using f(6) unfolding b by simp
  have size: "0 < int (length data)" "int (length data) \<le> tc_slot_bytes C * MAX_TRANSFER_BLOCKS"
    using header_length [OF payload [unfolded chunk_header_def Let_def] _ C] whole payload
    by (auto simp: chunk_file_def and_then_Inr_iff split: if_splits)
  have pos: "positive (PyInt n) MAX_HEADER_BYTES = Inr n" "positive (PyInt (int (length data))) (tc_slot_bytes C * MAX_TRANSFER_BLOCKS) = Inr (int (length data))"
    using e(2,3) size by (simp_all add: positive_Inr)
  have desc: "describe C key d (int (length data)) (int FRAME_SIZE + n) (pf_sha E encoded) = Inr (chunk_descriptor E C key parent span_tokens data kind bytes)"
    using published_description [OF d(1,3-8)] f(1,5) len e(1) by (simp add: chunk_descriptor_def)
  show "desc = chunk_descriptor E C key parent span_tokens data kind bytes" if run: "read_frame E C key i (int (length bytes)) s = (Inr desc, s')"
  proof -
    obtain frame s1 where r1: "read_into i 0 FRAME_SIZE s = (Inr frame, s1)" using run unfolding read_frame_def by (auto simp: seq_Inr)
    have s1: "same_disk s s1" "frame = MAGIC @ pack_I n @ pf_sha E encoded"
      using read_exact_file_Inr [OF r1 [unfolded read_into_def]] bytes f(1) by simp_all
    obtain view s2 where r2: "read_into i FRAME_SIZE (length encoded) s1 = (Inr view, s2)"
        and rest: "(if pf_sha E view \<noteq> pf_sha E encoded then throw ManifestError
       else
         seq (lift (decode_header E C key view)) (\<lambda>d.
         seq (lift (and_then (lookup_key d ''byte_length'') (\<lambda>v. positive v (tc_slot_bytes C * MAX_TRANSFER_BLOCKS)))) (\<lambda>byte_length.
         let offset = int FRAME_SIZE + n in
         if int (length bytes) \<noteq> offset + byte_length then throw ManifestError
         else lift (describe C key d byte_length offset (pf_sha E encoded))))) s2 = (Inr desc, s')"
      using run r1 f(3-5) pos(1) e(1) unfolding read_frame_def s1(2) by (auto simp: seq_Inr Let_def split: if_splits)
    have "view = encoded" using read_exact_file_Inr [OF r2 [unfolded read_into_def]] bytes f(2) same_diskD(3) [OF s1(1)] by simp
    then show ?thesis using rest d(1,2) pos(2) desc by (auto simp: seq_Inr lookup_key_def Let_def split: if_splits)
  qed
  show "read_frame E C key i (int (length bytes)) s = (Inr (chunk_descriptor E C key parent span_tokens data kind bytes), s)" if "fault_free s"
    using read_exact_ok [OF that, of 0 FRAME_SIZE i] read_exact_ok [OF that, of FRAME_SIZE "length encoded" i] bytes len f(1-5) e(1)
      pos d(1,2) desc
    by (simp add: read_frame_def read_into_def seq_def lookup_key_def Let_def)
qed


section \<open>Durability\<close>

lemma anchored_shard:
  assumes "anchored s [''manifests'']" and "settled s (butlast (manifest_path key)) (Some Directory)"
  shows "anchored s (butlast (manifest_path key))"
  unfolding anchored_def
proof (intro allI impI)
  fix k
  assume "0 < k \<and> k \<le> length (butlast (manifest_path key))"
  then have "k = 1 \<or> k = 2" by (auto simp: manifest_path_def)
  then have "take k (butlast (manifest_path key)) = [''manifests''] \<or> take k (butlast (manifest_path key)) = butlast (manifest_path key)"
    by (auto simp: manifest_path_def)
  moreover have "live_at s [''manifests''] = Some Directory \<and> durable_at s [''manifests''] = Some Directory"
    using assms(1) by (auto simp: anchored_def dest: spec [of _ 1])
  ultimately show "live_at s (take k (butlast (manifest_path key))) = Some Directory \<and> durable_at s (take k (butlast (manifest_path key))) = Some Directory"
    using assms(2) by (auto simp: settled_def)
qed

lemma anchored_manifests_frame:
  assumes "frame_of N k s s'" and "anchored s [''manifests'']" and "[''manifests''] \<notin> N"
  shows "anchored s' [''manifests'']"
  by (rule anchored_frame [OF assms(1,2)]) (use assms(3) in \<open>auto simp: le_Suc_eq\<close>)

lemma ensure_shard_anchors:
  assumes run: "ensure_shard_directory (butlast (manifest_path key)) s = (Inr u, s')" and wf: "wf_fs s" and anchor: "anchored s [''manifests'']"
  shows "anchored s' (butlast (manifest_path key))"
proof -
  let ?d = "butlast (manifest_path key)"
  obtain b s1 s2 where st: "mkdir_existing_ok ?d s = (Inr b, s1)" "lstat ?d s1 = (Inr Directory, s2)" "fsync_directory [''manifests''] s2 = (Inr u, s')"
    using run unfolding ensure_shard_directory_def by (auto simp: seq_Inr manifest_path_def split: if_splits)
  have "anchored s' [''manifests'']"
    by (rule anchored_manifests_frame [OF keepsD(2) [OF keeps_shard run wf order_refl] anchor]) (simp add: manifest_path_def)
  moreover have "live_at s2 ?d = Some Directory" using lstat_Inr [OF st(2)] by (simp add: same_disk_def)
  then have "settled s' ?d (Some Directory)"
    using fsync_directory_Inr [OF st(3)] by (simp add: settled_def child_of_def manifest_path_def)
  ultimately show ?thesis by (rule anchored_shard)
qed

lemma link_chunk_anchored:
  assumes create: "open_create (tmp_path nonce) s0 = (Inr i, s)" and run: "link_chunk key (tmp_path nonce) i header writer s = (Inr u, s')"
    and wf: "wf_fs s0" and anchor: "anchored s0 [''manifests'']" and writer: "\<And>k N. k \<le> i \<Longrightarrow> keeps N k (writer i header)"
  shows "anchored s' (butlast (manifest_path key))"
proof -
  let ?t = "tmp_path nonce" and ?p = "manifest_path key"
  have rest: "\<exists>v s1 w s2. prepare_file key i header writer s = (Inr v, s1)
      \<and> seq (os_link ?t ?p) (\<lambda>_. after_link key ?t) s1 = (Inr w, s2) \<and> retire key s2 = (Inr u, s')"
    using run unfolding link_chunk_eq by (auto simp: seq_Inr elim!: except_cases)
  then obtain s1 v w s2 where p: "prepare_file key i header writer s = (Inr v, s1)"
      and l: "seq (os_link ?t ?p) (\<lambda>_. after_link key ?t) s1 = (Inr w, s2)" "retire key s2 = (Inr u, s')" by blast
  let ?w = "seq (writer i header) (\<lambda>_. seq (fsync_file i) (\<lambda>_. checkpoint ''token_before_publish''))"
  obtain t x where t: "?w s = (Inr x, t)" "ensure_shard_directory (butlast ?p) t = (Inr v, s1)"
    using p unfolding prepare_file_def by (auto simp: seq_Inr)
  note c = open_create_Inr [OF create]
  note k0 = keepsD [OF keeps_open_create create wf order_refl]
  have "keeps {} i ?w" by (intro keeps_rules writer fsync_file_keeps order_refl)
  note k1 = keepsD [OF this t(1) k0(1)]
  have i: "i \<le> length (inodes s)" using c(1,5) by simp
  have "anchored s [''manifests'']" by (rule anchored_manifests_frame [OF k0(2) anchor]) (simp add: tmp_path_def)
  then have "anchored t [''manifests'']" by (rule anchored_manifests_frame [OF k1(2) [OF i]]) simp
  then have a1: "anchored s1 (butlast ?p)" by (rule ensure_shard_anchors [OF t(2) k1(1) [OF i]])
  have wf1: "wf_fs s1" by (rule keepsD(1) [OF keeps_shard t(2) k1(1) [OF i] order_refl])
  have "keeps {?t, ?p, inventory_withdrawal_path key} (length (inodes s1)) (seq (os_link ?t ?p) (\<lambda>_. after_link key ?t))"
    by (intro keeps_rules) (rule keeps_subset [OF keeps_os_link], simp, rule keeps_subset [OF keeps_after_link], simp)
  note k2 = keepsD [OF this l(1) wf1 order_refl]
  note k3 = keepsD [OF keeps_retire l(2) k2(1) order_refl]
  have apart: "take j (butlast ?p) \<notin> {?t, ?p, inventory_withdrawal_path key}" if "0 < j" "j \<le> length (butlast ?p)" for j
    using that by (auto simp: manifest_path_def tmp_path_def inventory_withdrawal_path_def WITHDRAWN_def take_Cons')
  have "anchored s2 (butlast ?p)" by (rule anchored_frame [OF k2(2) a1 apart])
  then show ?thesis by (rule anchored_frame [OF k3(2)]) (use apart in blast)
qed

text \<open>Without a durable shard a power cycle may also lose the name.\<close>

lemma on_disk_restarted_lost:
  assumes "restarted s s'" and "on_disk s p V" and "wf_fs s"
  shows "on_disk s' p (insert None V)"
proof (cases "process_restarted s s'")
  case True
  then have same: "live s' = live s" "durable s' = durable s" "inodes s' = inodes s" by (simp_all add: process_restarted_def)
  have "binding_in s' V b = binding_in s V b" for b using same(3) by (auto simp: binding_in_def split: option.splits node.splits)
  then have "on_disk s' p V" using assms(2) same by (simp add: on_disk_def)
  then show ?thesis by (rule on_disk_mono) auto
next
  case False
  then have cycle: "power_cycled s s'" using assms(1) by (simp add: restarted_def)
  then obtain c where c: "\<And>p. c p = live_at s p \<or> c p = durable_at s p"
      "live_at s' = (\<lambda>p. if \<forall>q \<in> ancestors p. c q = Some Directory then c p else None)" "durable_at s' = live_at s'"
    unfolding power_cycled_def by blast
  have "live_at s' p = c p \<or> live_at s' p = None" unfolding c(2) by simp
  then have at: "live_at s' p \<in> {live_at s p, durable_at s p, None}" "durable_at s' p = live_at s' p" using c(1) [of p] by (auto simp: c(3))
  have "binding_in s' V b" if "binding_in s V b" "\<And>i. b = Some (Regular i) \<Longrightarrow> i < length (inodes s)" for b
    using that cycle by (auto simp: binding_in_def power_cycled_def split: option.splits node.splits)
  then have "binding_in s' V (live_at s p)" "binding_in s' V (durable_at s p)" using assms(2) wf_fsD(4,5) [OF assms(3)] by (auto simp: on_disk_def)
  then have "binding_in s' (insert None V) (live_at s p)" "binding_in s' (insert None V) (durable_at s p)"
    by (auto intro: binding_in_mono [OF _ subset_insertI])
  moreover have "binding_in s' (insert None V) None" by (simp add: binding_in_def)
  ultimately have "binding_in s' (insert None V) (live_at s' p)" using at(1) by auto
  then show ?thesis using at(2) by (simp add: on_disk_def)
qed


lemma publish_chunk_anchored:
  assumes run: "publish_chunk E C key payload writer s = (Inr desc, s')" and wf: "wf_fs s" and anchor: "anchored s [''manifests'']"
    and writer: "\<And>i header k N. k \<le> i \<Longrightarrow> keeps N k (writer i header)"
  shows "anchored s' (butlast (manifest_path key))"
proof -
  obtain header nonce i s1 s2 s3 s4 s5 u j where st: "path_exists (manifest_path key) s = (Inr False, s1)" "uuid4 s1 = (Inr nonce, s2)"
      "open_create (tmp_path nonce) s2 = (Inr i, s3)" "link_chunk key (tmp_path nonce) i header writer s3 = (Inr u, s4)"
      "open_chunk E C key False s4 = (Inr (j, desc), s')"
    using run unfolding publish_chunk_def seq_checked by (auto simp: seq_Inr ensure_open_def split: if_splits prod.splits)
  have same: "same_disk s s2" using reads_onlyD [OF reads_calls(2) st(1)] reads_onlyD [OF reads_environment(1) st(2)] same_disk_trans by blast
  have "wf_fs s2" "anchored s2 [''manifests'']" using wf anchor disk_eqD [OF same_disk_eq [OF same]] by simp_all
  from link_chunk_anchored [OF st(3,4) this writer] have "anchored s4 (butlast (manifest_path key))" by simp
  then show ?thesis using disk_eqD [OF same_disk_eq [OF reads_onlyD [OF reads_open_chunk st(5)]]] by simp
qed

lemma commit_chunk_anchored:
  assumes run: "commit_chunk E C key parent span_tokens data kind s = (Inr desc, s')" and C: "0 < tc_slot_bytes C" and wf: "wf_fs s" and anchor: "anchored s [''manifests'']"
  shows "anchored s' (butlast (manifest_path key))"
proof -
  obtain s1 s2 where x: "disk_eq s s1" "disk_eq s2 s'" and body: "seq (lift (chunk_header E C key parent span_tokens data kind)) (\<lambda>payload.
           if dict_get payload ''byte_length'' \<noteq> Some (PyInt (int (length data))) then throw ManifestError
           else publish_chunk E C key payload (\<lambda>i header. write_vector i 0 [header, data])) s1 = (Inr desc, s2)"
    using run unfolding commit_chunk_eq [OF C] by (rule exclusive_Inr)
  obtain payload where "publish_chunk E C key payload (\<lambda>i header. write_vector i 0 [header, data]) s1 = (Inr desc, s2)"
    using body by (auto simp: seq_Inr split: if_splits)
  from publish_chunk_anchored [OF this _ _ keeps_write_vector] wf anchor disk_eqD [OF x(1)]
  have "anchored s2 (butlast (manifest_path key))" by simp
  then show ?thesis using disk_eqD [OF x(2)] by simp
qed

section \<open>Runs without faults\<close>

lemma exclusive_ok:
  assumes "fault_free s" and "rs_depth s = 0" and "live_at s MAINTENANCE_LOCK = Some (Regular a)" and "live_at s NAMESPACE_LOCK = Some (Regular b)"
    and "m (s\<lparr>rs_depth := 1\<rparr>) = (r, t)" and "fault_free t"
  shows "exclusive m s = (r, t\<lparr>rs_depth := 0\<rparr>)"
proof -
  have ff: "fault_free (s\<lparr>rs_depth := n\<rparr>)" "fault_free (t\<lparr>rs_depth := n\<rparr>)" for n using assms(1,6) by (simp_all add: fault_free_def)
  have o: "open_rdwr MAINTENANCE_LOCK s = (Inr (Regular a), s)" "open_regular NAMESPACE_LOCK s = (Inr b, s)"
    using assms(3,4) by (simp_all add: open_regular_def open_rdwr_def open_read_def lstat_def seq_def fault_free_syscall [OF assms(1)])
  have f: "flock s = (Inr (), s)" "flock (t\<lparr>rs_depth := 0\<rparr>) = (Inr (), t\<lparr>rs_depth := 0\<rparr>)"
    by (simp_all add: flock_def fault_free_syscall assms(1) ff)
  show ?thesis using assms(2,5) by (simp add: exclusive_def take_locks_def seq_def o f ensure_def set_depth_def)
qed

lemma exclusive_nested_ok:
  assumes "0 < rs_depth s" and "m (s\<lparr>rs_depth := rs_depth s + 1\<rparr>) = (r, t)"
  shows "exclusive m s = (r, t\<lparr>rs_depth := rs_depth s\<rparr>)"
  using assms by (simp add: exclusive_def ensure_def seq_def set_depth_def)

lemma open_chunk_ok:
  assumes "fault_free s" and "is_digest key" and "live_at s (inventory_withdrawal_path key) = None"
    and "live_at s (butlast (manifest_path key)) = Some Directory" and "live_at s (manifest_path key) = Some (Regular i)"
    and whole: "chunk_file E C key parent span_tokens data kind = Inr (in_data (inodes s ! i))" and payload: "chunk_header E C key parent span_tokens data kind = Inr payload"
    and sha: "\<And>x. length (pf_sha E x) = 32" and readable: "readable (pf_limit E) (PyDict payload)" and C: "0 < tc_slot_bytes C"
    and marks: "live_at s WITHDRAWN = Some Directory"
  shows "open_chunk E C key False s = (Inr (i, chunk_descriptor E C key parent span_tokens data kind (in_data (inodes s ! i))), s)"
proof -
  note sys = fault_free_syscall [OF assms(1)]
  have "missing s (inventory_withdrawal_path key) = FileNotFoundError" using marks by (simp add: missing_def key_paths)
  then have "inventory_is_withdrawn key s = (Inr False, s)"
    using assms(3) by (simp add: inventory_is_withdrawn_def digest_marker_is_present_def lstat_opt_def lstat_def sys seq_def except_def not_found_def)
  moreover have "is_symlink (butlast (manifest_path key)) s = (Inr False, s)" using assms(4) by (simp add: is_symlink_def sys)
  moreover have "open_read (manifest_path key) s = (Inr (Regular i), s)" using assms(5) by (simp add: open_read_def sys)
  moreover have "fstat i s = (Inr (inodes s ! i), s)" by (simp add: fstat_def sys)
  ultimately show ?thesis
    using assms(2) read_frame_published(2) [OF whole payload sha readable C refl assms(1)] unfolding open_chunk_def seq_checked by (simp add: seq_def)
qed

end
