(* ===== verification/Token_Guarantees.thy ===== *)
theory Token_Guarantees
  imports Token_Publish
begin

text \<open>
  The guarantees of the token store: publication is atomic and durable, a validated file is authentic
  and a lookup that hits has found a complete prefix; with a small store on which they are exercised.
\<close>

section \<open>A small store\<close>

definition tiny_layout :: hma_layout where
  "tiny_layout = \<lparr>num_manager_blocks = 8, dcp_degree = 1,
     groups = [\<lparr>group_index = 0, gg_spec_name = ''S'', block_size = 256, storage_block_size = 256,
      manager_page_size_bytes = 1, dcp_replicated = False, dcp_shard_count = 1,
      logical_tokens_per_page = 256, reuse_policy = ''full'', reuse_window_tokens = None,
      running_state_tail_pages = 0, is_eagle_group = False,
      gg_layers = [\<lparr>lg_name = ''a'', lg_spec_name = ''S'', lg_page_size_bytes = 1\<rparr>]\<rparr>], layout_schema = LAYOUT_SCHEMA\<rparr>"

definition zeros :: string where
  "zeros = replicate 64 (CHR ''0'')"

definition tiny_identity :: store_identity where
  "tiny_identity = \<lparr>si_deployment_digest = Some zeros, si_rank_digest = Some zeros, si_rank = Some 0, si_topology_digest = Some zeros,
     si_profile = Some VLLM_RUNTIME_KV_PROFILE, si_layout_digest = Some zeros\<rparr>"

definition tiny_config :: token_config where
  "tiny_config = (case TokenFileStore sample_platform tiny_layout 4 1 tiny_identity of Inr C \<Rightarrow> C | Inl _ \<Rightarrow>
     \<lparr>tc_layout = tiny_layout, tc_chunk_tokens = 0, tc_slot_bytes = 0, tc_binding = PyNone\<rparr>)"

definition sample_empty :: rank_store where
  "sample_empty = sample_cached\<lparr>live := ([''tmp''], Directory) # ([''quarantine''], Directory) # dict_pop (manifest_path sample_key) sample_tree,
     durable := ([''tmp''], Directory) # ([''quarantine''], Directory) # dict_pop (manifest_path sample_key) sample_tree\<rparr>"

lemma tiny_results: "TokenFileStore sample_platform tiny_layout 4 1 tiny_identity = Inr tiny_config" "valid_layout tiny_layout"
  by code_simp+

definition tiny_file :: string where
  "tiny_file = (case chunk_file sample_platform tiny_config sample_key None 256 ''x'' ''data'' of Inr b \<Rightarrow> b | Inl _ \<Rightarrow> [])"

definition tiny_header :: "(string, pyval) dict" where
  "tiny_header = (case chunk_header sample_platform tiny_config sample_key None 256 ''x'' ''data'' of Inr d \<Rightarrow> d | Inl _ \<Rightarrow> [])"

lemma tiny_header_ok: "case chunk_header sample_platform tiny_config sample_key None 256 ''x'' ''data'' of Inr _ \<Rightarrow> True | Inl _ \<Rightarrow> False"
  by code_simp

lemma tiny_file_ok: "case chunk_file sample_platform tiny_config sample_key None 256 ''x'' ''data'' of Inr _ \<Rightarrow> True | Inl _ \<Rightarrow> False"
  by code_simp

lemma tiny_readable: "readable (pf_limit sample_platform) (PyDict tiny_header)"
  by code_simp

lemma tiny_hash: "length (pf_sha sample_platform x) = 32"
  by (simp add: sample_platform_def)

lemma tiny_chunk:
  "chunk_file sample_platform tiny_config sample_key None 256 ''x'' ''data'' = Inr tiny_file"
  "chunk_header sample_platform tiny_config sample_key None 256 ''x'' ''data'' = Inr tiny_header"
  using tiny_file_ok tiny_header_ok unfolding tiny_file_def tiny_header_def by (auto split: sum.splits)

lemma tiny_values: "tc_slot_bytes tiny_config = 4" "tc_chunk_tokens tiny_config = 256" "tc_layout tiny_config = tiny_layout"
    "is_digest sample_key" "transfer_pieces tiny_config ''x'' = [''x'']"
  by code_simp+

lemma sample_paths: "manifest_path sample_key = [''manifests'', ''aa'', sample_key @ ''.kv'']" "butlast (manifest_path sample_key) = [''manifests'', ''aa'']"
  by code_simp+

definition sample_stored :: rank_store where
  "sample_stored = sample_cached\<lparr>inodes := (inodes sample_cached)[2 := \<lparr>in_data = tiny_file, in_synced = True, in_mtime = 0\<rparr>]\<rparr>"

lemma sample_empty_ok: "wf_fs sample_empty" "anchored sample_empty [''manifests'']" "on_disk sample_empty (manifest_path sample_key) {None}"
proof -
  have names: "live sample_empty = [([''tmp''], Directory), ([''quarantine''], Directory), ([''state''], Directory), ([''state'', ''inventory-withdrawn''], Directory), ([''manifests''], Directory), ([''manifests'', ''aa''], Directory),
     (MAINTENANCE_LOCK, Regular 0), (NAMESPACE_LOCK, Regular 1), (OBJECT_READS_LOCK, Regular 3)]" "durable sample_empty = live sample_empty" "length (inodes sample_empty) = 4"
    by code_simp+
  show "wf_fs sample_empty"
    unfolding wf_fs_def tree_def names
    by (auto simp: MAINTENANCE_LOCK_def NAMESPACE_LOCK_def OBJECT_READS_LOCK_def split: if_splits)
  show "anchored sample_empty [''manifests'']" "on_disk sample_empty (manifest_path sample_key) {None}"
    unfolding anchored_def on_disk_def names sample_paths
    by (auto simp: take_Cons' binding_in_def MAINTENANCE_LOCK_def NAMESPACE_LOCK_def OBJECT_READS_LOCK_def)
qed

lemma sample_stored_ok:
  "fault_free sample_stored" "rs_depth sample_stored = 0" "\<not> rs_closed sample_stored" "live_at sample_stored MAINTENANCE_LOCK = Some (Regular 0)"
  "live_at sample_stored NAMESPACE_LOCK = Some (Regular 1)" "live_at sample_stored (inventory_withdrawal_path sample_key) = None"
  "live_at sample_stored (butlast (manifest_path sample_key)) = Some Directory" "live_at sample_stored (manifest_path sample_key) = Some (Regular 2)"
  "live_at sample_stored WITHDRAWN = Some Directory"
proof -
  have same: "live sample_stored = live sample_cached" "fs.schedule sample_stored = fs.schedule sample_cached" "power_off sample_stored = power_off sample_cached"
      "rs_depth sample_stored = rs_depth sample_cached" "rs_closed sample_stored = rs_closed sample_cached"
    by (simp_all add: sample_stored_def)
  show "fault_free sample_stored" "rs_depth sample_stored = 0" "\<not> rs_closed sample_stored" "live_at sample_stored MAINTENANCE_LOCK = Some (Regular 0)"
    "live_at sample_stored NAMESPACE_LOCK = Some (Regular 1)" "live_at sample_stored (inventory_withdrawal_path sample_key) = None"
    "live_at sample_stored (butlast (manifest_path sample_key)) = Some Directory" "live_at sample_stored (manifest_path sample_key) = Some (Regular 2)"
    "live_at sample_stored WITHDRAWN = Some Directory"
    unfolding fault_free_def same by code_simp+
qed

lemma sample_stored_bytes: "in_data (inodes sample_stored ! 2) = tiny_file"
proof -
  have "length (inodes sample_cached) = 4" by code_simp
  then show ?thesis by (simp add: sample_stored_def)
qed

section \<open>Publication\<close>

text \<open>
  C29: Publication is atomic, durable and truthful.  Let \<open>bytes\<close> be the complete file for the arguments.
  Whatever the environment does to \<open>commit_chunk\<close> (short writes, failing calls, failing hooks, power
  loss at any point), the key's name is bound, live and on disk, to the complete synced \<open>bytes\<close> or to
  what it was bound to before, and still is after any restart (or the name is lost with its shard).
  When the call returns, the name is bound to \<open>bytes\<close>, no withdrawal marker fences it, every later
  restart finds the same bytes, and the descriptor returned is the one of exactly this payload, with
  its hashes.  When the arguments do not form a file the call raises and the disk is unchanged.
\<close>

theorem commit_chunk_atomic:
  fixes s :: "'z rank_store_scheme"
  assumes "TokenFileStore E layout slot_bytes slot_count ident = Inr C" and "\<And>x. length (pf_sha E x) = 32"
    and "wf_fs s" and "anchored s [''manifests'']" and "on_disk s (manifest_path key) V"
    and "commit_chunk E C key parent span_tokens data kind s = (r, s')"
  shows "case chunk_file E C key parent span_tokens data kind of
      Inl _ \<Rightarrow> disk_eq s s' \<and> (\<exists>e. r = Inl e)
    | Inr bytes \<Rightarrow> on_disk s' (manifest_path key) (insert (Some bytes) V)
        \<and> (\<forall>s'' :: 'z rank_store_scheme. restarted s' s'' \<longrightarrow> on_disk s'' (manifest_path key) (insert None (insert (Some bytes) V)))
        \<and> (\<forall>desc. r = Inr desc \<longrightarrow>
             on_disk s' (manifest_path key) {Some bytes} \<and> live_at s' (inventory_withdrawal_path key) = None
             \<and> (\<forall>s'' :: 'z rank_store_scheme. restarted s' s'' \<longrightarrow> on_disk s'' (manifest_path key) {Some bytes})
             \<and> ((\<exists>payload. chunk_header E C key parent span_tokens data kind = Inr payload \<and> readable (pf_limit E) (PyDict payload))
                \<longrightarrow> desc = chunk_descriptor E C key parent span_tokens data kind bytes)
             \<and> authentic E C (chunk_descriptor E C key parent span_tokens data kind bytes) bytes)"
proof -
  note C = store_config(1) [OF assms(1)]
  note d = commit_chunk_disk [OF assms(6) C assms(3,5)]
  show ?thesis
  proof (cases "chunk_file E C key parent span_tokens data kind")
    case (Inr bytes)
    then have disk: "wf_fs s'" "on_disk s' (manifest_path key) (insert (Some bytes) V)" using d by simp_all
    have success: "on_disk s' (manifest_path key) {Some bytes} \<and> live_at s' (inventory_withdrawal_path key) = None
             \<and> (\<forall>s'' :: 'z rank_store_scheme. restarted s' s'' \<longrightarrow> on_disk s'' (manifest_path key) {Some bytes})
             \<and> ((\<exists>payload. chunk_header E C key parent span_tokens data kind = Inr payload \<and> readable (pf_limit E) (PyDict payload))
                \<longrightarrow> desc = chunk_descriptor E C key parent span_tokens data kind bytes)"
      if ret: "r = Inr desc" for desc
    proof -
      obtain i t t' where o: "on_disk s' (manifest_path key) {Some bytes}" "disk_eq t s'" "open_chunk E C key False t = (Inr (i, desc), t')"
        using d Inr ret by auto
      note same = disk_eq_same [OF o(2)]
      have live: "live_at s' (manifest_path key) = Some (Regular i)" "live_at s' (inventory_withdrawal_path key) = None"
        using opened_file(2) [OF o(3)] open_chunk_Inr(1) [OF o(3)] same by simp_all
      have bytes: "in_data (inodes t ! i) = bytes" using o(1) live(1) same by (simp add: on_disk_def binding_in_def)
      have "on_disk s'' (manifest_path key) {Some bytes}" if "restarted s' s''" for s'' :: "'z rank_store_scheme"
        by (rule on_disk_restarted [OF that commit_chunk_anchored [OF assms(6) [unfolded ret] C assms(3,4)] o(1) disk(1)])
      moreover have "desc = chunk_descriptor E C key parent span_tokens data kind bytes"
        if h: "chunk_header E C key parent span_tokens data kind = Inr payload" "readable (pf_limit E) (PyDict payload)" for payload
      proof -
        obtain u where u: "inodes u = inodes t" "read_frame E C key i (int (length (in_data (inodes t ! i)))) u = (Inr desc, t')"
          by (rule opened_frame [OF o(3)])
        show ?thesis
          by (rule read_frame_published(1) [OF Inr h(1) assms(2) h(2) C _ u(2) [unfolded bytes]]) (simp add: u(1) bytes)
      qed
      ultimately show ?thesis using o(1) live(2) by blast
    qed
    then show ?thesis using Inr disk on_disk_restarted_lost [OF _ disk(2,1)] chunk_descriptor_authentic [OF Inr] by auto
  qed (use d in simp)
qed

theorem commit_chunk_atomic_witness:
  "\<exists>r s'. commit_chunk sample_platform tiny_config sample_key None 256 ''x'' ''data'' sample_empty = (r, s')
     \<and> on_disk s' (manifest_path sample_key) {None, Some tiny_file} \<and> (\<forall>desc. r = Inr desc \<longrightarrow> on_disk s' (manifest_path sample_key) {Some tiny_file})"
proof -
  obtain r s' where run: "commit_chunk sample_platform tiny_config sample_key None 256 ''x'' ''data'' sample_empty = (r, s')" by (rule prod.exhaust)
  from commit_chunk_atomic [OF tiny_results(1) tiny_hash sample_empty_ok run] run show ?thesis
    by (auto simp: tiny_chunk(1) insert_commute)
qed

section \<open>Reading\<close>

text \<open>
  C31: A file that \<open>valid_chunk\<close> accepts is what it claims to be.  When the call returns a
  descriptor, the key is not withdrawn, its name is bound to a regular file, and the descriptor carries
  the requested key, parent, span and kind.  The file begins with the magic, the length and the hash
  of a header; the canonical encoding of that header is exactly the one this store would write for the
  requested key, parent, span and kind under its own binding and page geometry, with the descriptor's
  hashes.  After it comes a payload of the recorded length with the recorded hash, each of whose
  transfer pieces has the recorded block hash.  The call has not changed the disk: short reads, faults,
  corrupt or truncated bytes and files of another key or store never lead to an accepted file.
\<close>

theorem valid_chunk_authentic:
  assumes "TokenFileStore E layout slot_bytes slot_count ident = Inr C"
    and "valid_chunk E C key parent span_tokens kind s = (Inr (Some desc), s')"
  shows "\<exists>i. live_at s (manifest_path key) = Some (Regular i) \<and> live_at s (inventory_withdrawal_path key) = None
     \<and> identified E C key desc (in_data (inodes s ! i)) \<and> authentic E C desc (in_data (inodes s ! i))
     \<and> td_key desc = key \<and> td_parent desc = parent \<and> td_span_tokens desc = span_tokens \<and> td_kind desc = kind
     \<and> disk_eq s s'"
proof -
  obtain s1 s2 where x: "disk_eq s s1" "disk_eq s2 s'" and body: "except file_error
         (seq (open_chunk E C key False) (\<lambda>(i, desc).
          if (td_parent desc, td_span_tokens desc, td_kind desc) \<noteq> (parent, span_tokens, kind) then throw ManifestError
          else seq (authenticate E C i desc) (\<lambda>_. give (Some desc))))
         (\<lambda>e. if e = FileNotFoundError then give None else seq (quarantine_bad key) (\<lambda>_. give None)) s1 = (Inr (Some desc), s2)"
    using assms(2) unfolding valid_chunk_def by (rule exclusive_Inr)
  obtain i s3 u where o: "open_chunk E C key False s1 = (Inr (i, desc), s3)" and a: "authenticate E C i desc s3 = (Inr u, s2)"
      and m: "td_parent desc = parent" "td_span_tokens desc = span_tokens" "td_kind desc = kind"
    using body by (cases rule: except_cases) (auto simp: seq_Inr split: if_splits prod.splits)
  have "same_disk s1 s2" using reads_onlyD [OF reads_open_chunk o] reads_onlyD [OF reads_authenticate a] same_disk_trans by blast
  then have "disk_eq s s'" using disk_eq_trans [OF disk_eq_trans [OF x(1) same_disk_eq] x(2)] by blast
  moreover have "identified E C key desc (in_data (inodes s1 ! i))"
    by (rule opened_frame [OF o]) (metis read_frame_identified store_config(2) [OF assms(1)])
  ultimately show ?thesis
    using open_chunk_Inr [OF o] authenticated_bytes [OF o a store_config(1) [OF assms(1)]] m disk_eq_same [OF x(1)] by auto
qed

definition tiny_descriptor :: token_file_descriptor where
  "tiny_descriptor = chunk_descriptor sample_platform tiny_config sample_key None 256 ''x'' ''data'' tiny_file"

text \<open>Inside the lock at any depth, the file opens and authenticates.\<close>

lemma sample_opens:
  "open_chunk sample_platform tiny_config sample_key False (sample_stored\<lparr>rs_depth := n\<rparr>) = (Inr (2, tiny_descriptor), sample_stored\<lparr>rs_depth := n\<rparr>)"
proof -
  let ?s = "sample_stored\<lparr>rs_depth := n\<rparr>"
  have ff: "fault_free ?s" using sample_stored_ok(1) by (simp add: fault_free_def)
  have whole: "chunk_file sample_platform tiny_config sample_key None 256 ''x'' ''data'' = Inr (in_data (inodes ?s ! 2))"
    by (simp add: sample_stored_bytes tiny_chunk(1))
  show ?thesis
    using open_chunk_ok [OF ff tiny_values(4) _ _ _ whole tiny_chunk(2) tiny_hash tiny_readable] sample_stored_ok(6-9) tiny_values(1)
    by (simp add: tiny_descriptor_def sample_stored_bytes)
qed

text \<open>
  C30: A lookup that hits has found a complete prefix.  The result names the requested entry; its
  objects are data files of consecutive chunks from the first to the last, each the parent of the
  next and the last one under the requested key, followed by the boundary state of exactly that
  entry when the layout needs one; together they hold, for every layer of every group, exactly the
  pages the reuse policy of the group requires at that span, once and in order.  The loop over the
  chain ends after at most one turn per chunk: a larger bound gives the same result.
\<close>

theorem lookup_hit_complete:
  assumes "TokenFileStore E layout slot_bytes slot_count ident = Inr C" and "valid_layout layout"
    and "lookup E C key verify s = (Inr x, s')" and "lk_is_hit x"
  shows "\<exists>m. lk_manifest x = Some m \<and> prefix_files C key m
     \<and> lk_manifest_digest x = Some (td_metadata_digest (last (sn_objects m)))
     \<and> (\<forall>i < length (groups layout). \<forall>l \<in> set (gg_layers (groups layout ! i)).
          pages_of (int i, lg_name l) (snapshot_slices m) = [0 .. page_count_spec (groups layout ! i) (sn_span_tokens m) - 1])
     \<and> (\<forall>d objects turns (t :: 'z rank_store_scheme). data_node C d \<longrightarrow> nat (td_span_tokens d div tc_chunk_tokens C) \<le> turns \<longrightarrow>
          chain_loop E C turns d objects t = chain_loop E C (nat (td_span_tokens d div tc_chunk_tokens C)) d objects t)"
proof -
  note C = store_config(2,3) [OF assms(1)]
  obtain m s1 s2 where "disk_eq s s1" and m: "chain E C key s1 = (Inr m, s2)" "lk_manifest x = Some m"
      "lk_manifest_digest x = Some (td_metadata_digest (last (sn_objects m)))"
    by (rule lookup_hit [OF assms(3,4)])
  note c = chain_Inr [OF m(1) C(1)]
  have cover: "pages_of (int i, lg_name l) (snapshot_slices m) = [0 .. page_count_spec (groups layout ! i) (sn_span_tokens m) - 1]"
    if "i < length (groups layout)" "l \<in> set (gg_layers (groups layout ! i))" for i l
    using coverage_sound(4) [OF assms(2) _ derived_slices_pos that] c C(2) by blast
  have "chain_loop E C turns d objects (t :: 'z rank_store_scheme) = chain_loop E C (nat (td_span_tokens d div tc_chunk_tokens C)) d objects t"
    if d: "data_node C d" "nat (td_span_tokens d div tc_chunk_tokens C) \<le> turns" for d objects turns t
  proof -
    have "0 < td_span_tokens d" "tc_chunk_tokens C dvd td_span_tokens d" using d(1) by (simp_all add: data_node_def)
    then have eq: "int (nat (td_span_tokens d div tc_chunk_tokens C)) * tc_chunk_tokens C = td_span_tokens d"
      using C(1) by (simp add: pos_imp_zdiv_nonneg_iff)
    moreover have "int (nat (td_span_tokens d div tc_chunk_tokens C)) * tc_chunk_tokens C \<le> int turns * tc_chunk_tokens C"
      using d(2) C(1) by (intro mult_right_mono) linarith+
    ultimately have le: "td_span_tokens d \<le> int turns * tc_chunk_tokens C" "td_span_tokens d \<le> int (nat (td_span_tokens d div tc_chunk_tokens C)) * tc_chunk_tokens C"
      by simp_all
    show ?thesis by (rule fun_cong [OF chain_loop_fuel [OF C(1) d(1) le]])
  qed
  then show ?thesis using m(2,3) c cover by blast
qed

lemma tiny_descriptor_fields:
  "td_key tiny_descriptor = sample_key" "td_parent tiny_descriptor = None" "td_span_tokens tiny_descriptor = 256" "td_kind tiny_descriptor = ''data''"
  "td_byte_length tiny_descriptor = 1" "td_payload_offset tiny_descriptor = int (length tiny_file) - 1" "td_sha256 tiny_descriptor = hex_of (pf_sha sample_platform ''x'')"
  "td_block_sha256 tiny_descriptor = [hex_of (pf_sha sample_platform ''x'')]"
  "td_segments tiny_descriptor = Derived \<lparr>ts_layout = tiny_layout, ts_span_tokens = 256, ts_chunk_tokens = 256, ts_kind = ''data''\<rparr>"
  by (simp_all add: tiny_descriptor_def chunk_descriptor_def tiny_values)

lemma sample_authenticates:
  "authenticate sample_platform tiny_config 2 tiny_descriptor (sample_stored\<lparr>rs_depth := n\<rparr>) = (Inr (), sample_stored\<lparr>rs_depth := n\<rparr>)"
proof -
  let ?s = "sample_stored\<lparr>rs_depth := n\<rparr>"
  have ff: "fault_free ?s" using sample_stored_ok(1) by (simp add: fault_free_def)
  have "\<exists>header. header @ ''x'' = tiny_file" using tiny_chunk(1) by (auto simp: chunk_file_def and_then_Inr_iff split: if_splits)
  then obtain header where h: "tiny_file = header @ ''x''" by metis
  have "read_into 2 (length header) 1 ?s = (Inr ''x'', ?s)"
    using read_exact_ok [OF ff, of "length header" 1 2] by (simp add: read_into_def sample_stored_bytes h)
  then show ?thesis by (simp add: authenticate_def tiny_descriptor_fields tiny_values h seq_def)
qed

text \<open>The body of an operation under the lock, run at depth 1.\<close>

lemma sample_locked:
  assumes "m (sample_stored\<lparr>rs_depth := 1\<rparr>) = (r, sample_stored\<lparr>rs_depth := 1\<rparr>)"
  shows "exclusive m sample_stored = (r, sample_stored\<lparr>rs_depth := 0\<rparr>)"
proof -
  have "fault_free (sample_stored\<lparr>rs_depth := 1\<rparr>)" using sample_stored_ok(1) by (simp add: fault_free_def)
  from exclusive_ok [where m = m, OF sample_stored_ok(1,2,4,5) assms this] show ?thesis by simp
qed

lemma sample_validates: "valid_chunk sample_platform tiny_config sample_key None 256 ''data'' sample_stored = (Inr (Some tiny_descriptor), sample_stored\<lparr>rs_depth := 0\<rparr>)"
  unfolding valid_chunk_def
  by (rule sample_locked) (simp add: except_def seq_def sample_opens sample_authenticates tiny_descriptor_fields)

theorem valid_chunk_authentic_witness:
  "valid_chunk sample_platform tiny_config sample_key None 256 ''data'' sample_stored = (Inr (Some tiny_descriptor), sample_stored\<lparr>rs_depth := 0\<rparr>)
     \<and> authentic sample_platform tiny_config tiny_descriptor tiny_file"
proof -
  have "authentic sample_platform tiny_config tiny_descriptor (in_data (inodes sample_stored ! 2))"
    using valid_chunk_authentic [OF tiny_results(1) sample_validates] sample_stored_ok(8) by auto
  then show ?thesis using sample_validates by (simp add: sample_stored_bytes)
qed

definition tiny_snapshot :: token_snapshot where
  "tiny_snapshot = \<lparr>sn_entry_id = sample_key, sn_span_tokens = 256, sn_profile = layout_profile tiny_layout, sn_layout_digest = zeros, sn_objects = [tiny_descriptor]\<rparr>"

lemma tiny_digest: "layout_digest (pf_sha sample_platform) (pf_encoder sample_platform) tiny_layout = Inr zeros" "\<not> has_boundary_state tiny_layout"
  by code_simp+

lemma tiny_covered: "validate_manifest_coverage (pf_sha sample_platform) (pf_encoder sample_platform) tiny_layout tiny_snapshot = Inr ()"
  by (rule chain_accepted [of _ 1 256])
    (simp_all add: tiny_results tiny_digest tiny_snapshot_def tiny_descriptor_fields chain_segments_def, code_simp+)

lemma sample_chain:
  "chain sample_platform tiny_config sample_key (sample_stored\<lparr>rs_depth := n\<rparr>) = (Inr tiny_snapshot, sample_stored\<lparr>rs_depth := n\<rparr>)"
proof -
  let ?s = "sample_stored\<lparr>rs_depth := n\<rparr>"
  have step: "chain_step sample_platform tiny_config sample_key None ?s = (Inr tiny_descriptor, ?s)"
    by (simp add: chain_step_def open_reporting_def except_def seq_def sample_opens tiny_descriptor_fields)
  have loop: "chain_loop sample_platform tiny_config (Suc 0) tiny_descriptor [tiny_descriptor] ?s = (Inr [tiny_descriptor], ?s)"
    by (simp add: tiny_descriptor_fields)
  show ?thesis
    using step loop tiny_covered by (simp add: chain_def seq_def tiny_descriptor_fields tiny_values tiny_digest Let_def tiny_snapshot_def)
qed

lemma sample_found:
  "lookup sample_platform tiny_config sample_key False sample_stored
     = (Inr \<lparr>lk_is_hit = True, lk_reason = ''hit'', lk_manifest = Some tiny_snapshot, lk_manifest_digest = Some (td_metadata_digest tiny_descriptor)\<rparr>, sample_stored\<lparr>rs_depth := 0\<rparr>)"
  unfolding lookup_def seq_checked
  by (rule sample_locked) (simp add: seq_def except_def ensure_open_def sample_stored_ok(3) tiny_values(4) sample_chain, simp add: tiny_snapshot_def)

theorem lookup_hit_complete_witness:
  "prefix_files tiny_config sample_key tiny_snapshot \<and> pages_of (0, ''a'') (snapshot_slices tiny_snapshot) = [0]"
proof -
  have groups: "length (groups tiny_layout) = 1" "gg_layers (groups tiny_layout ! 0) = [\<lparr>lg_name = ''a'', lg_spec_name = ''S'', lg_page_size_bytes = 1\<rparr>]"
    by (simp_all add: tiny_layout_def)
  have n: "page_count_spec (groups tiny_layout ! 0) 256 = 1" "sn_span_tokens tiny_snapshot = 256" by (code_simp, simp add: tiny_snapshot_def)
  show ?thesis
    using lookup_hit_complete [OF tiny_results sample_found] groups n by simp blast
qed

end
