(* ===== verification/Telemetry.thy ===== *)
theory Telemetry
  imports Float_Division "HOL-Library.Multiset"
begin

text \<open>
  \<open>telemetry.py\<close>: the metric vocabulary, the per-source buffer, the payload it drains, payload
  validation and decoding, merging and summaries.  A payload is the plain dictionary the source
  transports, a \<^typ>\<open>pyval\<close>; a metric value is a Python \<open>int\<close> or \<open>float\<close>, and adding a float rounds
  to the nearest double.  \<open>sum\<close> of a list with floats, whose rounding differs between Python
  versions, is the argument \<open>fsum\<close>.
\<close>

section \<open>Vocabulary\<close>

definition METRIC_PAYLOAD_SCHEMA :: string where
  "METRIC_PAYLOAD_SCHEMA = ''spoolcache-metrics/v1''"

definition MAX_HISTOGRAM_OBSERVATIONS :: nat where
  "MAX_HISTOGRAM_OBSERVATIONS = 4096"

definition MAX_METRIC_RECORDS :: nat where
  "MAX_METRIC_RECORDS = 4096"

definition MAX_METRIC_VALUE :: int where
  "MAX_METRIC_VALUE = 2 ^ 63 - 1"

datatype metric_kind = COUNTER | GAUGE | HISTOGRAM

fun kind_value :: "metric_kind \<Rightarrow> string" where
  "kind_value COUNTER = ''counters''"
| "kind_value GAUGE = ''gauges''"
| "kind_value HISTOGRAM = ''histograms''"

declare kind_value.simps [simp del]

record metric_definition =
  md_kind :: metric_kind
  md_documentation :: string
  md_label_names :: "string list"
  md_allowed_labels :: "string list list"
  md_gauge_aggregation :: string
  md_buckets :: "rat list"

definition MetricDefinition :: "metric_definition \<Rightarrow> metric_definition result" where
  "MetricDefinition d =
     (if md_documentation d = [] then Inl ValueError
      else if md_allowed_labels d = [] then Inl ValueError
      else if list_ex (\<lambda>labels. length labels \<noteq> length (md_label_names d)) (md_allowed_labels d) then Inl ValueError
      else if \<not> distinct (md_allowed_labels d) then Inl ValueError
      else if (if md_kind d = GAUGE then md_gauge_aggregation d \<notin> {''max'', ''sum''}
               else md_gauge_aggregation d \<noteq> ''max'')
      then Inl ValueError
      else if (if md_kind d = HISTOGRAM
               then md_buckets d = [] \<or> sort (remdups (md_buckets d)) \<noteq> md_buckets d
                    \<or> list_ex (\<lambda>b. b \<le> 0) (md_buckets d)
               else md_buckets d \<noteq> [])
      then Inl ValueError
      else Inr d)"

definition LOOKUP_LABELS :: "string list list" where
  "LOOKUP_LABELS =
     [[''hit'', ''ready_entry''], [''bypass'', ''request_skip_read''], [''miss'', ''catalog_unavailable''],
        [''miss'', ''cache_salt''], [''miss'', ''request_shape''], [''miss'', ''multimodal_identity''], [''miss'',
        ''safe_span''], [''miss'', ''rank_quorum''], [''miss'', ''restore_budget'']]"

text \<open>The bucket bounds in seconds, as the decimal values written in the source.\<close>

definition SECONDS_BUCKETS :: "rat list" where
  "SECONDS_BUCKETS = [1 / 1000, 1 / 200, 1 / 100, 1 / 40, 1 / 20, 1 / 10, 1 / 4, 1 / 2, 1, 5 / 2, 5, 10, 30, 60, 120]"

definition METRIC_DEFINITIONS :: "(string, metric_definition) dict" where
  "METRIC_DEFINITIONS = [
     (''spoolcache_lookup_total'',
      \<lparr>md_kind = COUNTER,
       md_documentation = ''SpoolCache scheduler lookup attempts by bounded outcome and reason.'',
       md_label_names = [''result'', ''reason''], md_allowed_labels = LOOKUP_LABELS,
       md_gauge_aggregation = ''max'', md_buckets = []\<rparr>),
     (''spoolcache_hit_tokens_total'',
      \<lparr>md_kind = COUNTER,
       md_documentation = ''Prompt tokens admitted for a SpoolCache external restore.'',
       md_label_names = [], md_allowed_labels = [[]],
       md_gauge_aggregation = ''max'', md_buckets = []\<rparr>),
     (''spoolcache_restore_bytes_total'',
      \<lparr>md_kind = COUNTER,
       md_documentation = ''Logical KV bytes restored from rank-local storage.'',
       md_label_names = [], md_allowed_labels = [[]],
       md_gauge_aggregation = ''max'', md_buckets = []\<rparr>),
     (''spoolcache_restore_seconds'',
      \<lparr>md_kind = HISTOGRAM,
       md_documentation = ''Synchronous authenticated rank-local restore duration.'',
       md_label_names = [], md_allowed_labels = [[]],
       md_gauge_aggregation = ''max'', md_buckets = SECONDS_BUCKETS\<rparr>),
     (''spoolcache_store_bytes_total'',
      \<lparr>md_kind = COUNTER,
       md_documentation = ''Logical KV bytes durably stored in rank-local storage.'',
       md_label_names = [], md_allowed_labels = [[]],
       md_gauge_aggregation = ''max'', md_buckets = []\<rparr>),
     (''spoolcache_store_seconds'',
      \<lparr>md_kind = HISTOGRAM,
       md_documentation = ''Synchronous durable rank-local store duration.'',
       md_label_names = [], md_allowed_labels = [[]],
       md_gauge_aggregation = ''max'', md_buckets = SECONDS_BUCKETS\<rparr>),
     (''spoolcache_store_skipped_total'',
      \<lparr>md_kind = COUNTER,
       md_documentation = ''Optional stores skipped by a bounded reason.'',
       md_label_names = [''reason''], md_allowed_labels = [[''duplicate''], [''budget''], [''busy''],
        [''unsafe_boundary''], [''error'']],
       md_gauge_aggregation = ''max'', md_buckets = []\<rparr>),
     (''spoolcache_post_admission_failure_total'',
      \<lparr>md_kind = COUNTER,
       md_documentation = ''Fatal restore failures after scheduler admission.'',
       md_label_names = [''phase''], md_allowed_labels = [[''lookup''], [''span''], [''manifest''], [''payload''],
        [''unknown'']],
       md_gauge_aggregation = ''max'', md_buckets = []\<rparr>),
     (''spoolcache_rank_quorum_entries'',
      \<lparr>md_kind = GAUGE,
       md_documentation = ''Entries currently offered by every required physical rank.'',
       md_label_names = [], md_allowed_labels = [[]],
       md_gauge_aggregation = ''max'', md_buckets = []\<rparr>),
     (''spoolcache_rank_generation_changes_total'',
      \<lparr>md_kind = COUNTER,
       md_documentation = ''Observed worker generation replacements after initial handshake.'',
       md_label_names = [], md_allowed_labels = [[]],
       md_gauge_aggregation = ''max'', md_buckets = []\<rparr>),
     (''spoolcache_pinned_pool_bytes'',
      \<lparr>md_kind = GAUGE,
       md_documentation = ''Configured pinned staging bytes across reporting physical ranks.'',
       md_label_names = [], md_allowed_labels = [[]],
       md_gauge_aggregation = ''sum'', md_buckets = []\<rparr>),
     (''spoolcache_delayed_store_requests'',
      \<lparr>md_kind = GAUGE,
       md_documentation = ''Requests waiting to reach a safe synchronous store boundary.'',
       md_label_names = [], md_allowed_labels = [[]],
       md_gauge_aggregation = ''max'', md_buckets = []\<rparr>),
     (''spoolcache_disk_bytes'',
      \<lparr>md_kind = GAUGE,
       md_documentation = ''Manifest and immutable-object bytes across reporting rank roots.'',
       md_label_names = [], md_allowed_labels = [[]],
       md_gauge_aggregation = ''sum'', md_buckets = []\<rparr>),
     (''spoolcache_managed_disk_bytes'',
      \<lparr>md_kind = GAUGE,
       md_documentation = ''All regular-file bytes owned by reporting rank-local cache roots.'',
       md_label_names = [], md_allowed_labels = [[]],
       md_gauge_aggregation = ''sum'', md_buckets = []\<rparr>),
     (''spoolcache_quarantine_bytes'',
      \<lparr>md_kind = GAUGE,
       md_documentation = ''Quarantined evidence bytes retained across reporting rank roots.'',
       md_label_names = [], md_allowed_labels = [[]],
       md_gauge_aggregation = ''sum'', md_buckets = []\<rparr>),
     (''spoolcache_quarantined_entries_total'',
      \<lparr>md_kind = COUNTER,
       md_documentation = ''Corrupt manifests or immutable objects quarantined by bounded reason.'',
       md_label_names = [''reason''], md_allowed_labels = [[''manifest_io''], [''manifest_validation''],
        [''object_collision''], [''payload_checksum''], [''payload_size''], [''unknown'']],
       md_gauge_aggregation = ''max'', md_buckets = []\<rparr>),
     (''spoolcache_scrub_payload_bytes_total'',
      \<lparr>md_kind = COUNTER,
       md_documentation = ''Stored payload bytes authenticated by rank-local deep scrub.'',
       md_label_names = [], md_allowed_labels = [[]],
       md_gauge_aggregation = ''max'', md_buckets = []\<rparr>),
     (''spoolcache_scrub_objects_total'',
      \<lparr>md_kind = COUNTER,
       md_documentation = ''Immutable objects authenticated by rank-local deep scrub.'',
       md_label_names = [], md_allowed_labels = [[]],
       md_gauge_aggregation = ''max'', md_buckets = []\<rparr>),
     (''spoolcache_scrub_manifests_total'',
      \<lparr>md_kind = COUNTER,
       md_documentation = ''Rank manifests fully authenticated by rank-local deep scrub.'',
       md_label_names = [], md_allowed_labels = [[]],
       md_gauge_aggregation = ''max'', md_buckets = []\<rparr>),
     (''spoolcache_scrub_cycles_total'',
      \<lparr>md_kind = COUNTER,
       md_documentation = ''Complete resumable rank-local deep scrub cycles.'',
       md_label_names = [], md_allowed_labels = [[]],
       md_gauge_aggregation = ''max'', md_buckets = []\<rparr>),
     (''spoolcache_scrub_objects_quarantined_total'',
      \<lparr>md_kind = COUNTER,
       md_documentation = ''Corrupt or unrecognized managed objects moved to quarantine by scrub.'',
       md_label_names = [], md_allowed_labels = [[]],
       md_gauge_aggregation = ''max'', md_buckets = []\<rparr>),
     (''spoolcache_scrub_failures_total'',
      \<lparr>md_kind = COUNTER,
       md_documentation = ''Unexpected scheduled deep scrub step failures.'',
       md_label_names = [], md_allowed_labels = [[]],
       md_gauge_aggregation = ''max'', md_buckets = []\<rparr>),
     (''spoolcache_scrub_namespace_items_total'',
      \<lparr>md_kind = COUNTER,
       md_documentation = ''Managed namespace entries examined by incremental deep scrub snapshots.'',
       md_label_names = [], md_allowed_labels = [[]],
       md_gauge_aggregation = ''max'', md_buckets = []\<rparr>),
     (''spoolcache_scrub_shutdown_failures_total'',
      \<lparr>md_kind = COUNTER,
       md_documentation = ''Scheduled deep scrub shutdowns that exceeded the fixed join timeout.'',
       md_label_names = [], md_allowed_labels = [[]],
       md_gauge_aggregation = ''max'', md_buckets = []\<rparr>),
     (''spoolcache_orphan_objects_removed_total'',
      \<lparr>md_kind = COUNTER,
       md_documentation = ''Unreferenced immutable objects removed after a complete manifest pass.'',
       md_label_names = [], md_allowed_labels = [[]],
       md_gauge_aggregation = ''max'', md_buckets = []\<rparr>),
     (''spoolcache_orphan_bytes_removed_total'',
      \<lparr>md_kind = COUNTER,
       md_documentation = ''Unreferenced immutable-object bytes reclaimed by deep scrub.'',
       md_label_names = [], md_allowed_labels = [[]],
       md_gauge_aggregation = ''max'', md_buckets = []\<rparr>),
     (''spoolcache_temporary_files_removed_total'',
      \<lparr>md_kind = COUNTER,
       md_documentation = ''Abandoned publication temporary files removed by deep scrub.'',
       md_label_names = [], md_allowed_labels = [[]],
       md_gauge_aggregation = ''max'', md_buckets = []\<rparr>),
     (''spoolcache_required_ranks'',
      \<lparr>md_kind = GAUGE,
       md_documentation = ''Physical ranks required by the scheduler topology.'',
       md_label_names = [], md_allowed_labels = [[]],
       md_gauge_aggregation = ''max'', md_buckets = []\<rparr>),
     (''spoolcache_ready_ranks'',
      \<lparr>md_kind = GAUGE,
       md_documentation = ''Physical ranks with a current synchronized inventory generation.'',
       md_label_names = [], md_allowed_labels = [[]],
       md_gauge_aggregation = ''max'', md_buckets = []\<rparr>),
     (''spoolcache_readiness'',
      \<lparr>md_kind = GAUGE,
       md_documentation = ''Boolean SpoolCache scheduler readiness conditions.'',
       md_label_names = [''condition''], md_allowed_labels = [[''rank_identity''], [''inventory_quorum''],
        [''fatal_clear'']],
       md_gauge_aggregation = ''max'', md_buckets = []\<rparr>),
     (''spoolcache_telemetry_dropped_total'',
      \<lparr>md_kind = COUNTER,
       md_documentation = ''Telemetry observations dropped to preserve a fixed memory bound.'',
       md_label_names = [''kind''], md_allowed_labels = [[''histogram'']],
       md_gauge_aggregation = ''max'', md_buckets = []\<rparr>)]"

section \<open>Numbers\<close>

text \<open>Addition of two numbers.\<close>

fun float_value :: "pyval \<Rightarrow> pyfloat option" where
  "float_value (PyInt n) = Some (round_double (of_int n))"
| "float_value (PyFloat f) = Some f"
| "float_value _ = None"

fun float_add :: "pyfloat \<Rightarrow> pyfloat \<Rightarrow> pyfloat" where
  "float_add (Finite x) (Finite y) = round_double (x + y)"
| "float_add NotANumber _ = NotANumber"
| "float_add _ NotANumber = NotANumber"
| "float_add _ _ = Infinite"

definition num_add :: "pyval \<Rightarrow> pyval \<Rightarrow> pyval result" where
  "num_add x y =
     (case (x, y) of
        (PyInt m, PyInt n) \<Rightarrow> Inr (PyInt (m + n))
      | _ \<Rightarrow> (case (float_value x, float_value y) of
                (Some f, Some g) \<Rightarrow> Inr (PyFloat (float_add f g))
              | _ \<Rightarrow> Inl TypeError))"

definition validate_number :: "pyval \<Rightarrow> pyval result" where
  "validate_number v =
     (case v of
        PyInt n \<Rightarrow> if n < 0 \<or> MAX_METRIC_VALUE < n then Inl ValueError else Inr v
      | PyFloat (Finite q) \<Rightarrow> if q < 0 \<or> of_int MAX_METRIC_VALUE < q then Inl ValueError else Inr v
      | _ \<Rightarrow> Inl ValueError)"

section \<open>Validation\<close>

text \<open>The pattern \<open>^(?:scheduler|rank:(?:0|[1-9][0-9]*))$\<close>.\<close>

definition is_source :: "string \<Rightarrow> bool" where
  "is_source s \<longleftrightarrow>
     s = ''scheduler''
     \<or> (take 5 s = ''rank:''
        \<and> (let digits = drop 5 s in
            digits = ''0'' \<or> (digits \<noteq> [] \<and> hd digits \<noteq> CHR ''0'' \<and> list_all (\<lambda>c. c \<in> set ''0123456789'') digits)))"

definition validate_source :: "pyval \<Rightarrow> string result" where
  "validate_source v =
     (case as_str v of
        None \<Rightarrow> Inl ValueError
      | Some s \<Rightarrow> if 32 < code_points s \<or> \<not> is_source s then Inl ValueError else Inr s)"

type_synonym metric_key = "string \<times> string list"

definition validate_metric :: "pyval \<Rightarrow> pyval list \<Rightarrow> metric_kind \<Rightarrow> metric_key result" where
  "validate_metric name labels kind =
     (case as_str name of
        None \<Rightarrow> Inl ValueError
      | Some n \<Rightarrow>
          (case dict_get METRIC_DEFINITIONS n of
             None \<Rightarrow> Inl ValueError
           | Some d \<Rightarrow>
               if md_kind d \<noteq> kind then Inl TypeError
               else and_then (map_result (\<lambda>v. case as_str v of None \<Rightarrow> Inl TypeError | Some s \<Rightarrow> Inr s) labels) (\<lambda>ls.
                 if ls \<notin> set (md_allowed_labels d) then Inl ValueError else Inr (n, ls))))"

section \<open>The buffer of one source\<close>

record telemetry_buffer =
  tb_source :: string
  tb_counters :: "(metric_key, pyval) dict"
  tb_gauges :: "(metric_key, pyval) dict"
  tb_histograms :: "(metric_key, pyval list) dict"

definition TelemetryBuffer :: "pyval \<Rightarrow> telemetry_buffer result" where
  "TelemetryBuffer source =
     and_then (validate_source source) (\<lambda>s.
       Inr \<lparr>tb_source = s, tb_counters = [], tb_gauges = [], tb_histograms = []\<rparr>)"

definition counter_total :: "(metric_key, pyval) dict \<Rightarrow> metric_key \<Rightarrow> pyval" where
  "counter_total counters key = (case dict_get counters key of None \<Rightarrow> PyInt 0 | Some v \<Rightarrow> v)"

definition add_counter :: "metric_key \<Rightarrow> pyval \<Rightarrow> (metric_key, pyval) dict \<Rightarrow> (metric_key, pyval) dict result" where
  "add_counter key amount counters =
     and_then (num_add (counter_total counters key) amount) (\<lambda>total.
     and_then (validate_number total) (\<lambda>total. Inr (dict_set key total counters)))"

definition increment :: "string \<Rightarrow> pyval \<Rightarrow> string list \<Rightarrow> telemetry_buffer \<Rightarrow> telemetry_buffer result" where
  "increment name amount labels b =
     and_then (validate_metric (PyStr name) (map PyStr labels) COUNTER) (\<lambda>key.
     and_then (validate_number amount) (\<lambda>amount.
     and_then (add_counter key amount (tb_counters b)) (\<lambda>counters.
       Inr (b\<lparr>tb_counters := counters\<rparr>))))"

definition set_gauge :: "string \<Rightarrow> pyval \<Rightarrow> string list \<Rightarrow> telemetry_buffer \<Rightarrow> telemetry_buffer result" where
  "set_gauge name amount labels b =
     and_then (validate_metric (PyStr name) (map PyStr labels) GAUGE) (\<lambda>key.
     and_then (validate_number amount) (\<lambda>amount.
       Inr (b\<lparr>tb_gauges := dict_set key amount (tb_gauges b)\<rparr>)))"

text \<open>
  \<open>setdefault\<close> registers the histogram before the bound is checked, so an observation that is
  dropped, or whose drop counter raises, still leaves its key behind: the result carries the buffer
  also when it raises.
\<close>

definition DROPPED :: metric_key where
  "DROPPED = (''spoolcache_telemetry_dropped_total'', [''histogram''])"

definition observed :: "(metric_key, pyval list) dict \<Rightarrow> metric_key \<Rightarrow> pyval list" where
  "observed histograms key = (case dict_get histograms key of None \<Rightarrow> [] | Some vs \<Rightarrow> vs)"

definition observe :: "string \<Rightarrow> pyval \<Rightarrow> string list \<Rightarrow> telemetry_buffer \<Rightarrow> unit result \<times> telemetry_buffer" where
  "observe name observation labels b =
     (case and_then (validate_metric (PyStr name) (map PyStr labels) HISTOGRAM) (\<lambda>key.
             and_then (validate_number observation) (\<lambda>v. Inr (key, v))) of
        Inl e \<Rightarrow> (Inl e, b)
      | Inr (key, v) \<Rightarrow>
          (let vs = observed (tb_histograms b) key;
               b' = b\<lparr>tb_histograms := dict_set key vs (tb_histograms b)\<rparr> in
           if MAX_HISTOGRAM_OBSERVATIONS \<le> length vs
           then (case increment (fst DROPPED) (PyInt 1) (snd DROPPED) b' of
                   Inl e \<Rightarrow> (Inl e, b')
                 | Inr b'' \<Rightarrow> (Inr (), b''))
           else (Inr (), b\<lparr>tb_histograms := dict_set key (vs @ [v]) (tb_histograms b)\<rparr>)))"

section \<open>Payloads\<close>

definition label_list :: "string list \<Rightarrow> pyval" where
  "label_list labels = PyList (map PyStr labels)"

definition counter_record :: "metric_key \<times> pyval \<Rightarrow> pyval" where
  "counter_record item = (case item of ((name, labels), v) \<Rightarrow>
     PyDict [(''name'', PyStr name), (''labels'', label_list labels), (''value'', v)])"

definition gauge_record :: "(string \<times> string list \<times> string) \<times> pyval \<Rightarrow> pyval" where
  "gauge_record item = (case item of ((name, labels, source), v) \<Rightarrow>
     PyDict [(''name'', PyStr name), (''labels'', label_list labels), (''source'', PyStr source), (''value'', v)])"

definition histogram_record :: "metric_key \<times> pyval list \<Rightarrow> pyval" where
  "histogram_record item = (case item of ((name, labels), vs) \<Rightarrow>
     PyDict [(''name'', PyStr name), (''labels'', label_list labels), (''values'', PyList vs)])"

definition metric_payload :: "pyval list \<Rightarrow> pyval list \<Rightarrow> pyval list \<Rightarrow> (string, pyval) dict" where
  "metric_payload counters gauges histograms =
     [(''schema'', PyStr METRIC_PAYLOAD_SCHEMA), (kind_value COUNTER, PyList counters),
      (kind_value GAUGE, PyList gauges), (kind_value HISTOGRAM, PyList histograms)]"

definition empty_metric_payload :: "(string, pyval) dict" where
  "empty_metric_payload = metric_payload [] [] []"

text \<open>\<open>sorted(d.items())\<close>: the keys of a dictionary are distinct, so they decide the order.\<close>

definition sorted_items :: "('k::linorder, 'v) dict \<Rightarrow> ('k \<times> 'v) list" where
  "sorted_items d = sort_key fst d"

definition drain :: "telemetry_buffer \<Rightarrow> (string, pyval) dict \<times> telemetry_buffer" where
  "drain b =
     (metric_payload (map counter_record (sorted_items (tb_counters b)))
        (map (\<lambda>((name, labels), v). gauge_record ((name, labels, tb_source b), v)) (sorted_items (tb_gauges b)))
        (map histogram_record (sorted_items (tb_histograms b))),
      b\<lparr>tb_counters := [], tb_histograms := []\<rparr>)"

record metric_record =
  mr_name :: string
  mr_labels :: "string list"
  mr_value :: "pyval option"
  mr_values :: "pyval list"
  mr_source :: "string option"

fun expected_keys :: "metric_kind \<Rightarrow> string set" where
  "expected_keys COUNTER = {''name'', ''labels'', ''value''}"
| "expected_keys GAUGE = {''name'', ''labels'', ''value'', ''source''}"
| "expected_keys HISTOGRAM = {''name'', ''labels'', ''values''}"

definition field :: "(string, pyval) dict \<Rightarrow> string \<Rightarrow> pyval" where
  "field raw name = (case dict_get raw name of None \<Rightarrow> PyNone | Some v \<Rightarrow> v)"

definition decode_value :: "metric_kind \<Rightarrow> (string, pyval) dict \<Rightarrow> metric_key \<Rightarrow> string option \<Rightarrow> metric_record result" where
  "decode_value kind raw key source =
     (if kind = HISTOGRAM
      then (case as_list (field raw ''values'') of
              None \<Rightarrow> Inl ValueError
            | Some vs \<Rightarrow>
                if MAX_HISTOGRAM_OBSERVATIONS < length vs then Inl ValueError
                else and_then (map_result validate_number vs) (\<lambda>vs.
                  Inr \<lparr>mr_name = fst key, mr_labels = snd key, mr_value = None, mr_values = vs, mr_source = None\<rparr>))
      else and_then (validate_number (field raw ''value'')) (\<lambda>v.
             Inr \<lparr>mr_name = fst key, mr_labels = snd key, mr_value = Some v, mr_values = [], mr_source = source\<rparr>))"

fun as_dict :: "pyval \<Rightarrow> (string, pyval) dict option" where
  "as_dict (PyDict d) = Some d"
| "as_dict _ = None"

definition decode_record ::
  "metric_kind \<Rightarrow> metric_record list \<times> (metric_key \<times> string option) set \<Rightarrow> pyval \<Rightarrow>
   (metric_record list \<times> (metric_key \<times> string option) set) result" where
  "decode_record kind state value =
     (case as_dict value of
        None \<Rightarrow> Inl ValueError
      | Some raw \<Rightarrow>
          if set (dict_keys raw) \<noteq> expected_keys kind then Inl ValueError
          else
            (case as_list (field raw ''labels'') of
               None \<Rightarrow> Inl ValueError
             | Some labels \<Rightarrow>
                 and_then (validate_metric (field raw ''name'') labels kind) (\<lambda>key.
                 and_then (if kind = GAUGE
                           then and_then (validate_source (field raw ''source'')) (\<lambda>s. Inr (Some s))
                           else Inr None) (\<lambda>source.
                   if (key, source) \<in> snd state then Inl ValueError
                   else and_then (decode_value kind raw key source) (\<lambda>r.
                          Inr (fst state @ [r], insert (key, source) (snd state)))))))"

definition decode_records :: "(string, pyval) dict \<Rightarrow> metric_kind \<Rightarrow> metric_record list result" where
  "decode_records payload kind =
     (case as_list (field payload (kind_value kind)) of
        None \<Rightarrow> Inl ValueError
      | Some raws \<Rightarrow>
          if MAX_METRIC_RECORDS < length raws then Inl ValueError
          else and_then (fold_result (decode_record kind) ([], {}) raws) (\<lambda>(records, _). Inr records))"

definition validate_metric_payload :: "pyval \<Rightarrow> unit result" where
  "validate_metric_payload value =
     (case as_dict value of
        None \<Rightarrow> Inl ValueError
      | Some payload \<Rightarrow>
          if set (dict_keys payload) \<noteq> {''schema'', kind_value COUNTER, kind_value GAUGE, kind_value HISTOGRAM}
          then Inl ValueError
          else if field payload ''schema'' \<noteq> PyStr METRIC_PAYLOAD_SCHEMA then Inl ValueError
          else and_then (map_result (decode_records payload) [COUNTER, GAUGE, HISTOGRAM]) (\<lambda>_. Inr ()))"

definition iter_metric_records :: "(string, pyval) dict \<Rightarrow> metric_kind \<Rightarrow> metric_record list result" where
  "iter_metric_records payload kind =
     and_then (validate_metric_payload (PyDict payload)) (\<lambda>_. decode_records payload kind)"

definition metric_payload_is_empty :: "(string, pyval) dict \<Rightarrow> bool result" where
  "metric_payload_is_empty payload =
     and_then (validate_metric_payload (PyDict payload)) (\<lambda>_.
       Inr (\<not> list_ex (\<lambda>kind. field payload (kind_value kind) \<noteq> PyList []) [COUNTER, GAUGE, HISTOGRAM]))"

section \<open>Merging and summaries\<close>

record merge_state =
  ms_counters :: "(metric_key, pyval) dict"
  ms_gauges :: "(string \<times> string list \<times> string, pyval) dict"
  ms_histograms :: "(metric_key, pyval list) dict"
  ms_overflow :: int

definition merge_counter :: "merge_state \<Rightarrow> metric_record \<Rightarrow> merge_state result" where
  "merge_counter m r =
     (case mr_value r of
        None \<Rightarrow> Inl AssertionError
      | Some v \<Rightarrow>
          and_then (add_counter (mr_name r, mr_labels r) v (ms_counters m)) (\<lambda>c. Inr (m\<lparr>ms_counters := c\<rparr>)))"

definition merge_gauge :: "merge_state \<Rightarrow> metric_record \<Rightarrow> merge_state result" where
  "merge_gauge m r =
     (case (mr_value r, mr_source r) of
        (Some v, Some s) \<Rightarrow> Inr (m\<lparr>ms_gauges := dict_set (mr_name r, mr_labels r, s) v (ms_gauges m)\<rparr>)
      | _ \<Rightarrow> Inl AssertionError)"

definition merge_histogram :: "merge_state \<Rightarrow> metric_record \<Rightarrow> merge_state result" where
  "merge_histogram m r =
     (let key = (mr_name r, mr_labels r);
          vs = observed (ms_histograms m) key;
          remaining = MAX_HISTOGRAM_OBSERVATIONS - length vs
      in Inr (m\<lparr>ms_histograms := dict_set key (vs @ take remaining (mr_values r)) (ms_histograms m),
                ms_overflow := ms_overflow m + max 0 (int (length (mr_values r)) - int remaining)\<rparr>))"

definition merge_payload :: "merge_state \<Rightarrow> (string, pyval) dict \<Rightarrow> merge_state result" where
  "merge_payload m payload =
     and_then (validate_metric_payload (PyDict payload)) (\<lambda>_.
     and_then (decode_records payload COUNTER) (\<lambda>cs.
     and_then (fold_result merge_counter m cs) (\<lambda>m.
     and_then (decode_records payload GAUGE) (\<lambda>gs.
     and_then (fold_result merge_gauge m gs) (\<lambda>m.
     and_then (decode_records payload HISTOGRAM) (\<lambda>hs.
       fold_result merge_histogram m hs))))))"

definition merged_payload :: "merge_state \<Rightarrow> (string, pyval) dict" where
  "merged_payload m =
     metric_payload (map counter_record (sorted_items (ms_counters m)))
       (map gauge_record (sorted_items (ms_gauges m))) (map histogram_record (sorted_items (ms_histograms m)))"

definition merge_metric_payloads :: "(string, pyval) dict list \<Rightarrow> (string, pyval) dict result" where
  "merge_metric_payloads payloads =
     and_then (fold_result merge_payload \<lparr>ms_counters = [], ms_gauges = [], ms_histograms = [], ms_overflow = 0\<rparr> payloads) (\<lambda>m.
     and_then (if ms_overflow m \<noteq> 0
               then and_then (add_counter DROPPED (PyInt (ms_overflow m)) (ms_counters m)) (\<lambda>c.
                      Inr (m\<lparr>ms_counters := c\<rparr>))
               else Inr m) (\<lambda>m.
       let merged = merged_payload m in
       and_then (validate_metric_payload (PyDict merged)) (\<lambda>_. Inr merged)))"

definition num_rat :: "pyval \<Rightarrow> rat" where
  "num_rat v = (case v of PyInt n \<Rightarrow> of_int n | PyFloat (Finite q) \<Rightarrow> q | _ \<Rightarrow> 0)"

definition all_ints :: "pyval list \<Rightarrow> bool" where
  "all_ints vs = list_all (\<lambda>v. as_int v \<noteq> None) vs"

definition py_sum :: "(pyval list \<Rightarrow> pyval) \<Rightarrow> pyval list \<Rightarrow> pyval" where
  "py_sum fsum vs =
     (if all_ints vs then PyInt (sum_list (map (\<lambda>v. case as_int v of None \<Rightarrow> 0 | Some n \<Rightarrow> n) vs)) else fsum vs)"

fun py_max :: "pyval list \<Rightarrow> pyval result" where
  "py_max [] = Inl ValueError"
| "py_max (v # vs) = Inr (fold (\<lambda>w best. if num_rat best < num_rat w then w else best) vs v)"

definition group_gauges :: "metric_record list \<Rightarrow> (metric_key, pyval list) dict result" where
  "group_gauges records =
     fold_result (\<lambda>grouped r.
       case mr_value r of
         None \<Rightarrow> Inl AssertionError
       | Some v \<Rightarrow> let key = (mr_name r, mr_labels r) in Inr (dict_set key (observed grouped key @ [v]) grouped)) [] records"

definition aggregate_gauges :: "(pyval list \<Rightarrow> pyval) \<Rightarrow> (string, pyval) dict \<Rightarrow> (metric_key, pyval) dict result" where
  "aggregate_gauges fsum payload =
     and_then (iter_metric_records payload GAUGE) (\<lambda>records.
     and_then (group_gauges records) (\<lambda>grouped.
       map_result (\<lambda>(key, vs).
         and_then (case dict_get METRIC_DEFINITIONS (fst key) of
                     None \<Rightarrow> Inl KeyError
                   | Some d \<Rightarrow> if md_gauge_aggregation d = ''sum'' then Inr (py_sum fsum vs) else py_max vs) (\<lambda>v.
         and_then (validate_number v) (\<lambda>v. Inr (key, v)))) grouped))"

fun join :: "string \<Rightarrow> string list \<Rightarrow> string" where
  "join sep [] = []"
| "join sep [x] = x"
| "join sep (x # xs) = x @ sep @ join sep xs"

definition summary_key :: "metric_key \<Rightarrow> string" where
  "summary_key key =
     (case key of (name, labels) \<Rightarrow> if labels = [] then name else name @ ''{'' @ join '','' labels @ ''}'')"

definition reduce_metric_payload :: "(pyval list \<Rightarrow> pyval) \<Rightarrow> (string, pyval) dict \<Rightarrow> (string, pyval) dict result" where
  "reduce_metric_payload fsum payload =
     and_then (iter_metric_records payload COUNTER) (\<lambda>cs.
     and_then (fold_result (\<lambda>summary r. case mr_value r of
                  None \<Rightarrow> Inl AssertionError
                | Some v \<Rightarrow> Inr (dict_set (summary_key (mr_name r, mr_labels r)) v summary)) [] cs) (\<lambda>summary.
     and_then (aggregate_gauges fsum payload) (\<lambda>gauges.
     let summary = fold (\<lambda>(key, v) s. dict_set (summary_key key) v s) gauges summary in
     and_then (iter_metric_records payload HISTOGRAM) (\<lambda>hs.
       fold_result (\<lambda>summary r.
         let key = summary_key (mr_name r, mr_labels r);
             summary = dict_set (key @ ''_count'') (PyInt (int (length (mr_values r)))) summary
         in and_then (validate_number (py_sum fsum (mr_values r))) (\<lambda>total.
              Inr (dict_set (key @ ''_sum'') total summary))) summary hs))))"

section \<open>Keys and records\<close>

definition valid_key :: "metric_kind \<Rightarrow> metric_key \<Rightarrow> bool" where
  "valid_key kind key \<longleftrightarrow>
     (\<exists>d. dict_get METRIC_DEFINITIONS (fst key) = Some d \<and> md_kind d = kind \<and> snd key \<in> set (md_allowed_labels d))"

definition valid_number :: "pyval \<Rightarrow> bool" where
  "valid_number v \<longleftrightarrow> validate_number v = Inr v"

lemma validate_number_Inr: "validate_number v = Inr w \<longleftrightarrow> w = v \<and> valid_number v"
  by (auto simp: valid_number_def validate_number_def split: pyval.splits pyfloat.splits if_splits)

lemma string_labels_Inr:
  "map_result (\<lambda>v. case as_str v of None \<Rightarrow> Inl TypeError | Some s \<Rightarrow> Inr s) vs = Inr ls \<longleftrightarrow> vs = map PyStr ls"
proof -
  have elem: "(case as_str v of None \<Rightarrow> Inl TypeError | Some s \<Rightarrow> Inr s) = Inr l \<longleftrightarrow> v = PyStr l" for v l
    by (cases v) auto
  show ?thesis
    by (simp add: map_result_Inr_iff elem list_all2_conv_all_nth) (auto simp: list_eq_iff_nth_eq)
qed

lemma validate_metric_Inr:
  "validate_metric name labels kind = Inr key \<longleftrightarrow> name = PyStr (fst key) \<and> labels = map PyStr (snd key) \<and> valid_key kind key"
proof (cases "as_str name")
  case None
  then have "name \<noteq> PyStr s" for s by auto
  then show ?thesis by (simp add: validate_metric_def None)
next
  case (Some s)
  then show ?thesis
    by (cases key) (auto simp: validate_metric_def valid_key_def and_then_Inr_iff string_labels_Inr split: option.splits if_splits)
qed

definition counter_rec :: "metric_key \<times> pyval \<Rightarrow> metric_record" where
  "counter_rec i = \<lparr>mr_name = fst (fst i), mr_labels = snd (fst i), mr_value = Some (snd i), mr_values = [], mr_source = None\<rparr>"

definition gauge_rec :: "(string \<times> string list \<times> string) \<times> pyval \<Rightarrow> metric_record" where
  "gauge_rec i = (case i of ((name, labels, source), v) \<Rightarrow>
     \<lparr>mr_name = name, mr_labels = labels, mr_value = Some v, mr_values = [], mr_source = Some source\<rparr>)"

definition histogram_rec :: "metric_key \<times> pyval list \<Rightarrow> metric_record" where
  "histogram_rec i = \<lparr>mr_name = fst (fst i), mr_labels = snd (fst i), mr_value = None, mr_values = snd i, mr_source = None\<rparr>"

text \<open>Which dictionary entries are well formed.\<close>

definition counter_ok :: "metric_key \<times> pyval \<Rightarrow> bool" where
  "counter_ok i \<longleftrightarrow> valid_key COUNTER (fst i) \<and> valid_number (snd i)"

definition gauge_ok :: "(string \<times> string list \<times> string) \<times> pyval \<Rightarrow> bool" where
  "gauge_ok i \<longleftrightarrow> (case i of ((name, labels, source), v) \<Rightarrow>
     valid_key GAUGE (name, labels) \<and> validate_source (PyStr source) = Inr source \<and> valid_number v)"

definition histogram_ok :: "metric_key \<times> pyval list \<Rightarrow> bool" where
  "histogram_ok i \<longleftrightarrow>
     valid_key HISTOGRAM (fst i) \<and> list_all valid_number (snd i) \<and> length (snd i) \<le> MAX_HISTOGRAM_OBSERVATIONS"

lemma map_validate_numbers: "map_result validate_number vs = Inr ws \<longleftrightarrow> ws = vs \<and> list_all valid_number vs"
  by (simp add: map_result_Inr_iff validate_number_Inr list_all2_conv_all_nth list_all_length) (auto simp: list_eq_iff_nth_eq)

lemma validate_metric_ok: "valid_key kind (n, ls) \<Longrightarrow> validate_metric (PyStr n) (map PyStr ls) kind = Inr (n, ls)"
  by (simp add: validate_metric_Inr)

lemma decode_counter:
  assumes "counter_ok i" "(fst i, None) \<notin> seen"
  shows "decode_record COUNTER (rs, seen) (counter_record i) = Inr (rs @ [counter_rec i], insert (fst i, None) seen)"
proof -
  obtain n ls v where i: "i = ((n, ls), v)" by (metis prod.collapse)
  have ok: "valid_key COUNTER (n, ls)" "validate_number v = Inr v"
    using assms(1) by (simp_all add: i counter_ok_def valid_number_def)
  show ?thesis
    using assms(2) ok(2)
    by (simp add: i counter_record_def decode_record_def field_def label_list_def decode_value_def counter_rec_def
        validate_metric_ok [OF ok(1)] insert_commute)
qed

lemma decode_gauge:
  assumes "gauge_ok ((n, ls, source), v)" "((n, ls), Some source) \<notin> seen"
  shows "decode_record GAUGE (rs, seen) (gauge_record ((n, ls, source), v))
       = Inr (rs @ [gauge_rec ((n, ls, source), v)], insert ((n, ls), Some source) seen)"
proof -
  have ok: "valid_key GAUGE (n, ls)" "validate_number v = Inr v" "validate_source (PyStr source) = Inr source"
    using assms(1) by (simp_all add: gauge_ok_def valid_number_def)
  show ?thesis
    using assms(2) ok(2,3)
    by (simp add: gauge_record_def decode_record_def field_def label_list_def decode_value_def gauge_rec_def
        validate_metric_ok [OF ok(1)] insert_commute)
qed

lemma decode_histogram:
  assumes "histogram_ok i" "(fst i, None) \<notin> seen"
  shows "decode_record HISTOGRAM (rs, seen) (histogram_record i) = Inr (rs @ [histogram_rec i], insert (fst i, None) seen)"
proof -
  obtain n ls vs where i: "i = ((n, ls), vs)" by (metis prod.collapse)
  have ok: "valid_key HISTOGRAM (n, ls)" "map_result validate_number vs = Inr vs" "length vs \<le> MAX_HISTOGRAM_OBSERVATIONS"
    using assms(1) by (simp_all add: i histogram_ok_def map_validate_numbers)
  show ?thesis
    using assms(2) ok(2,3)
    by (simp add: i histogram_record_def decode_record_def field_def label_list_def decode_value_def histogram_rec_def
        validate_metric_ok [OF ok(1)] insert_commute)
qed

lemma decode_items:
  assumes "\<And>i rs seen. i \<in> set items \<Longrightarrow> key i \<notin> seen \<Longrightarrow>
             decode_record kind (rs, seen) (enc i) = Inr (rs @ [rec i], insert (key i) seen)"
    and "distinct (map key items)" "key ` set items \<inter> seen = {}"
  shows "fold_result (decode_record kind) (rs, seen) (map enc items) = Inr (rs @ map rec items, seen \<union> key ` set items)"
  using assms
proof (induction items arbitrary: rs seen)
  case (Cons i items)
  then have "decode_record kind (rs, seen) (enc i) = Inr (rs @ [rec i], insert (key i) seen)" by simp
  moreover have "fold_result (decode_record kind) (rs @ [rec i], insert (key i) seen) (map enc items)
      = Inr ((rs @ [rec i]) @ map rec items, insert (key i) seen \<union> key ` set items)"
    using Cons.prems by (intro Cons.IH) auto
  ultimately show ?case by auto
qed simp

lemma as_list_payload [simp]:
  "field (metric_payload c g h) (kind_value COUNTER) = PyList c"
  "field (metric_payload c g h) (kind_value GAUGE) = PyList g"
  "field (metric_payload c g h) (kind_value HISTOGRAM) = PyList h"
  "field (metric_payload c g h) ''schema'' = PyStr METRIC_PAYLOAD_SCHEMA"
  "fst ` set (metric_payload c g h) = {''schema'', kind_value COUNTER, kind_value GAUGE, kind_value HISTOGRAM}"
  by (simp_all add: field_def metric_payload_def kind_value.simps)

text \<open>Encoding well-formed dictionaries and decoding them again.\<close>

lemma decode_payload:
  assumes "list_all counter_ok cs" "distinct (map fst cs)" "length cs \<le> MAX_METRIC_RECORDS"
    and "list_all gauge_ok gs" "distinct (map fst gs)" "length gs \<le> MAX_METRIC_RECORDS"
    and "list_all histogram_ok hs" "distinct (map fst hs)" "length hs \<le> MAX_METRIC_RECORDS"
  defines "p \<equiv> metric_payload (map counter_record cs) (map gauge_record gs) (map histogram_record hs)"
  shows "decode_records p COUNTER = Inr (map counter_rec cs)" "decode_records p GAUGE = Inr (map gauge_rec gs)"
    "decode_records p HISTOGRAM = Inr (map histogram_rec hs)" "validate_metric_payload (PyDict p) = Inr ()"
proof -
  let ?gk = "\<lambda>i :: (string \<times> string list \<times> string) \<times> pyval. (((fst (fst i), fst (snd (fst i))), Some (snd (snd (fst i)))) :: metric_key \<times> string option)"
  have "fold_result (decode_record COUNTER) ([], {}) (map counter_record cs)
      = Inr ([] @ map counter_rec cs, {} \<union> (\<lambda>i. (fst i, None)) ` set cs)"
    using assms(1,2) by (intro decode_items decode_counter) (auto simp: list_all_iff distinct_map inj_on_def)
  then show c: "decode_records p COUNTER = Inr (map counter_rec cs)"
    using assms(3) by (simp add: decode_records_def p_def)
  have "fold_result (decode_record GAUGE) ([], {}) (map gauge_record gs) = Inr ([] @ map gauge_rec gs, {} \<union> ?gk ` set gs)"
  proof (rule decode_items)
    show "decode_record GAUGE (rs, seen) (gauge_record i) = Inr (rs @ [gauge_rec i], insert (?gk i) seen)"
      if i: "i \<in> set gs" "?gk i \<notin> seen" for i rs seen
    proof -
      obtain n ls source v where "i = ((n, ls, source), v)" by (metis prod.collapse)
      then show ?thesis using i assms(4) decode_gauge [of n ls source v seen rs] by (auto simp: list_all_iff)
    qed
    have "distinct (map (\<lambda>k. ((fst k, fst (snd k)), Some (snd (snd k)))) (map fst gs))"
      using assms(5) by (subst distinct_map) (auto simp: inj_on_def)
    then show "distinct (map ?gk gs)" by (simp add: comp_def)
  qed simp
  then show g: "decode_records p GAUGE = Inr (map gauge_rec gs)"
    using assms(6) by (simp add: decode_records_def p_def)
  have "fold_result (decode_record HISTOGRAM) ([], {}) (map histogram_record hs)
      = Inr ([] @ map histogram_rec hs, {} \<union> (\<lambda>i. (fst i, None)) ` set hs)"
    using assms(7,8) by (intro decode_items decode_histogram) (auto simp: list_all_iff distinct_map inj_on_def)
  then show h: "decode_records p HISTOGRAM = Inr (map histogram_rec hs)"
    using assms(9) by (simp add: decode_records_def p_def)
  show "validate_metric_payload (PyDict p) = Inr ()"
    using c g h by (simp add: validate_metric_payload_def) (simp add: p_def)
qed

section \<open>The invariant of a buffer\<close>

definition vocabulary :: "metric_key list" where
  "vocabulary = concat (map (\<lambda>(name, d). map (Pair name) (md_allowed_labels d)) METRIC_DEFINITIONS)"

lemma vocabulary_size: "length vocabulary \<le> MAX_METRIC_RECORDS" "distinct (dict_keys METRIC_DEFINITIONS)"
  "list_all (\<lambda>(name, d). MetricDefinition d = Inr d) METRIC_DEFINITIONS"
  by code_simp+

lemma valid_key_vocabulary: "valid_key kind key \<Longrightarrow> key \<in> set vocabulary"
  by (cases key) (auto simp: valid_key_def vocabulary_def dest!: map_of_SomeD)

lemma keys_bounded:
  assumes "distinct (map fst items)" "list_all (\<lambda>i. valid_key kind (fst i)) items"
  shows "length items \<le> MAX_METRIC_RECORDS"
proof -
  have "set (map fst items) \<subseteq> set vocabulary"
    using assms(2) valid_key_vocabulary by (fastforce simp: list_all_iff)
  then have "card (set (map fst items)) \<le> card (set vocabulary)" by (intro card_mono) auto
  also have "\<dots> \<le> length vocabulary" by (rule card_length)
  also have "\<dots> \<le> MAX_METRIC_RECORDS" by (rule vocabulary_size)
  finally show ?thesis using distinct_card [OF assms(1)] by simp
qed

definition buffer_inv :: "telemetry_buffer \<Rightarrow> bool" where
  "buffer_inv b \<longleftrightarrow>
     validate_source (PyStr (tb_source b)) = Inr (tb_source b)
     \<and> list_all counter_ok (tb_counters b) \<and> distinct (map fst (tb_counters b))
     \<and> list_all (\<lambda>(key, v). valid_key GAUGE key \<and> valid_number v) (tb_gauges b) \<and> distinct (map fst (tb_gauges b))
     \<and> list_all histogram_ok (tb_histograms b) \<and> distinct (map fst (tb_histograms b))"

lemma list_all_items_set:
  assumes "list_all P d" "P (k, v)"
  shows "list_all P (dict_set k v d)"
  using assms by (induction d) auto

lemma buffer_init: "TelemetryBuffer source = Inr b \<Longrightarrow> buffer_inv b"
  by (auto simp: TelemetryBuffer_def buffer_inv_def and_then_Inr_iff validate_source_def split: option.splits if_splits)

lemma add_counter_Inr:
  assumes "add_counter key amount counters = Inr counters'"
  shows "\<exists>total. num_add (counter_total counters key) amount = Inr total \<and> valid_number total
    \<and> counters' = dict_set key total counters"
  using assms by (auto simp: add_counter_def and_then_Inr_iff validate_number_Inr)

lemma increment_inv:
  assumes "buffer_inv b" "increment name amount labels b = Inr b'"
  shows "buffer_inv b'"
proof -
  obtain key counters where key: "valid_key COUNTER key" and c: "add_counter key amount (tb_counters b) = Inr counters"
    and b': "b' = b\<lparr>tb_counters := counters\<rparr>"
    using assms(2) by (auto simp: increment_def and_then_Inr_iff validate_metric_Inr validate_number_Inr)
  obtain total where "valid_number total" "counters = dict_set key total (tb_counters b)"
    using add_counter_Inr [OF c] by blast
  then show ?thesis
    using assms(1) key by (auto simp: buffer_inv_def b' counter_ok_def intro!: list_all_items_set)
qed

lemma set_gauge_inv:
  assumes "buffer_inv b" "set_gauge name amount labels b = Inr b'"
  shows "buffer_inv b'"
  using assms
  by (auto simp: set_gauge_def and_then_Inr_iff validate_metric_Inr validate_number_Inr buffer_inv_def intro!: list_all_items_set)

lemma observed_ok: "list_all histogram_ok d \<Longrightarrow> list_all valid_number (observed d key) \<and> length (observed d key) \<le> MAX_HISTOGRAM_OBSERVATIONS"
  by (auto simp: observed_def histogram_ok_def list_all_iff split: option.splits dest!: map_of_SomeD)

lemma observe_inv:
  assumes "buffer_inv b"
  shows "buffer_inv (snd (observe name v labels b))"
proof (cases "and_then (validate_metric (PyStr name) (map PyStr labels) HISTOGRAM) (\<lambda>key.
             and_then (validate_number v) (\<lambda>v. Inr (key, v)))")
  case (Inl e)
  then show ?thesis using assms by (simp add: observe_def)
next
  case (Inr kv)
  obtain key w where kv: "kv = (key, w)" by (rule prod.exhaust)
  have ok: "valid_key HISTOGRAM key" "valid_number w"
    using Inr kv by (auto simp: and_then_Inr_iff validate_metric_Inr validate_number_Inr)
  let ?vs = "observed (tb_histograms b) key"
  have hs: "list_all histogram_ok (tb_histograms b)" using assms by (simp add: buffer_inv_def)
  let ?b = "b\<lparr>tb_histograms := dict_set key ?vs (tb_histograms b)\<rparr>"
  have touched: "buffer_inv ?b"
    using assms ok observed_ok [OF hs, of key] by (auto simp: buffer_inv_def histogram_ok_def intro!: list_all_items_set)
  show ?thesis
  proof (cases "MAX_HISTOGRAM_OBSERVATIONS \<le> length ?vs")
    case True
    then show ?thesis
      using Inr kv touched increment_inv [OF touched, of "fst DROPPED" "PyInt 1" "snd DROPPED"]
      by (auto simp: observe_def Let_def split: sum.splits)
  next
    case False
    then have "histogram_ok (key, ?vs @ [w])"
      using ok observed_ok [OF hs, of key] by (simp add: histogram_ok_def)
    then show ?thesis
      using Inr kv False assms by (auto simp: observe_def Let_def buffer_inv_def intro!: list_all_items_set)
  qed
qed

text \<open>The operations of a buffer as a sequence; an operation that raises leaves what it had changed.\<close>

datatype telemetry_op =
    Increment string pyval "string list"
  | SetGauge string pyval "string list"
  | Observe string pyval "string list"
  | Drain

definition kept :: "'s result \<Rightarrow> 's \<Rightarrow> 's" where
  "kept r s = (case r of Inl e \<Rightarrow> s | Inr s' \<Rightarrow> s')"

fun telemetry_step :: "telemetry_op \<Rightarrow> telemetry_buffer \<Rightarrow> telemetry_buffer" where
  "telemetry_step (Increment name v labels) b = kept (increment name v labels b) b"
| "telemetry_step (SetGauge name v labels) b = kept (set_gauge name v labels b) b"
| "telemetry_step (Observe name v labels) b = snd (observe name v labels b)"
| "telemetry_step Drain b = snd (drain b)"

lemma kept_inv: "P s \<Longrightarrow> (\<And>s'. r = Inr s' \<Longrightarrow> P s') \<Longrightarrow> P (kept r s)"
  by (cases r) (simp_all add: kept_def)

lemma telemetry_step_inv:
  assumes "buffer_inv b"
  shows "buffer_inv (telemetry_step op b)"
proof (cases op)
  case (Increment name v labels)
  show ?thesis unfolding Increment telemetry_step.simps by (rule kept_inv [of buffer_inv]) (auto intro: assms increment_inv)
next
  case (SetGauge name v labels)
  show ?thesis unfolding SetGauge telemetry_step.simps by (rule kept_inv [of buffer_inv]) (auto intro: assms set_gauge_inv)
next
  case (Observe name v labels)
  show ?thesis unfolding Observe telemetry_step.simps by (rule observe_inv [OF assms])
next
  case Drain
  show ?thesis using assms by (simp add: Drain drain_def buffer_inv_def)
qed

lemma telemetry_run_inv: "buffer_inv b \<Longrightarrow> buffer_inv (fold telemetry_step ops b)"
  by (induction ops arbitrary: b) (simp_all add: telemetry_step_inv)

lemma sorted_items_props [simp]:
  "set (sorted_items d) = set d" "length (sorted_items d) = length d"
  "distinct (map fst (sorted_items d)) \<longleftrightarrow> distinct (map fst d)" "list_all P (sorted_items d) \<longleftrightarrow> list_all P d"
proof -
  show s: "set (sorted_items d) = set d" "length (sorted_items d) = length d" by (simp_all add: sorted_items_def)
  show "distinct (map fst (sorted_items d)) \<longleftrightarrow> distinct (map fst d)" by (simp add: distinct_map sorted_items_def)
  show "list_all P (sorted_items d) \<longleftrightarrow> list_all P d" by (simp add: list_all_iff s)
qed

section \<open>Properties of buffers\<close>

text \<open>
  C26: Draining is lossless and always transportable: after any sequence of operations on a buffer,
  raising ones included, the drained payload passes validation and decodes to exactly the buffer's
  counters, its gauges tagged with its source and its histograms, each in key order; the drain
  resets counters and histograms and keeps gauges, and a second drain repeats only the gauges.
\<close>

theorem drained_payload_roundtrip:
  assumes "TelemetryBuffer source = Inr b0" and "b = fold telemetry_step ops b0" and "drain b = (payload, b')"
  shows "validate_metric_payload (PyDict payload) = Inr ()
    \<and> decode_records payload COUNTER = Inr (map counter_rec (sorted_items (tb_counters b)))
    \<and> decode_records payload GAUGE
        = Inr (map (\<lambda>((name, labels), v). gauge_rec ((name, labels, tb_source b), v)) (sorted_items (tb_gauges b)))
    \<and> decode_records payload HISTOGRAM = Inr (map histogram_rec (sorted_items (tb_histograms b)))
    \<and> b' = b\<lparr>tb_counters := [], tb_histograms := []\<rparr>"
proof -
  have inv: "buffer_inv b" using telemetry_run_inv [OF buffer_init [OF assms(1)]] assms(2) by simp
  let ?tag = "\<lambda>((name, labels), v). ((name, labels, tb_source b), v)"
  let ?gs = "map ?tag (sorted_items (tb_gauges b))"
  have bounds: "length (tb_counters b) \<le> MAX_METRIC_RECORDS" "length (tb_gauges b) \<le> MAX_METRIC_RECORDS"
    "length (tb_histograms b) \<le> MAX_METRIC_RECORDS"
    using inv keys_bounded [of "tb_counters b" COUNTER] keys_bounded [of "tb_gauges b" GAUGE]
      keys_bounded [of "tb_histograms b" HISTOGRAM]
    by (auto simp: buffer_inv_def counter_ok_def histogram_ok_def list_all_iff case_prod_unfold)
  have gauges: "list_all gauge_ok ?gs" "distinct (map fst ?gs)"
  proof -
    show "list_all gauge_ok ?gs" using inv by (auto simp: buffer_inv_def gauge_ok_def list_all_iff)
    have "distinct (map fst (sorted_items (tb_gauges b)))" using inv by (simp add: buffer_inv_def)
    then have "distinct (map (\<lambda>k. (fst k, snd k, tb_source b)) (map fst (sorted_items (tb_gauges b))))"
      by (subst distinct_map) (auto simp: inj_on_def)
    then show "distinct (map fst ?gs)" by (simp add: comp_def case_prod_unfold)
  qed
  have payload: "payload = metric_payload (map counter_record (sorted_items (tb_counters b))) (map gauge_record ?gs)
      (map histogram_record (sorted_items (tb_histograms b)))" and b': "b' = b\<lparr>tb_counters := [], tb_histograms := []\<rparr>"
    using assms(3) by (auto simp: drain_def case_prod_unfold comp_def)
  have "map gauge_rec ?gs = map (\<lambda>((name, labels), v). gauge_rec ((name, labels, tb_source b), v)) (sorted_items (tb_gauges b))"
    by (auto simp: case_prod_unfold)
  then show ?thesis
    using decode_payload [of "sorted_items (tb_counters b)" ?gs "sorted_items (tb_histograms b)"] inv bounds gauges b'
    by (simp add: payload buffer_inv_def)
qed

definition sample_ops :: "telemetry_op list" where
  "sample_ops = [Increment ''spoolcache_hit_tokens_total'' (PyInt 512) [], SetGauge ''spoolcache_ready_ranks'' (PyInt 2) [],
     Observe ''spoolcache_store_seconds'' (PyFloat (Finite (1 / 2))) [], Increment ''unknown'' (PyInt 1) []]"

theorem drained_payload_roundtrip_witness:
  "\<exists>b0 payload b'. TelemetryBuffer (PyStr ''rank:0'') = Inr b0 \<and> drain (fold telemetry_step sample_ops b0) = (payload, b')
     \<and> validate_metric_payload (PyDict payload) = Inr ()"
proof -
  obtain b0 where b0: "TelemetryBuffer (PyStr ''rank:0'') = Inr b0"
    by (simp add: TelemetryBuffer_def validate_source_def is_source_def code_points_def)
  obtain payload b' where d: "drain (fold telemetry_step sample_ops b0) = (payload, b')" by force
  from drained_payload_roundtrip [OF b0 refl d] b0 d show ?thesis by blast
qed

section \<open>Merging\<close>

definition int_value :: "pyval \<Rightarrow> int" where
  "int_value v = (case as_int v of None \<Rightarrow> 0 | Some n \<Rightarrow> n)"

definition record_key :: "metric_record \<Rightarrow> metric_key" where
  "record_key r = (mr_name r, mr_labels r)"

definition record_int :: "metric_record \<Rightarrow> int" where
  "record_int r = (case mr_value r of None \<Rightarrow> 0 | Some v \<Rightarrow> int_value v)"

text \<open>The total a payload carries for one counter, and the number of observations it carries.\<close>

definition counter_sum :: "(string, pyval) dict \<Rightarrow> metric_key \<Rightarrow> int" where
  "counter_sum p k = (case decode_records p COUNTER of Inl e \<Rightarrow> 0
     | Inr rs \<Rightarrow> sum_list (map (\<lambda>r. if record_key r = k then record_int r else 0) rs))"

definition observations :: "(string, pyval) dict \<Rightarrow> int" where
  "observations p = (case decode_records p HISTOGRAM of Inl e \<Rightarrow> 0
     | Inr rs \<Rightarrow> sum_list (map (\<lambda>r. int (length (mr_values r))) rs))"

definition integer_counters :: "(string, pyval) dict \<Rightarrow> bool" where
  "integer_counters p \<longleftrightarrow> (\<forall>rs. decode_records p COUNTER = Inr rs \<longrightarrow> (\<forall>r \<in> set rs. \<exists>n. mr_value r = Some (PyInt n)))"

fun record_ok :: "metric_kind \<Rightarrow> metric_record \<Rightarrow> bool" where
  "record_ok COUNTER r = (valid_key COUNTER (record_key r) \<and> (\<exists>v. mr_value r = Some v \<and> valid_number v))"
| "record_ok GAUGE r = (valid_key GAUGE (record_key r) \<and> (\<exists>v s. mr_value r = Some v \<and> valid_number v
     \<and> mr_source r = Some s \<and> validate_source (PyStr s) = Inr s))"
| "record_ok HISTOGRAM r = (valid_key HISTOGRAM (record_key r) \<and> list_all valid_number (mr_values r)
     \<and> length (mr_values r) \<le> MAX_HISTOGRAM_OBSERVATIONS)"

lemma validate_source_Inr: "validate_source v = Inr s \<longleftrightarrow> v = PyStr s \<and> validate_source (PyStr s) = Inr s"
  by (auto simp: validate_source_def split: option.splits if_splits)

lemma decode_record_ok:
  assumes "decode_record kind state v = Inr state'"
  shows "\<exists>r. fst state' = fst state @ [r] \<and> record_ok kind r"
proof -
  obtain raw labels key source r where key: "validate_metric (field raw ''name'') labels kind = Inr key"
    and src: "(if kind = GAUGE then and_then (validate_source (field raw ''source'')) (\<lambda>s. Inr (Some s)) else Inr None) = Inr source"
    and r: "decode_value kind raw key source = Inr r" and st: "fst state' = fst state @ [r]"
    using assms by (auto simp: decode_record_def and_then_Inr_iff split: option.splits if_splits)
  have k: "valid_key kind key" using key by (simp add: validate_metric_Inr)
  have "record_ok kind r"
  proof (cases kind)
    case HISTOGRAM
    then show ?thesis using r k
      by (auto simp: decode_value_def record_key_def and_then_Inr_iff map_validate_numbers split: option.splits if_splits)
  next
    case GAUGE
    then obtain s where "source = Some s" "validate_source (field raw ''source'') = Inr s"
      using src by (auto simp: and_then_Inr_iff)
    then show ?thesis using r k GAUGE validate_source_Inr [of "field raw ''source''" s]
      by (auto simp: decode_value_def record_key_def and_then_Inr_iff validate_number_Inr)
  next
    case COUNTER
    then show ?thesis using r k by (auto simp: decode_value_def record_key_def and_then_Inr_iff validate_number_Inr)
  qed
  then show ?thesis using st by blast
qed

lemma decode_fold_ok:
  "fold_result (decode_record kind) state vs = Inr state' \<Longrightarrow> list_all (record_ok kind) (fst state) \<Longrightarrow>
   list_all (record_ok kind) (fst state')"
proof (induction vs arbitrary: state)
  case (Cons v vs)
  then obtain state1 where s: "decode_record kind state v = Inr state1"
    and rest: "fold_result (decode_record kind) state1 vs = Inr state'"
    by (auto simp: and_then_Inr_iff)
  obtain r where "fst state1 = fst state @ [r]" "record_ok kind r" using decode_record_ok [OF s] by blast
  then show ?case using Cons.IH [OF rest] Cons.prems(2) by simp
qed simp

lemma decode_records_ok: "decode_records p kind = Inr rs \<Longrightarrow> list_all (record_ok kind) rs"
  using decode_fold_ok [of kind "([], {})"]
  by (fastforce simp: decode_records_def and_then_Inr_iff split: option.splits if_splits)

text \<open>The sum over the values of a dictionary after an update.\<close>

lemma sum_dict_set:
  fixes f :: "'v \<Rightarrow> int"
  assumes "distinct (map fst d)"
  shows "sum_list (map (\<lambda>i. f (snd i)) (dict_set k v d))
    = sum_list (map (\<lambda>i. f (snd i)) d) - (case dict_get d k of None \<Rightarrow> 0 | Some w \<Rightarrow> f w) + f v"
  using assms
proof (induction d)
  case (Cons i d)
  obtain a b where i: "i = (a, b)" by force
  show ?case
  proof (cases "a = k")
    case True
    then show ?thesis by (simp add: i)
  next
    case False
    then show ?thesis using Cons by (simp add: i)
  qed
qed simp

definition int_at :: "(metric_key, pyval) dict \<Rightarrow> metric_key \<Rightarrow> int" where
  "int_at d k = int_value (counter_total d k)"

definition hist_total :: "merge_state \<Rightarrow> int" where
  "hist_total m = sum_list (map (\<lambda>i. int (length (snd i))) (ms_histograms m))"

definition merge_inv :: "merge_state \<Rightarrow> bool" where
  "merge_inv m \<longleftrightarrow>
     list_all (\<lambda>i. counter_ok i \<and> as_int (snd i) \<noteq> None) (ms_counters m) \<and> distinct (map fst (ms_counters m))
     \<and> list_all gauge_ok (ms_gauges m) \<and> distinct (map fst (ms_gauges m))
     \<and> list_all histogram_ok (ms_histograms m) \<and> distinct (map fst (ms_histograms m)) \<and> 0 \<le> ms_overflow m"

lemma counter_total_int:
  "list_all (\<lambda>i. counter_ok i \<and> as_int (snd i) \<noteq> None) d \<Longrightarrow> \<exists>n. counter_total d k = PyInt n"
  by (auto simp: counter_total_def list_all_iff split: option.splits dest!: map_of_SomeD)

lemma add_counter_int:
  assumes "list_all (\<lambda>i. counter_ok i \<and> as_int (snd i) \<noteq> None) d" "distinct (map fst d)" "valid_key COUNTER k"
    and "add_counter k (PyInt n) d = Inr d'"
  shows "list_all (\<lambda>i. counter_ok i \<and> as_int (snd i) \<noteq> None) d'" "distinct (map fst d')"
    "int_at d' j = int_at d j + (if j = k then n else 0)"
proof -
  obtain t where t: "counter_total d k = PyInt t" using counter_total_int [OF assms(1)] by blast
  have d': "d' = dict_set k (PyInt (t + n)) d" and v: "valid_number (PyInt (t + n))"
    using add_counter_Inr [OF assms(4)] by (auto simp: t num_add_def)
  show "list_all (\<lambda>i. counter_ok i \<and> as_int (snd i) \<noteq> None) d'"
    unfolding d' using assms(1,3) v by (intro list_all_items_set) (auto simp: counter_ok_def)
  show "distinct (map fst d')" unfolding d' by (rule distinct_dict_set [OF assms(2)])
  show "int_at d' j = int_at d j + (if j = k then n else 0)"
    using t by (auto simp: int_at_def counter_total_def d' int_value_def split: option.splits)
qed

lemma merge_counters:
  assumes "merge_inv m" "list_all (record_ok COUNTER) rs" "\<forall>r \<in> set rs. \<exists>n. mr_value r = Some (PyInt n)"
    and "fold_result merge_counter m rs = Inr m'"
  shows "merge_inv m' \<and> hist_total m' = hist_total m \<and> ms_overflow m' = ms_overflow m
    \<and> (\<forall>k. int_at (ms_counters m') k = int_at (ms_counters m) k
             + sum_list (map (\<lambda>r. if record_key r = k then record_int r else 0) rs))"
  using assms
proof (induction rs arbitrary: m)
  case (Cons r rs)
  obtain n where n: "mr_value r = Some (PyInt n)" using Cons.prems(3) by auto
  obtain m1 where m1: "merge_counter m r = Inr m1" and fold: "fold_result merge_counter m1 rs = Inr m'"
    using Cons.prems(4) by (auto simp: and_then_Inr_iff)
  obtain c where c: "add_counter (record_key r) (PyInt n) (ms_counters m) = Inr c" and "m1 = m\<lparr>ms_counters := c\<rparr>"
    using m1 by (auto simp: merge_counter_def n record_key_def and_then_Inr_iff)
  then have rest: "fold_result merge_counter (m\<lparr>ms_counters := c\<rparr>) rs = Inr m'" using fold by simp
  have inv: "list_all (\<lambda>i. counter_ok i \<and> as_int (snd i) \<noteq> None) (ms_counters m)" "distinct (map fst (ms_counters m))"
    using Cons.prems(1) by (auto simp: merge_inv_def)
  have key: "valid_key COUNTER (record_key r)" using Cons.prems(2) by simp
  note add = add_counter_int [OF inv key c]
  have "merge_inv (m\<lparr>ms_counters := c\<rparr>)" using Cons.prems(1) add(1,2) by (simp add: merge_inv_def)
  from Cons.IH [OF this _ _ rest] show ?case
    using Cons.prems(2,3) add(3) n by (auto simp: hist_total_def record_int_def int_value_def)
qed simp

lemma merge_gauges:
  assumes "merge_inv m" "list_all (record_ok GAUGE) rs" "fold_result merge_gauge m rs = Inr m'"
  shows "merge_inv m' \<and> hist_total m' = hist_total m \<and> ms_overflow m' = ms_overflow m \<and> ms_counters m' = ms_counters m"
  using assms
proof (induction rs arbitrary: m)
  case (Cons r rs)
  obtain v s where v: "mr_value r = Some v" "mr_source r = Some s" "valid_number v" "validate_source (PyStr s) = Inr s"
    "valid_key GAUGE (mr_name r, mr_labels r)" using Cons.prems(2) by (auto simp: record_key_def)
  let ?m = "m\<lparr>ms_gauges := dict_set (mr_name r, mr_labels r, s) v (ms_gauges m)\<rparr>"
  have "merge_inv ?m"
    using Cons.prems(1) v by (auto simp: merge_inv_def gauge_ok_def intro!: list_all_items_set)
  moreover have "merge_gauge m r = Inr ?m" using v by (simp add: merge_gauge_def)
  then have "fold_result merge_gauge ?m rs = Inr m'" using Cons.prems(3) by simp
  ultimately show ?case using Cons.IH [of ?m] Cons.prems(2) by (auto simp: hist_total_def)
qed simp

lemma merge_histograms:
  assumes "merge_inv m" "list_all (record_ok HISTOGRAM) rs" "fold_result merge_histogram m rs = Inr m'"
  shows "merge_inv m' \<and> ms_counters m' = ms_counters m
    \<and> hist_total m' + ms_overflow m' = hist_total m + ms_overflow m + sum_list (map (\<lambda>r. int (length (mr_values r))) rs)"
  using assms
proof (induction rs arbitrary: m)
  case (Cons r rs)
  define key where "key = (mr_name r, mr_labels r)"
  define vs where "vs = observed (ms_histograms m) key"
  define new where "new = vs @ take (MAX_HISTOGRAM_OBSERVATIONS - length vs) (mr_values r)"
  define m1 where "m1 = m\<lparr>ms_histograms := dict_set key new (ms_histograms m),
    ms_overflow := ms_overflow m + max 0 (int (length (mr_values r)) - int (MAX_HISTOGRAM_OBSERVATIONS - length vs))\<rparr>"
  have step: "merge_histogram m r = Inr m1"
    by (simp add: merge_histogram_def Let_def m1_def new_def vs_def key_def)
  then have rest: "fold_result merge_histogram m1 rs = Inr m'" using Cons.prems(3) by simp
  have hs: "list_all histogram_ok (ms_histograms m)" "distinct (map fst (ms_histograms m))"
    using Cons.prems(1) by (auto simp: merge_inv_def)
  have vs: "list_all valid_number vs" "length vs \<le> MAX_HISTOGRAM_OBSERVATIONS"
    using observed_ok [OF hs(1), of key] by (auto simp: vs_def)
  have r: "valid_key HISTOGRAM key" "list_all valid_number (mr_values r)"
    using Cons.prems(2) by (auto simp: key_def record_key_def)
  have "histogram_ok (key, new)"
    using r vs by (auto simp: histogram_ok_def new_def list_all_iff dest: in_set_takeD)
  then have inv: "merge_inv m1"
    using Cons.prems(1) by (auto simp: merge_inv_def m1_def intro!: list_all_items_set)
  have "hist_total m1 = hist_total m - int (length vs) + int (length new)"
    using sum_dict_set [OF hs(2), of "\<lambda>vs. int (length vs)" key new]
    by (auto simp: hist_total_def m1_def vs_def observed_def split: option.splits)
  moreover have "int (length new) = int (length vs) + min (int (length (mr_values r))) (int (MAX_HISTOGRAM_OBSERVATIONS - length vs))"
    unfolding new_def length_append length_take by simp
  moreover have "ms_overflow m1 = ms_overflow m + max 0 (int (length (mr_values r)) - int (MAX_HISTOGRAM_OBSERVATIONS - length vs))"
    by (simp add: m1_def)
  ultimately have "hist_total m1 + ms_overflow m1 = hist_total m + ms_overflow m + int (length (mr_values r))" by linarith
  then show ?case using Cons.IH [OF inv _ rest] Cons.prems(2) by (simp add: m1_def)
qed simp

lemma merge_payload_Inr:
  assumes "merge_inv m" "integer_counters p" "merge_payload m p = Inr m'"
  shows "merge_inv m'" "int_at (ms_counters m') k = int_at (ms_counters m) k + counter_sum p k"
    "hist_total m' + ms_overflow m' = hist_total m + ms_overflow m + observations p"
proof -
  obtain cs gs hs m1 m2 where cs: "decode_records p COUNTER = Inr cs" "fold_result merge_counter m cs = Inr m1"
    and gs: "decode_records p GAUGE = Inr gs" "fold_result merge_gauge m1 gs = Inr m2"
    and hs: "decode_records p HISTOGRAM = Inr hs" "fold_result merge_histogram m2 hs = Inr m'"
    using assms(3) unfolding merge_payload_def and_then_Inr_iff by blast
  have ints: "\<forall>r \<in> set cs. \<exists>n. mr_value r = Some (PyInt n)" using assms(2) cs(1) by (simp add: integer_counters_def)
  note c = merge_counters [OF assms(1) decode_records_ok [OF cs(1)] ints cs(2)]
  note g = merge_gauges [OF conjunct1 [OF c] decode_records_ok [OF gs(1)] gs(2)]
  note h = merge_histograms [OF conjunct1 [OF g] decode_records_ok [OF hs(1)] hs(2)]
  show "merge_inv m'" using h by blast
  show "int_at (ms_counters m') k = int_at (ms_counters m) k + counter_sum p k"
    using c g h cs(1) by (simp add: counter_sum_def del: split_paired_All)
  show "hist_total m' + ms_overflow m' = hist_total m + ms_overflow m + observations p"
    using c g h hs(1) by (simp add: observations_def)
qed

lemma merge_payloads_Inr:
  assumes "merge_inv m" "\<forall>p \<in> set ps. integer_counters p" "fold_result merge_payload m ps = Inr m'"
  shows "merge_inv m' \<and> (\<forall>k. int_at (ms_counters m') k = int_at (ms_counters m) k + sum_list (map (\<lambda>p. counter_sum p k) ps))
    \<and> hist_total m' + ms_overflow m' = hist_total m + ms_overflow m + sum_list (map observations ps)"
  using assms
proof (induction ps arbitrary: m)
  case (Cons p ps)
  obtain m1 where m1: "merge_payload m p = Inr m1" and rest: "fold_result merge_payload m1 ps = Inr m'"
    using Cons.prems(3) by (auto simp: and_then_Inr_iff)
  have ip: "integer_counters p" using Cons.prems(2) by simp
  note one = merge_payload_Inr [OF Cons.prems(1) ip m1]
  from Cons.IH [OF one(1) _ rest] show ?case using Cons.prems(2) one(2,3) by simp
qed simp

lemma sum_sorted_items:
  fixes f :: "('k::linorder \<times> 'v) \<Rightarrow> int"
  shows "sum_list (map f (sorted_items d)) = sum_list (map f d)"
proof -
  have "mset (map f (sorted_items d)) = mset (map f d)" by (simp add: sorted_items_def)
  then show ?thesis by (metis sum_mset_sum_list)
qed

lemma sum_counter_items:
  assumes "distinct (map fst d)"
  shows "sum_list (map (\<lambda>i. if fst i = k then int_value (snd i) else 0) d) = int_at d k"
  using assms
proof (induction d)
  case Nil
  show ?case by (simp add: int_at_def counter_total_def int_value_def)
next
  case (Cons i d)
  obtain a b where i: "i = (a, b)" by (rule prod.exhaust)
  have "sum_list (map (\<lambda>i. if fst i = k then int_value (snd i) else 0) d) = 0" if "a = k"
  proof -
    have "\<forall>j \<in> set d. fst j \<noteq> k" using Cons.prems that by (force simp: i)
    then show ?thesis by (induction d) auto
  qed
  then show ?case using Cons by (auto simp: i int_at_def counter_total_def)
qed

lemma rec_simps: "record_key (counter_rec i) = fst i" "record_int (counter_rec i) = int_value (snd i)"
  by (simp_all add: record_key_def record_int_def counter_rec_def)

text \<open>What the payload built from a merge state carries.\<close>

lemma merged_payload_sums:
  assumes "merge_inv m" "length (ms_gauges m) \<le> MAX_METRIC_RECORDS"
  shows "validate_metric_payload (PyDict (merged_payload m)) = Inr ()"
    "counter_sum (merged_payload m) k = int_at (ms_counters m) k" "observations (merged_payload m) = hist_total m"
proof -
  let ?cs = "sorted_items (ms_counters m)" and ?gs = "sorted_items (ms_gauges m)" and ?hs = "sorted_items (ms_histograms m)"
  have inv: "list_all counter_ok (ms_counters m)" "distinct (map fst (ms_counters m))" "list_all gauge_ok (ms_gauges m)"
    "distinct (map fst (ms_gauges m))" "list_all histogram_ok (ms_histograms m)" "distinct (map fst (ms_histograms m))"
    using assms(1) by (auto simp: merge_inv_def list_all_iff)
  have "length (ms_counters m) \<le> MAX_METRIC_RECORDS" "length (ms_histograms m) \<le> MAX_METRIC_RECORDS"
    using inv keys_bounded [of "ms_counters m" COUNTER] keys_bounded [of "ms_histograms m" HISTOGRAM]
    by (auto simp: counter_ok_def histogram_ok_def list_all_iff)
  note dec = decode_payload [of ?cs ?gs ?hs, folded merged_payload_def]
  have d: "decode_records (merged_payload m) COUNTER = Inr (map counter_rec ?cs)"
    "decode_records (merged_payload m) HISTOGRAM = Inr (map histogram_rec ?hs)"
    and ok: "validate_metric_payload (PyDict (merged_payload m)) = Inr ()"
    using dec inv assms(2) \<open>length (ms_counters m) \<le> MAX_METRIC_RECORDS\<close> \<open>length (ms_histograms m) \<le> MAX_METRIC_RECORDS\<close>
    by simp_all
  show "validate_metric_payload (PyDict (merged_payload m)) = Inr ()" by (rule ok)
  have "counter_sum (merged_payload m) k = sum_list (map (\<lambda>i. if fst i = k then int_value (snd i) else 0) ?cs)"
    by (simp add: counter_sum_def d comp_def rec_simps cong: if_cong)
  then show "counter_sum (merged_payload m) k = int_at (ms_counters m) k"
    using sum_counter_items [OF inv(2)] by (simp add: sum_sorted_items)
  have "observations (merged_payload m) = sum_list (map (\<lambda>i. int (length (snd i))) ?hs)"
    by (simp add: observations_def d comp_def histogram_rec_def)
  then show "observations (merged_payload m) = hist_total m" by (simp add: sum_sorted_items hist_total_def)
qed

lemma dropped_key: "valid_key COUNTER DROPPED"
proof -
  have "validate_metric (PyStr (fst DROPPED)) (map PyStr (snd DROPPED)) COUNTER = Inr DROPPED" by code_simp
  then show ?thesis by (simp add: validate_metric_Inr)
qed

lemma valid_payload_gauges:
  assumes "validate_metric_payload (PyDict (merged_payload m)) = Inr ()"
  shows "length (ms_gauges m) \<le> MAX_METRIC_RECORDS"
proof -
  obtain rs where "decode_records (merged_payload m) GAUGE = Inr rs"
    using assms by (auto simp: validate_metric_payload_def and_then_Inr_iff split: if_splits)
  then show ?thesis by (auto simp: decode_records_def merged_payload_def split: if_splits)
qed

section \<open>Properties of merging\<close>

text \<open>
  C34: Merging conserves what its inputs carry.  When payloads with integer counters merge, the result
  is a valid payload, each of its counters is the sum of that counter over the inputs, and no
  histogram observation disappears silently: the observations of the inputs that the bounded result
  does not carry are exactly the amount added to the counter of dropped observations.
\<close>

theorem merge_conserves:
  assumes "merge_metric_payloads ps = Inr merged" and "\<forall>p \<in> set ps. integer_counters p"
  shows "validate_metric_payload (PyDict merged) = Inr ()
    \<and> observations merged \<le> sum_list (map observations ps)
    \<and> (\<forall>k. counter_sum merged k = sum_list (map (\<lambda>p. counter_sum p k) ps)
             + (if k = DROPPED then sum_list (map observations ps) - observations merged else 0))"
proof -
  let ?m0 = "\<lparr>ms_counters = [], ms_gauges = [], ms_histograms = [], ms_overflow = 0\<rparr>"
  obtain m1 m2 where m1: "fold_result merge_payload ?m0 ps = Inr m1"
    and m2: "(if ms_overflow m1 \<noteq> 0
               then and_then (add_counter DROPPED (PyInt (ms_overflow m1)) (ms_counters m1)) (\<lambda>c.
                      Inr (m1\<lparr>ms_counters := c\<rparr>))
               else Inr m1) = Inr m2"
    and val: "validate_metric_payload (PyDict (merged_payload m2)) = Inr ()" and merged: "merged = merged_payload m2"
    using assms(1) by (auto simp: merge_metric_payloads_def and_then_Inr_iff Let_def)
  have "merge_inv ?m0" by (simp add: merge_inv_def)
  from merge_payloads_Inr [OF this assms(2) m1]
  have inv1: "merge_inv m1" and c1: "int_at (ms_counters m1) k = sum_list (map (\<lambda>p. counter_sum p k) ps)"
    and h1: "hist_total m1 + ms_overflow m1 = sum_list (map observations ps)" for k
    by (simp_all add: int_at_def [of "[]"] counter_total_def int_value_def hist_total_def del: split_paired_All)
  have "merge_inv m2 \<and> hist_total m2 = hist_total m1
    \<and> (\<forall>k. int_at (ms_counters m2) k = int_at (ms_counters m1) k + (if k = DROPPED then ms_overflow m1 else 0))"
  proof (cases "ms_overflow m1 = 0")
    case False
    then obtain c where c: "add_counter DROPPED (PyInt (ms_overflow m1)) (ms_counters m1) = Inr c"
      and m2': "m2 = m1\<lparr>ms_counters := c\<rparr>" using m2 by (auto simp: and_then_Inr_iff)
    have "list_all (\<lambda>i. counter_ok i \<and> as_int (snd i) \<noteq> None) (ms_counters m1)" "distinct (map fst (ms_counters m1))"
      using inv1 by (auto simp: merge_inv_def)
    from add_counter_int [OF this dropped_key c] show ?thesis
      using inv1 by (simp add: m2' merge_inv_def hist_total_def)
  qed (use m2 inv1 in simp)
  moreover note merged_payload_sums [OF _ valid_payload_gauges [OF val]]
  moreover have "0 \<le> ms_overflow m1" using inv1 by (simp add: merge_inv_def)
  ultimately have "observations merged = hist_total m1" "\<forall>k. counter_sum merged k = int_at (ms_counters m2) k"
    "\<forall>k. int_at (ms_counters m2) k = int_at (ms_counters m1) k + (if k = DROPPED then ms_overflow m1 else 0)" "0 \<le> ms_overflow m1"
    unfolding merged by (simp_all del: split_paired_All)
  then show ?thesis using val c1 h1 by (simp add: merged del: split_paired_All)
qed

definition sample_payload :: "(string, pyval) dict" where
  "sample_payload = metric_payload [counter_record ((''spoolcache_hit_tokens_total'', []), PyInt 5)] []
     [histogram_record ((''spoolcache_store_seconds'', []), [PyInt 1, PyInt 2])]"

lemma sample_merge:
  "merge_metric_payloads [sample_payload, sample_payload]
   = Inr (metric_payload [counter_record ((''spoolcache_hit_tokens_total'', []), PyInt 10)] []
       [histogram_record ((''spoolcache_store_seconds'', []), [PyInt 1, PyInt 2, PyInt 1, PyInt 2])])"
  by code_simp

theorem merge_conserves_witness:
  "counter_sum (metric_payload [counter_record ((''spoolcache_hit_tokens_total'', []), PyInt 10)] []
       [histogram_record ((''spoolcache_store_seconds'', []), [PyInt 1, PyInt 2, PyInt 1, PyInt 2])])
     (''spoolcache_hit_tokens_total'', []) = 10"
proof -
  have dec: "decode_records sample_payload COUNTER = Inr [counter_rec ((''spoolcache_hit_tokens_total'', []), PyInt 5)]"
    by code_simp
  then have ints: "\<forall>p \<in> set [sample_payload, sample_payload]. integer_counters p"
    by (simp add: integer_counters_def counter_rec_def)
  have "counter_sum sample_payload (''spoolcache_hit_tokens_total'', []) = 5"
    by (simp add: counter_sum_def dec record_key_def record_int_def int_value_def counter_rec_def)
  with merge_conserves [OF sample_merge ints] show ?thesis by (simp add: DROPPED_def)
qed


end
