(* ===== verification/Event_Journal.thy ===== *)
theory Event_Journal
  imports State_Files Telemetry
begin

text \<open>
  \<open>event_journal.py\<close>: the counters a worker persists before it terminates itself.  The journal is the
  file system extended with the totals in memory; \<open>_write\<close> replaces the journal file atomically
  (\<open>replace_with\<close>), and \<open>increment\<close> rolls the total back when that fails.  The theorem says that no
  acknowledged increment is lost and none is invented over any crashes.
\<close>

section \<open>The journal\<close>

definition JOURNAL :: path where
  "JOURNAL = [''state'', ''spoolcache-events.json'']"

definition EVENT_JOURNAL_SCHEMA :: string where
  "EVENT_JOURNAL_SCHEMA = ''spoolcache-events/v1''"

definition MAX_EVENT_JOURNAL_BYTES :: int where
  "MAX_EVENT_JOURNAL_BYTES = 64 * 1024"

definition PERSISTENT_METRICS :: "string set" where
  "PERSISTENT_METRICS =
     {''spoolcache_post_admission_failure_total'', ''spoolcache_quarantined_entries_total'',
      ''spoolcache_scrub_shutdown_failures_total''}"

record journal = fs +
  j_totals :: "(metric_key, int) dict"

definition journal_metric_key :: "pyval \<Rightarrow> pyval list \<Rightarrow> metric_key result" where
  "journal_metric_key name labels =
     (case as_str name of
        None \<Rightarrow> Inl ValueError
      | Some n \<Rightarrow>
          if n \<notin> PERSISTENT_METRICS then Inl ValueError
          else (case dict_get METRIC_DEFINITIONS n of
                  None \<Rightarrow> Inl KeyError
                | Some d \<Rightarrow>
                    if md_kind d \<noteq> COUNTER then Inl ValueError
                    else
                      let materialized = map as_str labels in
                      if None \<in> set materialized \<or> map the materialized \<notin> set (md_allowed_labels d)
                      then Inl ValueError else Inr (n, map the materialized)))"

section \<open>Loading\<close>

text \<open>Read up to \<open>remaining\<close> bytes, stopping at the end of the file.\<close>

function read_available :: "nat \<Rightarrow> nat \<Rightarrow> nat \<Rightarrow> ('z fs_scheme, string) action" where
  "read_available i pos remaining =
     (if remaining = 0 then give []
      else seq (read_at i pos remaining) (\<lambda>chunk.
        if chunk = [] then give []
        else seq (read_available i (pos + length chunk) (remaining - length chunk)) (\<lambda>rest. give (chunk @ rest))))"
  by pat_completeness auto
termination by (relation "measure (\<lambda>(i, pos, remaining). remaining)") auto

declare read_available.simps [simp del]

definition load_record :: "(metric_key, int) dict \<Rightarrow> pyval \<Rightarrow> (metric_key, int) dict result" where
  "load_record totals raw =
     (case raw of
        PyDict d \<Rightarrow>
          if fst ` set d \<noteq> {''name'', ''labels'', ''value''} then Inl ValueError
          else (case as_list (field d ''labels'') of
                  None \<Rightarrow> Inl ValueError
                | Some labels \<Rightarrow>
                    and_then (journal_metric_key (field d ''name'') labels) (\<lambda>key.
                    case as_int (field d ''value'') of
                      None \<Rightarrow> Inl ValueError
                    | Some value \<Rightarrow>
                        if value < 0 \<or> MAX_METRIC_VALUE < value then Inl ValueError
                        else if dict_get totals key \<noteq> None then Inl ValueError
                        else Inr (dict_set key value totals)))
      | _ \<Rightarrow> Inl ValueError)"

definition load_payload :: "pyval \<Rightarrow> (metric_key, int) dict result" where
  "load_payload payload =
     (case payload of
        PyDict d \<Rightarrow>
          if fst ` set d \<noteq> {''schema'', ''totals''} \<or> dict_get d ''schema'' \<noteq> Some (PyStr EVENT_JOURNAL_SCHEMA)
          then Inl ValueError
          else (case as_list (field d ''totals'') of
                  None \<Rightarrow> Inl ValueError
                | Some raw \<Rightarrow> fold_result load_record [] raw)
      | _ \<Rightarrow> Inl ValueError)"

definition journal_load :: "platform \<Rightarrow> ('z fs_scheme, (metric_key, int) dict) action" where
  "journal_load E =
     seq (except os_error (seq (open_read JOURNAL) (\<lambda>n. give (Some n)))
            (\<lambda>e. if e = FileNotFoundError then give None else throw ValueError)) (\<lambda>opened.
     case opened of
       None \<Rightarrow> give []
     | Some (Regular i) \<Rightarrow>
         seq (fstat i) (\<lambda>metadata.
         let st_size = length (in_data metadata) in
         if st_size = 0 \<or> MAX_EVENT_JOURNAL_BYTES < int st_size then throw ValueError
         else
           seq (read_available i 0 st_size) (\<lambda>encoded.
           if length encoded \<noteq> st_size then throw ValueError
           else seq (lift (json_loads (pf_codec E) (pf_limit E) encoded)) (\<lambda>payload. lift (load_payload payload))))
     | Some _ \<Rightarrow> throw ValueError)"

definition cleanup_abandoned_temporaries :: "('z fs_scheme, nat) action" where
  "cleanup_abandoned_temporaries = cleanup_atomic_write_temporaries JOURNAL"

text \<open>The constructor: the state directory must be a real directory and the journal no link.\<close>

definition PersistentEventJournal :: "platform \<Rightarrow> (journal, unit) action" where
  "PersistentEventJournal E =
     seq (is_symlink (butlast JOURNAL)) (\<lambda>linked.
     if linked then throw ValueError
     else
       seq (except os_error (lstat (butlast JOURNAL)) (\<lambda>_. throw ValueError)) (\<lambda>metadata.
       if metadata \<noteq> Directory then throw ValueError
       else
         seq (is_symlink JOURNAL) (\<lambda>linked.
         if linked then throw ValueError
         else
           seq cleanup_abandoned_temporaries (\<lambda>_.
           seq (journal_load E) (\<lambda>totals.
           \<lambda>s. (Inr (), s\<lparr>j_totals := totals\<rparr>))))))"

section \<open>Writing\<close>

definition journal_payload :: "(metric_key, int) dict \<Rightarrow> pyval" where
  "journal_payload totals =
     PyDict [(''schema'', PyStr EVENT_JOURNAL_SCHEMA),
             (''totals'', PyList (map (\<lambda>(key, value). counter_record (key, PyInt value)) (sorted_items totals)))]"

definition journal_write :: "platform \<Rightarrow> (journal, unit) action" where
  "journal_write E s =
     seq (lift (canonical_json (pf_encoder E) (journal_payload (j_totals s)))) (\<lambda>t.
     let encoded = t @ [CHR 0x0A] in
     if MAX_EVENT_JOURNAL_BYTES < int (length encoded) then throw ValueError
     else replace_with JOURNAL encoded) s"

definition set_totals :: "(metric_key, int) dict \<Rightarrow> (journal, unit) action" where
  "set_totals t s = (Inr (), s\<lparr>j_totals := t\<rparr>)"

definition total_of :: "(metric_key, int) dict \<Rightarrow> metric_key \<Rightarrow> int" where
  "total_of t key = (case dict_get t key of None \<Rightarrow> 0 | Some n \<Rightarrow> n)"

definition journal_increment :: "platform \<Rightarrow> pyval \<Rightarrow> pyval list \<Rightarrow> pyval \<Rightarrow> (journal, unit) action" where
  "journal_increment E name labels amount s =
     (case journal_metric_key name labels of
        Inl e \<Rightarrow> (Inl e, s)
      | Inr key \<Rightarrow>
          (case as_int amount of
             None \<Rightarrow> (Inl ValueError, s)
           | Some n \<Rightarrow>
               let previous = total_of (j_totals s) key in
               if n \<le> 0 then (Inl ValueError, s)
               else if MAX_METRIC_VALUE - previous < n then (Inl ValueError, s)
               else
                 seq (set_totals (dict_set key (previous + n) (j_totals s))) (\<lambda>_.
                 except any_error (journal_write E) (\<lambda>e s.
                   seq (set_totals (if previous \<noteq> 0 then dict_set key previous (j_totals s)
                                    else dict_pop key (j_totals s))) (\<lambda>_. throw e) s)) s))"

definition totals :: "journal \<Rightarrow> (metric_key, int) dict" where
  "totals s = j_totals s"

section \<open>Reading back the journal\<close>

definition journal_key :: "metric_key \<Rightarrow> bool" where
  "journal_key key \<longleftrightarrow> journal_metric_key (PyStr (fst key)) (map PyStr (snd key)) = Inr key"

definition journal_ok :: "(metric_key, int) dict \<Rightarrow> bool" where
  "journal_ok t \<longleftrightarrow>
     distinct (dict_keys t) \<and> list_all (\<lambda>(key, n). journal_key key \<and> 0 \<le> n \<and> n \<le> MAX_METRIC_VALUE) t"

definition encode_journal :: "(metric_key, int) dict \<Rightarrow> string" where
  "encode_journal t = json_text (key_sorted (journal_payload t)) @ [CHR 0x0A]"

lemma map_as_str: "map as_str (map PyStr ls) = map Some ls"
  by simp

lemma journal_metric_key_Inr:
  assumes "journal_metric_key name labels = Inr key"
  shows "journal_key key"
proof -
  obtain n where n: "name = PyStr n" using assms by (auto simp: journal_metric_key_def split: option.splits)
  have none: "None \<notin> set (map as_str labels)"
    using assms by (auto simp: journal_metric_key_def Let_def split: option.splits if_splits)
  then have labels: "labels = map PyStr (map (the \<circ> as_str) labels)"
    by (induction labels) (auto, metis as_str_Some option.collapse)
  have key: "key = (n, map (the \<circ> as_str) labels)"
    using assms by (auto simp: n journal_metric_key_def Let_def split: option.splits if_splits)
  show ?thesis using assms labels by (simp add: journal_key_def key n)
qed

lemma journal_vocabulary_utf8:
  "\<forall>n \<in> PERSISTENT_METRICS. utf8 n \<and> (case dict_get METRIC_DEFINITIONS n of None \<Rightarrow> True
     | Some d \<Rightarrow> list_all (list_all utf8) (md_allowed_labels d))"
  by code_simp

lemma journal_key_utf8:
  assumes "journal_key key"
  shows "utf8 (fst key)" "list_all utf8 (snd key)"
proof -
  obtain d where d: "fst key \<in> PERSISTENT_METRICS" "dict_get METRIC_DEFINITIONS (fst key) = Some d" "snd key \<in> set (md_allowed_labels d)"
    using assms by (auto simp: journal_key_def journal_metric_key_def Let_def comp_def split: option.splits if_splits)
  show "utf8 (fst key)" "list_all utf8 (snd key)"
    using bspec [OF journal_vocabulary_utf8 d(1)] d(2,3) by (auto simp: list_all_iff)
qed

lemma utf8_names: "utf8 ''name''" "utf8 ''labels''" "utf8 ''value''" "utf8 ''schema''" "utf8 ''totals''" "utf8 EVENT_JOURNAL_SCHEMA"
  by (rule utf8_ascii; simp add: EVENT_JOURNAL_SCHEMA_def)+

lemma readable_journal:
  assumes "journal_ok t"
  shows "readable 4 (journal_payload t)"
proof -
  have rec: "readable 2 (counter_record (key, PyInt n))" if "(key, n) \<in> set t" for key n
  proof -
    have ok: "journal_key key" "0 \<le> n" "n \<le> MAX_METRIC_VALUE" using assms that by (auto simp: journal_ok_def list_all_iff)
    have "readable 1 (PyInt n)" using ok(2,3) by (intro readable_int63) (simp add: MAX_METRIC_VALUE_def)
    then show ?thesis
      using journal_key_utf8 [OF ok(1)] utf8_names
      by (cases key) (simp add: counter_record_def label_list_def list_all_iff)
  qed
  then have "list_all (readable 2) (map (\<lambda>(key, value). counter_record (key, PyInt value)) (sorted_items t))"
    by (auto simp: list_all_iff)
  then show ?thesis using utf8_names by (simp add: journal_payload_def numeral_eq_Suc)
qed

lemma load_records:
  assumes "list_all (\<lambda>(key, n). journal_key key \<and> 0 \<le> n \<and> n \<le> MAX_METRIC_VALUE) items"
    and "distinct (dict_keys (seen @ items))"
  shows "fold_result load_record seen (map key_sorted (map (\<lambda>(key, value). counter_record (key, PyInt value)) items)) = Inr (seen @ items)"
  using assms
proof (induction items arbitrary: seen)
  case (Cons p items)
  obtain name labels n where p: "p = ((name, labels), n)" by (metis prod.exhaust)
  have sorted: "key_sorted (counter_record ((name, labels), PyInt n))
      = PyDict [(''labels'', PyList (map PyStr labels)), (''name'', PyStr name), (''value'', PyInt n)]"
    by (simp add: counter_record_def label_list_def sort_key_def insort_key.simps comp_def)
  have fresh: "dict_get seen (name, labels) = None"
    using Cons.prems(2) by (auto simp: p map_of_eq_None_iff)
  have key: "journal_metric_key (PyStr name) (map PyStr labels) = Inr (name, labels)"
    using Cons.prems(1) by (simp add: p journal_key_def)
  have absent: "(name, labels) \<notin> set (dict_keys seen)" using Cons.prems(2) by (auto simp: p)
  have "load_record seen (key_sorted (counter_record ((name, labels), PyInt n))) = Inr (seen @ [p])"
    unfolding sorted using Cons.prems(1) fresh key update_absent [OF absent, of n]
    by (auto simp: load_record_def field_def p)
  then show ?case using Cons.IH [of "seen @ [p]"] Cons.prems by (simp add: p)
qed simp

lemma load_journal:
  assumes "journal_ok t"
  shows "load_payload (key_sorted (journal_payload t)) = Inr (sorted_items t)"
proof -
  have sorted: "key_sorted (journal_payload t) = PyDict [(''schema'', PyStr EVENT_JOURNAL_SCHEMA),
      (''totals'', PyList (map key_sorted (map (\<lambda>(key, value). counter_record (key, PyInt value)) (sorted_items t))))]"
    by (simp add: journal_payload_def sort_key_def insort_key.simps)
  have "fold_result load_record [] (map key_sorted (map (\<lambda>(key, value). counter_record (key, PyInt value)) (sorted_items t)))
      = Inr ([] @ sorted_items t)"
    by (rule load_records) (use assms in \<open>simp_all add: journal_ok_def\<close>)
  then show ?thesis unfolding sorted load_payload_def field_def by (simp del: map_map)
qed

lemma loads_journal:
  assumes "journal_ok t" and "4 \<le> pf_limit E"
  shows "json_loads (pf_codec E) (pf_limit E) (encode_journal t) = Inr (key_sorted (journal_payload t))"
  unfolding encode_journal_def
  by (rule loads_text [OF readable_key_sorted [OF readable_journal [OF assms(1)]] assms(2)]) simp

lemma map_of_sorted_items: "distinct (dict_keys t) \<Longrightarrow> dict_get (sorted_items t) = dict_get t"
  by (rule ext) (metis map_of_eq_Some_iff not_None_eq sorted_items_props(1,3))

lemma total_of_sorted: "distinct (dict_keys t) \<Longrightarrow> total_of (sorted_items t) key = total_of t key"
  using map_of_sorted_items [of t] by (simp add: total_of_def)

section \<open>No acknowledged event is lost\<close>

lemma JOURNAL_facts: "JOURNAL \<noteq> []" "butlast JOURNAL = [''state'']" "visible JOURNAL" "[''state''] \<notin> replaced JOURNAL"
  "JOURNAL \<notin> temporaries JOURNAL" "[''state''] \<notin> temporaries JOURNAL"
proof -
  show v: "visible JOURNAL" and n: "JOURNAL \<noteq> []" and "butlast JOURNAL = [''state'']"
    by (simp_all add: visible_def JOURNAL_def)
  show r: "[''state''] \<notin> replaced JOURNAL"
    by (rule not_replaced) (simp_all add: visible_def JOURNAL_def)
  then show "[''state''] \<notin> temporaries JOURNAL" by (simp add: replaced_def)
  show "JOURNAL \<notin> temporaries JOURNAL" by (rule target_not_temporary [OF v])
qed

text \<open>The journal contents between two bounds.\<close>

definition journal_between :: "(metric_key \<Rightarrow> int) \<Rightarrow> (metric_key \<Rightarrow> int) \<Rightarrow> (metric_key, int) dict \<Rightarrow> bool" where
  "journal_between lo hi t \<longleftrightarrow> journal_ok t \<and> (\<forall>key. lo key \<le> total_of t key \<and> total_of t key \<le> hi key)"

definition journal_states :: "(metric_key \<Rightarrow> int) \<Rightarrow> (metric_key \<Rightarrow> int) \<Rightarrow> string option set" where
  "journal_states lo hi =
     {Some (encode_journal t) | t. journal_between lo hi t \<and> int (length (encode_journal t)) \<le> MAX_EVENT_JOURNAL_BYTES}
     \<union> (if \<forall>key. lo key \<le> 0 \<and> 0 \<le> hi key then {None} else {})"

lemma journal_states_mono:
  "(\<And>key. lo' key \<le> lo key) \<Longrightarrow> (\<And>key. hi key \<le> hi' key) \<Longrightarrow> journal_states lo hi \<subseteq> journal_states lo' hi'"
proof -
  assume lo: "\<And>key. lo' key \<le> lo key" and hi: "\<And>key. hi key \<le> hi' key"
  have b: "journal_between lo' hi' t" if "journal_between lo hi t" for t
    using that lo hi order_trans unfolding journal_between_def by blast
  have n: "\<forall>key. lo' key \<le> 0 \<and> 0 \<le> hi' key" if "\<forall>key. lo key \<le> 0 \<and> 0 \<le> hi key"
    using that lo hi order_trans by blast
  show ?thesis using b n unfolding journal_states_def by auto
qed

lemma journal_ok_set:
  assumes "journal_ok t" and "journal_key key" and "0 \<le> n" and "n \<le> MAX_METRIC_VALUE"
  shows "journal_ok (dict_set key n t)"
  using assms unfolding journal_ok_def
  by (auto intro!: list_all_items_set)

lemma total_of_set: "total_of (dict_set key n t) k = (if k = key then n else total_of t k)"
  by (simp add: total_of_def)

lemma total_of_pop: "total_of (dict_pop key t) k = (if k = key then 0 else total_of t k)"
  by (simp add: total_of_def)

lemma frame_journal [simp]: "frame_of N k t (s\<lparr>j_totals := x\<rparr>) = frame_of N k t s" "wf_fs (s\<lparr>j_totals := x\<rparr>) = wf_fs s"
  "on_disk (s\<lparr>j_totals := x\<rparr>) p V = on_disk s p V" "anchored (s\<lparr>j_totals := x\<rparr>) d = anchored s d"
  using binding_in_same [of "s\<lparr>j_totals := x\<rparr>" s] by (simp_all add: frame_of_def wf_fs_def on_disk_def anchored_def)

lemma read_available_Inr:
  assumes "read_available i pos n s = (Inr bytes, s')"
  shows "same_disk s s' \<and> (length bytes = n \<longrightarrow> bytes = take n (drop pos (in_data (inodes s ! i))))"
  using assms
proof (induction i pos n arbitrary: s bytes rule: read_available.induct)
  case (1 i pos n)
  show ?case
  proof (cases "n = 0")
    case True
    then show ?thesis using "1.prems" by (simp add: read_available.simps [of i pos 0])
  next
    case False
    obtain chunk s1 where c: "read_at i pos n s = (Inr chunk, s1)"
        and rest: "(if chunk = [] then give [] else seq (read_available i (pos + length chunk) (n - length chunk)) (\<lambda>rest. give (chunk @ rest))) s1 = (Inr bytes, s')"
      using "1.prems" False unfolding read_available.simps [of i pos n] by (auto simp: seq_Inr)
    obtain m where m: "chunk = take m (drop pos (in_data (inodes s ! i)))" "m \<le> n" using read_at_Inr(2) [OF c] by blast
    note s1 = read_at_Inr(1) [OF c]
    show ?thesis
    proof (cases "chunk = []")
      case True
      then show ?thesis using rest s1 False by auto
    next
      case ne: False
      obtain tail where t: "read_available i (pos + length chunk) (n - length chunk) s1 = (Inr tail, s')" "bytes = chunk @ tail"
        using rest ne by (auto simp: seq_Inr)
      note ih = "1.IH" [OF False ne t(1)]
      have len: "length chunk \<le> n" using m by simp
      have "bytes = take n (drop pos (in_data (inodes s ! i)))" if "length bytes = n"
      proof -
        have "tail = take (n - length chunk) (drop (pos + length chunk) (in_data (inodes s ! i)))"
          using ih that t(2) len s1 by (simp add: same_disk_def)
        moreover have "take (length chunk) (drop pos (in_data (inodes s ! i))) = chunk" unfolding m(1) by (simp add: min_def)
        then have "take n (drop pos (in_data (inodes s ! i))) = chunk @ take (n - length chunk) (drop (length chunk) (drop pos (in_data (inodes s ! i))))"
          using len by (metis append_take_drop_id le_add_diff_inverse take_add)
        ultimately show ?thesis using t(2) by (simp add: add.commute)
      qed
      then show ?thesis using same_disk_trans [OF s1] ih by blast
    qed
  qed
qed

text \<open>The body of a load once the journal has been opened as a regular file.\<close>

definition load_inode :: "platform \<Rightarrow> nat \<Rightarrow> ('z fs_scheme, (metric_key, int) dict) action" where
  "load_inode E i =
     seq (fstat i) (\<lambda>metadata.
     let st_size = length (in_data metadata) in
     if st_size = 0 \<or> MAX_EVENT_JOURNAL_BYTES < int st_size then throw ValueError
     else
       seq (read_available i 0 st_size) (\<lambda>encoded.
       if length encoded \<noteq> st_size then throw ValueError
       else seq (lift (json_loads (pf_codec E) (pf_limit E) encoded)) (\<lambda>payload. lift (load_payload payload))))"

lemma load_inode_Inr:
  assumes "load_inode E i s = (Inr t, s')"
  shows "same_disk s s'" "and_then (json_loads (pf_codec E) (pf_limit E) (in_data (inodes s ! i))) load_payload = Inr t"
proof -
  obtain m s1 where m: "fstat i s = (Inr m, s1)"
      and rest: "(let st_size = length (in_data m) in
     if st_size = 0 \<or> MAX_EVENT_JOURNAL_BYTES < int st_size then throw ValueError
     else
       seq (read_available i 0 st_size) (\<lambda>encoded.
       if length encoded \<noteq> st_size then throw ValueError
       else seq (lift (json_loads (pf_codec E) (pf_limit E) encoded)) (\<lambda>payload. lift (load_payload payload)))) s1 = (Inr t, s')"
    using assms unfolding load_inode_def seq_Inr by blast
  have st: "m = inodes s ! i" "same_disk s s1"
    using m unfolding fstat_def by (cases rule: syscall_cases; auto simp: same_disk_def)+
  obtain bytes where b: "read_available i 0 (length (in_data m)) s1 = (Inr bytes, s')" "length bytes = length (in_data m)"
      and t: "and_then (json_loads (pf_codec E) (pf_limit E) bytes) load_payload = Inr t"
    using rest by (auto simp: Let_def seq_Inr split: if_splits)
  have "bytes = in_data (inodes s ! i)" "same_disk s s'"
    using read_available_Inr [OF b(1)] b(2) st same_disk_trans by (auto simp: same_disk_def)
  then show "same_disk s s'" "and_then (json_loads (pf_codec E) (pf_limit E) (in_data (inodes s ! i))) load_payload = Inr t"
    using t by blast+
qed

lemma journal_load_eq:
  "journal_load E =
     seq (except os_error (seq (open_read JOURNAL) (\<lambda>n. give (Some n)))
            (\<lambda>e. if e = FileNotFoundError then give None else throw ValueError)) (\<lambda>opened.
     case opened of None \<Rightarrow> give [] | Some (Regular i) \<Rightarrow> load_inode E i | Some _ \<Rightarrow> throw ValueError)"
  unfolding journal_load_def load_inode_def ..

lemma between_empty: "\<forall>key. lo key \<le> 0 \<and> 0 \<le> hi key \<Longrightarrow> journal_between lo hi []"
  by (simp add: journal_between_def journal_ok_def total_of_def)

lemma between_sorted: "journal_between lo hi t \<Longrightarrow> journal_between lo hi (sorted_items t)"
  by (simp add: journal_between_def journal_ok_def total_of_sorted)

lemma states_decode:
  assumes "Some x \<in> journal_states lo hi" and "4 \<le> pf_limit E"
  obtains t where "x = encode_journal t" "journal_between lo hi (sorted_items t)"
    "and_then (json_loads (pf_codec E) (pf_limit E) x) load_payload = Inr (sorted_items t)"
    "x \<noteq> []" "int (length x) \<le> MAX_EVENT_JOURNAL_BYTES"
proof -
  obtain t where t: "x = encode_journal t" "journal_between lo hi t" "int (length x) \<le> MAX_EVENT_JOURNAL_BYTES"
    using assms(1) by (auto simp: journal_states_def split: if_splits)
  then have ok: "journal_ok t" by (simp add: journal_between_def)
  show ?thesis
    using that [OF t(1) between_sorted [OF t(2)]] loads_journal [OF ok assms(2)] load_journal [OF ok] t
    by (simp add: encode_journal_def)
qed

lemma journal_load_Inr:
  assumes "journal_load E s = (Inr t, s')" and "on_disk s JOURNAL (journal_states lo hi)" and "4 \<le> pf_limit E"
  shows "same_disk s s'" "journal_between lo hi t"
proof -
  obtain b s1 where o: "except os_error (seq (open_read JOURNAL) (\<lambda>n. give (Some n)))
            (\<lambda>e. if e = FileNotFoundError then give None else throw ValueError) s = (Inr b, s1)"
      and rest: "(case b of None \<Rightarrow> give [] | Some (Regular i) \<Rightarrow> load_inode E i | Some _ \<Rightarrow> throw ValueError) s1 = (Inr t, s')"
    using assms(1) unfolding journal_load_eq seq_Inr by blast
  have b: "same_disk s s1 \<and> b = live_at s JOURNAL"
    using o
  proof (cases rule: except_cases)
    case pass
    then obtain n where "open_read JOURNAL s = (Inr n, s1)" "b = Some n" by (auto simp: seq_Inr)
    then show ?thesis using open_read_Inr(1) [of JOURNAL s "Inr n" s1] open_read_Inr(2) [of JOURNAL s "Inr n" s1 n] by simp
  next
    case (handle e s2)
    then have "open_read JOURNAL s = (Inl FileNotFoundError, s2)" "s2 = s1" "b = None"
      by (auto elim!: seq_cases split: if_splits)
    then show ?thesis using open_read_Inr(1,4) [of JOURNAL s "Inl FileNotFoundError" s2] by simp
  qed
  have "same_disk s s' \<and> journal_between lo hi t"
  proof (cases b)
    case None
    then have "None \<in> journal_states lo hi" using b assms(2) by (simp add: on_disk_def binding_in_def)
    then have "journal_between lo hi []" by (intro between_empty) (auto simp: journal_states_def split: if_splits)
    then show ?thesis using None rest b by simp
  next
    case (Some n)
    then obtain i where i: "n = Regular i" "load_inode E i s1 = (Inr t, s')" using rest by (cases n) auto
    have "live_at s JOURNAL = Some (Regular i)" "inodes s1 = inodes s" using b Some i(1) by (simp_all add: same_disk_def)
    then have "Some (in_data (inodes s1 ! i)) \<in> journal_states lo hi"
      using assms(2) by (simp add: on_disk_def binding_in_def)
    then obtain u where "journal_between lo hi (sorted_items u)"
        "and_then (json_loads (pf_codec E) (pf_limit E) (in_data (inodes s1 ! i))) load_payload = Inr (sorted_items u)"
      by (rule states_decode [OF _ assms(3)])
    then show ?thesis using load_inode_Inr [OF i(2)] same_disk_trans b by force
  qed
  then show "same_disk s s'" "journal_between lo hi t" by blast+
qed

section \<open>Histories of a journal\<close>

lemma keeps_abandoned [keeps_rules]: "keeps (temporaries JOURNAL) k cleanup_abandoned_temporaries"
  unfolding cleanup_abandoned_temporaries_def by (rule keeps_cleanup)

lemma keeps_journal_load [keeps_rules]: "keeps N k (journal_load E)"
proof -
  have read: "keeps N k (read_available i pos n)" for i pos n
  proof (induction i pos n rule: read_available.induct)
    case (1 i pos n)
    show ?case by (subst read_available.simps) (intro keeps_rules 1; simp)
  qed
  have inode: "keeps N k (load_inode E i)" for i
    unfolding load_inode_def Let_def by (intro keeps_rules read)
  have "keeps N k (case b of None \<Rightarrow> give [] | Some (Regular i) \<Rightarrow> load_inode E i | Some _ \<Rightarrow> throw ValueError)" for b
    by (auto split: option.splits node.splits intro!: keeps_rules inode)
  then show ?thesis unfolding journal_load_eq by (intro keeps_rules)
qed

lemma anchored_state_dir:
  assumes "frame_of N k s s'" and "[''state''] \<notin> N" and "anchored s [''state'']"
  shows "anchored s' [''state'']"
  by (rule anchored_frame [OF assms(1,3)]) (use assms(2) in \<open>auto simp: take_Cons' split: if_splits\<close>)

lemma journal_write_spec:
  assumes run: "journal_write E s = (r, s')" and wf: "wf_fs s" and dir: "anchored s [''state'']"
    and disk: "on_disk s JOURNAL V" and ok: "journal_ok (j_totals s)" and limit: "4 \<le> pf_limit E"
  shows "wf_fs s'" "anchored s' [''state'']" "j_totals s' = j_totals s"
    "on_disk s' JOURNAL (V \<union> {Some x | x. x = encode_journal (j_totals s) \<and> int (length x) \<le> MAX_EVENT_JOURNAL_BYTES})"
    "r = Inr u \<Longrightarrow> on_disk s' JOURNAL {Some (encode_journal (j_totals s))} \<and> int (length (encode_journal (j_totals s))) \<le> MAX_EVENT_JOURNAL_BYTES"
proof -
  define x where "x = encode_journal (j_totals s)"
  have eq: "journal_write E s = (if MAX_EVENT_JOURNAL_BYTES < int (length x) then throw ValueError else replace_with JOURNAL x) s"
    using canonical_json_readable [OF readable_journal [OF ok], of "pf_encoder E"] limit
    by (simp add: journal_write_def lift_def seq_def x_def encode_journal_def Let_def)
  have "wf_fs s' \<and> anchored s' [''state''] \<and> j_totals s' = j_totals s
    \<and> on_disk s' JOURNAL (V \<union> {Some y | y. y = x \<and> int (length y) \<le> MAX_EVENT_JOURNAL_BYTES})
    \<and> (r = Inr u \<longrightarrow> on_disk s' JOURNAL {Some x} \<and> int (length x) \<le> MAX_EVENT_JOURNAL_BYTES)"
  proof (cases "MAX_EVENT_JOURNAL_BYTES < int (length x)")
    case True
    then show ?thesis using run eq wf dir on_disk_mono [OF disk] by auto
  next
    case False
    then have w: "replace_with JOURNAL x s = (r, s')" using run eq by simp
    note k = keepsD [OF keeps_replace_with w wf order_refl]
    have "fs.more s' = fs.more s" by (rule keeps_moreD [OF more_replace_with w])
    then have "j_totals s' = j_totals s" by (cases s; cases s') simp
    moreover have "insert (Some x) V = V \<union> {Some y | y. y = x \<and> int (length y) \<le> MAX_EVENT_JOURNAL_BYTES}"
      using False by auto
    ultimately show ?thesis
      using replace_with_spec [OF w wf JOURNAL_facts(1) disk, of u] k anchored_state_dir [OF k(2) JOURNAL_facts(4) dir] False by auto
  qed
  then show "wf_fs s'" "anchored s' [''state'']" "j_totals s' = j_totals s"
    "on_disk s' JOURNAL (V \<union> {Some x | x. x = encode_journal (j_totals s) \<and> int (length x) \<le> MAX_EVENT_JOURNAL_BYTES})"
    "r = Inr u \<Longrightarrow> on_disk s' JOURNAL {Some (encode_journal (j_totals s))} \<and> int (length (encode_journal (j_totals s))) \<le> MAX_EVENT_JOURNAL_BYTES"
    unfolding x_def [symmetric] by blast+
qed

text \<open>The totals after an increment, when its arguments are valid.\<close>

definition attempted :: "pyval \<Rightarrow> pyval list \<Rightarrow> pyval \<Rightarrow> (metric_key \<Rightarrow> int) \<Rightarrow> metric_key \<Rightarrow> int" where
  "attempted name labels amount f =
     (case (journal_metric_key name labels, as_int amount) of
        (Inr key, Some n) \<Rightarrow> if 0 < n then f(key := f key + n) else f
      | _ \<Rightarrow> f)"

lemma attempted_le: "f key \<le> attempted name labels amount f key"
  by (auto simp: attempted_def split: sum.splits option.splits)

lemma increment_cases:
  assumes "journal_increment E name labels amount s = (r, s')"
  obtains (rejected) x where "r = Inl x" "s' = s"
    | (written) key n r1 s1 where "journal_metric_key name labels = Inr key" "as_int amount = Some n" "0 < n"
        "n \<le> MAX_METRIC_VALUE - total_of (j_totals s) key"
        "journal_write E (s\<lparr>j_totals := dict_set key (total_of (j_totals s) key + n) (j_totals s)\<rparr>) = (r1, s1)"
        "r = r1" "\<And>u. r1 = Inr u \<Longrightarrow> s' = s1"
        "\<And>x. r1 = Inl x \<Longrightarrow> s' = s1\<lparr>j_totals := (if total_of (j_totals s) key \<noteq> 0 then dict_set key (total_of (j_totals s) key) (j_totals s1)
                                    else dict_pop key (j_totals s1))\<rparr>"
proof (cases "journal_metric_key name labels")
  case (Inl e)
  then show ?thesis using assms rejected by (auto simp: journal_increment_def)
next
  case key: (Inr key)
  show ?thesis
  proof (cases "as_int amount")
    case None
    then show ?thesis using assms key rejected by (auto simp: journal_increment_def)
  next
    case (Some n)
    define p where "p = total_of (j_totals s) key"
    define s0 where "s0 = s\<lparr>j_totals := dict_set key (p + n) (j_totals s)\<rparr>"
    show ?thesis
    proof (cases "n \<le> 0 \<or> MAX_METRIC_VALUE - p < n")
      case True
      then show ?thesis using assms key Some rejected by (auto simp: journal_increment_def p_def Let_def split: if_splits)
    next
      case False
      obtain r1 s1 where w: "journal_write E s0 = (r1, s1)" by (rule prod.exhaust)
      have "except any_error (journal_write E) (\<lambda>e s.
                   seq (set_totals (if p \<noteq> 0 then dict_set key p (j_totals s) else dict_pop key (j_totals s))) (\<lambda>_. throw e) s) s0 = (r, s')"
        using assms key Some False unfolding p_def s0_def by (simp add: journal_increment_def set_totals_def Let_def)
      then have "r = r1" "\<And>u. r1 = Inr u \<Longrightarrow> s' = s1"
        "\<And>x. r1 = Inl x \<Longrightarrow> s' = s1\<lparr>j_totals := (if p \<noteq> 0 then dict_set key p (j_totals s1) else dict_pop key (j_totals s1))\<rparr>"
        using w by (auto simp: except_def any_error_def seq_def set_totals_def split: sum.splits)
      then show ?thesis using written [OF key Some] False w unfolding p_def [symmetric] s0_def by auto
    qed
  qed
qed


lemma total_range: "journal_ok t \<Longrightarrow> 0 \<le> total_of t key \<and> total_of t key \<le> MAX_METRIC_VALUE"
proof -
  assume ok: "journal_ok t"
  have "0 \<le> n \<and> n \<le> MAX_METRIC_VALUE" if "dict_get t key = Some n" for n
    using ok map_of_SomeD [OF that] by (auto simp: journal_ok_def list_all_iff)
  then show ?thesis by (cases "dict_get t key") (auto simp: total_of_def MAX_METRIC_VALUE_def)
qed

lemma journal_ok_pop: "journal_ok t \<Longrightarrow> journal_ok (dict_pop key t)"
  unfolding journal_ok_def by (intro conjI) (simp, auto simp: list_all_iff AList.delete_eq)

lemma increment_spec:
  assumes run: "journal_increment E name labels amount s = (r, s')" and wf: "wf_fs s" and dir: "anchored s [''state'']"
    and disk: "on_disk s JOURNAL (journal_states lo hi)" and mem: "journal_between lo hi (j_totals s)"
    and limit: "4 \<le> pf_limit E"
  defines "hi' \<equiv> attempted name labels amount hi"
  shows "wf_fs s'" "anchored s' [''state'']"
    "r = Inr u \<Longrightarrow> on_disk s' JOURNAL (journal_states (attempted name labels amount lo) hi')
       \<and> journal_between (attempted name labels amount lo) hi' (j_totals s')"
    "r = Inl x \<Longrightarrow> on_disk s' JOURNAL (journal_states lo hi') \<and> journal_between lo hi' (j_totals s')
       \<and> (\<forall>key. total_of (j_totals s') key = total_of (j_totals s) key)"
proof -
  have wider: "journal_states lo hi \<subseteq> journal_states lo hi'" "\<And>t. journal_between lo hi t \<Longrightarrow> journal_between lo hi' t"
    using journal_states_mono [of lo lo hi hi'] attempted_le [of hi] order_trans unfolding hi'_def journal_between_def by blast+
  have "wf_fs s' \<and> anchored s' [''state'']
      \<and> (r = Inr u \<longrightarrow> on_disk s' JOURNAL (journal_states (attempted name labels amount lo) hi')
           \<and> journal_between (attempted name labels amount lo) hi' (j_totals s'))
      \<and> (r = Inl x \<longrightarrow> on_disk s' JOURNAL (journal_states lo hi') \<and> journal_between lo hi' (j_totals s')
           \<and> (\<forall>key. total_of (j_totals s') key = total_of (j_totals s) key))"
    using run
  proof (cases rule: increment_cases)
    case (rejected x)
    then show ?thesis using wf dir mem on_disk_mono [OF disk wider(1)] wider(2) by simp
  next
    case (written key n r1 s1)
    define p where "p = total_of (j_totals s) key"
    define t where "t = dict_set key (p + n) (j_totals s)"
    have ok: "journal_ok (j_totals s)" using mem by (simp add: journal_between_def)
    note key = journal_metric_key_Inr [OF written(1)]
    have p: "0 \<le> p" "p \<le> MAX_METRIC_VALUE" using total_range [OF ok] by (simp_all add: p_def)
    have okt: "journal_ok t" unfolding t_def using p written(3,4) by (intro journal_ok_set [OF ok key]) (simp_all add: p_def)
    have new: "attempted name labels amount f = f(key := f key + n)" for f using written(1,2,3) by (simp add: attempted_def)
    have bt: "journal_between (attempted name labels amount lo) hi' t"
      using mem okt unfolding journal_between_def hi'_def new by (auto simp: t_def total_of_set p_def)
    have bt': "journal_between lo hi' t"
      using bt attempted_le [of lo] order_trans unfolding journal_between_def by blast
    note w = journal_write_spec [OF written(5) [folded p_def, folded t_def], simplified, OF wf dir disk okt limit]
    have totals: "j_totals s1 = t" using w(3) by simp
    have "on_disk s1 JOURNAL (journal_states lo hi')"
      by (rule on_disk_mono [OF w(4)]) (use wider(1) bt' in \<open>auto simp: journal_states_def\<close>)
    moreover have "on_disk s1 JOURNAL (journal_states (attempted name labels amount lo) hi')" if "r1 = Inr ()"
      using w(5) [OF that] bt by (auto intro: on_disk_mono simp: journal_states_def)
    moreover have "journal_between lo hi' (j_totals s') \<and> (\<forall>k. total_of (j_totals s') k = total_of (j_totals s) k)" if e: "r1 = Inl x" for x
    proof -
      have eq: "total_of (j_totals s') k = total_of (j_totals s) k" for k
        using written(8) [OF e] totals by (auto simp: p_def t_def total_of_set total_of_pop)
      have "journal_ok (j_totals s')"
        using written(8) [OF e] totals journal_ok_set [OF okt key p] journal_ok_pop [OF okt] by (simp add: p_def [symmetric])
      then show ?thesis using wider(2) [OF mem] eq by (simp add: journal_between_def)
    qed
    ultimately show ?thesis
      using w(1,2) bt totals written(6,7,8) by (cases r1) auto
  qed
  then show "wf_fs s'" "anchored s' [''state'']"
    "r = Inr u \<Longrightarrow> on_disk s' JOURNAL (journal_states (attempted name labels amount lo) hi')
       \<and> journal_between (attempted name labels amount lo) hi' (j_totals s')"
    "r = Inl x \<Longrightarrow> on_disk s' JOURNAL (journal_states lo hi') \<and> journal_between lo hi' (j_totals s')
       \<and> (\<forall>key. total_of (j_totals s') key = total_of (j_totals s) key)"
    by blast+
qed


text \<open>
  A journal file over the life of a rank: \<open>lo\<close> counts the acknowledged increments, \<open>hi\<close> all attempted
  ones, \<open>up\<close> says whether a process has the journal open.  Opening and incrementing may fail at any
  system call; the process or the power may be lost at any point.
\<close>

inductive journal_history :: "platform \<Rightarrow> (metric_key \<Rightarrow> int) \<Rightarrow> (metric_key \<Rightarrow> int) \<Rightarrow> bool \<Rightarrow> journal \<Rightarrow> bool" for E where
  fresh: "journal_history E (\<lambda>_. 0) (\<lambda>_. 0) False s" if "wf_fs s" "anchored s [''state'']" "on_disk s JOURNAL {None}"
| opened: "journal_history E lo hi True s'" if "journal_history E lo hi up s" "PersistentEventJournal E s = (Inr (), s')"
| not_opened: "journal_history E lo hi False s'" if "journal_history E lo hi up s" "PersistentEventJournal E s = (Inl x, s')"
| acknowledged: "journal_history E (attempted name labels amount lo) (attempted name labels amount hi) True s'"
    if "journal_history E lo hi True s" "journal_increment E name labels amount s = (Inr (), s')"
| raised: "journal_history E lo (attempted name labels amount hi) True s'"
    if "journal_history E lo hi True s" "journal_increment E name labels amount s = (Inl x, s')"
| restart: "journal_history E lo hi False s'" if "journal_history E lo hi up s" "restarted s s'"
| other: "journal_history E lo hi up s'" if "journal_history E lo hi up s" "wf_fs s'"
    "frame_of N (length (inodes s)) s s'" "JOURNAL \<notin> N" "[''state''] \<notin> N" "j_totals s' = j_totals s"

lemma open_spec:
  assumes run: "PersistentEventJournal E s = (r, s')" and wf: "wf_fs s" and dir: "anchored s [''state'']"
    and disk: "on_disk s JOURNAL (journal_states lo hi)" and limit: "4 \<le> pf_limit E"
  shows "wf_fs s'" "anchored s' [''state'']" "on_disk s' JOURNAL (journal_states lo hi)"
    "r = Inr u \<Longrightarrow> journal_between lo hi (j_totals s')"
proof -
  have stored: "keeps N k (\<lambda>s. (Inr (), s\<lparr>j_totals := t\<rparr>))" for N k and t :: "(metric_key, int) dict"
    by (simp add: keeps_def)
  have "keeps (temporaries JOURNAL) (length (inodes s)) (PersistentEventJournal E)"
    unfolding PersistentEventJournal_def by (intro keeps_rules stored)
  note k = keepsD [OF this run wf order_refl]
  show "wf_fs s'" by (rule k(1))
  show "anchored s' [''state'']" by (rule anchored_state_dir [OF k(2) JOURNAL_facts(6) dir])
  show "on_disk s' JOURNAL (journal_states lo hi)" by (rule on_disk_frame [OF k(2) order_refl disk wf JOURNAL_facts(5)])
  assume r: "r = Inr u"
  define prefix :: "(journal, nat) action" where "prefix =
     seq (is_symlink (butlast JOURNAL)) (\<lambda>linked.
     if linked then throw ValueError
     else
       seq (except os_error (lstat (butlast JOURNAL)) (\<lambda>_. throw ValueError)) (\<lambda>metadata.
       if metadata \<noteq> Directory then throw ValueError
       else
         seq (is_symlink JOURNAL) (\<lambda>linked.
         if linked then throw ValueError else cleanup_abandoned_temporaries)))"
  obtain n s1 t s2 where pre: "prefix s = (Inr n, s1)" and load: "journal_load E s1 = (Inr t, s2)" and s': "s' = s2\<lparr>j_totals := t\<rparr>"
    using run unfolding r PersistentEventJournal_def prefix_def by (fastforce simp: seq_Inr split: if_splits)
  have "keeps (temporaries JOURNAL) (length (inodes s)) prefix"
    unfolding prefix_def by (intro keeps_rules)
  note k1 = keepsD [OF this pre wf order_refl]
  have "on_disk s1 JOURNAL (journal_states lo hi)" by (rule on_disk_frame [OF k1(2) order_refl disk wf JOURNAL_facts(5)])
  from journal_load_Inr(2) [OF load this limit] show "journal_between lo hi (j_totals s')" by (simp add: s')
qed

lemma journal_inv:
  assumes "journal_history E lo hi up s" and "4 \<le> pf_limit E"
  shows "wf_fs s \<and> anchored s [''state''] \<and> on_disk s JOURNAL (journal_states lo hi)
    \<and> (up \<longrightarrow> journal_between lo hi (j_totals s))"
  using assms(1)
proof induction
  case (fresh s)
  then show ?case by (auto intro: on_disk_mono simp: journal_states_def)
next
  case (opened lo hi up s s')
  then show ?case using open_spec [OF opened.hyps(2) _ _ _ assms(2)] by blast
next
  case (not_opened lo hi up s x s')
  then show ?case using open_spec [OF not_opened.hyps(2) _ _ _ assms(2)] by blast
next
  case (acknowledged lo hi s name labels amount s')
  then show ?case using increment_spec [OF acknowledged.hyps(2) _ _ _ _ assms(2)] by blast
next
  case (raised lo hi s name labels amount x s')
  then show ?case using increment_spec [OF raised.hyps(2) _ _ _ _ assms(2)] by blast
next
  case (restart lo hi up s s')
  then show ?case
    using wf_restarted [OF restart.hyps(2)] anchored_restarted [OF restart.hyps(2)] on_disk_restarted [OF restart.hyps(2), of JOURNAL] JOURNAL_facts(2) by simp
next
  case (other lo hi up s s' N)
  then show ?case
    using on_disk_frame [OF other.hyps(3) order_refl _ _ other.hyps(4)] anchored_state_dir [OF other.hyps(3,5)] by simp
qed

lemma read_available_ok:
  assumes "fault_free s" and "pos + n \<le> length (in_data (inodes s ! i))"
  shows "read_available i pos n s = (Inr (take n (drop pos (in_data (inodes s ! i)))), s)"
proof (cases "n = 0")
  case False
  have "read_at i pos n s = (Inr (take n (drop pos (in_data (inodes s ! i)))), s)"
    by (simp add: read_at_def fault_free_syscall [OF assms(1)])
  then show ?thesis using False assms(2)
    by (subst read_available.simps) (auto simp: read_available.simps [of _ _ 0])
qed (simp add: read_available.simps)

lemma journal_load_ok:
  assumes "fault_free s" and "on_disk s JOURNAL (journal_states lo hi)" and "4 \<le> pf_limit E" and "anchored s [''state'']"
  shows "\<exists>t. journal_load E s = (Inr t, s) \<and> journal_between lo hi t"
proof (cases "live_at s JOURNAL")
  case None
  then have "None \<in> journal_states lo hi" using assms(2) by (simp add: on_disk_def binding_in_def)
  then have "journal_between lo hi []" by (intro between_empty) (auto simp: journal_states_def split: if_splits)
  moreover have "missing s JOURNAL = FileNotFoundError"
    using anchored_is_dir [OF assms(4)] by (simp add: missing_def JOURNAL_facts(2) is_dir_def)
  then have "open_read JOURNAL s = (Inl FileNotFoundError, s)" using None by (simp add: open_read_def fault_free_syscall [OF assms(1)])
  ultimately show ?thesis by (simp add: journal_load_eq)
next
  case (Some n)
  then obtain i where n: "n = Regular i" "Some (in_data (inodes s ! i)) \<in> journal_states lo hi"
    using assms(2) by (cases n) (auto simp: on_disk_def binding_in_def)
  obtain t where t: "in_data (inodes s ! i) = encode_journal t" "journal_between lo hi (sorted_items t)"
      "and_then (json_loads (pf_codec E) (pf_limit E) (in_data (inodes s ! i))) load_payload = Inr (sorted_items t)"
      "in_data (inodes s ! i) \<noteq> []" "int (length (in_data (inodes s ! i))) \<le> MAX_EVENT_JOURNAL_BYTES"
    by (rule states_decode [OF n(2) assms(3)])
  have "open_read JOURNAL s = (Inr (Regular i), s)" using Some n by (simp add: open_read_def fault_free_syscall [OF assms(1)])
  moreover have "fstat i s = (Inr (inodes s ! i), s)" by (simp add: fstat_def fault_free_syscall [OF assms(1)])
  then have "load_inode E i s = (Inr (sorted_items t), s)"
    using read_available_ok [OF assms(1), of 0 "length (in_data (inodes s ! i))" i] t(3,4,5)
    by (cases "json_loads (pf_codec E) (pf_limit E) (in_data (inodes s ! i))") (auto simp: load_inode_def Let_def)
  ultimately show ?thesis using t(2) by (simp add: journal_load_eq)
qed


text \<open>
  C32: Crash events are counted exactly once as far as the caller can know.  In every history of a
  journal - opened and reopened, increments that return or raise, partial and failed system calls,
  lost processes and power cuts at any point - reloading it without further faults succeeds, and every
  counter lies between the sum of the acknowledged increments and the sum of the attempted ones: no
  acknowledged event is lost and none is invented.  The totals in memory satisfy the same bounds.
\<close>

theorem journal_counts_events:
  assumes "journal_history E lo hi up s" and "4 \<le> pf_limit E"
  shows "(fault_free s \<longrightarrow> (\<exists>t. journal_load E s = (Inr t, s) \<and> (\<forall>key. lo key \<le> total_of t key \<and> total_of t key \<le> hi key)))
    \<and> (up \<longrightarrow> (\<forall>key. lo key \<le> total_of (totals s) key \<and> total_of (totals s) key \<le> hi key))"
proof -
  note inv = journal_inv [OF assms]
  have "\<exists>t. journal_load E s = (Inr t, s) \<and> journal_between lo hi t" if "fault_free s"
    using journal_load_ok [OF that _ assms(2)] inv by blast
  then show ?thesis using inv unfolding journal_between_def totals_def by blast
qed

definition sample_journal :: journal where
  "sample_journal =
     \<lparr>live = [([''state''], Directory)], durable = [([''state''], Directory)], inodes = [],
      schedule = [Done, Done, Done, Done, Done, Done, Short 9, Done, Done, Done, Done, PowerLoss], power_off = False,
      uuids = [''0''], clock = [], j_totals = []\<rparr>"

definition journal_platform :: platform where
  "journal_platform = \<lparr>pf_sha = (\<lambda>s. s), pf_frepr = (\<lambda>_. []), pf_codec = (\<lambda>_. Inl ValueError), pf_limit = 100\<rparr>"

definition sample_event :: "(journal, unit) action" where
  "sample_event = journal_increment journal_platform (PyStr ''spoolcache_quarantined_entries_total'') [PyStr ''payload_size''] (PyInt 2)"

definition sample_opened_journal :: journal where
  "sample_opened_journal = snd (PersistentEventJournal journal_platform sample_journal)"

definition sample_counted :: journal where
  "sample_counted = snd (sample_event sample_opened_journal)"

definition sample_lost :: journal where
  "sample_lost = snd (sample_event sample_counted)"

lemma sample_results:
  "fst (PersistentEventJournal journal_platform sample_journal) = Inr ()"
  "fst (sample_event sample_opened_journal) = Inr ()"
  "fst (sample_event sample_counted) = Inl OSError"
  by code_simp+

theorem journal_counts_events_witness:
  "\<exists>(s :: journal) t. fault_free s \<and> journal_load journal_platform s = (Inr t, s)
     \<and> 2 \<le> total_of t (''spoolcache_quarantined_entries_total'', [''payload_size''])
     \<and> total_of t (''spoolcache_quarantined_entries_total'', [''payload_size'']) \<le> 4"
proof -
  define name labels amount key where n: "name = PyStr ''spoolcache_quarantined_entries_total''" "labels = [PyStr ''payload_size'']"
    "amount = PyInt 2" "key = (''spoolcache_quarantined_entries_total'', [''payload_size''])"
  define one where "one = attempted name labels amount (\<lambda>_. 0)"
  define two where "two = attempted name labels amount one"
  have key: "journal_metric_key name labels = Inr key" unfolding n by code_simp
  have counts: "one key = 2" "two key = 4" unfolding two_def one_def by (simp_all add: attempted_def key n(3))
  have m: "live_at sample_journal = [[''state''] \<mapsto> Directory]" "durable_at sample_journal = live_at sample_journal"
    by (simp_all add: sample_journal_def)
  have "journal_history journal_platform (\<lambda>_. 0) (\<lambda>_. 0) False sample_journal"
    by (rule journal_history.fresh; unfold wf_fs_def tree_def anchored_def on_disk_def m)
      (auto simp: sample_journal_def binding_in_def JOURNAL_def take_Cons' split: if_splits)
  then have "journal_history journal_platform (\<lambda>_. 0) (\<lambda>_. 0) True sample_opened_journal"
    by (rule journal_history.opened) (simp add: sample_opened_journal_def prod_eq_iff sample_results(1))
  then have "journal_history journal_platform one one True sample_counted" unfolding one_def
    by (rule journal_history.acknowledged) (use sample_results(2) in \<open>simp add: n sample_counted_def sample_event_def prod_eq_iff\<close>)
  then have "journal_history journal_platform one two True sample_lost" unfolding two_def
    by (rule journal_history.raised [where x = OSError])
      (use sample_results(3) in \<open>simp add: n sample_lost_def sample_event_def prod_eq_iff\<close>)
  then have s: "journal_history journal_platform one two False (sample_lost\<lparr>schedule := [], power_off := False\<rparr>)"
    by (rule journal_history.restart) (simp add: restarted_def process_restarted_def)
  have f: "fault_free (sample_lost\<lparr>schedule := [], power_off := False\<rparr>)" by (simp add: fault_free_def)
  have "4 \<le> pf_limit journal_platform" by (simp add: journal_platform_def)
  from journal_counts_events [OF s this] f obtain t where
      t: "journal_load journal_platform (sample_lost\<lparr>schedule := [], power_off := False\<rparr>) = (Inr t, sample_lost\<lparr>schedule := [], power_off := False\<rparr>)"
      "\<forall>key. one key \<le> total_of t key \<and> total_of t key \<le> two key" by blast
  have "2 \<le> total_of t key" "total_of t key \<le> 4" using spec [OF t(2), of key] counts by simp_all
  then show ?thesis unfolding n(4) using f t(1) by blast
qed

end
