(* ===== verification/Spec2Isabelle.thy ===== *)
theory Spec2Isabelle
  imports Config Admission Topology Quorum_Catalog Prefix Hma_Discovery Buffers Token_Guarantees Event_Journal
begin

text \<open>
  \<^bold>\<open>Verification of SpoolCache.\<close>

  SpoolCache (\<open>src/src/spoolcache\<close>) keeps the key/value pages of a language-model server on disk and
  restores them for a later request with the same prefix.  A worker per rank owns a root directory
  with one file per prefix chunk; it reports what it holds to the scheduler; the scheduler uses an
  entry only when every rank holds it.  A wrong answer anywhere would put another request's pages
  under a prefix, so every component is written to fail closed.

  \<^bold>\<open>Parts, theories and correspondence.\<close>
  \<^item> \<open>Prelude\<close>: exceptions as the datatype \<open>error\<close>, fallible code as \<open>error + 'a\<close>, Python values
    (\<open>pyval\<close>) where the code inspects types, insertion-ordered dictionaries, deques, \<open>heapq\<close> selection.
    \<open>Float_Division\<close>: Python's \<open>int / int\<close>.  \<open>Sha256\<close>: \<open>struct\<close>, hexadecimal, SHA-256 on words, and the
    locale \<open>hash_function\<close> for what callers rely on, interpreted on \<open>sha256\<close>.
  \<^item> \<open>Config\<close> (\<open>config.py\<close>, \<open>paths.py\<close>), \<open>Admission\<close> (\<open>admission.py\<close>), \<open>Topology\<close> (\<open>topology.py\<close>): accepted
    settings, bounded store work, the bijection of worker coordinates and ranks.
  \<^item> \<open>Identity\<close> (\<open>identity.py\<close>, ownership digest of \<open>topology.py\<close>) and \<open>Json\<close> (\<open>json.loads\<close>): canonical JSON is
    defined exactly within the digit and recursion limits, injective up to key order and read back
    exactly; equal digests mean equal identities.
  \<^item> \<open>Prefix\<close> (\<open>prefix.py\<close>): the chained prefix keys, against a reference definition, and what they bind.
  \<^item> \<open>Hma\<close>, \<open>Hma_Discovery\<close> (\<open>hma.py\<close>, \<open>manifest.py\<close>): page geometry, which pages a prefix needs, the coverage
    check of a snapshot, and discovery of a layout from the runtime: which evidence backs each policy
    and where every size comes from.
  \<^item> \<open>Quorum_Reporter\<close>, \<open>Quorum_Catalog\<close> (\<open>quorum.py\<close>): the reporter of a worker and the catalog of the
    scheduler as state transformers.  The locales \<open>inventory_source\<close> and \<open>inventory_latest\<close> are the contract
    between them, interpreted on the reporter; the catalog is proved correct for every run in which
    reports are lost, repeated or reordered and workers restart.
  \<^item> \<open>Buffers\<close> (\<open>buffers.py\<close>): the pool of staging slots as an interleaving of thread steps, refining an
    ownership contract.
  \<^item> \<open>Telemetry\<close> (\<open>telemetry.py\<close>) and \<open>Event_Journal\<close> (\<open>event_journal.py\<close>): bounded metrics, and counters that
    survive crashes.
  \<^item> \<open>Filesystem\<close>: the operating system below the storage code, a tree with hard links, \<open>fsync\<close>, short
    transfers, failing calls and power loss.  The environment is a \<open>schedule\<close> in the state, decided
    call by call; theorems hold for all schedules.  \<open>State_Files\<close>: the file helpers of \<open>rank_store.py\<close>
    with the atomic replacement of small files.
  \<^item> \<open>Rank_Store\<close>, \<open>Withdrawals\<close> (\<open>rank_store.py\<close>, \<open>leases.py\<close>): the lock, inventory epochs, key leases,
    withdrawal markers, quarantine, the managed root, ownership and closing.
  \<^item> \<open>Token_Format\<close>, \<open>Token_Files\<close>, \<open>Token_Store\<close> (\<open>token_files.py\<close>, \<open>TokenPageMover.validate_layout\<close>): the
    framed header, publication, authentication, chains, lookup, restore leases, streaming, inventory
    scans, eviction, capacity batches, recovery and opening.
  \<^item> \<open>Withdrawal_Fence\<close>, \<open>Withdrawal_Safety\<close>: the fence of a withdrawn key, all operations of a store as the
    datatype \<open>store_op\<close>, and that each maintains the fence.  \<open>Token_Reads\<close>, \<open>Token_Publish\<close>,
    \<open>Token_Guarantees\<close>: what an opened file and a hit contain, and atomic publication.

  \<^bold>\<open>How the code is modelled.\<close>
  Pure code is HOL functions into \<open>error + 'a\<close>.  Storage code is actions, functions from a state record
  to a result and the new state; \<open>seq\<close>, \<open>except\<close> and \<open>ensure\<close> are the sequencing, \<open>try/except\<close> and
  \<open>try/finally\<close> of the source.  Integers are unbounded, as in Python, with the bounds the code checks
  written out; SHA-256, lock offsets and header lengths work on words or explicit powers of two.
  An argument the source annotates with a type is given that HOL type; one it inspects at run time is
  a \<open>pyval\<close>.  A descriptor is the inode it was opened on and reads carry their position.

  \<^bold>\<open>Parameters.\<close>  The hash, the textual form of floats, the decoding of non-UTF-8 JSON text and the
  levels of containers the recursion limit leaves to \<open>json.loads\<close> and \<open>json.dumps\<close> are the record
  \<open>platform\<close> (or arguments: \<open>sha\<close> for the hash, a \<open>json_encoder\<close> for the textual form and the limit); vLLM's
  objects are arguments of discovery; metric hooks, receivers and fault hooks are callbacks that may
  fail with any exception.  Hypotheses on them are named in the theorems: a hash of 32 bytes, no
  collision on the two inputs compared, a header within the reader's recursion bound.

  \<^bold>\<open>Bounds and fuel.\<close>  \<open>chain_loop\<close> has one unit of fuel per chunk of the first file's span, and the
  theorem on lookups shows that more changes nothing; \<open>tree_bytes\<close> recurses to the depth of the longest
  name; reading and writing decimal integers is limited to 4300 digits as in the interpreter, and
  nesting beyond the recursion limit raises; \<open>recover_loop\<close> makes at most one turn per live name, each turn removing the names it has
  found; all other loops are structural or have a termination proof by a measure.

  \<^bold>\<open>What the lemmas show.\<close>  Per component: what every operation returns on every branch, the invariant
  of its state and that each operation keeps it, round trips of every encoding, equivalence with
  reference definitions.  Across components: an entry with quorum is held by every worker; a
  withdrawn file is never opened, found or offered again by any sequence of store operations (opening,
  closing, restores and streams included), activity on other names, faults, power losses and restarts
  short of a new publication of its key; an accepted file has the header this store writes for the
  requested key; publication is atomic and durable; a lookup that
  hits has a complete, linked and covering chain; epochs increase and journalled counters stay between
  acknowledged and attempted events over every crash.

  \<^bold>\<open>Not modelled.\<close>
  \<^item> \<open>vllm/connector.py\<close>, \<open>vllm/compat.py\<close>, \<open>vllm/prometheus.py\<close>: glue to interfaces of vLLM, Prometheus and
    \<open>inspect\<close>, whose behaviour is not in the repository.
  \<^item> \<open>gpu.py\<close> and the transfer part of \<open>token_mover.py\<close>: device memory, streams and events of Torch and CUDA.
  \<^item> \<open>token_scrub.py\<close> and \<open>maintenance.py\<close>: the resumable scrub and its rate-bounded scheduling thread,
    driven by wall-clock floats; the store operations they call are modelled.
  \<^item> \<open>vllm/config_json.py\<close>, \<open>fail_stop.py\<close>: rendering one JSON document from the environment, and a hard exit.
  \<^item> The checks of \<open>_prepare_root\<close> on the absolute path above the root; threads within one store beyond
    the staging pool (the store's lock is taken as an atomic section); access times and modes of files.
\<close>

end
